(* ===== verification/Prelude.thy ===== *)
theory Prelude
  imports Main "HOL-Library.Word" "HOL-Library.Multiset"
begin

text \<open>
  Shared vocabulary of the development: the machine integer types of the C++ sources, simulation
  time, the faults an operation can raise and the error monad the operations are written in,
  association lists for the hash maps of the sources, and generic lemmas on lists and words.

  A C++ \<open>ASSERT\<close> throws in OMNeT++ when the library is built with assertions, so a failed
  assertion is the fault \<open>AssertFailed\<close>.  A \<open>cRuntimeError\<close> is \<open>RuntimeError\<close>, an
  \<open>at()\<close> or index out of range is \<open>OutOfRange\<close>, following a null or end pointer, or one to
  a deleted object, is \<open>NullPointer\<close>, and a loop that never ends is \<open>Diverges\<close>.  \<open>OutOfFuel\<close> is not a
  fault of the code: it marks a model function that was given too small a recursion bound.
\<close>

section \<open>Machine types\<close>

type_synonym u8 = "8 word"
type_synonym u16 = "16 word"
type_synonym u32 = "32 word"
type_synonym u64 = "64 word"

text \<open>Simulation time counts ticks of the default scale, \<open>10\<^sup>-\<^sup>1\<^sup>2\<close> seconds.\<close>

type_synonym simtime = int

section \<open>Faults and the error monad\<close>

datatype fault = AssertFailed | RuntimeError | OutOfRange | NullPointer | Diverges | OutOfFuel

type_synonym 'a res = "fault + 'a"

named_theorems res_simps \<open>rewrite rules for computations that may fault\<close>

definition rbind :: "'a res \<Rightarrow> ('a \<Rightarrow> 'b res) \<Rightarrow> 'b res" where
  "rbind m f = (case m of Inl e \<Rightarrow> Inl e | Inr x \<Rightarrow> f x)"

definition assertion :: "bool \<Rightarrow> unit res" where
  "assertion b = (if b then Inr () else Inl AssertFailed)"

definition of_option :: "fault \<Rightarrow> 'a option \<Rightarrow> 'a res" where
  "of_option e x = (case x of None \<Rightarrow> Inl e | Some y \<Rightarrow> Inr y)"

definition is_ok :: "'a res \<Rightarrow> bool" where
  "is_ok r = (case r of Inl _ \<Rightarrow> False | Inr _ \<Rightarrow> True)"

lemma rbind_Inl [simp]: "rbind (Inl e) f = Inl e"
  by (simp add: rbind_def)

lemma rbind_Inr [simp]: "rbind (Inr x) f = f x"
  by (simp add: rbind_def)

lemma rbind_eq_Inr [res_simps]: "rbind m f = Inr y \<longleftrightarrow> (\<exists>x. m = Inr x \<and> f x = Inr y)"
  by (cases m) auto

lemma rbind_assoc: "rbind (rbind m f) g = rbind m (\<lambda>x. rbind (f x) g)"
  by (cases m) auto

lemma rbind_cong [fundef_cong]:
  "m = m' \<Longrightarrow> (\<And>x. m' = Inr x \<Longrightarrow> f x = f' x) \<Longrightarrow> rbind m f = rbind m' f'"
  by (cases m') auto

lemma assertion_True [simp]: "assertion True = Inr ()"
  by (simp add: assertion_def)

lemma assertion_False [simp]: "assertion False = Inl AssertFailed"
  by (simp add: assertion_def)

lemma assertion_eq_Inr [res_simps]: "assertion b = Inr u \<longleftrightarrow> b"
  by (simp add: assertion_def)

lemma assertion_holds: "b \<Longrightarrow> assertion b = Inr ()"
  by simp

lemma of_option_Some [simp]: "of_option e (Some x) = Inr x"
  by (simp add: of_option_def)

lemma of_option_None [simp]: "of_option e None = Inl e"
  by (simp add: of_option_def)

lemma of_option_eq_Inr [res_simps]: "of_option e x = Inr y \<longleftrightarrow> x = Some y"
  by (cases x) auto

lemma is_ok_iff: "is_ok r \<longleftrightarrow> (\<exists>x. r = Inr x)"
  by (cases r) (auto simp: is_ok_def)

section \<open>Hash maps as association lists\<close>

text \<open>
  An \<open>unordered_map\<close> is an association list with distinct keys.  \<open>al_put\<close> is
  \<open>m[k] = v\<close>, \<open>al_del\<close> is \<open>m.erase(k)\<close>, \<open>map_of\<close> is \<open>m.find(k)\<close> and the length is
  \<open>m.size()\<close>.
\<close>

fun al_put :: "'k \<Rightarrow> 'v \<Rightarrow> ('k \<times> 'v) list \<Rightarrow> ('k \<times> 'v) list" where
  "al_put k v [] = [(k, v)]"
| "al_put k v ((k', v') # m) = (if k' = k then (k, v) # m else (k', v') # al_put k v m)"

definition al_del :: "'k \<Rightarrow> ('k \<times> 'v) list \<Rightarrow> ('k \<times> 'v) list" where
  "al_del k m = filter (\<lambda>p. fst p \<noteq> k) m"

definition al_wf :: "('k \<times> 'v) list \<Rightarrow> bool" where
  "al_wf m = distinct (map fst m)"

lemma map_of_al_put [simp]: "map_of (al_put k v m) = (map_of m)(k \<mapsto> v)"
  by (induction m) (auto simp: fun_upd_twist)

lemma map_of_al_del [simp]: "map_of (al_del k m) = (map_of m)(k := None)"
  by (induction m) (auto simp: al_del_def)

lemma fst_al_put: "fst ` set (al_put k v m) = insert k (fst ` set m)"
  by (induction k v m rule: al_put.induct) (simp_all add: insert_commute)

lemma al_wf_put [simp]: "al_wf m \<Longrightarrow> al_wf (al_put k v m)"
  unfolding al_wf_def by (induction m) (auto simp: fst_al_put)

lemma al_wf_del [simp]: "al_wf m \<Longrightarrow> al_wf (al_del k m)"
  unfolding al_wf_def al_del_def by (simp add: distinct_map_filter)

lemma al_wf_Nil [simp]: "al_wf []"
  by (simp add: al_wf_def)

lemma al_put_new: "map_of m k = None \<Longrightarrow> al_put k v m = m @ [(k, v)]"
  by (induction m) (auto split: if_splits)

lemma al_del_absent: "map_of m k = None \<Longrightarrow> al_del k m = m"
  by (induction m) (auto simp: al_del_def split: if_splits)

lemma al_put_put: "al_put k v (al_put k w m) = al_put k v m"
  by (induction m) auto

lemma al_put_same: "map_of m k = Some v \<Longrightarrow> al_put k v m = m"
  by (induction m) (auto split: if_splits)

lemma al_del_put: "al_del k (al_put k v m) = al_del k m"
  by (induction m) (auto simp: al_del_def)

lemma al_wf_map_of: "al_wf m \<Longrightarrow> map_of m k = Some v \<longleftrightarrow> (k, v) \<in> set m"
  by (simp add: al_wf_def)

text \<open>The sum of a measure over a map, and how the updates change it.\<close>

definition al_sum :: "('v \<Rightarrow> 'a::comm_monoid_add) \<Rightarrow> ('k \<times> 'v) list \<Rightarrow> 'a" where
  "al_sum f m = sum_list (map (\<lambda>p. f (snd p)) m)"

lemma al_sum_Nil [simp]: "al_sum f [] = 0"
  by (simp add: al_sum_def)

lemma al_sum_case: "(\<Sum>(k, v) \<leftarrow> m. f v) = al_sum f m"
  by (simp add: al_sum_def case_prod_unfold)

lemma al_sum_put_new: "map_of m k = None \<Longrightarrow> al_sum f (al_put k v m) = al_sum f m + f v"
  by (simp add: al_put_new al_sum_def)

lemma al_sum_put:
  "map_of m k = Some v \<Longrightarrow> al_sum f (al_put k v' m) + f v = al_sum f m + f v'"
proof (induction m)
  case Nil
  then show ?case by simp
next
  case (Cons p m)
  obtain k' w where p: "p = (k', w)" by (cases p)
  show ?case
  proof (cases "k' = k")
    case True
    with Cons.prems p show ?thesis by (simp add: al_sum_def ac_simps)
  next
    case False
    with Cons p have "al_sum f (al_put k v' m) + f v = al_sum f m + f v'" by simp
    with False p show ?thesis by (simp add: al_sum_def add.assoc)
  qed
qed

lemma al_sum_del:
  "al_wf m \<Longrightarrow> map_of m k = Some v \<Longrightarrow> al_sum f (al_del k m) + f v = al_sum f m"
proof (induction m)
  case Nil
  then show ?case by simp
next
  case (Cons p m)
  obtain k' w where p: "p = (k', w)" by (cases p)
  show ?case
  proof (cases "k' = k")
    case True
    with Cons.prems p have "map_of m k = None" and w: "w = v"
      by (auto simp: al_wf_def map_of_eq_None_iff)
    then have "al_del k m = m" by (simp add: al_del_absent)
    moreover have "al_del k (p # m) = al_del k m" using p True by (simp add: al_del_def)
    ultimately show ?thesis using p True w by (simp add: al_sum_def ac_simps)
  next
    case False
    with Cons p have "al_sum f (al_del k m) + f v = al_sum f m" by (simp add: al_wf_def)
    with False p show ?thesis by (simp add: al_sum_def al_del_def add.assoc)
  qed
qed

lemma al_sum_ge: "map_of m k = Some v \<Longrightarrow> (f v :: nat) \<le> al_sum f m"
  by (induction m) (auto simp: al_sum_def split: if_splits)

section \<open>Words\<close>

lemma unat_min: "unat (min (a :: 'a::len word) b) = min (unat a) (unat b)"
  by (simp add: min_def word_le_nat_alt)

lemma unat_sub_less: "0 < k \<Longrightarrow> k \<le> n \<Longrightarrow> unat (n - k) < unat (n :: 'a::len word)"
proof -
  assume "0 < k" and "k \<le> n"
  then have "unat (n - k) = unat n - unat k" and "0 < unat k" and "unat k \<le> unat n"
    by (simp_all add: unat_sub word_le_nat_alt word_less_nat_alt)
  then show ?thesis by linarith
qed

lemma unat_ucast_u16_u32 [simp]: "unat (ucast (w :: u16) :: u32) = unat w"
  using unsigned_less [of w, where 'a = nat]
  by (simp add: unsigned_ucast_eq take_bit_nat_eq_self)

lemma unat_ucast_u32_u64 [simp]: "unat (ucast (w :: u32) :: u64) = unat w"
  using unsigned_less [of w, where 'a = nat]
  by (simp add: unsigned_ucast_eq take_bit_nat_eq_self)

end
