(* ===== verification/Containers.thy ===== *)
theory Containers
  imports Prelude
begin

text \<open>
  The ordered containers of the C++ standard library the sources use, over a comparison functor
  \<open>lt\<close>: \<open>std::set\<close> (\<open>sset_insert\<close>, \<open>sset_erase\<close>), \<open>std::priority_queue\<close>
  (\<open>pq_push\<close>, the head of the list is \<open>top()\<close>) and \<open>std::lower_bound\<close> /
  \<open>std::upper_bound\<close>, which return an index.  What the standard asks of a comparison functor,
  and what the containers give in return, is the locale \<open>strict_weak_order\<close>; every
  comparison functor of the sources interprets it.  The standard leaves open which of several
  equivalent elements of a priority queue is on top: the model takes the one pushed first.
\<close>

section \<open>Operations\<close>

fun sset_insert :: "('a \<Rightarrow> 'a \<Rightarrow> bool) \<Rightarrow> 'a \<Rightarrow> 'a list \<Rightarrow> bool \<times> 'a list" where
  "sset_insert lt x [] = (True, [x])"
| "sset_insert lt x (y # ys) =
     (if lt y x then (case sset_insert lt x ys of (b, zs) \<Rightarrow> (b, y # zs))
      else if lt x y then (True, x # y # ys)
      else (False, y # ys))"

fun sset_erase :: "('a \<Rightarrow> 'a \<Rightarrow> bool) \<Rightarrow> 'a \<Rightarrow> 'a list \<Rightarrow> nat \<times> 'a list" where
  "sset_erase lt x [] = (0, [])"
| "sset_erase lt x (y # ys) =
     (if lt y x then (case sset_erase lt x ys of (n, zs) \<Rightarrow> (n, y # zs))
      else if lt x y then (0, y # ys)
      else (1, ys))"

fun pq_push :: "('a \<Rightarrow> 'a \<Rightarrow> bool) \<Rightarrow> 'a \<Rightarrow> 'a list \<Rightarrow> 'a list" where
  "pq_push lt x [] = [x]"
| "pq_push lt x (y # ys) = (if lt y x then x # y # ys else y # pq_push lt x ys)"

definition lower_bound :: "('a \<Rightarrow> 'a \<Rightarrow> bool) \<Rightarrow> 'a list \<Rightarrow> 'a \<Rightarrow> nat" where
  "lower_bound lt xs x = length (takeWhile (\<lambda>y. lt y x) xs)"

definition upper_bound :: "('a \<Rightarrow> 'a \<Rightarrow> bool) \<Rightarrow> 'a list \<Rightarrow> 'a \<Rightarrow> nat" where
  "upper_bound lt xs x = length (takeWhile (\<lambda>y. \<not> lt x y) xs)"

section \<open>Facts that hold for any functor\<close>

lemma mset_pq_push [simp]: "mset (pq_push lt x xs) = add_mset x (mset xs)"
  by (induction xs) auto

lemma set_pq_push [simp]: "set (pq_push lt x xs) = insert x (set xs)"
  by (induction xs) auto

lemma pq_push_not_Nil [simp]: "pq_push lt x xs \<noteq> []"
  by (cases xs) auto

lemma sset_insert_mset:
  "sset_insert lt x xs = (True, ys) \<Longrightarrow> mset ys = add_mset x (mset xs)"
  by (induction xs arbitrary: ys) (auto split: if_splits prod.splits)

lemma sset_insert_False: "sset_insert lt x xs = (False, ys) \<Longrightarrow> ys = xs"
  by (induction xs arbitrary: ys) (auto split: if_splits prod.splits)

lemma sset_insert_not_Nil: "sset_insert lt x xs = (b, ys) \<Longrightarrow> ys \<noteq> []"
  by (cases xs) (auto split: if_splits prod.splits)

lemma sset_erase_le1: "fst (sset_erase lt x xs) \<le> 1"
  by (induction xs) (auto split: prod.splits)

lemma sset_erase_subset: "set (snd (sset_erase lt x xs)) \<subseteq> set xs"
  by (induction xs) (auto split: prod.splits)

lemma lower_bound_le: "lower_bound lt xs x \<le> length xs"
  by (simp add: lower_bound_def length_takeWhile_le)

lemma upper_bound_le: "upper_bound lt xs x \<le> length xs"
  by (simp add: upper_bound_def length_takeWhile_le)

lemma upper_bound_Nil [simp]: "upper_bound lt [] x = 0"
  by (simp add: upper_bound_def)

lemma lower_bound_Nil [simp]: "lower_bound lt [] x = 0"
  by (simp add: lower_bound_def)

text \<open>The containers look at the functor on their own elements only.\<close>

lemma sset_insert_cong:
  "(\<And>y. y \<in> set xs \<Longrightarrow> lt x y = lt' x y \<and> lt y x = lt' y x) \<Longrightarrow>
   sset_insert lt x xs = sset_insert lt' x xs"
  by (induction xs) auto

lemma sset_erase_cong:
  "(\<And>y. y \<in> set xs \<Longrightarrow> lt x y = lt' x y \<and> lt y x = lt' y x) \<Longrightarrow>
   sset_erase lt x xs = sset_erase lt' x xs"
  by (induction xs) auto

lemma sorted_wrt_cong:
  "(\<And>x y. x \<in> set xs \<Longrightarrow> y \<in> set xs \<Longrightarrow> lt x y = lt' x y) \<Longrightarrow>
   sorted_wrt lt xs = sorted_wrt lt' xs"
  by (induction xs) auto

section \<open>What the standard promises for a strict weak order\<close>

locale strict_weak_order =
  fixes lt :: "'a \<Rightarrow> 'a \<Rightarrow> bool"
  assumes lt_asym: "lt x y \<Longrightarrow> \<not> lt y x"
    and lt_cotrans: "lt x z \<Longrightarrow> lt x y \<or> lt y z"
begin

lemma lt_irrefl [simp]: "\<not> lt x x"
  using lt_asym by blast

lemma lt_trans: "lt x y \<Longrightarrow> lt y z \<Longrightarrow> lt x z"
  using lt_asym lt_cotrans by blast

lemma swo_insert:
  assumes "sorted_wrt lt xs" and "\<And>y. y \<in> set xs \<Longrightarrow> lt x y \<or> lt y x"
  shows "\<exists>ys. sset_insert lt x xs = (True, ys) \<and> sorted_wrt lt ys \<and> set ys = insert x (set xs)"
  using assms
proof (induction xs)
  case Nil
  then show ?case by simp
next
  case (Cons y xs)
  then obtain ys where ys: "sset_insert lt x xs = (True, ys)" "sorted_wrt lt ys"
      "set ys = insert x (set xs)"
    by auto
  show ?case
  proof (cases "lt y x")
    case True
    with ys Cons.prems(1) show ?thesis by auto
  next
    case False
    with Cons.prems(2) have "lt x y" by auto
    with False Cons.prems(1) lt_trans show ?thesis by auto
  qed
qed

lemma swo_insert_dup:
  assumes "sorted_wrt lt xs" and "y \<in> set xs" and "\<not> lt x y" and "\<not> lt y x"
  shows "sset_insert lt x xs = (False, xs)"
  using assms
proof (induction xs)
  case (Cons z xs)
  show ?case
  proof (cases "y = z")
    case True
    with Cons.prems show ?thesis by simp
  next
    case False
    with Cons.prems have "y \<in> set xs" and "lt z y" by auto
    with Cons.prems(4) lt_cotrans [of z y x] Cons.prems(3) have "lt z x" by blast
    with Cons \<open>y \<in> set xs\<close> show ?thesis by simp
  qed
qed simp

lemma swo_erase:
  assumes "sorted_wrt lt xs" and "x \<in> set xs"
  shows "sset_erase lt x xs = (1, remove1 x xs)"
  using assms
proof (induction xs)
  case (Cons y xs)
  show ?case
  proof (cases "x = y")
    case False
    with Cons.prems have "lt y x" by auto
    with False Cons show ?thesis by auto
  qed simp
qed simp

lemma swo_erase_absent:
  assumes "sorted_wrt lt xs" and "\<And>y. y \<in> set xs \<Longrightarrow> lt x y \<or> lt y x"
  shows "sset_erase lt x xs = (0, xs)"
  using assms by (induction xs) auto

lemma swo_remove1: "sorted_wrt lt xs \<Longrightarrow> sorted_wrt lt (remove1 x xs)"
  using set_remove1_subset by (induction xs) fastforce+

lemma swo_distinct: "sorted_wrt lt xs \<Longrightarrow> distinct xs"
  by (induction xs) auto

lemma swo_hd_least: "sorted_wrt lt xs \<Longrightarrow> y \<in> set xs \<Longrightarrow> \<not> lt y (hd xs)"
  by (cases xs) (auto dest: lt_asym)

text \<open>Priority queues: the top is an element no other element is ranked above.\<close>

lemma swo_push:
  "sorted_wrt (\<lambda>x y. \<not> lt x y) xs \<Longrightarrow> sorted_wrt (\<lambda>x y. \<not> lt x y) (pq_push lt z xs)"
proof (induction xs)
  case (Cons y xs)
  show ?case
  proof (cases "lt y z")
    case True
    have "\<not> lt z x" if "\<not> lt y x" for x
      using that True lt_cotrans [of y z x] lt_asym by blast
    with True Cons.prems lt_asym [of y z] show ?thesis by auto
  next
    case False
    with Cons show ?thesis by auto
  qed
qed simp

text \<open>The two binary searches on a sorted range.\<close>

lemma swo_lower_bound_mem:
  assumes "sorted_wrt lt xs" and "i < length xs"
  shows "lower_bound lt xs (xs ! i) = i"
  using assms
proof (induction xs arbitrary: i)
  case (Cons y xs)
  show ?case
  proof (cases i)
    case 0
    then show ?thesis by (simp add: lower_bound_def)
  next
    case (Suc j)
    with Cons.prems have "j < length xs" and "lt y (xs ! j)" by auto
    with Cons Suc show ?thesis by (simp add: lower_bound_def)
  qed
qed simp

lemma swo_upper_bound_take: "y \<in> set (take (upper_bound lt xs x) xs) \<Longrightarrow> \<not> lt x y"
  by (induction xs) (auto simp: upper_bound_def split: if_splits)

lemma swo_upper_bound_drop:
  "sorted_wrt lt xs \<Longrightarrow> y \<in> set (drop (upper_bound lt xs x) xs) \<Longrightarrow> lt x y"
proof (induction xs)
  case (Cons z xs)
  show ?case
  proof (cases "lt x z")
    case True
    with Cons.prems have "y = z \<or> lt z y" by (auto simp: upper_bound_def)
    then show ?thesis using True lt_trans [of x z y] by blast
  next
    case False
    with Cons show ?thesis by (simp add: upper_bound_def)
  qed
qed simp

lemma swo_insert_at_upper_bound:
  assumes "sorted_wrt lt xs" and "\<And>y. y \<in> set xs \<Longrightarrow> lt x y \<or> lt y x"
  defines "k \<equiv> upper_bound lt xs x"
  shows "sorted_wrt lt (take k xs @ x # drop k xs)"
proof -
  have "sorted_wrt lt (take k xs @ drop k xs)" using assms(1) by simp
  then have 1: "sorted_wrt lt (take k xs)" "sorted_wrt lt (drop k xs)"
    "\<forall>a \<in> set (take k xs). \<forall>b \<in> set (drop k xs). lt a b"
    unfolding sorted_wrt_append by auto
  have 2: "\<forall>y \<in> set (drop k xs). lt x y"
    using swo_upper_bound_drop [OF assms(1)] unfolding k_def by blast
  have 3: "\<forall>y \<in> set (take k xs). lt y x"
    using swo_upper_bound_take assms(2) in_set_takeD unfolding k_def by metis
  show ?thesis using 1 2 3 by (auto simp: sorted_wrt_append)
qed

end

text \<open>
  A functor that compares images under a key function into a linear order is a strict weak
  order, and total on elements with different keys; this is how the lexicographic functors of the
  sources are shown to be ones.
\<close>

locale keyed_order =
  fixes lt :: "'a \<Rightarrow> 'a \<Rightarrow> bool" and key :: "'a \<Rightarrow> 'k::linorder"
  assumes lt_key: "lt x y \<longleftrightarrow> key x < key y"

sublocale keyed_order \<subseteq> strict_weak_order lt
  by unfold_locales (auto simp: lt_key)

context keyed_order
begin

lemma lt_total: "key x \<noteq> key y \<Longrightarrow> lt x y \<or> lt y x"
  by (auto simp: lt_key)

text \<open>A smaller key is not placed behind a larger one.\<close>

lemma upper_bound_mono:
  "sorted_wrt lt xs \<Longrightarrow> \<not> lt y x \<Longrightarrow> upper_bound lt xs x \<le> upper_bound lt xs y"
proof (induction xs)
  case (Cons z xs)
  then show ?case by (auto simp: upper_bound_def lt_key)
qed simp

text \<open>An element of a sorted list belongs where it is.\<close>

lemma upper_bound_delete:
  assumes "sorted_wrt lt xs" and "k < length xs"
  shows "upper_bound lt (take k xs @ drop (Suc k) xs) (xs ! k) = k"
  using assms
proof (induction xs arbitrary: k)
  case (Cons z xs)
  show ?case
  proof (cases k)
    case 0
    with Cons.prems show ?thesis by (cases xs) (auto simp: upper_bound_def)
  next
    case (Suc j)
    with Cons.prems have "lt z (xs ! j)" and "j < length xs" by auto
    with Cons Suc lt_asym show ?thesis by (simp add: upper_bound_def)
  qed
qed simp

end

end
