(* ===== verification/HomaPkt.thy ===== *)
theory HomaPkt
  imports Containers "HOL-Library.Product_Lexorder"
begin

text \<open>
  Homa packets: \<open>transport/HomaPkt.msg\<close>, \<open>HomaPkt.h\<close> and \<open>HomaPkt.cc\<close>.  A packet is
  a value; the model has no packet pointers, since no packet is changed after it has been queued.
  The \<open>ownerTransport\<close> back pointer is left out.  \<open>creationTime\<close> and \<open>arrivalTime\<close> are
  the stamps every OMNeT++ message carries.  \<open>BadType\<close> stands for the integers that are no
  \<open>PktType\<close>, so that the \<open>default\<close> branches of the switches exist in the model.
\<close>

section \<open>Data\<close>

datatype pkt_type = REQUEST | GRANT | SCHED_DATA | UNSCHED_DATA | BadType int

record unsched_fields =
  uf_msgByteLen :: u32
  uf_msgCreationTime :: simtime
  uf_totalUnschedBytes :: u16
  uf_firstByte :: u32
  uf_lastByte :: u32
  uf_prioUnschedBytes :: "u32 list"

record grant_fields =
  gf_grantBytes :: u16
  gf_offset :: u32
  gf_schedPrio :: u16
  gf_sizeReqBytesPrio :: "u32 list"
  gf_sizeUnschedBytesPrio :: "u32 list"

record sched_data_fields =
  sf_firstByte :: u32
  sf_lastByte :: u32

record homa_pkt =
  pkt_srcAddr :: u32
  pkt_destAddr :: u32
  pkt_msgId :: u64
  pkt_priority :: u32
  pkt_type :: pkt_type
  pkt_isEcho :: bool
  pkt_unsched :: unsched_fields
  pkt_grant :: grant_fields
  pkt_sched :: sched_data_fields
  pkt_byteLength :: u32
  pkt_creationTime :: simtime
  pkt_arrivalTime :: simtime

definition empty_unsched :: unsched_fields where
  "empty_unsched = \<lparr>uf_msgByteLen = 0, uf_msgCreationTime = 0, uf_totalUnschedBytes = 0,
     uf_firstByte = 0, uf_lastByte = 0, uf_prioUnschedBytes = []\<rparr>"

definition empty_grant :: grant_fields where
  "empty_grant = \<lparr>gf_grantBytes = 0, gf_offset = 0, gf_schedPrio = 0,
     gf_sizeReqBytesPrio = [], gf_sizeUnschedBytesPrio = []\<rparr>"

text \<open>A freshly constructed packet: \<open>HomaPkt()\<close> has the default priority 1 of the message file.\<close>

definition new_pkt :: "simtime \<Rightarrow> pkt_type \<Rightarrow> homa_pkt" where
  "new_pkt now t = \<lparr>pkt_srcAddr = 0, pkt_destAddr = 0, pkt_msgId = 0, pkt_priority = 1,
     pkt_type = t, pkt_isEcho = False, pkt_unsched = empty_unsched, pkt_grant = empty_grant,
     pkt_sched = \<lparr>sf_firstByte = 0, sf_lastByte = 0\<rparr>, pkt_byteLength = 0,
     pkt_creationTime = now, pkt_arrivalTime = 0\<rparr>"

abbreviation ETHERNET_PREAMBLE_SIZE :: u32 where "ETHERNET_PREAMBLE_SIZE \<equiv> 8"
abbreviation ETHERNET_HDR_SIZE :: u32 where "ETHERNET_HDR_SIZE \<equiv> 14"
abbreviation MAX_ETHERNET_PAYLOAD_BYTES :: u32 where "MAX_ETHERNET_PAYLOAD_BYTES \<equiv> 1500"
abbreviation MIN_ETHERNET_PAYLOAD_BYTES :: u32 where "MIN_ETHERNET_PAYLOAD_BYTES \<equiv> 46"
abbreviation IP_HEADER_SIZE :: u32 where "IP_HEADER_SIZE \<equiv> 20"
abbreviation UDP_HEADER_SIZE :: u32 where "UDP_HEADER_SIZE \<equiv> 8"
abbreviation ETHERNET_CRC_SIZE :: u32 where "ETHERNET_CRC_SIZE \<equiv> 4"
abbreviation INTER_PKT_GAP :: u32 where "INTER_PKT_GAP \<equiv> 12"

section \<open>Operations\<close>

definition getFirstByte :: "homa_pkt \<Rightarrow> u32" where
  "getFirstByte p =
     (case pkt_type p of
        SCHED_DATA \<Rightarrow> sf_firstByte (pkt_sched p)
      | UNSCHED_DATA \<Rightarrow> uf_firstByte (pkt_unsched p)
      | REQUEST \<Rightarrow> uf_firstByte (pkt_unsched p)
      | _ \<Rightarrow> 0)"

definition headerSize :: "homa_pkt \<Rightarrow> u32" where
  "headerSize p = 8 +
     (case pkt_type p of
        REQUEST \<Rightarrow> (4 + 2 + 4 + 4) + 4 * 2
      | UNSCHED_DATA \<Rightarrow> (4 + 2 + 4 + 4) + 4 * 2
      | GRANT \<Rightarrow> 2 + 4 + 2 + of_nat (length (gf_sizeReqBytesPrio (pkt_grant p))) * 4 +
          of_nat (length (gf_sizeUnschedBytesPrio (pkt_grant p))) * 4
      | SCHED_DATA \<Rightarrow> 4 + 4
      | BadType _ \<Rightarrow> 0)"

definition getDataBytes :: "homa_pkt \<Rightarrow> u32 res" where
  "getDataBytes p =
     (case pkt_type p of
        REQUEST \<Rightarrow> Inr (uf_lastByte (pkt_unsched p) - uf_firstByte (pkt_unsched p) + 1)
      | UNSCHED_DATA \<Rightarrow> Inr (uf_lastByte (pkt_unsched p) - uf_firstByte (pkt_unsched p) + 1)
      | SCHED_DATA \<Rightarrow> Inr (sf_lastByte (pkt_sched p) - sf_firstByte (pkt_sched p) + 1)
      | GRANT \<Rightarrow> Inr 0
      | BadType _ \<Rightarrow> Inl RuntimeError)"

definition maxEthFrameSize :: u32 where
  "maxEthFrameSize = ETHERNET_PREAMBLE_SIZE + ETHERNET_HDR_SIZE + MAX_ETHERNET_PAYLOAD_BYTES +
     ETHERNET_CRC_SIZE + INTER_PKT_GAP"

definition maxDataInPkt :: "pkt_type \<Rightarrow> u32" where
  "maxDataInPkt t =
     MAX_ETHERNET_PAYLOAD_BYTES - IP_HEADER_SIZE - UDP_HEADER_SIZE - headerSize (new_pkt 0 t)"

definition getBytesOnWire :: "u32 \<Rightarrow> pkt_type \<Rightarrow> u32" where
  "getBytesOnWire numDataBytes t =
     (let homaPktHdrSize = headerSize (new_pkt 0 t);
          maxDataInHomaPkt =
            MAX_ETHERNET_PAYLOAD_BYTES - IP_HEADER_SIZE - UDP_HEADER_SIZE - homaPktHdrSize;
          numFullPkts = numDataBytes div maxDataInHomaPkt;
          bytesOnWire = numFullPkts * (MAX_ETHERNET_PAYLOAD_BYTES + ETHERNET_HDR_SIZE +
            ETHERNET_CRC_SIZE + ETHERNET_PREAMBLE_SIZE + INTER_PKT_GAP);
          numPartialBytes = numDataBytes - numFullPkts * maxDataInHomaPkt
      in if 0 < numFullPkts \<and> numPartialBytes = 0 then bytesOnWire
         else
           let partial = numPartialBytes + (homaPktHdrSize + IP_HEADER_SIZE + UDP_HEADER_SIZE);
               partial = (if partial < MIN_ETHERNET_PAYLOAD_BYTES
                          then MIN_ETHERNET_PAYLOAD_BYTES else partial)
           in bytesOnWire + (partial + ETHERNET_HDR_SIZE + ETHERNET_CRC_SIZE +
                ETHERNET_PREAMBLE_SIZE + INTER_PKT_GAP))"

definition pkt_gt :: "homa_pkt \<Rightarrow> homa_pkt \<Rightarrow> bool" where
  "pkt_gt lhs rhs \<longleftrightarrow>
     pkt_priority lhs > pkt_priority rhs \<or>
     (pkt_priority lhs = pkt_priority rhs \<and> pkt_arrivalTime lhs > pkt_arrivalTime rhs) \<or>
     (pkt_priority lhs = pkt_priority rhs \<and> pkt_arrivalTime lhs = pkt_arrivalTime rhs \<and>
      pkt_creationTime lhs > pkt_creationTime rhs) \<or>
     (pkt_priority lhs = pkt_priority rhs \<and> pkt_arrivalTime lhs = pkt_arrivalTime rhs \<and>
      pkt_creationTime lhs = pkt_creationTime rhs \<and> pkt_srcAddr lhs = pkt_srcAddr rhs \<and>
      pkt_msgId lhs > pkt_msgId rhs) \<or>
     (pkt_priority lhs = pkt_priority rhs \<and> pkt_arrivalTime lhs = pkt_arrivalTime rhs \<and>
      pkt_creationTime lhs = pkt_creationTime rhs \<and> pkt_srcAddr lhs = pkt_srcAddr rhs \<and>
      pkt_msgId lhs = pkt_msgId rhs \<and> getFirstByte lhs > getFirstByte rhs)"

text \<open>
  The packets of the network: a Homa packet or a packet of another layer, either possibly with an
  encapsulated packet.
\<close>

datatype cpacket = HomaPacket homa_pkt | OtherPacket "cpacket option"

fun searchEncapHomaPkt :: "cpacket \<Rightarrow> homa_pkt option" where
  "searchEncapHomaPkt (HomaPacket p) = Some p"
| "searchEncapHomaPkt (OtherPacket (Some q)) = searchEncapHomaPkt q"
| "searchEncapHomaPkt (OtherPacket None) = None"

definition comparePrios :: "cpacket \<Rightarrow> cpacket \<Rightarrow> int" where
  "comparePrios obj1 obj2 =
     (case searchEncapHomaPkt obj1 of
        None \<Rightarrow> (case searchEncapHomaPkt obj2 of None \<Rightarrow> 0 | Some _ \<Rightarrow> -1)
      | Some p1 \<Rightarrow>
          (case searchEncapHomaPkt obj2 of
             None \<Rightarrow> 1
           | Some p2 \<Rightarrow>
               if pkt_priority p1 < pkt_priority p2 then -1
               else if pkt_priority p1 > pkt_priority p2 then 1 else 0))"

definition compareSizeAndPrios :: "cpacket \<Rightarrow> cpacket \<Rightarrow> int" where
  "compareSizeAndPrios obj1 obj2 =
     (case searchEncapHomaPkt obj1 of
        None \<Rightarrow> (case searchEncapHomaPkt obj2 of None \<Rightarrow> 0 | Some _ \<Rightarrow> -1)
      | Some p1 \<Rightarrow>
          (case searchEncapHomaPkt obj2 of
             None \<Rightarrow> 1
           | Some p2 \<Rightarrow>
               if pkt_type p1 \<noteq> UNSCHED_DATA \<or> pkt_type p2 \<noteq> UNSCHED_DATA then -1
               else
                 let prio1 = pkt_priority p1; prio2 = pkt_priority p2;
                     len1 = uf_msgByteLen (pkt_unsched p1); len2 = uf_msgByteLen (pkt_unsched p2)
                 in if len1 < len2 then -1
                    else if len1 = len2 \<and> prio1 > prio2 then -1
                    else if len1 = len2 \<and> prio1 = prio2 then 0
                    else 1))"

section \<open>Header sizes\<close>

lemma headerSize_new [simp]:
  "headerSize (new_pkt now REQUEST) = 30" "headerSize (new_pkt now UNSCHED_DATA) = 30"
  "headerSize (new_pkt now SCHED_DATA) = 16" "headerSize (new_pkt now GRANT) = 16"
  "headerSize (new_pkt now (BadType n)) = 8"
  by (simp_all add: headerSize_def new_pkt_def empty_grant_def)

lemma maxDataInPkt_simps [simp]:
  "maxDataInPkt REQUEST = 1442" "maxDataInPkt UNSCHED_DATA = 1442"
  "maxDataInPkt SCHED_DATA = 1456" "maxDataInPkt GRANT = 1456" "maxDataInPkt (BadType n) = 1464"
  by (simp_all add: maxDataInPkt_def)

section \<open>Bytes on the wire, in the natural numbers\<close>

text \<open>
  What \<open>getBytesOnWire\<close> computes when nothing wraps around: every full packet takes a whole
  Ethernet frame with preamble, checksum and gap, the rest one more frame of at least the minimum
  payload.
\<close>

definition hdr_nat :: "pkt_type \<Rightarrow> nat" where
  "hdr_nat t = (case t of REQUEST \<Rightarrow> 30 | UNSCHED_DATA \<Rightarrow> 30 | SCHED_DATA \<Rightarrow> 16 | GRANT \<Rightarrow> 16
     | BadType _ \<Rightarrow> 8)"

definition max_data_nat :: "pkt_type \<Rightarrow> nat" where
  "max_data_nat t = 1472 - hdr_nat t"

definition wire_nat :: "pkt_type \<Rightarrow> nat \<Rightarrow> nat" where
  "wire_nat t n =
     (let m = max_data_nat t
      in n div m * 1538 +
         (if 0 < n div m \<and> n mod m = 0 then 0 else max 46 (n mod m + hdr_nat t + 28) + 38))"

lemma unat_headerSize_new: "unat (headerSize (new_pkt 0 t)) = hdr_nat t"
  by (cases t) (simp_all add: hdr_nat_def)

lemma hdr_nat_le: "hdr_nat t \<le> 30"
  by (simp add: hdr_nat_def split: pkt_type.split)

lemma max_data_nat_range: "1442 \<le> max_data_nat t" "max_data_nat t \<le> 1464"
  by (simp_all add: max_data_nat_def hdr_nat_def split: pkt_type.split)

lemma of_nat_less_u32: "a < 2 ^ 32 \<Longrightarrow> b < 2 ^ 32 \<Longrightarrow> (of_nat a :: u32) < of_nat b \<longleftrightarrow> a < b"
  by (simp add: word_less_nat_alt unsigned_of_nat take_bit_nat_eq_self)

lemma of_nat_zero_u32: "a < 2 ^ 32 \<Longrightarrow> (of_nat a :: u32) = 0 \<longleftrightarrow> a = 0"
  using of_nat_less_u32 [of 0 a] by (auto simp: word_gt_0)

lemma maxData_of_nat: "1500 - 20 - 8 - headerSize (new_pkt 0 t) = (of_nat (max_data_nat t) :: u32)"
  by (cases t) (simp_all add: max_data_nat_def hdr_nat_def)

lemma header_of_nat: "headerSize (new_pkt 0 t) = of_nat (hdr_nat t)"
  by (cases t) (simp_all add: hdr_nat_def)

lemma getBytesOnWire_of_nat: "getBytesOnWire n t = of_nat (wire_nat t (unat n))"
proof -
  define m where "m = max_data_nat t"
  define q where "q = unat n div m"
  define r where "r = unat n mod m"
  have m: "1442 \<le> m" "m \<le> 1464" using max_data_nat_range by (simp_all add: m_def)
  have n: "unat n = q * m + r" by (simp add: q_def r_def)
  have lt: "unat n < 2 ^ 32" using unsigned_less [of n] by simp
  have "q \<le> unat n" by (simp add: q_def)
  with lt have q: "q < 2 ^ 32" by linarith
  have r: "r < m" using m by (simp add: r_def)
  have um: "unat (of_nat m :: u32) = m" using m by (simp add: unsigned_of_nat take_bit_nat_eq_self)
  have div: "n div of_nat m = of_nat q"
    by (simp add: word_arith_nat_div um q_def)
  have "n = of_nat (unat n)" by simp
  then have part: "n - of_nat q * of_nat m = of_nat r" by (simp add: n)
  have z: "(of_nat r :: u32) = 0 \<longleftrightarrow> r = 0" using r m by (intro of_nat_zero_u32) simp
  have qz: "0 < (of_nat q :: u32) \<longleftrightarrow> 0 < q" using q of_nat_less_u32 [of 0 q] by simp
  have p: "of_nat r + (of_nat (hdr_nat t) + 20 + 8) = (of_nat (r + hdr_nat t + 28) :: u32)"
    by simp
  have l: "(of_nat (r + hdr_nat t + 28) :: u32) < 46 \<longleftrightarrow> r + hdr_nat t + 28 < 46"
    using of_nat_less_u32 [of "r + hdr_nat t + 28" 46] r m hdr_nat_le [of t] by simp
  show ?thesis
    unfolding getBytesOnWire_def wire_nat_def Let_def
    unfolding maxData_of_nat m_def [symmetric] div part q_def [symmetric] r_def [symmetric]
    unfolding header_of_nat p
    by (simp add: z qz l max_def del: of_nat_add) (simp add: algebra_simps)
qed


lemma wire_nat_le: "wire_nat t n \<le> n div max_data_nat t * 1538 + (1538 + 46)"
proof -
  have "n mod max_data_nat t < max_data_nat t" using max_data_nat_range(1) [of t] by simp
  moreover have "max_data_nat t + hdr_nat t = 1472"
    using hdr_nat_le [of t] by (simp add: max_data_nat_def)
  ultimately show ?thesis by (simp add: wire_nat_def Let_def)
qed

lemma wire_nat_lt: "n \<le> 4000000000 \<Longrightarrow> wire_nat t n < 2 ^ 32"
proof -
  assume n: "n \<le> 4000000000"
  have "n div max_data_nat t \<le> n div 1442"
    using max_data_nat_range(1) by (intro div_le_mono2) simp_all
  also have "\<dots> \<le> 4000000000 div 1442" using n by (rule div_le_mono)
  finally have "n div max_data_nat t * 1538 \<le> 4000000000 div 1442 * 1538" by simp
  with wire_nat_le [of t n] show ?thesis by simp
qed

lemma unat_getBytesOnWire:
  "unat n \<le> 4000000000 \<Longrightarrow> unat (getBytesOnWire n t) = wire_nat t (unat n)"
  using wire_nat_lt [of "unat n" t]
  by (simp add: getBytesOnWire_of_nat unsigned_of_nat take_bit_nat_eq_self)

lemma wire_nat_chunk:
  assumes "0 < r"
  shows "wire_nat t (k * max_data_nat t + r) = k * wire_nat t (max_data_nat t) + wire_nat t r"
proof -
  have m: "0 < max_data_nat t" using max_data_nat_range(1) [of t] by simp
  then show ?thesis using assms by (auto simp: wire_nat_def Let_def algebra_simps)
qed

lemma wire_nat_mono: "a \<le> b \<Longrightarrow> wire_nat t a \<le> wire_nat t b"
proof -
  assume ab: "a \<le> b"
  define m where "m = max_data_nat t"
  have m: "1442 \<le> m" and mh: "m + hdr_nat t = 1472"
    using max_data_nat_range(1) [of t] hdr_nat_le [of t] by (simp_all add: m_def max_data_nat_def)
  show ?thesis
  proof (cases "a div m = b div m")
    case True
    with ab have "a mod m \<le> b mod m"
      by (metis add_le_cancel_left mod_mult_div_eq add.commute)
    with True show ?thesis by (auto simp: wire_nat_def Let_def m_def)
  next
    case False
    with ab have "Suc (a div m) \<le> b div m" using div_le_mono [of a b m] by linarith
    then have "a div m * 1538 + 1538 \<le> b div m * 1538" by linarith
    moreover have "a mod m < m" using m by simp
    then have "max 46 (a mod m + hdr_nat t + 28) + 38 \<le> 1538" using mh by simp
    ultimately have "wire_nat t a \<le> b div m * 1538"
      by (auto simp: wire_nat_def Let_def m_def [symmetric])
    also have "\<dots> \<le> wire_nat t b" by (simp add: wire_nat_def Let_def m_def [symmetric])
    finally show ?thesis .
  qed
qed


section \<open>The packet order\<close>

text \<open>
  Between packets of one source the operator compares a tuple lexicographically; packets of
  different sources that agree on priority, arrival and creation are unrelated.
\<close>

definition pkt_key :: "homa_pkt \<Rightarrow> u32 \<times> simtime \<times> simtime \<times> u64 \<times> u32" where
  "pkt_key p = (pkt_priority p, pkt_arrivalTime p, pkt_creationTime p, pkt_msgId p, getFirstByte p)"

definition pkt_key_gt :: "homa_pkt \<Rightarrow> homa_pkt \<Rightarrow> bool" where
  "pkt_key_gt a b \<longleftrightarrow> pkt_key b < pkt_key a"

lemma lex_step: "((b :: 'a::linorder) < a \<or> b \<le> a \<and> P) \<longleftrightarrow> (b < a \<or> a = b \<and> P)"
  by auto

lemma pkt_gt_same_source: "pkt_srcAddr a = pkt_srcAddr b \<Longrightarrow> pkt_gt a b = pkt_key_gt a b"
  unfolding pkt_gt_def pkt_key_gt_def pkt_key_def less_prod_simp lex_step
  by (cases "pkt_priority a = pkt_priority b"; cases "pkt_arrivalTime a = pkt_arrivalTime b";
      cases "pkt_creationTime a = pkt_creationTime b"; cases "pkt_msgId a = pkt_msgId b"; simp)

interpretation grant_order: strict_weak_order pkt_key_gt
  by unfold_locales (auto simp: pkt_key_gt_def)

lemma pq_push_pkt_gt:
  assumes "\<forall>y \<in> set q. pkt_srcAddr y = pkt_srcAddr x"
  shows "pq_push pkt_gt x q = pq_push pkt_key_gt x q"
  using assms
proof (induction q)
  case Nil
  show ?case by simp
next
  case (Cons y q)
  from Cons.prems have "pkt_srcAddr y = pkt_srcAddr x" by (metis list.set_intros(1))
  then have *: "pkt_gt y x = pkt_key_gt y x" by (rule pkt_gt_same_source)
  from Cons.prems have "\<forall>y \<in> set q. pkt_srcAddr y = pkt_srcAddr x"  by (metis list.set_intros(2))
  then have "pq_push pkt_gt x q = pq_push pkt_key_gt x q" by (rule Cons.IH)
  with * show ?case by (simp only: pq_push.simps)
qed

end
