(* ===== verification/HomaState.thy ===== *)
theory HomaState
  imports Complex_Main HomaPkt
begin

text \<open>
  The configuration of the transport (\<open>HomaConfigDepot.h\<close>, \<open>HomaConfigDepot.cc\<close>) and the
  state of its objects (\<open>HomaTransport.h\<close>): one record per class, in the order of the header.
  A pointer to an object that lives in a map is the object's key, so a set of
  \<open>OutboundMessage*\<close> is a list of message ids and a vector of \<open>SenderState*\<close> is a list of
  optional sender addresses, \<open>None\<close> for \<open>NULL\<close>.  Back pointers are left out, and timers
  are the time they are scheduled for, \<open>None\<close> when they are not scheduled.  Everything a handler
  sends or emits is appended to the list \<open>outs\<close> of the transport.
\<close>

section \<open>Configuration\<close>

datatype sender_scheme = OBSERVE_PKT_PRIOS | SRBF | UNDEFINED

record homa_config =
  nicLinkSpeed :: int
  cfg_rtt :: simtime
  rttBytes :: u16
  maxOutstandingRecvBytes :: u32
  localPort :: int
  destPort :: int
  grantMaxBytes :: u32
  allPrio :: u16
  adaptiveSchedPrioLevels :: u16
  numSendersToKeepGranted :: u16
  signalEmitPeriod :: simtime
  accountForGrantTraffic :: bool
  prioResolverPrioLevels :: u16
  unschedPrioResolutionMode :: string
  unschedPrioUsageWeight :: rat
  explicitUnschedPrioCutoff :: "u32 list"
  senderScheme :: string
  isRoundRobinScheduler :: bool
  linkCheckBytes :: int
  cbfCapMsgSize :: u32
  boostTailBytesPrio :: u32
  defaultReqBytes :: u32
  defaultUnschedBytes :: u32
  useUnschRateInScheduler :: bool
  workloadType :: string
  sxScheme :: sender_scheme

text \<open>
  \<open>SimTime(1e-9 * (bytes * 8.0 / nicLinkSpeed))\<close> for a speed in Gb/s, in ticks of a picosecond:
  the value of the expression over the rationals, truncated as the conversion to
  \<open>simtime_t\<close> truncates.  The rounding of the double operations is not modelled.
\<close>

definition tx_time :: "int \<Rightarrow> nat \<Rightarrow> simtime" where
  "tx_time speed bytes = (8000 * int bytes) div speed"

definition paramToEnum :: "homa_config \<Rightarrow> homa_config res" where
  "paramToEnum c =
     (if senderScheme c = ''OBSERVE_PKT_PRIOS'' then Inr (c\<lparr>sxScheme := OBSERVE_PKT_PRIOS\<rparr>)
      else if senderScheme c = ''SRBF'' then Inr (c\<lparr>sxScheme := SRBF\<rparr>)
      else Inl RuntimeError)"

text \<open>
  The constructor: the parameters of the module are the fields of the argument; what the
  constructor computes and checks is the round trip time, the relation between the two scheduling
  levels and the sender scheme.
\<close>

definition HomaConfigDepot :: "homa_config \<Rightarrow> homa_config res" where
  "HomaConfigDepot par =
     (let c = par\<lparr>cfg_rtt := tx_time (nicLinkSpeed par) (unat (rttBytes par))\<rparr>
      in rbind (assertion (numSendersToKeepGranted c \<le> adaptiveSchedPrioLevels c))
           (\<lambda>_. paramToEnum c))"

text \<open>The parameters of \<open>simulate_homa/omnetpp.ini.template\<close>, with the defaults of the NED file.\<close>

definition ini_params :: homa_config where
  "ini_params = \<lparr>nicLinkSpeed = 10, cfg_rtt = 0, rttBytes = 0x2710,
     maxOutstandingRecvBytes = 0x2710, localPort = 2222, destPort = 2222, grantMaxBytes = 1472,
     allPrio = 8, adaptiveSchedPrioLevels = 7, numSendersToKeepGranted = 7,
     signalEmitPeriod = 1000000000, accountForGrantTraffic = True, prioResolverPrioLevels = 1,
     unschedPrioResolutionMode = ''STATIC_CBF_GRADUATED'', unschedPrioUsageWeight = 1,
     explicitUnschedPrioCutoff = [], senderScheme = ''SRBF'', isRoundRobinScheduler = False,
     linkCheckBytes = -1, cbfCapMsgSize = 0x2710, boostTailBytesPrio = 0x2710,
     defaultReqBytes = 1442, defaultUnschedBytes = 7886, useUnschRateInScheduler = False,
     workloadType = ''DCTCP'', sxScheme = UNDEFINED\<rparr>"

section \<open>Messages of the application\<close>

record app_msg =
  app_destAddr :: u32
  app_srcAddr :: u32
  app_isEcho :: bool
  app_byteLength :: u32
  app_msgCreationTime :: simtime
  app_transportSchedDelay :: simtime
  app_msgBytesOnWire :: u32

section \<open>Sender side\<close>

record outbound_msg =
  om_msgId :: u64
  om_msgSize :: u32
  om_bytesToSched :: u32
  om_bytesLeft :: u32
  om_unschedBytesLeft :: u32
  om_nextExpectedUnschedTxTime :: simtime
  om_reqUnschedDataVec :: "u16 list"
  om_destAddr :: u32
  om_srcAddr :: u32
  om_isEcho :: bool
  om_msgCreationTime :: simtime
  om_txPkts :: "homa_pkt list"
  om_txSchedPkts :: "homa_pkt list"

text \<open>A message with nothing in it, the base of examples.\<close>

definition new_outbound :: outbound_msg where
  "new_outbound = \<lparr>om_msgId = 0, om_msgSize = 0, om_bytesToSched = 0, om_bytesLeft = 0,
     om_unschedBytesLeft = 0, om_nextExpectedUnschedTxTime = 0, om_reqUnschedDataVec = [0],
     om_destAddr = 0, om_srcAddr = 0, om_isEcho = False, om_msgCreationTime = 0,
     om_txPkts = [], om_txSchedPkts = []\<rparr>"

text \<open>\<open>UnschedByteAllocator\<close>: per receiver, a \<open>std::map\<close> as a list sorted by its keys.\<close>

record unsched_allocator =
  rxAddrUnschedbyteMap :: "(u32 \<times> (u32 \<times> u32) list) list"
  rxAddrReqbyteMap :: "(u32 \<times> (u32 \<times> u32) list) list"
  maxReqPktDataBytes :: u32
  maxUnschedPktDataBytes :: u32

record send_ctrl =
  bytesLeftToSend :: u64
  bytesNeedGrant :: u64
  sx_msgId :: u64
  sentPkt :: homa_pkt
  sentPktDuration :: simtime
  outboundMsgMap :: "(u64 \<times> outbound_msg) list"
  rxAddrMsgMap :: "(u32 \<times> u64 list) list"
  unschedByteAllocator :: unsched_allocator
  outbndMsgSet :: "u64 list"
  outGrantQueue :: "homa_pkt list"
  sx_activePeriodStart :: simtime
  sentBytesPerActivePeriod :: u64
  sumGrantsInGap :: u64

section \<open>Receiver side\<close>

record inbound_msg =
  im_srcAddr :: u32
  im_destAddr :: u32
  im_isEcho :: bool
  im_msgIdAtSender :: u64
  im_bytesToGrant :: u32
  im_offset :: u32
  im_bytesGrantedInFlight :: u32
  im_totalBytesInFlight :: u32
  im_bytesToReceive :: u32
  im_msgSize :: u32
  im_schedBytesOnWire :: u32
  im_totalBytesOnWire :: u32
  im_totalUnschedBytes :: u16
  im_msgCreationTime :: simtime
  im_reqArrivalTime :: simtime
  im_lastGrantTime :: simtime
  im_inflightGrants :: "(u32 \<times> u16 \<times> simtime) list"
  im_bytesRecvdPerPrio :: "u64 list"
  im_scheduledBytesPerPrio :: "u64 list"
  im_unschedToRecvPerPrio :: "u64 list"
  im_sumInflightUnschedPerPrio :: "u32 list"
  im_sumInflightSchedPerPrio :: "u32 list"

record sender_state =
  ss_senderAddr :: u32
  ss_grantTimer :: "simtime option"
  ss_mesgsToGrant :: "u64 list"
  ss_incompleteMesgs :: "(u64 \<times> inbound_msg) list"
  ss_lastGrantPrio :: u32
  ss_lastIdx :: nat

text \<open>
  The indices of the list of scheduled senders are bounded by its length, so they are natural
  numbers; \<open>SchedState\<close> keeps them as C++ \<open>int\<close>s, whose sign matters.
\<close>

record sched_senders =
  senders :: "u32 option list"
  schedPrios :: nat
  numToGrant :: nat
  headIdx :: nat
  numSenders :: nat

record sched_state =
  st_numToGrant :: int
  st_headIdx :: int
  st_numSenders :: int
  st_s :: "u32 option"
  st_sInd :: int

record recv_sched =
  ipSendersMap :: "(u32 \<times> sender_state) list"
  schedSenders :: sched_senders
  schedBwUtilTimer :: "simtime option"
  bwCheckInterval :: "simtime option"
  inflightUnschedPerPrio :: "u32 list"
  inflightSchedPerPrio :: "u32 list"
  inflightSchedBytes :: u64
  inflightUnschedBytes :: u64
  bytesRecvdPerPrio :: "u64 list"
  scheduledBytesPerPrio :: "u64 list"
  unschedToRecvPerPrio :: "u64 list"
  allBytesRecvd :: u64
  unschedBytesToRecv :: u64
  rx_activePeriodStart :: simtime
  rcvdBytesPerActivePeriod :: u64
  oversubPeriodStart :: "simtime option"
  oversubPeriodStop :: "simtime option"
  inOversubPeriod :: bool
  rcvdBytesPerOversubPeriod :: u64
  numActiveScheds :: nat
  schedChangeTime :: simtime
  lastRecvTime :: simtime

record track_rtts =
  sendersRTT :: "(u32 \<times> simtime) list"
  maxRTT :: "u32 \<times> simtime"

section \<open>Priority resolver\<close>

datatype prio_mode = STATIC_CDF_UNIFORM | STATIC_CBF_UNIFORM | STATIC_CBF_GRADUATED | EXPLICIT
  | FIXED_UNSCHED | INVALID_PRIO_MODE

record prio_resolver =
  prioCutOffs :: "u32 list"
  prioResMode :: prio_mode

section \<open>The transport\<close>

datatype signal = MsgsLeftToSend | Stability | BytesLeftToSend | BytesNeedGrant
  | OutstandingGrantBytes | TotalOutstandingBytes | RxActiveTime | RxActiveBytes | OversubTime
  | OversubBytes | HigherRxSelfWaste | LowerRxSelfWaste | SxActiveTime | SxActiveBytes
  | SxSchedPktDelay | SxUnschedPktDelay | ActiveScheds | PriorityStats nat

datatype out_event = Emit signal "int list" | SendUdp homa_pkt | SendApp app_msg

datatype send_timer_kind = TIMER_START | TIMER_SEND

record homa =
  now :: simtime
  cfg :: homa_config
  prioRes :: prio_resolver
  sx :: send_ctrl
  rx :: recv_sched
  trackRTTs :: track_rtts
  localAddr :: u32
  sendTimer :: "simtime option"
  sendTimerKind :: send_timer_kind
  emitSignalTimer :: "simtime option"
  nextEmitSignalTime :: simtime
  outstandingGrantBytes :: u32
  outs :: "out_event list"

text \<open>
  The constructors.  \<open>ReceiveScheduler\<close> leaves the pointer to the list of senders null, which
  stands as an empty list here; \<open>initialize\<close> sets it.
\<close>

definition SchedSenders :: "homa_config \<Rightarrow> sched_senders res" where
  "SchedSenders c =
     (let prios = unat (adaptiveSchedPrioLevels c); toGrant = unat (numSendersToKeepGranted c)
      in rbind (assertion (prios \<ge> toGrant)) (\<lambda>_.
         Inr \<lparr>senders = replicate prios None, schedPrios = prios, numToGrant = toGrant,
              headIdx = prios, numSenders = 0\<rparr>))"

definition ReceiveScheduler :: "simtime \<Rightarrow> recv_sched" where
  "ReceiveScheduler cur =
     \<lparr>ipSendersMap = [], schedSenders = \<lparr>senders = [], schedPrios = 0, numToGrant = 0, headIdx = 0,
        numSenders = 0\<rparr>, schedBwUtilTimer = None, bwCheckInterval = Some 0,
      inflightUnschedPerPrio = [], inflightSchedPerPrio = [], inflightSchedBytes = 0,
      inflightUnschedBytes = 0, bytesRecvdPerPrio = [], scheduledBytesPerPrio = [],
      unschedToRecvPerPrio = [], allBytesRecvd = 0, unschedBytesToRecv = 0,
      rx_activePeriodStart = 0, rcvdBytesPerActivePeriod = 0, oversubPeriodStart = Some 0,
      oversubPeriodStop = Some 0, inOversubPeriod = False, rcvdBytesPerOversubPeriod = 0,
      numActiveScheds = 0, schedChangeTime = cur, lastRecvTime = 0\<rparr>"

definition TrackRTTs :: track_rtts where
  "TrackRTTs = \<lparr>sendersRTT = [], maxRTT = (0, 0)\<rparr>"

definition emit :: "signal \<Rightarrow> int list \<Rightarrow> homa \<Rightarrow> homa" where
  "emit sig vs t = t\<lparr>outs := outs t @ [Emit sig vs]\<rparr>"

text \<open>
  \<open>scheduleAt\<close> of the simulation kernel refuses a time in the past and a timer that is already
  scheduled.
\<close>

definition scheduleAt :: "simtime \<Rightarrow> simtime \<Rightarrow> simtime option \<Rightarrow> simtime option res" where
  "scheduleAt cur due timer =
     (if timer \<noteq> None \<or> due < cur then Inl RuntimeError else Inr (Some due))"

text \<open>
  A null time stands for \<open>MAXTIME\<close> in \<open>oversubPeriodStart\<close>, \<open>oversubPeriodStop\<close> and
  \<open>bwCheckInterval\<close>.
\<close>

lemma emit_fields [simp]:
  "now (emit s v t) = now t" "cfg (emit s v t) = cfg t" "prioRes (emit s v t) = prioRes t"
  "sx (emit s v t) = sx t" "rx (emit s v t) = rx t" "trackRTTs (emit s v t) = trackRTTs t"
  "localAddr (emit s v t) = localAddr t" "sendTimer (emit s v t) = sendTimer t"
  "emitSignalTimer (emit s v t) = emitSignalTimer t"
  "nextEmitSignalTime (emit s v t) = nextEmitSignalTime t"
  "outstandingGrantBytes (emit s v t) = outstandingGrantBytes t"
  "sendTimerKind (emit s v t) = sendTimerKind t"
  "outs (emit s v t) = outs t @ [Emit s v]"
  by (simp_all add: emit_def)

lemma scheduleAt_idle: "cur \<le> due \<Longrightarrow> scheduleAt cur due None = Inr (Some due)"
  by (simp add: scheduleAt_def)

lemma scheduleAt_ok [res_simps]:
  "scheduleAt cur due timer = Inr x \<longleftrightarrow> timer = None \<and> cur \<le> due \<and> x = Some due"
  by (auto simp: scheduleAt_def)

lemma tx_time_nonneg: "0 < speed \<Longrightarrow> 0 \<le> tx_time speed n"
  by (simp add: tx_time_def pos_imp_zdiv_nonneg_iff)

lemma tx_time_mono: "0 < speed \<Longrightarrow> m \<le> n \<Longrightarrow> tx_time speed m \<le> tx_time speed n"
  by (simp add: tx_time_def zdiv_mono1)

end
