(* ===== verification/UnschedAllocator.thy ===== *)
theory UnschedAllocator
  imports HomaState
begin

text \<open>
  \<open>UnschedByteAllocator.cc\<close>: how many bytes of a message travel unscheduled, and how they are
  cut into the request packet and the unscheduled packets that follow it.
\<close>

section \<open>Operations\<close>

definition UnschedByteAllocator :: unsched_allocator where
  "UnschedByteAllocator = \<lparr>rxAddrUnschedbyteMap = [], rxAddrReqbyteMap = [],
     maxReqPktDataBytes = MAX_ETHERNET_PAYLOAD_BYTES - IP_HEADER_SIZE - UDP_HEADER_SIZE -
       headerSize (new_pkt 0 REQUEST),
     maxUnschedPktDataBytes = MAX_ETHERNET_PAYLOAD_BYTES - IP_HEADER_SIZE - UDP_HEADER_SIZE -
       headerSize (new_pkt 0 UNSCHED_DATA)\<rparr>"

text \<open>\<open>downCast<uint16_t>\<close> asserts that no precision is lost.\<close>

definition downCast16 :: "u32 \<Rightarrow> u16 res" where
  "downCast16 x = (let s = (ucast x :: u16) in
     rbind (assertion (x - ucast s = 0)) (\<lambda>_. Inr s))"

text \<open>\<open>m.lower_bound(k)->second\<close>: the first entry with a key of at least \<open>k\<close>.\<close>

definition map_lower_bound :: "u32 \<Rightarrow> (u32 \<times> u32) list \<Rightarrow> u32 res" where
  "map_lower_bound k m = of_option NullPointer (map_option snd (find (\<lambda>p. k \<le> fst p) m))"

definition initReqBytes ::
    "homa_config \<Rightarrow> u32 \<Rightarrow> unsched_allocator \<Rightarrow> unsched_allocator res" where
  "initReqBytes c rxAddr a =
     (if defaultReqBytes c > maxReqPktDataBytes a then Inl RuntimeError
      else Inr (a\<lparr>rxAddrReqbyteMap :=
             al_put rxAddr [(0xFFFFFFFF, defaultReqBytes c)] (rxAddrReqbyteMap a)\<rparr>))"

definition getReqDataBytes ::
    "homa_config \<Rightarrow> u32 \<Rightarrow> u32 \<Rightarrow> unsched_allocator \<Rightarrow> (u32 \<times> unsched_allocator) res" where
  "getReqDataBytes c rxAddr msgSize a =
     rbind (case map_of (rxAddrReqbyteMap a) rxAddr of
              None \<Rightarrow> initReqBytes c rxAddr a | Some _ \<Rightarrow> Inr a) (\<lambda>a.
     rbind (of_option NullPointer (map_of (rxAddrReqbyteMap a) rxAddr)) (\<lambda>m.
     rbind (map_lower_bound msgSize m) (\<lambda>v.
     Inr (min v msgSize, a))))"

definition initUnschedBytes :: "homa_config \<Rightarrow> u32 \<Rightarrow> unsched_allocator \<Rightarrow> unsched_allocator" where
  "initUnschedBytes c rxAddr a = a\<lparr>rxAddrUnschedbyteMap :=
     al_put rxAddr [(0xFFFFFFFF, defaultUnschedBytes c)] (rxAddrUnschedbyteMap a)\<rparr>"

definition getUnschedBytes ::
    "homa_config \<Rightarrow> u32 \<Rightarrow> u32 \<Rightarrow> unsched_allocator \<Rightarrow> (u32 \<times> unsched_allocator) res" where
  "getUnschedBytes c rxAddr msgSize a =
     (let a = (case map_of (rxAddrUnschedbyteMap a) rxAddr of
                 None \<Rightarrow> initUnschedBytes c rxAddr a | Some _ \<Rightarrow> a)
      in rbind (of_option NullPointer (map_of (rxAddrUnschedbyteMap a) rxAddr)) (\<lambda>m.
         rbind (getReqDataBytes c rxAddr msgSize a) (\<lambda>(reqDataBytes, a).
         if msgSize \<le> reqDataBytes then Inr (0, a)
         else rbind (map_lower_bound msgSize m) (\<lambda>v.
              Inr (min (msgSize - reqDataBytes) v, a)))))"

text \<open>The loop of \<open>getReqUnschedDataPkts\<close>; with a packet size of zero it would never end.\<close>

function split_unsched :: "u32 \<Rightarrow> u32 \<Rightarrow> u16 list res" where
  "split_unsched maxData unschedData =
     (if unschedData = 0 then Inr []
      else if maxData = 0 then Inl Diverges
      else let unschedInPkt = min unschedData maxData
           in rbind (downCast16 unschedInPkt) (\<lambda>d.
              rbind (split_unsched maxData (unschedData - unschedInPkt)) (\<lambda>ds. Inr (d # ds))))"
  by pat_completeness auto
termination
proof (relation "measure (\<lambda>(m, n). unat n)")
  fix maxData n k :: u32
  assume "n \<noteq> 0" and "maxData \<noteq> 0" and "k = min n maxData"
  then have "0 < k" by (simp add: word_gt_0 min_def)
  moreover have "k \<le> n" using \<open>k = min n maxData\<close> by simp
  ultimately have "unat (n - k) < unat n" by (rule unat_sub_less)
  then show "((maxData, n - k), maxData, n) \<in> measure (\<lambda>(m, n). unat n)" by simp
qed simp

declare split_unsched.simps [simp del]

definition getReqUnschedDataPkts ::
    "homa_config \<Rightarrow> u32 \<Rightarrow> u32 \<Rightarrow> unsched_allocator \<Rightarrow> (u16 list \<times> unsched_allocator) res" where
  "getReqUnschedDataPkts c rxAddr msgSize a =
     rbind (getReqDataBytes c rxAddr msgSize a) (\<lambda>(reqData, a).
     rbind (downCast16 reqData) (\<lambda>d.
     rbind (getUnschedBytes c rxAddr msgSize a) (\<lambda>(unschedData, a).
     rbind (split_unsched (maxUnschedPktDataBytes a) unschedData) (\<lambda>ds.
     Inr (d # ds, a)))))"

section \<open>What the allocator keeps\<close>

text \<open>
  Every receiver known to the allocator has the default sizes, for all message sizes.  The
  allocator starts so and no operation changes it.
\<close>

definition alloc_ok :: "homa_config \<Rightarrow> unsched_allocator \<Rightarrow> bool" where
  "alloc_ok c a \<longleftrightarrow>
     maxReqPktDataBytes a = 1442 \<and> maxUnschedPktDataBytes a = 1442 \<and>
     (\<forall>m \<in> snd ` set (rxAddrReqbyteMap a). m = [(0xFFFFFFFF, defaultReqBytes c)]) \<and>
     (\<forall>m \<in> snd ` set (rxAddrUnschedbyteMap a). m = [(0xFFFFFFFF, defaultUnschedBytes c)])"

text \<open>How the sizes are meant to come out, in the natural numbers.\<close>

definition chunks :: "nat \<Rightarrow> nat \<Rightarrow> nat list" where
  "chunks m n = replicate (n div m) m @ (if n mod m = 0 then [] else [n mod m])"

definition req_bytes :: "homa_config \<Rightarrow> nat \<Rightarrow> nat" where
  "req_bytes c len = min (unat (defaultReqBytes c)) len"

definition unsched_bytes :: "homa_config \<Rightarrow> nat \<Rightarrow> nat" where
  "unsched_bytes c len = min (len - req_bytes c len) (unat (defaultUnschedBytes c))"


section \<open>Lemmas\<close>

lemma downCast16_ok: "unat x < 65536 \<Longrightarrow> downCast16 x = Inr (ucast x)"
proof -
  assume "unat x < 65536"
  then have "unat (ucast x :: u16) = unat x"
    by (simp add: unsigned_ucast_eq take_bit_nat_eq_self)
  then have "unat (ucast (ucast x :: u16) :: u32) = unat x" by (simp only: unat_ucast_u16_u32)
  then have "(ucast (ucast x :: u16) :: u32) = x" by (simp only: word_unat_eq_iff)
  then show ?thesis by (simp add: downCast16_def)
qed

lemma downCast16_lossy: "65536 \<le> unat x \<Longrightarrow> downCast16 x = Inl AssertFailed"
proof -
  assume "65536 \<le> unat x"
  moreover have "unat (ucast x :: u16) < 65536" using unsigned_less [of "ucast x :: u16"] by simp
  ultimately have "(ucast (ucast x :: u16) :: u32) \<noteq> x"
    by (metis leD unat_ucast_u16_u32)
  then show ?thesis by (simp add: downCast16_def)
qed

lemma unat_ucast16: "unat x < 65536 \<Longrightarrow> unat (ucast (x :: u32) :: u16) = unat x"
  by (simp add: unsigned_ucast_eq take_bit_nat_eq_self)

lemma chunks_0 [simp]: "chunks m 0 = []"
  by (simp add: chunks_def)

lemma chunks_step:
  assumes "0 < n" "0 < m"
  shows "chunks m n = min n m # chunks m (n - min n m)"
proof (cases "m \<le> n")
  case True
  then have "n div m = Suc ((n - m) div m)" and "n mod m = (n - m) mod m"
    using assms by (simp_all add: le_div_geq le_mod_geq)
  with True show ?thesis by (simp add: chunks_def min_def)
next
  case False
  with assms show ?thesis by (simp add: chunks_def)
qed

lemma sum_list_chunks [simp]: "sum_list (chunks m n) = n"
  using div_mult_mod_eq [of n m] by (auto simp: chunks_def sum_list_replicate)

lemma chunks_le: "0 < m \<Longrightarrow> x \<in> set (chunks m n) \<Longrightarrow> 0 < x \<and> x \<le> m"
  by (auto simp: chunks_def split: if_splits intro: less_imp_le)

lemma butlast_chunks: "x \<in> set (butlast (chunks m n)) \<Longrightarrow> x = m"
  by (auto simp: chunks_def butlast_append dest: in_set_butlastD split: if_splits)

lemma wire_nat_chunks:
  assumes "0 < n"
  shows "(\<Sum>k \<leftarrow> chunks (max_data_nat t) n. wire_nat t k) = wire_nat t n"
proof -
  define m where "m = max_data_nat t"
  have m: "0 < m" using max_data_nat_range(1) [of t] by (simp add: m_def)
  show ?thesis
  proof (cases "n mod m = 0")
    case False
    have "wire_nat t (n div m * m + n mod m) = n div m * wire_nat t m + wire_nat t (n mod m)"
      unfolding m_def by (rule wire_nat_chunk) (use False m_def in simp)
    with False show ?thesis
      by (simp add: chunks_def m_def [symmetric] map_replicate_const sum_list_replicate)
  next
    case True
    with assms have q: "0 < n div m" using m by (metis div_mult_mod_eq add.right_neutral
        gr0I mult_is_0 less_irrefl)
    have "wire_nat t n = (n div m) * 1538" using True q by (simp add: wire_nat_def m_def [symmetric])
    moreover have "wire_nat t m = 1538" using m by (simp add: wire_nat_def m_def [symmetric])
    ultimately show ?thesis using True
      by (simp add: chunks_def m_def [symmetric] map_replicate_const sum_list_replicate)
  qed
qed

lemma split_unsched_chunks:
  assumes "0 < maxData" and "unat maxData < 65536"
  shows "\<exists>ds. split_unsched maxData n = Inr ds \<and> map unat ds = chunks (unat maxData) (unat n)"
  using assms
proof (induction maxData n rule: split_unsched.induct)
  case (1 maxData n)
  show ?case
  proof (cases "n = 0")
    case True
    then show ?thesis using split_unsched.simps [of maxData n] by simp
  next
    case False
    define k where "k = min n maxData"
    have k: "unat k = min (unat n) (unat maxData)" by (simp add: k_def unat_min)
    have "k \<le> n" by (simp add: k_def)
    then have nk: "unat (n - k) = unat n - unat k" by (simp add: unat_sub)
    from k 1(3) have k16: "unat k < 65536" by simp
    from False 1 obtain ds where ds: "split_unsched maxData (n - k) = Inr ds"
        "map unat ds = chunks (unat maxData) (unat (n - k))"
      by (auto simp: k_def downCast16_ok [OF k16 [unfolded k_def]])
    have "0 < unat n" "0 < unat maxData"
      using False 1(2) by (simp_all add: unat_gt_0 word_gt_0)
    from chunks_step [OF this] have "chunks (unat maxData) (unat n) =
        unat k # chunks (unat maxData) (unat (n - k))" by (simp add: k nk)
    moreover have "split_unsched maxData n = Inr (ucast k # ds)"
      using False 1(2) ds(1) by (simp add: split_unsched.simps [of maxData n] Let_def
        k_def [symmetric] downCast16_ok [OF k16] word_gt_0)
    ultimately show ?thesis using ds(2) unat_ucast16 [OF k16] by simp
  qed
qed

lemma map_lower_bound_max [simp]: "map_lower_bound k [(0xFFFFFFFF, v)] = Inr v"
proof -
  have "unat k \<le> unat (0xFFFFFFFF :: u32)" using unsigned_less [of k, where 'a = nat] by simp
  then have "k \<le> 0xFFFFFFFF" by (simp only: word_le_nat_alt)
  then show ?thesis by (simp add: map_lower_bound_def)
qed

lemma alloc_ok_init: "alloc_ok c UnschedByteAllocator"
  by (simp add: alloc_ok_def UnschedByteAllocator_def)

lemma snd_set_al_put: "snd ` set (al_put k v m) \<subseteq> insert v (snd ` set m)"
  by (induction k v m rule: al_put.induct) auto

lemma getReqDataBytes_ok:
  assumes "alloc_ok c a" and "defaultReqBytes c \<le> 1442"
  shows "\<exists>a'. getReqDataBytes c rxAddr len a = Inr (min (defaultReqBytes c) len, a') \<and> alloc_ok c a'"
proof (cases "map_of (rxAddrReqbyteMap a) rxAddr")
  case None
  define a' where "a' = a\<lparr>rxAddrReqbyteMap :=
    al_put rxAddr [(0xFFFFFFFF, defaultReqBytes c)] (rxAddrReqbyteMap a)\<rparr>"
  have "\<not> maxReqPktDataBytes a < defaultReqBytes c"
    using assms by (simp add: alloc_ok_def linorder_not_less)
  then have "getReqDataBytes c rxAddr len a = Inr (min (defaultReqBytes c) len, a')"
    using None by (simp add: getReqDataBytes_def initReqBytes_def a'_def)
  moreover have "alloc_ok c a'"
    using assms(1) snd_set_al_put [of rxAddr "[(0xFFFFFFFF, defaultReqBytes c)]" "rxAddrReqbyteMap a"]
    unfolding alloc_ok_def a'_def by fastforce
  ultimately show ?thesis by blast
next
  case (Some m)
  then have "(rxAddr, m) \<in> set (rxAddrReqbyteMap a)" by (rule map_of_SomeD)
  with assms(1) have "m = [(0xFFFFFFFF, defaultReqBytes c)]" by (auto simp: alloc_ok_def)
  with Some assms(1) show ?thesis by (simp add: getReqDataBytes_def)
qed

lemma getReqDataBytes_too_big:
  assumes "alloc_ok c a" and "1442 < defaultReqBytes c" and "map_of (rxAddrReqbyteMap a) rxAddr = None"
  shows "getReqDataBytes c rxAddr len a = Inl RuntimeError"
  using assms by (simp add: getReqDataBytes_def initReqBytes_def alloc_ok_def)

lemma getUnschedBytes_ok:
  assumes "alloc_ok c a" and "defaultReqBytes c \<le> 1442"
  shows "\<exists>u a'. getUnschedBytes c rxAddr len a = Inr (u, a') \<and> alloc_ok c a' \<and>
           unat u = unsched_bytes c (unat len)"
proof -
  define b where "b = (case map_of (rxAddrUnschedbyteMap a) rxAddr of
                 None \<Rightarrow> initUnschedBytes c rxAddr a | Some _ \<Rightarrow> a)"
  have b: "alloc_ok c b" and m: "map_of (rxAddrUnschedbyteMap b) rxAddr =
      Some [(0xFFFFFFFF, defaultUnschedBytes c)]"
  proof -
    show "alloc_ok c b"
      using assms(1) snd_set_al_put [of rxAddr "[(0xFFFFFFFF, defaultUnschedBytes c)]"
          "rxAddrUnschedbyteMap a"]
      unfolding alloc_ok_def b_def initUnschedBytes_def by (fastforce split: option.splits)
    show "map_of (rxAddrUnschedbyteMap b) rxAddr = Some [(0xFFFFFFFF, defaultUnschedBytes c)]"
    proof (cases "map_of (rxAddrUnschedbyteMap a) rxAddr")
      case None
      then show ?thesis by (simp add: b_def initUnschedBytes_def)
    next
      case (Some m)
      then have "(rxAddr, m) \<in> set (rxAddrUnschedbyteMap a)" by (rule map_of_SomeD)
      with Some assms(1) show ?thesis by (auto simp: b_def alloc_ok_def)
    qed
  qed
  define r where "r = min (defaultReqBytes c) len"
  from getReqDataBytes_ok [OF b assms(2)] obtain a' where
    a': "getReqDataBytes c rxAddr len b = Inr (r, a')" "alloc_ok c a'" by (auto simp: r_def)
  have ur: "unat r = req_bytes c (unat len)" by (simp add: r_def req_bytes_def unat_min)
  show ?thesis
  proof (cases "len \<le> r")
    case True
    then have "unsched_bytes c (unat len) = 0"
      using ur by (simp add: unsched_bytes_def word_le_nat_alt)
    with True a' show ?thesis
      by (simp add: getUnschedBytes_def b_def [symmetric] m Let_def)
  next
    case False
    then have "unat (len - r) = unat len - unat r" by (simp add: unat_sub)
    then have "unat (min (len - r) (defaultUnschedBytes c)) = unsched_bytes c (unat len)"
      by (simp add: unat_min unsched_bytes_def ur)
    with False a' show ?thesis
      by (simp add: getUnschedBytes_def b_def [symmetric] m Let_def)
  qed
qed

lemma getReqUnschedDataPkts_ok:
  assumes "alloc_ok c a" and "defaultReqBytes c \<le> 1442"
  shows "\<exists>d ds a'. getReqUnschedDataPkts c rxAddr len a = Inr (d # ds, a') \<and> alloc_ok c a' \<and>
     unat d = req_bytes c (unat len) \<and> map unat ds = chunks 1442 (unsched_bytes c (unat len))"
proof -
  define r where "r = min (defaultReqBytes c) len"
  have ur: "unat r = req_bytes c (unat len)" by (simp add: r_def req_bytes_def unat_min)
  have r16: "unat r < 65536" using assms(2) by (simp add: r_def unat_min word_le_nat_alt)
  from getReqDataBytes_ok [OF assms] obtain a1 where
    a1: "getReqDataBytes c rxAddr len a = Inr (r, a1)" "alloc_ok c a1" by (auto simp: r_def)
  from getUnschedBytes_ok [OF a1(2) assms(2)] obtain u a2 where
    a2: "getUnschedBytes c rxAddr len a1 = Inr (u, a2)" "alloc_ok c a2"
      "unat u = unsched_bytes c (unat len)" by blast
  from a2(2) have mx: "maxUnschedPktDataBytes a2 = 1442" by (simp add: alloc_ok_def)
  from split_unsched_chunks [of 1442 u] obtain ds where
    ds: "split_unsched 1442 u = Inr ds" "map unat ds = chunks 1442 (unat u)" by auto
  have "getReqUnschedDataPkts c rxAddr len a = Inr (ucast r # ds, a2)"
    by (simp add: getReqUnschedDataPkts_def a1 a2 downCast16_ok [OF r16] mx ds)
  with a2 ds ur unat_ucast16 [OF r16] show ?thesis by auto
qed

section \<open>Properties\<close>

text \<open>
  C7: What a message costs on the wire, as the receiver accounts for it in one call, is what its
  packets cost one by one when it is cut into full packets and a rest.
\<close>

theorem getBytesOnWire_packetwise:
  assumes "0 < n" and "unat n \<le> 4000000000"
  shows "(\<Sum>k \<leftarrow> chunks (unat (maxDataInPkt t)) (unat n). unat (getBytesOnWire (of_nat k) t)) =
           unat (getBytesOnWire n t)"
proof -
  define m where "m = max_data_nat t"
  have m: "unat (maxDataInPkt t) = m" "1442 \<le> m" "m \<le> 1464"
    using max_data_nat_range [of t] maxData_of_nat [of t]
    by (simp_all add: maxDataInPkt_def m_def unsigned_of_nat take_bit_nat_eq_self)
  have small: "unat (getBytesOnWire (of_nat k) t) = wire_nat t k" if "k \<le> m" for k
    using that m unat_getBytesOnWire [of "of_nat k" t]
    by (simp add: unsigned_of_nat take_bit_nat_eq_self)
  have pos: "0 < unat n" using assms(1) by (simp add: word_less_nat_alt)
  have "(\<Sum>k \<leftarrow> chunks m (unat n). unat (getBytesOnWire (of_nat k) t)) =
      (\<Sum>k \<leftarrow> chunks m (unat n). wire_nat t k)"
    using chunks_le [of m _ "unat n"] m by (intro arg_cong [of _ _ sum_list] map_cong refl small) auto
  also have "\<dots> = wire_nat t (unat n)" unfolding m_def by (rule wire_nat_chunks [OF pos])
  finally show ?thesis by (simp add: m unat_getBytesOnWire assms)
qed

lemma getBytesOnWire_packetwise_witness:
  "(\<Sum>k \<leftarrow> chunks (unat (maxDataInPkt SCHED_DATA)) (unat (3000 :: u32)).
      unat (getBytesOnWire (of_nat k) SCHED_DATA)) = unat (getBytesOnWire 3000 SCHED_DATA)"
  by (rule getBytesOnWire_packetwise) simp_all

text \<open>
  C6: Asked for the unscheduled part of a message, an allocator that has answered any calls before
  returns the request packet with the configured share and packets that are full up to the last
  one; together they carry the configured unscheduled bytes, no packet is larger than a packet can
  be, and the allocator stays usable.
\<close>

theorem getReqUnschedDataPkts_correct:
  assumes "alloc_ok c a" and "defaultReqBytes c \<le> 1442"
  shows "\<exists>d ds a'. getReqUnschedDataPkts c rxAddr msgSize a = Inr (d # ds, a') \<and> alloc_ok c a' \<and>
     unat d = min (unat (defaultReqBytes c)) (unat msgSize) \<and>
     sum_list (map unat (d # ds)) =
       min (unat (defaultReqBytes c) + unat (defaultUnschedBytes c)) (unat msgSize) \<and>
     (\<forall>x \<in> set (d # ds). unat x \<le> 1442) \<and> (\<forall>x \<in> set (butlast ds). unat x = 1442) \<and> 0 \<notin> set ds"
proof -
  from getReqUnschedDataPkts_ok [OF assms, of rxAddr msgSize] obtain d ds a' where
    r: "getReqUnschedDataPkts c rxAddr msgSize a = Inr (d # ds, a')" "alloc_ok c a'"
      "unat d = req_bytes c (unat msgSize)"
      "map unat ds = chunks 1442 (unsched_bytes c (unat msgSize))" by blast
  have "sum_list (map unat (d # ds)) =
      min (unat (defaultReqBytes c) + unat (defaultUnschedBytes c)) (unat msgSize)"
    using r(3,4) by (simp add: req_bytes_def unsched_bytes_def)
  moreover have "\<forall>x \<in> unat ` set ds. 0 < x \<and> x \<le> 1442"
    using chunks_le [of 1442 _ "unsched_bytes c (unat msgSize)"] r(4)
    by (metis list.set_map zero_less_numeral)
  moreover have "unat d \<le> 1442" using assms(2) r(3) by (simp add: req_bytes_def word_le_nat_alt)
  moreover have "\<forall>x \<in> unat ` set (butlast ds). x = 1442"
    using butlast_chunks [of _ 1442 "unsched_bytes c (unat msgSize)"] r(4)
    by (metis list.set_map map_butlast)
  ultimately show ?thesis using r by (intro exI [of _ d] exI [of _ ds] exI [of _ a'])
      (auto simp: req_bytes_def)
qed

lemma getReqUnschedDataPkts_correct_witness:
  "\<exists>d ds a'. getReqUnschedDataPkts ini_params 7 20000 UnschedByteAllocator = Inr (d # ds, a') \<and>
     alloc_ok ini_params a' \<and> unat d = 1442 \<and> sum_list (map unat (d # ds)) = 9328"
  using getReqUnschedDataPkts_correct [OF alloc_ok_init, of ini_params 7 20000]
  by (auto simp: ini_params_def)

end
