(* ===== verification/InboundMessage.thy ===== *)
theory InboundMessage
  imports UnschedAllocator
begin

text \<open>
  \<open>HomaTransport::InboundMessage\<close> and \<open>HomaTransport::TrackRTTs\<close>: a message on its way in, the
  grants that are under way for it and the round trip times observed.  Both change only their own
  object and the counter \<open>outstandingGrantBytes\<close> of the transport, which the operations take and
  return.
\<close>

section \<open>Round trip times\<close>

text \<open>The loop over the hash map; the model goes through it in the order of its list.\<close>

definition max_rtt_loop :: "(u32 \<times> simtime) list \<Rightarrow> u32 \<times> simtime \<Rightarrow> u32 \<times> simtime" where
  "max_rtt_loop rtts m0 = foldl (\<lambda>m e. if snd e > snd m then e else m) m0 rtts"

definition updateRTTSample :: "u32 \<Rightarrow> simtime \<Rightarrow> track_rtts \<Rightarrow> track_rtts res" where
  "updateRTTSample senderIP rttVal t =
     (case map_of (sendersRTT t) senderIP of
        None \<Rightarrow>
          Inr (t\<lparr>sendersRTT := al_put senderIP rttVal (sendersRTT t),
                 maxRTT := (if rttVal > snd (maxRTT t) then (senderIP, rttVal) else maxRTT t)\<rparr>)
      | Some v \<Rightarrow>
          if rttVal \<ge> v then Inr t
          else if senderIP \<noteq> fst (maxRTT t) then
            rbind (assertion (rttVal \<le> snd (maxRTT t))) (\<lambda>_.
            Inr (t\<lparr>sendersRTT := al_put senderIP rttVal (sendersRTT t)\<rparr>))
          else
            let rtts = al_put senderIP rttVal (sendersRTT t)
            in Inr (t\<lparr>sendersRTT := rtts,
                      maxRTT := max_rtt_loop rtts (fst (maxRTT t), rttVal)\<rparr>))"

section \<open>Operations of an inbound message\<close>

definition CompareBytesToGrant :: "inbound_msg \<Rightarrow> inbound_msg \<Rightarrow> bool" where
  "CompareBytesToGrant msg1 msg2 \<longleftrightarrow>
     im_bytesToGrant msg1 < im_bytesToGrant msg2 \<or>
     (im_bytesToGrant msg1 = im_bytesToGrant msg2 \<and> im_msgSize msg1 < im_msgSize msg2) \<or>
     (im_bytesToGrant msg1 = im_bytesToGrant msg2 \<and> im_msgSize msg1 = im_msgSize msg2 \<and>
      im_msgCreationTime msg1 < im_msgCreationTime msg2) \<or>
     (im_bytesToGrant msg1 = im_bytesToGrant msg2 \<and> im_msgSize msg1 = im_msgSize msg2 \<and>
      im_msgCreationTime msg1 = im_msgCreationTime msg2 \<and>
      im_msgIdAtSender msg1 < im_msgIdAtSender msg2)"

definition InboundMessage :: "homa_config \<Rightarrow> simtime \<Rightarrow> homa_pkt \<Rightarrow> inbound_msg res" where
  "InboundMessage c cur rxPkt =
     (if pkt_type rxPkt = REQUEST \<or> pkt_type rxPkt = UNSCHED_DATA then
        let f = pkt_unsched rxPkt in
        Inr \<lparr>im_srcAddr = pkt_srcAddr rxPkt, im_destAddr = pkt_destAddr rxPkt,
          im_isEcho = pkt_isEcho rxPkt, im_msgIdAtSender = pkt_msgId rxPkt,
          im_bytesToGrant = uf_msgByteLen f - ucast (uf_totalUnschedBytes f),
          im_offset = ucast (uf_totalUnschedBytes f), im_bytesGrantedInFlight = 0,
          im_totalBytesInFlight = getBytesOnWire (ucast (uf_totalUnschedBytes f)) UNSCHED_DATA,
          im_bytesToReceive = uf_msgByteLen f, im_msgSize = uf_msgByteLen f,
          im_schedBytesOnWire = 0, im_totalBytesOnWire = 0,
          im_totalUnschedBytes = uf_totalUnschedBytes f,
          im_msgCreationTime = uf_msgCreationTime f, im_reqArrivalTime = cur,
          im_lastGrantTime = cur,
          im_inflightGrants = [(0, uf_totalUnschedBytes f,
            min (cur - cfg_rtt c) (uf_msgCreationTime f - cfg_rtt c div 2))],
          im_bytesRecvdPerPrio = [], im_scheduledBytesPerPrio = [], im_unschedToRecvPerPrio = [],
          im_sumInflightUnschedPerPrio = [], im_sumInflightSchedPerPrio = []\<rparr>
      else Inl RuntimeError)"

type_synonym grant_entry = "u32 \<times> u16 \<times> simtime"

text \<open>Takes bytes out of the entry for the unscheduled bytes, the first of the list.\<close>

definition take_unsched :: "u32 \<Rightarrow> grant_entry list \<Rightarrow> grant_entry list res" where
  "take_unsched bytesReceived grants =
     (case grants of
        [] \<Rightarrow> Inl NullPointer
      | (off, n, tm) # gs \<Rightarrow>
          rbind (assertion (off = 0)) (\<lambda>_.
          rbind (assertion (ucast n \<ge> bytesReceived)) (\<lambda>_.
          let n' = n - ucast bytesReceived
          in Inr (if n' = 0 then gs else (off, n', tm) # gs))))"

text \<open>The first entry with the given offset, and the list without it.\<close>

fun take_grant :: "u32 \<Rightarrow> grant_entry list \<Rightarrow> (grant_entry \<times> grant_entry list) res" where
  "take_grant byteStart [] = Inl AssertFailed"
| "take_grant byteStart (g # gs) =
     (if fst g = byteStart then Inr (g, gs)
      else rbind (take_grant byteStart gs) (\<lambda>(g', gs'). Inr (g', g # gs')))"

definition fillinRxBytes ::
    "simtime \<Rightarrow> u32 \<Rightarrow> u32 \<Rightarrow> pkt_type \<Rightarrow> inbound_msg \<Rightarrow> track_rtts \<Rightarrow> u32 \<Rightarrow>
     (inbound_msg \<times> track_rtts \<times> u32) res" where
  "fillinRxBytes cur byteStart byteEnd pktType im tr outstanding =
     (let bytesReceived = byteEnd - byteStart + 1;
          bytesReceivedOnWire = getBytesOnWire bytesReceived pktType;
          im = im\<lparr>im_bytesToReceive := im_bytesToReceive im - bytesReceived,
                  im_totalBytesInFlight := im_totalBytesInFlight im - bytesReceivedOnWire,
                  im_totalBytesOnWire := im_totalBytesOnWire im + bytesReceivedOnWire\<rparr>
      in rbind
        (if pktType = UNSCHED_DATA \<or> pktType = REQUEST then
           rbind (take_unsched bytesReceived (im_inflightGrants im)) (\<lambda>gs.
           Inr (im\<lparr>im_inflightGrants := gs\<rparr>))
         else Inr im) (\<lambda>im.
      if pktType = SCHED_DATA then
        rbind (assertion (bytesReceived > 0)) (\<lambda>_.
        rbind (take_grant byteStart (im_inflightGrants im)) (\<lambda>((off, n, tm), gs).
        rbind (assertion (ucast n = bytesReceived)) (\<lambda>_.
        rbind (if bytesReceivedOnWire = maxEthFrameSize
               then updateRTTSample (im_srcAddr im) (cur - tm) tr else Inr tr) (\<lambda>tr.
        Inr (im\<lparr>im_inflightGrants := gs,
                im_bytesGrantedInFlight := im_bytesGrantedInFlight im - bytesReceived\<rparr>,
             tr, outstanding - bytesReceivedOnWire)))))
      else Inr (im, tr, outstanding)))"

definition prepareGrant ::
    "simtime \<Rightarrow> u16 \<Rightarrow> u16 \<Rightarrow> inbound_msg \<Rightarrow> u32 \<Rightarrow> (homa_pkt \<times> inbound_msg \<times> u32) res" where
  "prepareGrant cur grantSize schedPrio im outstanding =
     (let grantFields = empty_grant\<lparr>gf_offset := im_offset im, gf_grantBytes := grantSize,
            gf_schedPrio := schedPrio\<rparr>;
          grantPkt = (new_pkt cur GRANT)\<lparr>pkt_grant := grantFields, pkt_destAddr := im_srcAddr im,
            pkt_srcAddr := im_destAddr im, pkt_msgId := im_msgIdAtSender im\<rparr>;
          grantPkt = grantPkt\<lparr>pkt_byteLength := headerSize grantPkt, pkt_priority := 0\<rparr>;
          grantedBytesOnWire = getBytesOnWire (ucast grantSize) SCHED_DATA;
          im = im\<lparr>im_inflightGrants := im_inflightGrants im @ [(im_offset im, grantSize, cur)],
                  im_bytesToGrant := im_bytesToGrant im - ucast grantSize,
                  im_offset := im_offset im + ucast grantSize,
                  im_schedBytesOnWire := im_schedBytesOnWire im + grantedBytesOnWire,
                  im_bytesGrantedInFlight := im_bytesGrantedInFlight im + ucast grantSize,
                  im_lastGrantTime := cur,
                  im_totalBytesInFlight := im_totalBytesInFlight im + grantedBytesOnWire\<rparr>
      in rbind (assertion (im_offset im = im_msgSize im - im_bytesToGrant im)) (\<lambda>_.
         Inr (grantPkt, im, outstanding + grantedBytesOnWire)))"

definition prepareRxMsgForApp :: "homa_config \<Rightarrow> inbound_msg \<Rightarrow> app_msg res" where
  "prepareRxMsgForApp c im =
     (let rxMsg = \<lparr>app_destAddr = im_destAddr im, app_srcAddr = im_srcAddr im,
            app_isEcho = im_isEcho im, app_byteLength = im_msgSize im,
            app_msgCreationTime = im_msgCreationTime im, app_transportSchedDelay = 0,
            app_msgBytesOnWire = im_totalBytesOnWire im\<rparr>
      in if ucast (im_totalUnschedBytes im) \<ge> im_msgSize im then
           rbind (assertion (im_reqArrivalTime im = im_lastGrantTime im \<and>
             im_bytesToGrant im = 0 \<and> im_bytesToReceive im = 0)) (\<lambda>_.
           Inr rxMsg)
         else
           rbind (assertion (im_reqArrivalTime im \<le> im_lastGrantTime im \<and>
             im_bytesToGrant im = 0 \<and> im_bytesToReceive im = 0)) (\<lambda>_.
           let totalSchedTime = im_lastGrantTime im - im_reqArrivalTime im;
               bytesGranted = im_msgSize im - ucast (im_totalUnschedBytes im);
               bytesGrantedOnWire = getBytesOnWire bytesGranted SCHED_DATA;
               minSchedTimeInBytes = bytesGrantedOnWire - maxEthFrameSize;
               minSchedulingTime = (if 0 <s minSchedTimeInBytes
                 then tx_time (nicLinkSpeed c) (unat minSchedTimeInBytes) else 0)
           in Inr (rxMsg\<lparr>app_transportSchedDelay := totalSchedTime - minSchedulingTime\<rparr>)))"

definition updatePerPrioStats :: "recv_sched \<Rightarrow> inbound_msg \<Rightarrow> inbound_msg" where
  "updatePerPrioStats r im =
     im\<lparr>im_bytesRecvdPerPrio := bytesRecvdPerPrio r,
        im_scheduledBytesPerPrio := scheduledBytesPerPrio r,
        im_unschedToRecvPerPrio := unschedToRecvPerPrio r,
        im_sumInflightUnschedPerPrio := inflightUnschedPerPrio r,
        im_sumInflightSchedPerPrio := inflightSchedPerPrio r\<rparr>"

definition schedBytesInFlight :: "inbound_msg \<Rightarrow> u32" where
  "schedBytesInFlight im = im_bytesGrantedInFlight im"

definition unschedBytesInFlight :: "inbound_msg \<Rightarrow> u32 res" where
  "unschedBytesInFlight im =
     rbind (assertion (im_bytesToReceive im \<ge> im_bytesToGrant im + im_bytesGrantedInFlight im)) (\<lambda>_.
     Inr (im_bytesToReceive im - im_bytesToGrant im - schedBytesInFlight im))"

section \<open>The round trip times recorded\<close>

text \<open>The recorded maximum is attained by a sender and bounds the samples of all senders.\<close>

definition rtts_ok :: "track_rtts \<Rightarrow> bool" where
  "rtts_ok t \<longleftrightarrow> al_wf (sendersRTT t) \<and>
     (\<forall>ip v. map_of (sendersRTT t) ip = Some v \<longrightarrow> 0 < v \<and> v \<le> snd (maxRTT t)) \<and>
     (sendersRTT t = [] \<longrightarrow> maxRTT t = (0, 0)) \<and>
     (sendersRTT t \<noteq> [] \<longrightarrow> map_of (sendersRTT t) (fst (maxRTT t)) = Some (snd (maxRTT t)))"

lemma max_rtt_loop_bound:
  "snd m0 \<le> snd (max_rtt_loop es m0) \<and> (\<forall>e \<in> set es. snd e \<le> snd (max_rtt_loop es m0)) \<and>
   max_rtt_loop es m0 \<in> insert m0 (set es)"
proof (induction es arbitrary: m0)
  case Nil
  then show ?case by (simp add: max_rtt_loop_def)
next
  case (Cons e es)
  let ?m = "if snd m0 < snd e then e else m0"
  have eq: "max_rtt_loop (e # es) m0 = max_rtt_loop es ?m" by (simp add: max_rtt_loop_def)
  have "snd m0 \<le> snd ?m" and "snd e \<le> snd ?m" and "?m \<in> {m0, e}" by auto
  with Cons.IH [of ?m] show ?case unfolding eq by force
qed

lemma rtts_ok_init: "rtts_ok TrackRTTs"
  by (simp add: rtts_ok_def TrackRTTs_def)

lemma set_al_put: "al_wf m \<Longrightarrow> (k', v') \<in> set (al_put k v m) \<longleftrightarrow>
    (if k' = k then v' = v else (k', v') \<in> set m)"
proof -
  assume wf: "al_wf m"
  have "(k', v') \<in> set (al_put k v m) \<longleftrightarrow> map_of (al_put k v m) k' = Some v'"
    using wf by (simp only: al_wf_map_of al_wf_put)
  also have "\<dots> \<longleftrightarrow> (if k' = k then v' = v else (k', v') \<in> set m)"
    using wf by (auto simp: al_wf_map_of)
  finally show ?thesis .
qed

lemma al_put_not_Nil [simp]: "al_put k v m \<noteq> []"
proof -
  have "map_of (al_put k v m) k = Some v" by simp
  then show ?thesis by (metis map_of.simps(1) option.distinct(1))
qed

lemma updateRTTSample_ok:
  assumes "rtts_ok t" and "0 < v"
  shows "\<exists>t'. updateRTTSample ip v t = Inr t' \<and> rtts_ok t' \<and>
     map_of (sendersRTT t') ip =
       Some (case map_of (sendersRTT t) ip of None \<Rightarrow> v | Some w \<Rightarrow> min v w) \<and>
     (\<forall>ip'. ip' \<noteq> ip \<longrightarrow> map_of (sendersRTT t') ip' = map_of (sendersRTT t) ip')"
proof (cases "map_of (sendersRTT t) ip")
  case None
  let ?m = "if snd (maxRTT t) < v then (ip, v) else maxRTT t"
  let ?r = "al_put ip v (sendersRTT t)"
  have wf: "al_wf (sendersRTT t)" using assms(1) by (simp add: rtts_ok_def)
  have "0 < x \<and> x \<le> snd ?m" if x: "map_of ?r i = Some x" for i x
  proof (cases "i = ip")
    case False
    with x have "map_of (sendersRTT t) i = Some x" by simp
    with assms(1) have "0 < x \<and> x \<le> snd (maxRTT t)" by (simp add: rtts_ok_def)
    then show ?thesis by auto
  qed (use x assms(2) in auto)
  moreover have "map_of ?r (fst ?m) = Some (snd ?m)"
  proof (cases "snd (maxRTT t) < v")
    case False
    with assms have "sendersRTT t \<noteq> []" by (auto simp: rtts_ok_def)
    with assms(1) have "map_of (sendersRTT t) (fst (maxRTT t)) = Some (snd (maxRTT t))"
      by (simp add: rtts_ok_def)
    with None False show ?thesis by auto
  qed simp
  ultimately have "rtts_ok (t\<lparr>sendersRTT := ?r, maxRTT := ?m\<rparr>)"
    using wf by (simp add: rtts_ok_def)
  then show ?thesis using None by (simp add: updateRTTSample_def)
next
  case (Some w)
  have wf: "al_wf (sendersRTT t)" using assms(1) by (simp add: rtts_ok_def)
  have ne: "sendersRTT t \<noteq> []" using Some by auto
  have mx: "map_of (sendersRTT t) (fst (maxRTT t)) = Some (snd (maxRTT t))"
    using assms(1) ne by (simp add: rtts_ok_def)
  have bnd: "0 < x \<and> x \<le> snd (maxRTT t)" if "map_of (sendersRTT t) i = Some x" for i x
    using assms(1) that by (auto simp: rtts_ok_def)
  have w: "w \<le> snd (maxRTT t)" using bnd Some by blast
  consider "w \<le> v" | "v < w" "ip \<noteq> fst (maxRTT t)" | "v < w" "ip = fst (maxRTT t)" by linarith
  then show ?thesis
  proof cases
    case 1
    with Some assms(1) show ?thesis by (simp add: updateRTTSample_def min_def)
  next
    case 2
    have "rtts_ok (t\<lparr>sendersRTT := al_put ip v (sendersRTT t)\<rparr>)"
      using assms(2) 2 mx wf w bnd unfolding rtts_ok_def by auto
    then show ?thesis using Some 2 w by (simp add: updateRTTSample_def min_def)
  next
    case 3
    let ?r = "al_put ip v (sendersRTT t)"
    let ?m = "max_rtt_loop ?r (ip, v)"
    have wf': "al_wf ?r" using wf by simp
    have vin: "(ip, v) \<in> set ?r" using wf by (simp add: set_al_put)
    note b = max_rtt_loop_bound [of "(ip, v)" ?r]
    then have min: "?m \<in> set ?r" using vin by auto
    then have "map_of ?r (fst ?m) = Some (snd ?m)"
      using wf' by (simp only: al_wf_map_of) simp
    moreover have "0 < x \<and> x \<le> snd ?m" if "map_of ?r i = Some x" for i x
      using that b assms(2) bnd map_of_SomeD [OF that] by (auto split: if_splits)
    ultimately have "rtts_ok (t\<lparr>sendersRTT := ?r, maxRTT := ?m\<rparr>)"
      using wf' unfolding rtts_ok_def by auto
    then show ?thesis using Some 3 by (simp add: updateRTTSample_def min_def Let_def)
  qed
qed

section \<open>What an inbound message keeps\<close>

text \<open>
  The grants under way are disjoint intervals of the message, in increasing order, between the end
  of the unscheduled part and the first byte not granted.
\<close>

fun grants_ok :: "nat \<Rightarrow> nat \<Rightarrow> grant_entry list \<Rightarrow> bool" where
  "grants_ok lo hi [] \<longleftrightarrow> lo \<le> hi"
| "grants_ok lo hi ((off, n, tm) # gs) \<longleftrightarrow>
     lo \<le> unat off \<and> 0 < unat n \<and> grants_ok (unat off + unat n) hi gs"

definition granted_sum :: "grant_entry list \<Rightarrow> nat" where
  "granted_sum gs = (\<Sum>(off, n, tm) \<leftarrow> gs. unat n)"

definition granted_wire :: "grant_entry list \<Rightarrow> u32" where
  "granted_wire gs = (\<Sum>(off, n, tm) \<leftarrow> gs. getBytesOnWire (ucast n) SCHED_DATA)"

definition unsched_wire :: "nat multiset \<Rightarrow> u32" where
  "unsched_wire P = (\<Sum>k \<in># P. getBytesOnWire (of_nat k) UNSCHED_DATA)"

text \<open>
  The entries for granted bytes: all of the list once no unscheduled packet is pending, all but
  the first before.  The multiset holds the data sizes of the unscheduled packets not yet here.
\<close>

definition sched_grants :: "nat multiset \<Rightarrow> inbound_msg \<Rightarrow> grant_entry list" where
  "sched_grants P im = (if P = {#} then im_inflightGrants im else tl (im_inflightGrants im))"

definition im_inv :: "nat multiset \<Rightarrow> inbound_msg \<Rightarrow> bool" where
  "im_inv P im \<longleftrightarrow>
     (P \<noteq> {#} \<longrightarrow> im_inflightGrants im \<noteq> [] \<and> fst (hd (im_inflightGrants im)) = 0 \<and>
        unat (fst (snd (hd (im_inflightGrants im)))) = sum_mset P) \<and>
     (0 \<in># P \<longrightarrow> P = {#0#}) \<and>
     (im_totalUnschedBytes im = 0 \<longrightarrow> im_msgSize im = 0) \<and>
     sum_mset P \<le> unat (im_totalUnschedBytes im) \<and>
     unat (im_offset im) + unat (im_bytesToGrant im) = unat (im_msgSize im) \<and>
     grants_ok (unat (im_totalUnschedBytes im)) (unat (im_offset im)) (sched_grants P im) \<and>
     unat (im_bytesGrantedInFlight im) = granted_sum (sched_grants P im) \<and>
     unat (im_bytesToReceive im) =
       unat (im_bytesToGrant im) + granted_sum (sched_grants P im) + sum_mset P \<and>
     im_totalBytesInFlight im = unsched_wire P + granted_wire (sched_grants P im) \<and>
     im_reqArrivalTime im \<le> im_lastGrantTime im \<and>
     (unat (im_offset im) = unat (im_totalUnschedBytes im) \<longrightarrow>
        im_lastGrantTime im = im_reqArrivalTime im) \<and>
     (\<forall>(off, n, tm) \<in> set (sched_grants P im). tm \<le> im_lastGrantTime im)"

text \<open>The fields no operation changes, and those only a grant changes.\<close>

definition im_static :: "inbound_msg \<Rightarrow> u32 \<times> u32 \<times> bool \<times> u64 \<times> u32 \<times> u16 \<times> simtime \<times> simtime" where
  "im_static im = (im_srcAddr im, im_destAddr im, im_isEcho im, im_msgIdAtSender im, im_msgSize im,
     im_totalUnschedBytes im, im_msgCreationTime im, im_reqArrivalTime im)"

definition im_granting :: "inbound_msg \<Rightarrow> u32 \<times> u32 \<times> simtime" where
  "im_granting im = (im_bytesToGrant im, im_offset im, im_lastGrantTime im)"

lemma granted_Nil [simp]: "granted_sum [] = 0" "granted_wire [] = 0" "unsched_wire {#} = 0"
  by (simp_all add: granted_sum_def granted_wire_def unsched_wire_def)

lemma granted_Cons [simp]:
  "granted_sum ((off, n, tm) # gs) = unat n + granted_sum gs"
  "granted_wire ((off, n, tm) # gs) = getBytesOnWire (ucast n) SCHED_DATA + granted_wire gs"
  by (simp_all add: granted_sum_def granted_wire_def)

lemma granted_append [simp]:
  "granted_sum (gs @ hs) = granted_sum gs + granted_sum hs"
  "granted_wire (gs @ hs) = granted_wire gs + granted_wire hs"
  by (simp_all add: granted_sum_def granted_wire_def)

lemma unsched_wire_add [simp]:
  "unsched_wire (add_mset k P) = getBytesOnWire (of_nat k) UNSCHED_DATA + unsched_wire P"
  by (simp add: unsched_wire_def)

lemma grants_ok_le: "grants_ok lo hi gs \<Longrightarrow> lo + granted_sum gs \<le> hi"
  by (induction lo hi gs rule: grants_ok.induct) auto

lemma grants_ok_weaken: "grants_ok lo hi gs \<Longrightarrow> lo' \<le> lo \<Longrightarrow> grants_ok lo' hi gs"
  by (induction lo hi gs rule: grants_ok.induct) auto

lemma grants_ok_mem: "grants_ok lo hi gs \<Longrightarrow> (off, n, tm) \<in> set gs \<Longrightarrow> lo \<le> unat off \<and> 0 < unat n"
  by (induction lo hi gs rule: grants_ok.induct) fastforce+

lemma grants_ok_snoc:
  "grants_ok lo hi gs \<Longrightarrow> 0 < unat n \<Longrightarrow> unat off = hi \<Longrightarrow> hi + unat n = hi' \<Longrightarrow>
   grants_ok lo hi' (gs @ [(off, n, tm)])"
  by (induction lo hi gs rule: grants_ok.induct) auto

lemma take_grant_ok:
  assumes "grants_ok lo hi gs" and "(off, n, tm) \<in> set gs"
  shows "\<exists>gs'. take_grant off gs = Inr ((off, n, tm), gs') \<and> grants_ok lo hi gs' \<and>
     granted_sum gs = unat n + granted_sum gs' \<and>
     granted_wire gs = getBytesOnWire (ucast n) SCHED_DATA + granted_wire gs' \<and>
     set gs' \<subseteq> set gs"
  using assms
proof (induction lo hi gs rule: grants_ok.induct)
  case (2 lo hi off' n' tm' gs)
  show ?case
  proof (cases "(off, n, tm) = (off', n', tm')")
    case True
    have "grants_ok lo hi gs" using 2(2) grants_ok_weaken by auto
    with True show ?thesis by auto
  next
    case False
    with 2(3) have mem: "(off, n, tm) \<in> set gs" by auto
    from 2(2) have ok: "grants_ok (unat off' + unat n') hi gs" by simp
    from grants_ok_mem [OF ok mem] 2(2) have "off' \<noteq> off" by auto
    with 2(1) [OF ok mem] 2(2) show ?thesis by (auto simp: add.left_commute)
  qed
qed simp

lemma take_grant_skip:
  "off' \<noteq> off \<Longrightarrow> take_grant off gs = Inr (g, gs') \<Longrightarrow>
   take_grant off ((off', x) # gs) = Inr (g, (off', x) # gs')"
  by simp

lemma getBytesOnWire_request: "getBytesOnWire n REQUEST = getBytesOnWire n UNSCHED_DATA"
  by (simp add: getBytesOnWire_def)

lemma unat_u32_less: "unat (w :: u32) < 4294967296"
  using unsigned_less [of w, where 'a = nat] by simp

lemma unat_u16_less: "unat (w :: u16) < 65536"
  using unsigned_less [of w, where 'a = nat] by simp

lemma word_of_unat: "unat (w :: 'a::len word) = k \<Longrightarrow> w = of_nat k"
  by auto

lemma unat_sub_of_nat: "k \<le> unat w \<Longrightarrow> unat ((w :: u32) - of_nat k) = unat w - k"
proof -
  assume k: "k \<le> unat w"
  then have u: "unat (of_nat k :: u32) = k"
    using unat_u32_less [of w] by (simp add: unsigned_of_nat take_bit_nat_eq_self)
  with k have "(of_nat k :: u32) \<le> w" by (simp only: word_le_nat_alt)
  then show ?thesis using u by (simp only: unat_sub)
qed

lemma take_unsched_ok:
  assumes n: "unat n = s" and k: "k \<le> s"
  shows "take_unsched (of_nat k) ((0, n, tm) # gs) =
     Inr (if s = k then gs else (0, of_nat (s - k), tm) # gs)"
proof -
  have s: "s < 65536" using n unat_u16_less [of n] by simp
  have uk: "unat (of_nat k :: u32) = k" using k s by (simp add: unsigned_of_nat take_bit_nat_eq_self)
  have n': "n - ucast (of_nat k :: u32) = of_nat (s - k)"
  proof -
    have "unat (ucast (of_nat k :: u32) :: u16) = k"
      using k s uk by (simp add: unsigned_ucast_eq take_bit_nat_eq_self)
    then have c: "(ucast (of_nat k :: u32) :: u16) = of_nat k" by (rule word_of_unat)
    have "n = of_nat s" using n by auto
    then show ?thesis using k by (simp add: c of_nat_diff)
  qed
  have z: "(of_nat (s - k) :: u16) = 0 \<longleftrightarrow> s = k"
  proof -
    have "unat (of_nat (s - k) :: u16) = s - k"
      using s by (subst unsigned_of_nat) (simp add: take_bit_nat_eq_self)
    then show ?thesis using k by (metis diff_diff_cancel diff_self_eq_0 diff_zero unat_eq_zero)
  qed
  have "(of_nat k :: u32) \<le> ucast n" using uk n k by (simp add: word_le_nat_alt)
  then show ?thesis unfolding take_unsched_def by (simp only: Let_def list.case prod.case n' z assertion_True rbind_Inr if_distrib [of Inr] simp_thms)
qed

lemma fillinRxBytes_unsched:
  assumes inv: "im_inv P im" and k: "k \<in># P" and t: "t = UNSCHED_DATA \<or> t = REQUEST"
    and bytes: "byteEnd - byteStart + 1 = of_nat k"
  shows "\<exists>im'. fillinRxBytes cur byteStart byteEnd t im tr outst = Inr (im', tr, outst) \<and>
     im_inv (P - {#k#}) im' \<and> sched_grants (P - {#k#}) im' = sched_grants P im \<and>
     im_static im' = im_static im \<and> im_granting im' = im_granting im"
proof -
  from k obtain Q where P: "P = add_mset k Q" by (metis insert_DiffM)
  have ne: "P \<noteq> {#}" using k by auto
  with inv obtain n tm gs where g: "im_inflightGrants im = (0, n, tm) # gs" "unat n = k + sum_mset Q"
    unfolding im_inv_def P by (cases "im_inflightGrants im") auto
  have gs: "sched_grants P im = gs" using ne g by (simp add: sched_grants_def)
  have z: "sum_mset Q = 0 \<longleftrightarrow> Q = {#}"
  proof
    assume "sum_mset Q = 0"
    then have "\<forall>x \<in># Q. x = 0" by simp
    with inv show "Q = {#}" unfolding im_inv_def P by (cases "Q") auto
  qed simp
  let ?gs' = "if Q = {#} then gs else (0, of_nat (sum_mset Q), tm) # gs"
  have take: "take_unsched (of_nat k) (im_inflightGrants im) = Inr ?gs'"
    using take_unsched_ok [OF g(2), of k tm gs] z g(1) by auto
  let ?w = "getBytesOnWire (of_nat k) UNSCHED_DATA"
  let ?im' = "im\<lparr>im_inflightGrants := ?gs', im_bytesToReceive := im_bytesToReceive im - of_nat k,
     im_totalBytesInFlight := im_totalBytesInFlight im - ?w,
     im_totalBytesOnWire := im_totalBytesOnWire im + ?w\<rparr>"
  have r: "fillinRxBytes cur byteStart byteEnd t im tr outst = Inr (?im', tr, outst)"
    using t by (auto simp: fillinRxBytes_def bytes take getBytesOnWire_request Let_def)
  have gs': "sched_grants Q ?im' = gs" by (simp add: sched_grants_def)
  have "unat (im_bytesToReceive im) = unat (im_bytesToGrant im) + granted_sum gs + (k + sum_mset Q)"
    using inv unfolding im_inv_def gs by (simp add: P)
  then have btr: "unat (im_bytesToReceive im - of_nat k) =
      unat (im_bytesToGrant im) + granted_sum gs + sum_mset Q"
    by (subst unat_sub_of_nat) simp_all
  have "sum_mset Q < 65536" using g(2) unat_u16_less [of n] by simp
  then have u: "unat (of_nat (sum_mset Q) :: u16) = sum_mset Q"
    by (simp add: unsigned_of_nat take_bit_nat_eq_self del: of_nat_sum_mset)
  have inv': "im_inv Q ?im'"
    using inv unfolding im_inv_def gs gs' using btr u by (auto simp: P)
  show ?thesis
    by (rule exI [of _ ?im']) (use r inv' gs' gs in \<open>simp add: P im_static_def im_granting_def\<close>)
qed

lemma grants_ok_hi: "grants_ok lo hi gs \<Longrightarrow> lo \<le> hi"
  using grants_ok_le by fastforce

lemma fillinRxBytes_sched:
  assumes inv: "im_inv P im" and mem: "(off, n, tm) \<in> set (sched_grants P im)"
    and bytes: "byteEnd - off + 1 = ucast n" and tr: "rtts_ok tr" and tm: "tm < cur"
  shows "\<exists>im' tr'. fillinRxBytes cur off byteEnd SCHED_DATA im tr outst =
       Inr (im', tr', outst - getBytesOnWire (ucast n) SCHED_DATA) \<and>
     im_inv P im' \<and> rtts_ok tr' \<and> set (sched_grants P im') \<subseteq> set (sched_grants P im) \<and>
     granted_wire (sched_grants P im) =
       getBytesOnWire (ucast n) SCHED_DATA + granted_wire (sched_grants P im') \<and>
     granted_sum (sched_grants P im') < granted_sum (sched_grants P im) \<and>
     im_static im' = im_static im \<and> im_granting im' = im_granting im"
proof -
  define gs where "gs = sched_grants P im"
  have ok: "grants_ok (unat (im_totalUnschedBytes im)) (unat (im_offset im)) gs"
    using inv unfolding im_inv_def gs_def by blast
  from take_grant_ok [OF ok mem [folded gs_def]] obtain gs' where
    gs': "take_grant off gs = Inr ((off, n, tm), gs')"
      "grants_ok (unat (im_totalUnschedBytes im)) (unat (im_offset im)) gs'"
      "granted_sum gs = unat n + granted_sum gs'"
      "granted_wire gs = getBytesOnWire (ucast n) SCHED_DATA + granted_wire gs'"
      "set gs' \<subseteq> set gs" by blast
  from grants_ok_mem [OF ok mem [folded gs_def]]
  have pos: "unat (im_totalUnschedBytes im) \<le> unat off" "0 < unat n" by simp_all
  have "unat (im_totalUnschedBytes im) + granted_sum gs \<le> unat (im_offset im)"
    using ok by (rule grants_ok_le)
  moreover have F: "unat (im_offset im) \<le> unat (im_msgSize im)"
    using inv unfolding im_inv_def by linarith
  ultimately have "0 < unat (im_msgSize im)" using gs'(3) pos(2) by linarith
  then have "im_totalUnschedBytes im \<noteq> 0" using inv unfolding im_inv_def by auto
  then have "0 < unat (im_totalUnschedBytes im)" by (simp add: unat_gt_0)
  with pos have off: "off \<noteq> 0" by auto
  define infl where "infl = (if P = {#} then gs' else hd (im_inflightGrants im) # gs')"
  have take: "take_grant off (im_inflightGrants im) = Inr ((off, n, tm), infl)"
  proof (cases "P = {#}")
    case True
    then show ?thesis using gs'(1) by (simp add: gs_def sched_grants_def infl_def)
  next
    case False
    with inv obtain x where x: "im_inflightGrants im = (0, x) # gs"
      unfolding im_inv_def gs_def sched_grants_def by (cases "im_inflightGrants im") auto
    have "take_grant off ((0, x) # gs) = Inr ((off, n, tm), (0, x) # gs')"
      by (rule take_grant_skip [OF _ gs'(1)]) (use off in simp)
    then show ?thesis by (simp add: x infl_def False)
  qed
  let ?n = "ucast n :: u32"
  let ?w = "getBytesOnWire ?n SCHED_DATA"
  have n0: "0 < ?n" using pos(2) by (simp add: word_less_nat_alt)
  obtain tr' where tr': "(if ?w = maxEthFrameSize then updateRTTSample (im_srcAddr im) (cur - tm) tr
      else Inr tr) = Inr tr'" "rtts_ok tr'"
  proof -
    obtain t' where "updateRTTSample (im_srcAddr im) (cur - tm) tr = Inr t'" "rtts_ok t'"
      using updateRTTSample_ok [OF tr, of "cur - tm" "im_srcAddr im"] tm by auto
    then show ?thesis using tr that by (cases "?w = maxEthFrameSize") simp_all
  qed
  let ?im' = "im\<lparr>im_inflightGrants := infl, im_bytesToReceive := im_bytesToReceive im - ?n,
     im_totalBytesInFlight := im_totalBytesInFlight im - ?w,
     im_totalBytesOnWire := im_totalBytesOnWire im + ?w,
     im_bytesGrantedInFlight := im_bytesGrantedInFlight im - ?n\<rparr>"
  have r: "fillinRxBytes cur off byteEnd SCHED_DATA im tr outst = Inr (?im', tr', outst - ?w)"
    using n0 tr'(1) by (cases "?w = maxEthFrameSize") (simp_all add: fillinRxBytes_def bytes take Let_def)
  have sg: "sched_grants P ?im' = gs'" by (simp add: sched_grants_def infl_def)
  have nn: "?n = of_nat (unat n)" by simp
  have 1: "unat (im_bytesGrantedInFlight im) = granted_sum gs"
    "unat (im_bytesToReceive im) = unat (im_bytesToGrant im) + granted_sum gs + sum_mset P"
    using inv unfolding im_inv_def gs_def by blast+
  have "unat n \<le> unat (im_bytesGrantedInFlight im)" using 1(1) gs'(3) by linarith
  then have b: "unat (im_bytesGrantedInFlight im - ?n) = granted_sum gs'"
    using 1(1) gs'(3) unfolding nn by (subst unat_sub_of_nat) linarith+
  have "unat n \<le> unat (im_bytesToReceive im)" using 1(2) gs'(3) by linarith
  then have c: "unat (im_bytesToReceive im - ?n) =
      unat (im_bytesToGrant im) + granted_sum gs' + sum_mset P"
    using 1(2) gs'(3) unfolding nn by (subst unat_sub_of_nat) linarith+
  have d: "im_totalBytesInFlight im - ?w = unsched_wire P + granted_wire gs'"
    using inv gs'(4) unfolding im_inv_def gs_def by simp
  have e: "P \<noteq> {#} \<longrightarrow> infl \<noteq> [] \<and> hd infl = hd (im_inflightGrants im)"
    by (simp add: infl_def)
  have inv': "im_inv P ?im'"
    using inv gs'(2,5) b c d e unfolding im_inv_def sg gs_def [symmetric] by (simp, blast)
  show ?thesis
    by (intro exI [of _ ?im'] exI [of _ tr'])
      (use r inv' tr' sg gs'(3-5) pos(2) in \<open>simp add: gs_def [symmetric] im_static_def im_granting_def\<close>)
qed

lemma prepareGrant_inv:
  assumes inv: "im_inv P im" and n: "0 < unat n" "unat n \<le> unat (im_bytesToGrant im)"
    and cur: "im_lastGrantTime im \<le> cur" and head: "P = {#} \<or> im_inflightGrants im \<noteq> []"
  shows "\<exists>pkt im'. prepareGrant cur n prio im outst =
       Inr (pkt, im', outst + getBytesOnWire (ucast n) SCHED_DATA) \<and> im_inv P im' \<and>
     sched_grants P im' = sched_grants P im @ [(im_offset im, n, cur)] \<and>
     pkt_type pkt = GRANT \<and> gf_offset (pkt_grant pkt) = im_offset im \<and>
     gf_grantBytes (pkt_grant pkt) = n \<and> gf_schedPrio (pkt_grant pkt) = prio \<and>
     pkt_msgId pkt = im_msgIdAtSender im \<and> pkt_destAddr pkt = im_srcAddr im \<and>
     im_bytesToGrant im' = im_bytesToGrant im - ucast n \<and>
     im_static im' = im_static im \<and> im_lastGrantTime im' = cur"
proof -
  define gs where "gs = sched_grants P im"
  let ?n = "ucast n :: u32"
  let ?w = "getBytesOnWire ?n SCHED_DATA"
  have nn: "?n = of_nat (unat n)" by simp
  have FG: "unat (im_offset im) + unat (im_bytesToGrant im) = unat (im_msgSize im)"
    and ok: "grants_ok (unat (im_totalUnschedBytes im)) (unat (im_offset im)) gs"
    and b: "unat (im_bytesGrantedInFlight im) = granted_sum gs"
    using inv unfolding im_inv_def gs_def by blast+
  have G': "unat (im_bytesToGrant im - ?n) = unat (im_bytesToGrant im) - unat n"
    using n unfolding nn by (rule_tac unat_sub_of_nat)
  have "unat (im_offset im) + unat ?n < 2 ^ LENGTH(32)"
    using FG n unat_u32_less [of "im_msgSize im"] by simp
  then have "unat (im_offset im + ?n) = unat (im_offset im) + unat ?n"
    by (simp only: unat_add_lem)
  then have F': "unat (im_offset im + ?n) = unat (im_offset im) + unat n" by simp
  have "granted_sum gs \<le> unat (im_offset im)" using grants_ok_le [OF ok] by linarith
  then have "unat (im_bytesGrantedInFlight im) + unat ?n < 2 ^ LENGTH(32)"
    using b FG n unat_u32_less [of "im_msgSize im"] by simp
  then have "unat (im_bytesGrantedInFlight im + ?n) = unat (im_bytesGrantedInFlight im) + unat ?n"
    by (simp only: unat_add_lem)
  then have b': "unat (im_bytesGrantedInFlight im + ?n) = granted_sum gs + unat n"
    by (simp add: b)
  have S: "im_msgSize im = im_offset im + im_bytesToGrant im"
    using FG by (metis of_nat_add of_nat_unat ucast_id)
  let ?im' = "im\<lparr>im_inflightGrants := im_inflightGrants im @ [(im_offset im, n, cur)],
     im_bytesToGrant := im_bytesToGrant im - ?n, im_offset := im_offset im + ?n,
     im_schedBytesOnWire := im_schedBytesOnWire im + ?w,
     im_bytesGrantedInFlight := im_bytesGrantedInFlight im + ?n, im_lastGrantTime := cur,
     im_totalBytesInFlight := im_totalBytesInFlight im + ?w\<rparr>"
  have sg: "sched_grants P ?im' = gs @ [(im_offset im, n, cur)]"
    using head by (auto simp: sched_grants_def gs_def)
  have ok': "grants_ok (unat (im_totalUnschedBytes im)) (unat (im_offset im + ?n))
      (gs @ [(im_offset im, n, cur)])"
    by (rule grants_ok_snoc [OF ok n(1) refl F' [symmetric]])
  have lt: "unat (im_totalUnschedBytes im) \<le> unat (im_offset im)" using ok by (rule grants_ok_hi)
  have infl: "P \<noteq> {#} \<longrightarrow> im_inflightGrants im \<noteq> [] \<and>
      hd (im_inflightGrants im @ [(im_offset im, n, cur)]) = hd (im_inflightGrants im)"
    using head by auto
  have tms: "\<forall>(off, m, tm) \<in> set (gs @ [(im_offset im, n, cur)]). tm \<le> cur"
    using inv cur unfolding im_inv_def gs_def by fastforce
  have inv': "im_inv P ?im'"
    using inv ok' infl tms F' G' b' n FG lt cur
    unfolding im_inv_def sg gs_def [symmetric] by simp
  define gp where "gp = (new_pkt cur GRANT)\<lparr>pkt_grant := empty_grant\<lparr>gf_offset := im_offset im,
      gf_grantBytes := n, gf_schedPrio := prio\<rparr>, pkt_destAddr := im_srcAddr im,
    pkt_srcAddr := im_destAddr im, pkt_msgId := im_msgIdAtSender im\<rparr>"
  define pkt where "pkt = gp\<lparr>pkt_byteLength := headerSize gp, pkt_priority := 0\<rparr>"
  have r: "prepareGrant cur n prio im outst = Inr (pkt, ?im', outst + ?w)"
    unfolding prepareGrant_def pkt_def gp_def by (simp add: S Let_def)
  have pkt: "pkt_type pkt = GRANT" "pkt_grant pkt = empty_grant\<lparr>gf_offset := im_offset im,
      gf_grantBytes := n, gf_schedPrio := prio\<rparr>" "pkt_msgId pkt = im_msgIdAtSender im"
    "pkt_destAddr pkt = im_srcAddr im"
    by (simp_all add: pkt_def gp_def new_pkt_def)
  show ?thesis
    by (rule exI [of _ pkt], rule exI [of _ ?im']) (use r inv' sg in \<open>simp add: pkt gs_def im_static_def\<close>)
qed

text \<open>The message a first packet makes, and the end of a message.\<close>

definition unsched_parts :: "unsched_fields \<Rightarrow> nat multiset \<Rightarrow> bool" where
  "unsched_parts f P \<longleftrightarrow> P \<noteq> {#} \<and> sum_mset P = unat (uf_totalUnschedBytes f) \<and>
     unat (uf_totalUnschedBytes f) \<le> unat (uf_msgByteLen f) \<and> (0 \<in># P \<longrightarrow> P = {#0#}) \<and>
     (uf_totalUnschedBytes f = 0 \<longrightarrow> uf_msgByteLen f = 0) \<and>
     unsched_wire P = getBytesOnWire (ucast (uf_totalUnschedBytes f)) UNSCHED_DATA"

lemma InboundMessage_inv:
  assumes "pkt_type p = REQUEST \<or> pkt_type p = UNSCHED_DATA" and parts: "unsched_parts (pkt_unsched p) P"
  shows "\<exists>im. InboundMessage c cur p = Inr im \<and> im_inv P im \<and> sched_grants P im = [] \<and>
     im_inflightGrants im \<noteq> [] \<and> im_msgSize im = uf_msgByteLen (pkt_unsched p) \<and>
     im_lastGrantTime im = cur \<and> im_reqArrivalTime im = cur \<and> im_srcAddr im = pkt_srcAddr p \<and>
     im_msgIdAtSender im = pkt_msgId p \<and>
     im_totalUnschedBytes im = uf_totalUnschedBytes (pkt_unsched p) \<and>
     im_bytesToGrant im = uf_msgByteLen (pkt_unsched p) - ucast (uf_totalUnschedBytes (pkt_unsched p))"
proof -
  define f where "f = pkt_unsched p"
  let ?U = "uf_totalUnschedBytes f"
  from assms(1) have "\<exists>im. InboundMessage c cur p = Inr im \<and> im_offset im = ucast ?U \<and>
      im_msgSize im = uf_msgByteLen f \<and> im_bytesToReceive im = uf_msgByteLen f \<and>
      im_bytesToGrant im = uf_msgByteLen f - ucast ?U \<and> im_bytesGrantedInFlight im = 0 \<and>
      im_totalBytesInFlight im = getBytesOnWire (ucast ?U) UNSCHED_DATA \<and>
      im_totalUnschedBytes im = ?U \<and> im_reqArrivalTime im = cur \<and> im_lastGrantTime im = cur \<and>
      (\<exists>t. im_inflightGrants im = [(0, ?U, t)]) \<and> im_srcAddr im = pkt_srcAddr p \<and>
      im_msgIdAtSender im = pkt_msgId p"
    unfolding InboundMessage_def Let_def f_def if_P [OF assms(1)] by simp
  then obtain im t where im: "InboundMessage c cur p = Inr im" "im_offset im = ucast ?U"
      "im_msgSize im = uf_msgByteLen f" "im_bytesToReceive im = uf_msgByteLen f"
      "im_bytesToGrant im = uf_msgByteLen f - ucast ?U" "im_bytesGrantedInFlight im = 0"
      "im_totalBytesInFlight im = getBytesOnWire (ucast ?U) UNSCHED_DATA"
      "im_totalUnschedBytes im = ?U" "im_reqArrivalTime im = cur" "im_lastGrantTime im = cur"
      "im_inflightGrants im = [(0, ?U, t)]" "im_srcAddr im = pkt_srcAddr p"
      "im_msgIdAtSender im = pkt_msgId p"
    by blast
  have le: "(ucast ?U :: u32) \<le> uf_msgByteLen f"
    using parts by (simp add: unsched_parts_def word_le_nat_alt f_def)
  then have s: "unat (uf_msgByteLen f - ucast ?U) = unat (uf_msgByteLen f) - unat ?U"
    by (simp add: unat_sub)
  from le have le': "unat ?U \<le> unat (uf_msgByteLen f)" by (simp add: word_le_nat_alt)
  have P: "P \<noteq> {#}" "sum_mset P = unat ?U" "0 \<in># P \<longrightarrow> P = {#0#}"
    "?U = 0 \<longrightarrow> uf_msgByteLen f = 0" "unsched_wire P = getBytesOnWire (ucast ?U) UNSCHED_DATA"
    using parts unfolding unsched_parts_def f_def by blast+
  have sg: "sched_grants P im = []" using P(1) im by (simp add: sched_grants_def)
  have "im_inv P im"
    unfolding im_inv_def sg using im P s le' by simp
  with im sg show ?thesis by (intro exI [of _ im]) (simp add: f_def)
qed

lemma granted_sum_0: "grants_ok lo hi gs \<Longrightarrow> granted_sum gs = 0 \<longleftrightarrow> gs = []"
  by (cases gs) auto

lemma im_complete_iff:
  assumes "im_inv P im"
  shows "im_bytesToReceive im = 0 \<longleftrightarrow>
     im_bytesToGrant im = 0 \<and> sched_grants P im = [] \<and> (P = {#} \<or> P = {#0#})"
proof -
  have btr: "unat (im_bytesToReceive im) =
       unat (im_bytesToGrant im) + granted_sum (sched_grants P im) + sum_mset P"
    and ok: "grants_ok (unat (im_totalUnschedBytes im)) (unat (im_offset im)) (sched_grants P im)"
    and z: "0 \<in># P \<longrightarrow> P = {#0#}"
    using assms unfolding im_inv_def by blast+
  have "sum_mset P = 0 \<longleftrightarrow> P = {#} \<or> P = {#0#}"
  proof
    assume "sum_mset P = 0"
    then have "\<forall>x \<in># P. x = 0" by simp
    with z show "P = {#} \<or> P = {#0#}" by (cases P) auto
  qed auto
  moreover have "im_bytesToReceive im = 0 \<longleftrightarrow> unat (im_bytesToReceive im) = 0"
    and "im_bytesToGrant im = 0 \<longleftrightarrow> unat (im_bytesToGrant im) = 0"
    by (simp_all only: unat_eq_zero)
  ultimately show ?thesis using btr granted_sum_0 [OF ok] by simp
qed

lemma prepareRxMsgForApp_ok:
  assumes inv: "im_inv P im" and fin: "im_bytesToReceive im = 0"
  shows "\<exists>m. prepareRxMsgForApp c im = Inr m \<and> app_byteLength m = im_msgSize im \<and>
     app_srcAddr m = im_srcAddr im \<and> app_destAddr m = im_destAddr im \<and>
     app_isEcho m = im_isEcho im \<and> app_msgCreationTime m = im_msgCreationTime im \<and>
     app_msgBytesOnWire m = im_totalBytesOnWire im"
proof -
  have g: "im_bytesToGrant im = 0" using inv fin by (simp add: im_complete_iff)
  have FG: "unat (im_offset im) + unat (im_bytesToGrant im) = unat (im_msgSize im)"
    and ok: "grants_ok (unat (im_totalUnschedBytes im)) (unat (im_offset im)) (sched_grants P im)"
    and le: "im_reqArrivalTime im \<le> im_lastGrantTime im"
    and eq: "unat (im_offset im) = unat (im_totalUnschedBytes im) \<longrightarrow>
        im_lastGrantTime im = im_reqArrivalTime im"
    using inv unfolding im_inv_def by blast+
  have U: "unat (im_totalUnschedBytes im) \<le> unat (im_offset im)" using ok by (rule grants_ok_hi)
  show ?thesis
  proof (cases "ucast (im_totalUnschedBytes im) \<ge> im_msgSize im")
    case True
    then have "unat (im_msgSize im) \<le> unat (im_totalUnschedBytes im)"
      by (simp add: word_le_nat_alt)
    with U FG have "unat (im_offset im) = unat (im_totalUnschedBytes im)" by linarith
    with eq have "im_reqArrivalTime im = im_lastGrantTime im" by simp
    with True g fin show ?thesis unfolding prepareRxMsgForApp_def Let_def by simp
  next
    case False
    with g fin le show ?thesis unfolding prepareRxMsgForApp_def Let_def by simp
  qed
qed

section \<open>Sequences of samples\<close>

fun record_samples :: "(u32 \<times> simtime) list \<Rightarrow> track_rtts \<Rightarrow> track_rtts res" where
  "record_samples [] t = Inr t"
| "record_samples ((ip, v) # xs) t = rbind (updateRTTSample ip v t) (record_samples xs)"

lemma record_samples_ok:
  assumes "rtts_ok t" and "\<forall>(ip, v) \<in> set xs. 0 < v"
  shows "\<exists>t'. record_samples xs t = Inr t' \<and> rtts_ok t' \<and>
     (\<forall>ip. map_of (sendersRTT t') ip =
        (let vs = set_option (map_of (sendersRTT t) ip) \<union> {v. (ip, v) \<in> set xs}
         in if vs = {} then None else Some (Min vs)))"
  using assms
proof (induction xs arbitrary: t)
  case Nil
  then show ?case by (auto simp: Let_def split: option.splits)
next
  case (Cons e xs)
  obtain ip v where e: "e = (ip, v)" by (cases e)
  from Cons.prems e have "0 < v" by simp
  from updateRTTSample_ok [OF Cons.prems(1) this, of ip] obtain t1 where
    t1: "updateRTTSample ip v t = Inr t1" "rtts_ok t1"
      "map_of (sendersRTT t1) ip = Some (case map_of (sendersRTT t) ip of None \<Rightarrow> v | Some w \<Rightarrow> min v w)"
      "\<And>ip'. ip' \<noteq> ip \<Longrightarrow> map_of (sendersRTT t1) ip' = map_of (sendersRTT t) ip'" by auto
  from Cons.prems(2) have "\<forall>(ip, v) \<in> set xs. 0 < v" by simp
  from Cons.IH [OF t1(2) this] obtain t' where
    t': "record_samples xs t1 = Inr t'" "rtts_ok t'"
      "\<And>ip. map_of (sendersRTT t') ip =
        (let vs = set_option (map_of (sendersRTT t1) ip) \<union> {v. (ip, v) \<in> set xs}
         in if vs = {} then None else Some (Min vs))" by auto
  have fin: "finite {v. (i, v) \<in> set xs}" for i
    by (rule finite_subset [of _ "snd ` set xs"]) force+
  have "map_of (sendersRTT t') i =
        (let vs = set_option (map_of (sendersRTT t) i) \<union> {v. (i, v) \<in> set (e # xs)}
         in if vs = {} then None else Some (Min vs))" for i
  proof (cases "i = ip")
    case False
    then have "{w. (i, w) \<in> set (e # xs)} = {w. (i, w) \<in> set xs}" by (auto simp: e)
    then show ?thesis using t'(3) [of i] t1(4) [OF False] by simp
  next
    case True
    have s: "{w. (ip, w) \<in> set (e # xs)} = insert v {w. (ip, w) \<in> set xs}" by (auto simp: e)
    show ?thesis
    proof (cases "map_of (sendersRTT t) ip")
      case None
      with t'(3) [of ip] t1(3) show ?thesis by (simp only: True s Let_def) simp
    next
      case (Some w)
      have "Min (insert (min v w) {w. (ip, w) \<in> set xs}) = Min (insert w (insert v {w. (ip, w) \<in> set xs}))"
        using fin [of ip] by (cases "{w. (ip, w) \<in> set xs} = {}") (simp_all add: Min_insert min.assoc min.left_commute)
      with t'(3) [of ip] t1(3) Some show ?thesis
        by (simp only: True s Let_def) (simp add: insert_commute)
    qed
  qed
  with t1(1) t'(1,2) show ?case by (intro exI [of _ t']) (simp add: e)
qed

text \<open>
  C11: After any sequence of positive samples the smallest one of every sender is recorded, for the
  senders that reported one and for no other, and the recorded maximum is the largest of these
  smallest samples and belongs to the sender it names.
\<close>

theorem updateRTTSample_minima:
  assumes "\<forall>(ip, v) \<in> set xs. 0 < v"
  shows "\<exists>t. record_samples xs TrackRTTs = Inr t \<and>
     (\<forall>ip. map_of (sendersRTT t) ip =
        (if ip \<in> fst ` set xs then Some (Min {v. (ip, v) \<in> set xs}) else None)) \<and>
     (xs \<noteq> [] \<longrightarrow> map_of (sendersRTT t) (fst (maxRTT t)) = Some (snd (maxRTT t)) \<and>
        (\<forall>ip v. map_of (sendersRTT t) ip = Some v \<longrightarrow> v \<le> snd (maxRTT t)))"
proof -
  from record_samples_ok [OF rtts_ok_init assms] obtain t where
    t: "record_samples xs TrackRTTs = Inr t" "rtts_ok t"
      "\<And>ip. map_of (sendersRTT t) ip =
        (let vs = set_option (map_of (sendersRTT TrackRTTs) ip) \<union> {v. (ip, v) \<in> set xs}
         in if vs = {} then None else Some (Min vs))" by blast
  have m: "map_of (sendersRTT t) ip =
        (if ip \<in> fst ` set xs then Some (Min {v. (ip, v) \<in> set xs}) else None)" for ip
    using t(3) [of ip] by (force simp: TrackRTTs_def Let_def)
  have "sendersRTT t \<noteq> []" if "xs \<noteq> []"
  proof -
    from that have "map_of (sendersRTT t) (fst (hd xs)) \<noteq> None" by (simp add: m)
    then show ?thesis by auto
  qed
  with t(1,2) m show ?thesis by (intro exI [of _ t]) (auto simp: rtts_ok_def)
qed

lemma updateRTTSample_minima_witness:
  "\<exists>t. record_samples [(1, 9), (2, 5), (1, 3)] TrackRTTs = Inr t \<and>
     map_of (sendersRTT t) 1 = Some 3 \<and> map_of (sendersRTT t) 7 = None"
proof -
  have "{v. (1, v) \<in> set [(1 :: u32, 9 :: simtime), (2, 5), (1, 3)]} = {9, 3}" by auto
  with updateRTTSample_minima [of "[(1, 9), (2, 5), (1, 3)]"] show ?thesis by auto
qed

end
