(* ===== verification/SchedSenders.thy ===== *)
theory SchedSenders
  imports InboundMessage
begin

text \<open>
  \<open>HomaTransport::ReceiveScheduler::SchedSenders\<close>: the list of the senders that wait for grants,
  ranked by their preferred message.  The operations read the states of the senders in
  \<open>ipSendersMap\<close>, and \<open>remove\<close> and \<open>removeAt\<close> write \<open>lastIdx\<close> there, so they take and
  return this map beside the list.  A sender is its address.
\<close>

type_synonym sender_map = "(u32 \<times> sender_state) list"

section \<open>The order of the senders\<close>

text \<open>\<open>*mesgsToGrant.begin()\<close>: nothing for an empty set, where the source follows an end pointer.\<close>

definition top_mesg :: "sender_state \<Rightarrow> inbound_msg option" where
  "top_mesg st =
     (case ss_mesgsToGrant st of [] \<Rightarrow> None | i # _ \<Rightarrow> map_of (ss_incompleteMesgs st) i)"

definition CompSched :: "sender_state option \<Rightarrow> sender_state option \<Rightarrow> bool" where
  "CompSched lhs rhs =
     (case (lhs, rhs) of
        (None, None) \<Rightarrow> False
      | (None, Some _) \<Rightarrow> True
      | (Some _, None) \<Rightarrow> False
      | (Some l, Some r) \<Rightarrow>
          (case (top_mesg l, top_mesg r) of
             (Some a, Some b) \<Rightarrow> CompareBytesToGrant a b
           | _ \<Rightarrow> False))"

definition cmp_sched :: "sender_map \<Rightarrow> u32 option \<Rightarrow> u32 option \<Rightarrow> bool" where
  "cmp_sched m a b = CompSched (Option.bind a (map_of m)) (Option.bind b (map_of m))"

section \<open>Operations\<close>

text \<open>The range from \<open>headIt\<close> to \<open>lastIt\<close>.\<close>

definition sched_range :: "sched_senders \<Rightarrow> u32 option list" where
  "sched_range l = take (numSenders l) (drop (headIdx l) (senders l))"

text \<open>
  The lines \<open>remove\<close> and \<open>removeAt\<close> share: the entry at \<open>ind\<close> is gone, and a gap is left in
  its place when it was the head and enough levels stay for the senders that are granted.
\<close>

definition drop_entry :: "nat \<Rightarrow> sched_senders \<Rightarrow> sched_senders" where
  "drop_entry ind l =
     (let n = numSenders l - 1
      in if ind = headIdx l \<and> ind + min n (numToGrant l) < schedPrios l
         then l\<lparr>numSenders := n, senders := (senders l)[ind := None], headIdx := headIdx l + 1\<rparr>
         else l\<lparr>numSenders := n, senders := take ind (senders l) @ drop (Suc ind) (senders l)\<rparr>)"

definition sched_remove ::
    "u32 \<Rightarrow> sender_map \<Rightarrow> sched_senders \<Rightarrow> (int \<times> sender_map \<times> sched_senders) res" where
  "sched_remove s m l =
     rbind (of_option NullPointer (map_of m s)) (\<lambda>st.
     if numSenders l = 0 then
       rbind (assertion (ss_mesgsToGrant st = [])) (\<lambda>_.
       Inr (-1, m, l\<lparr>senders := replicate (schedPrios l) None, headIdx := schedPrios l\<rparr>))
     else if ss_mesgsToGrant st = [] then Inr (-1, m, l)
     else
       let range = sched_range l;
           k = lower_bound (cmp_sched m) range (Some s);
           ind = headIdx l + k
       in if k < length range \<and> \<not> cmp_sched m (range ! k) (Some s) \<and>
             \<not> cmp_sched m (Some s) (range ! k)
          then rbind (assertion (range ! k = Some s)) (\<lambda>_.
               Inr (int ind, al_put s (st\<lparr>ss_lastIdx := ind\<rparr>) m, drop_entry ind l))
          else Inl RuntimeError)"

definition sched_removeAt ::
    "int \<Rightarrow> sender_map \<Rightarrow> sched_senders \<Rightarrow> (u32 option \<times> sender_map \<times> sched_senders) res" where
  "sched_removeAt rmIdx m l =
     (if rmIdx < int (headIdx l) \<or> rmIdx \<ge> int (headIdx l + numSenders l) then Inr (None, m, l)
      else
        let ind = nat rmIdx
        in if ind \<ge> length (senders l) then Inl OutOfRange
           else case senders l ! ind of
                  None \<Rightarrow> Inl AssertFailed
                | Some s \<Rightarrow>
                    rbind (of_option NullPointer (map_of m s)) (\<lambda>st.
                    Inr (Some s, al_put s (st\<lparr>ss_lastIdx := ind\<rparr>) m, drop_entry ind l)))"

text \<open>The triple of the index to insert at, the index of the head and the number of senders.\<close>

definition insPoint :: "u32 \<Rightarrow> sender_map \<Rightarrow> sched_senders \<Rightarrow> (int \<times> int \<times> int) res" where
  "insPoint s m l =
     rbind (of_option NullPointer (map_of m s)) (\<lambda>st.
     if ss_mesgsToGrant st = [] then Inr (-1, int (headIdx l), int (numSenders l))
     else
       let insIdx = headIdx l + upper_bound (cmp_sched m) (sched_range l) (Some s);
           hIdx = headIdx l
       in rbind
         (if insIdx = hIdx \<and> insIdx > 0 \<and> insIdx \<noteq> ss_lastIdx st then
            if hIdx - 1 \<ge> length (senders l) then Inl OutOfRange
            else rbind (assertion (senders l ! (hIdx - 1) = None)) (\<lambda>_.
                 Inr (insIdx - 1, hIdx - 1))
          else Inr (insIdx, hIdx)) (\<lambda>(insIdx, hIdx).
         let numSxAfterIns = numSenders l + 1;
             leftShift = int (min numSxAfterIns (min (numToGrant l) (schedPrios l))) -
               (int (schedPrios l) - int hIdx)
         in if leftShift > 0 then
              if int hIdx < leftShift \<or> int hIdx - leftShift \<ge> int (length (senders l))
              then Inl OutOfRange
              else rbind (assertion (senders l ! nat (int hIdx - leftShift) = None)) (\<lambda>_.
                   Inr (int insIdx - leftShift, int hIdx - leftShift, int numSxAfterIns))
            else Inr (int insIdx, int hIdx, int numSxAfterIns)))"

definition sched_insert :: "u32 \<Rightarrow> sender_map \<Rightarrow> sched_senders \<Rightarrow> sched_senders res" where
  "sched_insert s m l =
     rbind (of_option NullPointer (map_of m s)) (\<lambda>st.
     rbind (assertion (ss_mesgsToGrant st \<noteq> [])) (\<lambda>_.
     rbind (insPoint s m l) (\<lambda>(insIdx, newHeadIdx, _).
     rbind (assertion (list_all (\<lambda>x. x = None) (take (headIdx l - 1) (senders l)))) (\<lambda>_.
     rbind (assertion (newHeadIdx \<le> int (headIdx l))) (\<lambda>_.
     let leftShift = nat (int (headIdx l) - newHeadIdx);
         rest = drop leftShift (senders l);
         ins = nat insIdx
     in Inr (l\<lparr>numSenders := numSenders l + 1, headIdx := nat newHeadIdx,
               senders := take ins rest @ Some s # drop ins rest\<rparr>))))))"

text \<open>
  The bound of the first loop is unsigned: with no sender and no gap it wraps around, and the loop
  leaves the vector.
\<close>

definition numActiveSenders :: "sched_senders \<Rightarrow> nat res" where
  "numActiveSenders l =
     (if headIdx l + numSenders l = 0 then Inl OutOfRange
      else rbind (assertion (list_all (\<lambda>x. x \<noteq> None)
             (take (numSenders l - 1) (drop (headIdx l) (senders l))))) (\<lambda>_.
     if numToGrant l \<ge> numSenders l then
       rbind (assertion (list_all (\<lambda>x. x = None) (take (headIdx l - 1) (senders l)))) (\<lambda>_.
       Inr (numSenders l))
     else if numSenders l \<ge> schedPrios l \<and> headIdx l \<noteq> 0 \<and> numToGrant l \<ge> schedPrios l
     then Inl RuntimeError
     else Inr (numToGrant l)))"

text \<open>\<open>setVar\<close>, the state of the scheduler for one sender.\<close>

definition setVar :: "nat \<Rightarrow> int \<Rightarrow> int \<Rightarrow> u32 option \<Rightarrow> int \<Rightarrow> sched_state" where
  "setVar toGrant head n s ind =
     \<lparr>st_numToGrant = int toGrant, st_headIdx = head, st_numSenders = n, st_s = s, st_sInd = ind\<rparr>"

definition getPrioForMesg :: "homa_config \<Rightarrow> sched_state \<Rightarrow> u16" where
  "getPrioForMesg c st =
     (let grantPrio = st_sInd st + uint (allPrio c) - uint (adaptiveSchedPrioLevels c)
      in of_int (min (uint (allPrio c) - 1) grantPrio))"

definition handleMesgRecvCompletionEvent ::
    "homa_config \<Rightarrow> bool \<times> int \<Rightarrow> sched_state \<Rightarrow> sched_state \<Rightarrow> sched_senders \<Rightarrow>
     (sched_state \<times> sched_senders) res" where
  "handleMesgRecvCompletionEvent c msgCompHandle old cur l =
     (let schedMesgFin = fst msgCompHandle; mesgRemain = snd msgCompHandle
      in if \<not> schedMesgFin \<or> mesgRemain \<ge> 0 then Inr (cur, l)
         else rbind (assertion (st_numToGrant cur = int (numToGrant l) \<and>
                       st_numToGrant old = int (numToGrant l))) (\<lambda>_.
              if numToGrant l = unat (numSendersToKeepGranted c) then Inr (cur, l)
              else Inr (cur\<lparr>st_numToGrant := st_numToGrant cur - 1\<rparr>,
                        l\<lparr>numToGrant := numToGrant l - 1\<rparr>)))"

section \<open>The ranking\<close>

text \<open>The functor compares these tuples lexicographically.\<close>

definition mesg_key :: "inbound_msg \<Rightarrow> u32 \<times> u32 \<times> simtime \<times> u64" where
  "mesg_key im = (im_bytesToGrant im, im_msgSize im, im_msgCreationTime im, im_msgIdAtSender im)"

definition sender_key :: "sender_map \<Rightarrow> u32 \<Rightarrow> u32 \<times> u32 \<times> simtime \<times> u64" where
  "sender_key m s = mesg_key (the (top_mesg (the (map_of m s))))"

lemma CompareBytesToGrant_key: "CompareBytesToGrant a b \<longleftrightarrow> mesg_key a < mesg_key b"
  unfolding CompareBytesToGrant_def mesg_key_def less_prod_simp lex_step
  by (cases "im_bytesToGrant a = im_bytesToGrant b"; cases "im_msgSize a = im_msgSize b";
      cases "im_msgCreationTime a = im_msgCreationTime b"; simp)

interpretation mesg_order: keyed_order CompareBytesToGrant mesg_key
  by unfold_locales (rule CompareBytesToGrant_key)

interpretation sender_order: keyed_order "\<lambda>a b. sender_key m a < sender_key m b" "sender_key m" for m
  by unfold_locales (rule refl)

definition has_top :: "sender_map \<Rightarrow> u32 \<Rightarrow> bool" where
  "has_top m s \<longleftrightarrow> (\<exists>st im. map_of m s = Some st \<and> ss_mesgsToGrant st \<noteq> [] \<and> top_mesg st = Some im)"

lemma cmp_sched_key:
  "has_top m a \<Longrightarrow> has_top m b \<Longrightarrow> cmp_sched m (Some a) (Some b) \<longleftrightarrow> sender_key m a < sender_key m b"
  by (auto simp: cmp_sched_def has_top_def CompSched_def sender_key_def CompareBytesToGrant_key)

text \<open>
  What the list stands for: the ranked senders \<open>ss\<close>, after a gap of empty entries up to the
  head.  The gap leaves a level for each sender that is granted.
\<close>

definition sched_ok :: "u32 list \<Rightarrow> sched_senders \<Rightarrow> bool" where
  "sched_ok ss l \<longleftrightarrow>
     senders l = replicate (headIdx l) None @ map Some ss \<and> numSenders l = length ss \<and>
     0 < schedPrios l \<and> 0 < numToGrant l \<and>
     headIdx l + min (length ss) (min (numToGrant l) (schedPrios l)) \<le> schedPrios l \<and>
     (ss = [] \<longrightarrow> 0 < headIdx l)"

definition ranked :: "sender_map \<Rightarrow> u32 list \<Rightarrow> bool" where
  "ranked m ss \<longleftrightarrow> (\<forall>s \<in> set ss. has_top m s) \<and> sorted_wrt (\<lambda>a b. sender_key m a < sender_key m b) ss"

lemma sched_range_ok [simp]: "sched_ok ss l \<Longrightarrow> sched_range l = map Some ss"
  by (simp add: sched_range_def sched_ok_def)

lemma ranked_distinct: "ranked m ss \<Longrightarrow> distinct ss"
  unfolding ranked_def using sender_order.swo_distinct by blast

lemma lower_bound_sched:
  assumes "ranked m ss" and "has_top m s"
  shows "lower_bound (cmp_sched m) (map Some ss) (Some s) =
     lower_bound (\<lambda>a b. sender_key m a < sender_key m b) ss s"
proof -
  have "takeWhile (\<lambda>y. cmp_sched m (Some y) (Some s)) ss = takeWhile (\<lambda>y. sender_key m y < sender_key m s) ss"
    using assms by (intro takeWhile_cong refl) (simp add: ranked_def cmp_sched_key)
  then show ?thesis by (simp add: lower_bound_def takeWhile_map o_def)
qed

lemma upper_bound_sched:
  assumes "ranked m ss" and "has_top m s"
  shows "upper_bound (cmp_sched m) (map Some ss) (Some s) =
     upper_bound (\<lambda>a b. sender_key m a < sender_key m b) ss s"
proof -
  have "takeWhile (\<lambda>y. \<not> cmp_sched m (Some s) (Some y)) ss =
      takeWhile (\<lambda>y. \<not> sender_key m s < sender_key m y) ss"
    using assms by (intro takeWhile_cong refl) (simp add: ranked_def cmp_sched_key)
  then show ?thesis by (simp add: upper_bound_def takeWhile_map o_def)
qed

definition place :: "sender_map \<Rightarrow> u32 list \<Rightarrow> u32 \<Rightarrow> nat" where
  "place m ss s = upper_bound (\<lambda>a b. sender_key m a < sender_key m b) ss s"

lemma place_le: "place m ss s \<le> length ss"
  by (simp add: place_def upper_bound_le)

section \<open>What the operations do to the ranking\<close>

lemma drop_entry_ok:
  assumes ok: "sched_ok ss l" and k: "k < length ss"
  shows "sched_ok (take k ss @ drop (Suc k) ss) (drop_entry (headIdx l + k) l)"
proof (cases "k = 0 \<and> headIdx l + min (numSenders l - 1) (numToGrant l) < schedPrios l")
  case True
  have "drop_entry (headIdx l) l = l\<lparr>numSenders := numSenders l - 1,
      senders := (senders l)[headIdx l := None], headIdx := headIdx l + 1\<rparr>"
    unfolding drop_entry_def Let_def using True by simp
  moreover from k obtain s ss' where "ss = s # ss'" by (cases ss) auto
  ultimately show ?thesis using ok True
    by (auto simp: sched_ok_def list_update_append replicate_append_same)
next
  case False
  have d: "drop_entry (headIdx l + k) l = l\<lparr>numSenders := numSenders l - 1,
      senders := take (headIdx l + k) (senders l) @ drop (Suc (headIdx l + k)) (senders l)\<rparr>"
    using False unfolding drop_entry_def by (auto simp: Let_def)
  have s: "senders l = replicate (headIdx l) None @ map Some ss" using ok by (simp add: sched_ok_def)
  have s': "take (headIdx l + k) (senders l) @ drop (Suc (headIdx l + k)) (senders l) =
      replicate (headIdx l) None @ map Some (take k ss @ drop (Suc k) ss)"
    unfolding s by (simp add: take_map drop_map)
  have "0 < headIdx l" if "take k ss @ drop (Suc k) ss = []"
  proof -
    from that k have k0: "k = 0" by auto
    with that have "length ss \<le> 1" by simp
    with k k0 have "length ss = 1" by linarith
    with False ok k0 show ?thesis by (auto simp: sched_ok_def)
  qed
  then show ?thesis unfolding d using ok k s' by (auto simp: sched_ok_def)
qed

lemma sched_removeAt_ok:
  assumes ok: "sched_ok ss l" and k: "k < length ss" and m: "map_of m (ss ! k) = Some st"
  shows "sched_removeAt (int (headIdx l + k)) m l =
     Inr (Some (ss ! k), al_put (ss ! k) (st\<lparr>ss_lastIdx := headIdx l + k\<rparr>) m,
          drop_entry (headIdx l + k) l)"
proof -
  have "senders l ! (headIdx l + k) = Some (ss ! k)" and "headIdx l + k < length (senders l)"
    using ok k by (simp_all add: sched_ok_def nth_append)
  then show ?thesis using ok k m
    by (simp add: sched_removeAt_def sched_ok_def Let_def nat_int_add)
qed

lemma sched_removeAt_out:
  "sched_ok ss l \<Longrightarrow> i < int (headIdx l) \<or> int (headIdx l) + int (length ss) \<le> i \<Longrightarrow>
   sched_removeAt i m l = Inr (None, m, l)"
  by (auto simp: sched_removeAt_def sched_ok_def)

lemma sched_remove_ok:
  assumes ok: "sched_ok ss l" and r: "ranked m ss" and k: "k < length ss" and s: "ss ! k = s"
    and m: "map_of m s = Some st"
  shows "sched_remove s m l = Inr (int (headIdx l + k), al_put s (st\<lparr>ss_lastIdx := headIdx l + k\<rparr>) m,
     drop_entry (headIdx l + k) l)"
proof -
  have top: "has_top m s" using r k s by (auto simp: ranked_def)
  with m have ne: "ss_mesgsToGrant st \<noteq> []" by (auto simp: has_top_def)
  have "lower_bound (cmp_sched m) (map Some ss) (Some s) = k"
    using sender_order.swo_lower_bound_mem [of m ss k] r k s
    unfolding lower_bound_sched [OF r top] by (simp add: ranked_def)
  moreover have "\<not> cmp_sched m (Some s) (Some s)" by (simp add: cmp_sched_key top)
  moreover have "numSenders l \<noteq> 0" using ok k by (auto simp: sched_ok_def)
  ultimately show ?thesis using ok k s m ne by (simp add: sched_remove_def Let_def)
qed

lemma sched_remove_idle:
  assumes ok: "sched_ok ss l" and m: "map_of m s = Some st" and e: "ss_mesgsToGrant st = []"
  shows "\<exists>l'. sched_remove s m l = Inr (-1, m, l') \<and> sched_ok ss l' \<and>
     numToGrant l' = numToGrant l \<and> schedPrios l' = schedPrios l"
  using assms by (auto simp: sched_remove_def sched_ok_def)

lemma insPoint_idle:
  "map_of m s = Some st \<Longrightarrow> ss_mesgsToGrant st = [] \<Longrightarrow>
   insPoint s m l = Inr (-1, int (headIdx l), int (numSenders l))"
  by (simp add: insPoint_def)

text \<open>The head the list has after an insertion: it moves down to keep a level per granted sender.\<close>

definition new_head :: "sender_map \<Rightarrow> u32 list \<Rightarrow> u32 \<Rightarrow> sched_senders \<Rightarrow> nat" where
  "new_head m ss s l =
     (let h = (if place m ss s = 0 \<and> 0 < headIdx l \<and> headIdx l \<noteq> ss_lastIdx (the (map_of m s))
               then headIdx l - 1 else headIdx l)
      in min h (schedPrios l - min (length ss + 1) (min (numToGrant l) (schedPrios l))))"

lemma insPoint_ok:
  assumes ok: "sched_ok ss l" and r: "ranked m ss" and top: "has_top m s"
  shows "insPoint s m l = Inr (int (new_head m ss s l + place m ss s), int (new_head m ss s l),
     int (length ss + 1))"
proof -
  from top obtain st where st: "map_of m s = Some st" "ss_mesgsToGrant st \<noteq> []"
    by (auto simp: has_top_def)
  define p where "p = place m ss s"
  have up: "upper_bound (cmp_sched m) (map Some ss) (Some s) = p"
    unfolding p_def place_def by (rule upper_bound_sched [OF r top])
  define h where "h = (if p = 0 \<and> 0 < headIdx l \<and> headIdx l \<noteq> ss_lastIdx st then headIdx l - 1
    else headIdx l)"
  have none: "i < headIdx l \<Longrightarrow> i < length (senders l) \<and> senders l ! i = None" for i
    using ok by (simp add: sched_ok_def nth_append)
  have n: "numSenders l = length ss" using ok by (simp add: sched_ok_def)
  define q where "q = min (length ss + 1) (min (numToGrant l) (schedPrios l))"
  have q: "q \<le> schedPrios l" by (simp add: q_def)
  have h: "h \<le> headIdx l" by (simp add: h_def)
  have nh: "new_head m ss s l = min h (schedPrios l - q)"
    by (simp add: new_head_def h_def p_def q_def st Let_def)
  have first: "(if headIdx l + p = headIdx l \<and> headIdx l + p > 0 \<and> headIdx l + p \<noteq> ss_lastIdx st then
            if headIdx l - 1 \<ge> length (senders l) then Inl OutOfRange
            else rbind (assertion (senders l ! (headIdx l - 1) = None)) (\<lambda>_.
                 Inr (headIdx l + p - 1, headIdx l - 1))
          else Inr (headIdx l + p, headIdx l)) = Inr (h + p, h)"
  proof -
    have "0 < headIdx l \<longrightarrow> headIdx l - 1 < length (senders l) \<and> senders l ! (headIdx l - 1) = None"
      by (rule impI, rule none) simp
    then show ?thesis by (auto simp: h_def)
  qed
  have eq: "insPoint s m l =
      (if int q - (int (schedPrios l) - int h) > 0 then
         if int h < int q - (int (schedPrios l) - int h) \<or>
            int h - (int q - (int (schedPrios l) - int h)) \<ge> int (length (senders l))
         then Inl OutOfRange
         else rbind (assertion (senders l ! nat (int h - (int q - (int (schedPrios l) - int h))) = None)) (\<lambda>_.
              Inr (int (h + p) - (int q - (int (schedPrios l) - int h)),
                   int h - (int q - (int (schedPrios l) - int h)), int (length ss + 1)))
       else Inr (int (h + p), int h, int (length ss + 1)))"
    by (simp only: insPoint_def st(1) of_option_Some rbind_Inr st(2) if_False Let_def
        sched_range_ok [OF ok] up first prod.case n q_def [symmetric])
  show ?thesis
  proof (cases "int q - (int (schedPrios l) - int h) > 0")
    case True
    have i: "nat (int h - (int q - (int (schedPrios l) - int h))) = schedPrios l - q"
      using True q by linarith
    have lt: "schedPrios l - q < headIdx l" using True q h by linarith
    have e: "int (h + p) - (int q - (int (schedPrios l) - int h)) = int (schedPrios l - q + p)"
      "int h - (int q - (int (schedPrios l) - int h)) = int (schedPrios l - q)"
      using q by linarith+
    have m: "min h (schedPrios l - q) = schedPrios l - q" using True q by linarith
    have a: "(int h < int q - (int (schedPrios l) - int h) \<or>
        int (length (senders l)) \<le> int (schedPrios l - q)) = False"
    proof -
      have "\<not> int h < int q - (int (schedPrios l) - int h)" using q by linarith
      moreover have "\<not> int (length (senders l)) \<le> int (schedPrios l - q)" using none [OF lt] by linarith
      ultimately show ?thesis by blast
    qed
    have z: "senders l ! (schedPrios l - q) = None" using none [OF lt] by blast
    show ?thesis
      unfolding eq i e nh m a p_def [symmetric] by (simp only: True nat_int z if_True if_False assertion_True rbind_Inr simp_thms)
  next
    case False
    then have m: "min h (schedPrios l - q) = h" by linarith
    show ?thesis unfolding eq nh m p_def [symmetric] by (simp only: False if_False)
  qed
qed

lemma new_head_le: "new_head m ss s l \<le> headIdx l"
  unfolding new_head_def Let_def by (rule min.coboundedI1) simp

lemma new_head_slots:
  "new_head m ss s l + min (length ss + 1) (min (numToGrant l) (schedPrios l)) \<le> schedPrios l"
  unfolding new_head_def Let_def by linarith

definition insert_at :: "nat \<Rightarrow> 'a \<Rightarrow> 'a list \<Rightarrow> 'a list" where
  "insert_at k x xs = take k xs @ x # drop k xs"

lemma insert_at_simps [simp]:
  "set (insert_at k x xs) = insert x (set xs)" "length (insert_at k x xs) = Suc (length xs)"
  "insert_at k x xs \<noteq> []"
proof -
  show "set (insert_at k x xs) = insert x (set xs)"
    unfolding insert_at_def by (metis append_take_drop_id set_append Un_insert_right list.simps(15))
qed (simp_all add: insert_at_def)

lemma sched_insert_ok:
  assumes ok: "sched_ok ss l" and r: "ranked m ss" and top: "has_top m s"
  shows "\<exists>l'. sched_insert s m l = Inr l' \<and> sched_ok (insert_at (place m ss s) s ss) l' \<and>
     headIdx l' = new_head m ss s l \<and> numToGrant l' = numToGrant l \<and> schedPrios l' = schedPrios l"
proof -
  from top obtain st where st: "map_of m s = Some st" "ss_mesgsToGrant st \<noteq> []"
    by (auto simp: has_top_def)
  define p where "p = place m ss s"
  define h where "h = new_head m ss s l"
  have h: "h \<le> headIdx l" unfolding h_def by (rule new_head_le)
  have s: "senders l = replicate (headIdx l) None @ map Some ss" using ok by (simp add: sched_ok_def)
  have d: "drop (headIdx l - h) (senders l) = replicate h None @ map Some ss"
    using h by (simp add: s drop_replicate)
  have sh: "nat (int (headIdx l) - int h) = headIdx l - h" by simp
  have none: "list_all (\<lambda>x. x = None) (take (headIdx l - 1) (senders l))"
    by (simp add: s list_all_iff)
  let ?l' = "l\<lparr>numSenders := numSenders l + 1, headIdx := h,
      senders := replicate h None @ map Some (insert_at p s ss)\<rparr>"
  have "sched_insert s m l = Inr ?l'"
  proof -
    have le: "int h \<le> int (headIdx l)" using h by simp
    have "sched_insert s m l = Inr (l\<lparr>numSenders := numSenders l + 1, headIdx := h,
        senders := take (h + p) (replicate h None @ map Some ss) @ Some s #
          drop (h + p) (replicate h None @ map Some ss)\<rparr>)"
      unfolding sched_insert_def insPoint_ok [OF assms] st(1) of_option_Some rbind_Inr
        h_def [symmetric] p_def [symmetric]
      by (simp only: st(2) not_False_eq_True assertion_True rbind_Inr prod.case none le Let_def sh d nat_int)
    then show ?thesis by (simp add: insert_at_def take_map drop_map)
  qed
  moreover have "sched_ok (insert_at p s ss) ?l'"
    using ok new_head_slots [of m ss s l, folded h_def] by (simp add: sched_ok_def)
  ultimately show ?thesis by (simp add: p_def h_def)
qed

lemma ranked_insert_at:
  assumes r: "ranked m ss" and top: "has_top m s"
    and d: "\<forall>x \<in> set ss. sender_key m x \<noteq> sender_key m s"
  shows "ranked m (insert_at (place m ss s) s ss)"
proof -
  have "sorted_wrt (\<lambda>a b. sender_key m a < sender_key m b) (take (place m ss s) ss @ s # drop (place m ss s) ss)"
    unfolding place_def using r d
    by (intro sender_order.swo_insert_at_upper_bound) (auto simp: ranked_def neq_iff)
  then show ?thesis using r top unfolding ranked_def insert_at_simps by (simp add: insert_at_def)
qed

lemma ranked_delete: "ranked m ss \<Longrightarrow> ranked m (take k ss @ drop (Suc k) ss)"
proof -
  assume r: "ranked m ss"
  let ?lt = "\<lambda>a b. sender_key m a < sender_key m b"
  have "sorted_wrt ?lt (take k ss @ drop k ss)" using r by (simp add: ranked_def)
  then have 1: "sorted_wrt ?lt (take k ss)" "\<forall>a \<in> set (take k ss). \<forall>b \<in> set (drop k ss). ?lt a b"
    unfolding sorted_wrt_append by blast+
  have 2: "sorted_wrt ?lt (drop (Suc k) ss)" using r by (simp add: ranked_def sorted_wrt_drop)
  have 3: "set (drop (Suc k) ss) \<subseteq> set (drop k ss)" by (rule set_drop_subset_set_drop) simp
  have 4: "set (take k ss @ drop (Suc k) ss) \<subseteq> set ss"
    using set_take_subset set_drop_subset by fastforce
  have "sorted_wrt ?lt (take k ss @ drop (Suc k) ss)" unfolding sorted_wrt_append using 1 2 3 by blast
  moreover have "\<forall>s \<in> set (take k ss @ drop (Suc k) ss). has_top m s" using r 4 unfolding ranked_def by blast
  ultimately show ?thesis by (simp only: ranked_def)
qed

text \<open>Only the ranking messages matter: changes elsewhere in the map keep it.\<close>

lemma ranked_cong:
  assumes "\<And>s. s \<in> set ss \<Longrightarrow> has_top m' s = has_top m s \<and> sender_key m' s = sender_key m s"
  shows "ranked m' ss = ranked m ss"
proof -
  have "sorted_wrt (\<lambda>a b. sender_key m' a < sender_key m' b) ss =
      sorted_wrt (\<lambda>a b. sender_key m a < sender_key m b) ss"
    by (rule sorted_wrt_cong) (simp add: assms)
  then show ?thesis using assms by (simp add: ranked_def)
qed

lemma numActiveSenders_ok:
  assumes ok: "sched_ok ss l"
  shows "numActiveSenders l = Inr (min (numToGrant l) (length ss))"
proof -
  have s: "senders l = replicate (headIdx l) None @ map Some ss" and n: "numSenders l = length ss"
    using ok by (simp_all add: sched_ok_def)
  have "headIdx l + numSenders l \<noteq> 0" using ok by (auto simp: sched_ok_def)
  moreover have "list_all (\<lambda>x. x \<noteq> None) (take (numSenders l - 1) (drop (headIdx l) (senders l)))"
    by (auto simp: s list_all_iff dest!: in_set_takeD)
  moreover have "list_all (\<lambda>x. x = None) (take (headIdx l - 1) (senders l))"
    by (simp add: s list_all_iff)
  moreover have "\<not> (numSenders l \<ge> schedPrios l \<and> headIdx l \<noteq> 0 \<and> numToGrant l \<ge> schedPrios l)"
    using ok by (auto simp: sched_ok_def min_def split: if_splits)
  ultimately show ?thesis unfolding numActiveSenders_def
    by (cases "length ss \<le> numToGrant l") (simp_all only: n if_True if_False assertion_True rbind_Inr, simp_all)
qed

text \<open>An insertion and a removal at the same place cancel out.\<close>

lemma delete_insert_at [simp]:
  "k \<le> length xs \<Longrightarrow> take k (insert_at k x xs) @ drop (Suc k) (insert_at k x xs) = xs"
  by (simp add: insert_at_def)

lemma nth_insert_at [simp]: "k \<le> length xs \<Longrightarrow> insert_at k x xs ! k = x"
  by (simp add: insert_at_def nth_append)

lemma insert_delete_at:
  "k < length xs \<Longrightarrow> insert_at k (xs ! k) (take k xs @ drop (Suc k) xs) = xs"
  by (simp add: insert_at_def id_take_nth_drop [symmetric])

section \<open>Properties\<close>

text \<open>Two senders with a message each, the first one listed.\<close>

definition sample_inbound :: "u64 \<Rightarrow> u32 \<Rightarrow> inbound_msg" where
  "sample_inbound mid left = \<lparr>im_srcAddr = 3, im_destAddr = 9, im_isEcho = False, im_msgIdAtSender = mid,
     im_bytesToGrant = left, im_offset = 1442, im_bytesGrantedInFlight = 0, im_totalBytesInFlight = 0,
     im_bytesToReceive = left, im_msgSize = left + 1442, im_schedBytesOnWire = 0,
     im_totalBytesOnWire = 1538, im_totalUnschedBytes = 1442, im_msgCreationTime = 0,
     im_reqArrivalTime = 0, im_lastGrantTime = 0, im_inflightGrants = [], im_bytesRecvdPerPrio = [],
     im_scheduledBytesPerPrio = [], im_unschedToRecvPerPrio = [], im_sumInflightUnschedPerPrio = [],
     im_sumInflightSchedPerPrio = []\<rparr>"

definition sample_sender :: "u32 \<Rightarrow> u32 \<Rightarrow> sender_state" where
  "sample_sender a left = \<lparr>ss_senderAddr = a, ss_grantTimer = None, ss_mesgsToGrant = [1],
     ss_incompleteMesgs = [(1, sample_inbound 1 left)], ss_lastGrantPrio = 8, ss_lastIdx = 7\<rparr>"

definition sample_senders :: sender_map where
  "sample_senders = [(3, sample_sender 3 5000), (4, sample_sender 4 900)]"

definition sample_sched :: sched_senders where
  "sample_sched = \<lparr>senders = replicate 6 None @ [Some 3], schedPrios = 7, numToGrant = 7, headIdx = 6,
     numSenders = 1\<rparr>"

lemma sample_sched_facts:
  "sched_ok [3] sample_sched" "ranked sample_senders [3]" "has_top sample_senders 4"
  "sender_key sample_senders 3 \<noteq> sender_key sample_senders 4"
  by (simp_all add: sched_ok_def ranked_def has_top_def sample_sched_def sample_senders_def
      sample_sender_def sample_inbound_def top_mesg_def sender_key_def mesg_key_def)

text \<open>
  C14: A sender with a message to grant that is not listed can be inserted into a well formed list;
  the list stays ranked and well formed, the place is the one \<open>insPoint\<close> announced, and removing
  the sender again finds it at this index and restores the ranking.
\<close>

theorem sched_insert_remove:
  assumes "sched_ok ss l" and "ranked m ss" and "has_top m s"
    and "\<forall>x \<in> set ss. sender_key m x \<noteq> sender_key m s"
  shows "\<exists>l' ss' h k n m' l''. insPoint s m l = Inr (h + k, h, n) \<and> sched_insert s m l = Inr l' \<and>
     sched_ok ss' l' \<and> ranked m ss' \<and> mset ss' = add_mset s (mset ss) \<and>
     h = int (headIdx l') \<and> n = int (numSenders l') \<and> 0 \<le> k \<and> ss' ! nat k = s \<and>
     sched_remove s m l' = Inr (h + k, m', l'') \<and> sched_ok ss l''"
proof -
  define p where "p = place m ss s"
  have p: "p \<le> length ss" unfolding p_def by (rule place_le)
  from sched_insert_ok [OF assms(1-3)] obtain l' where
    l': "sched_insert s m l = Inr l'" "sched_ok (insert_at p s ss) l'" "headIdx l' = new_head m ss s l"
    by (auto simp: p_def)
  have r': "ranked m (insert_at p s ss)" unfolding p_def by (rule ranked_insert_at [OF assms(2-4)])
  from assms(3) obtain st where st: "map_of m s = Some st" by (auto simp: has_top_def)
  have pl: "p < length (insert_at p s ss)" using p by simp
  have nth: "insert_at p s ss ! p = s" using p by simp
  define m' where "m' = al_put s (st\<lparr>ss_lastIdx := headIdx l' + p\<rparr>) m"
  have n: "numSenders l' = length ss + 1" using l'(2) by (simp add: sched_ok_def)
  have a: "insPoint s m l = Inr (int (headIdx l') + int p, int (headIdx l'), int (numSenders l'))"
    unfolding insPoint_ok [OF assms(1-3)] l'(3) p_def n of_nat_add by (rule refl)
  have b: "mset (insert_at p s ss) = add_mset s (mset ss)"
  proof -
    have "mset (take p ss) + mset (drop p ss) = mset ss" 
      by (simp only: mset_append [symmetric] append_take_drop_id)
    then show ?thesis by (simp add: insert_at_def)
  qed
  have "sched_remove s m l' = Inr (int (headIdx l' + p), m', drop_entry (headIdx l' + p) l')"
    unfolding m'_def by (rule sched_remove_ok [OF l'(2) r' pl nth st])
  then have c: "sched_remove s m l' = Inr (int (headIdx l') + int p, m', drop_entry (headIdx l' + p) l')"
    by simp
  have d: "sched_ok ss (drop_entry (headIdx l' + p) l')"
    using drop_entry_ok [OF l'(2) pl] unfolding delete_insert_at [OF p] .
  have e: "insert_at p s ss ! nat (int p) = s" unfolding nat_int by (rule nth)
  show ?thesis
    by (intro exI conjI, rule a, rule l'(1), rule l'(2), rule r', rule b, rule refl, rule refl,
        rule of_nat_0_le_iff, rule e, rule c, rule d)
qed

lemma sched_insert_remove_witness:
  "\<exists>l' ss' h k n m' l''. insPoint 4 sample_senders sample_sched = Inr (h + k, h, n) \<and>
     sched_insert 4 sample_senders sample_sched = Inr l' \<and>
     sched_ok ss' l' \<and> ranked sample_senders ss' \<and> mset ss' = {#4, 3#} \<and>
     h = int (headIdx l') \<and> n = int (numSenders l') \<and> 0 \<le> k \<and> ss' ! nat k = 4 \<and>
     sched_remove 4 sample_senders l' = Inr (h + k, m', l'') \<and> sched_ok [3] l''"
  using sched_insert_remove [OF sample_sched_facts(1-3)] sample_sched_facts(4) by simp



end
