(* ===== verification/PriorityResolver.thy ===== *)
theory PriorityResolver
  imports HomaState
begin

text \<open>
  \<open>PriorityResolver.cc\<close>: the cut-off sizes of the unscheduled priority levels and the
  priority of a packet.  The cumulative distributions the resolver reads are the vectors of the
  workload estimator, pairs of a size and a cumulated probability.  Probabilities are rational
  numbers: the rounding of the double operations is not modelled, the tolerances of
  \<open>isLess\<close> and \<open>isEqual\<close> are.
\<close>

section \<open>Operations\<close>

type_synonym cdf_vector = "(u32 \<times> rat) list"

record cdf_vectors =
  cdf :: cdf_vector
  cbfLastCapBytes :: cdf_vector
  remainSizeCbf :: cdf_vector

definition isLess :: "rat \<Rightarrow> rat \<Rightarrow> bool" where
  "isLess a b \<longleftrightarrow> a + 1 / 1000000 < b"

definition isEqual :: "rat \<Rightarrow> rat \<Rightarrow> bool" where
  "isEqual a b \<longleftrightarrow> \<bar>a - b\<bar> < 1 / 1000000"

definition strPrioModeToInt :: "string \<Rightarrow> prio_mode" where
  "strPrioModeToInt s =
     (if s = ''STATIC_CDF_UNIFORM'' then STATIC_CDF_UNIFORM
      else if s = ''STATIC_CBF_UNIFORM'' then STATIC_CBF_UNIFORM
      else if s = ''STATIC_CBF_GRADUATED'' then STATIC_CBF_GRADUATED
      else if s = ''EXPLICIT'' then EXPLICIT
      else if s = ''FIXED_UNSCHED'' then STATIC_CBF_GRADUATED
      else INVALID_PRIO_MODE)"

function mesg_prio_loop :: "u32 list \<Rightarrow> u32 \<Rightarrow> nat \<Rightarrow> nat \<Rightarrow> nat res" where
  "mesg_prio_loop cuts msgSize low high =
     (if low < high then
        let mid = (high + low) div 2 in
        if length cuts \<le> mid then Inl OutOfRange
        else if msgSize \<le> cuts ! mid then mesg_prio_loop cuts msgSize low mid
        else mesg_prio_loop cuts msgSize (mid + 1) high
      else Inr high)"
  by pat_completeness auto
termination
  by (relation "measure (\<lambda>(cuts, msgSize, low, high). high - low)") auto

declare mesg_prio_loop.simps [simp del]

text \<open>\<open>prioCutOffs.size() - 1\<close> of an empty vector wraps around.\<close>

definition getMesgPrio :: "u32 list \<Rightarrow> u32 \<Rightarrow> u16 res" where
  "getMesgPrio cuts msgSize =
     rbind (mesg_prio_loop cuts msgSize 0
              (if cuts = [] then 2 ^ 64 - 1 else length cuts - 1)) (\<lambda>high.
     Inr (of_nat high))"

fun graduated_prios :: "u32 list \<Rightarrow> u32 \<Rightarrow> u16 list \<Rightarrow> u16 list res" where
  "graduated_prios cuts msgSize [] = Inr []"
| "graduated_prios cuts msgSize (pkt # pkts) =
     rbind (getMesgPrio cuts msgSize) (\<lambda>prio.
     rbind (assertion (msgSize \<ge> ucast pkt)) (\<lambda>_.
     rbind (graduated_prios cuts (msgSize - ucast pkt) pkts) (\<lambda>prios.
     Inr (prio # prios))))"

definition getUnschedPktsPrio :: "prio_resolver \<Rightarrow> outbound_msg \<Rightarrow> u16 list res" where
  "getUnschedPktsPrio r om =
     (case prioResMode r of
        FIXED_UNSCHED \<Rightarrow> Inr (replicate (length (om_reqUnschedDataVec om)) 0)
      | EXPLICIT \<Rightarrow> graduated_prios (prioCutOffs r) (om_msgSize om) (om_reqUnschedDataVec om)
      | STATIC_CBF_GRADUATED \<Rightarrow>
          graduated_prios (prioCutOffs r) (om_msgSize om) (om_reqUnschedDataVec om)
      | STATIC_CDF_UNIFORM \<Rightarrow> rbind (getMesgPrio (prioCutOffs r) (om_msgSize om)) (\<lambda>prio.
          Inr (replicate (length (om_reqUnschedDataVec om)) prio))
      | STATIC_CBF_UNIFORM \<Rightarrow> rbind (getMesgPrio (prioCutOffs r) (om_msgSize om)) (\<lambda>prio.
          Inr (replicate (length (om_reqUnschedDataVec om)) prio))
      | INVALID_PRIO_MODE \<Rightarrow> Inl RuntimeError)"

definition getSchedPktPrio :: "homa_config \<Rightarrow> prio_resolver \<Rightarrow> inbound_msg \<Rightarrow> u16 res" where
  "getSchedPktPrio c r im =
     (let msgSize = im_msgSize im;
          bytesToGrant = im_bytesToGrant im;
          bytesToGrantOnWire = getBytesOnWire bytesToGrant SCHED_DATA;
          bytesTreatedUnsched = boostTailBytesPrio c
      in if prioResMode r = EXPLICIT \<or> prioResMode r = STATIC_CBF_GRADUATED then
           if bytesToGrantOnWire < bytesTreatedUnsched
           then getMesgPrio (prioCutOffs r) bytesToGrant else Inr (allPrio c - 1)
         else if prioResMode r = STATIC_CDF_UNIFORM \<or> prioResMode r = STATIC_CBF_UNIFORM then
           if bytesToGrantOnWire < bytesTreatedUnsched
           then getMesgPrio (prioCutOffs r) msgSize else Inr (allPrio c - 1)
         else Inl RuntimeError)"

text \<open>
  The loops of \<open>setPrioCutOffs\<close>.  The inner one looks from index \<open>i\<close> on for an entry that
  is not the last cut-off and reaches the probability; it keeps the index.  The outer one runs
  while the probability is below one; \<open>fuel\<close> bounds its rounds.
\<close>

fun find_cutoff :: "cdf_vector \<Rightarrow> u32 \<Rightarrow> rat \<Rightarrow> cdf_vector \<times> u32 option" where
  "find_cutoff [] prev prob = ([], None)"
| "find_cutoff ((x, p) # vec) prev prob =
     (if x = prev then find_cutoff vec prev prob
      else if p \<ge> prob then ((x, p) # vec, Some x)
      else find_cutoff vec prev prob)"

fun cutoff_loop :: "nat \<Rightarrow> rat \<Rightarrow> cdf_vector \<Rightarrow> u32 \<Rightarrow> rat \<Rightarrow> rat \<Rightarrow> u32 list \<Rightarrow> u32 list res" where
  "cutoff_loop fuel fac vec prev prob probStep cuts =
     (if \<not> isLess prob 1 then Inr cuts
      else case fuel of
        0 \<Rightarrow> Inl OutOfFuel
      | Suc n \<Rightarrow>
          let probStep = probStep * fac in
          (case find_cutoff vec prev prob of
             (vec, None) \<Rightarrow> cutoff_loop n fac vec prev (prob + probStep) probStep cuts
           | (vec, Some x) \<Rightarrow> cutoff_loop n fac vec x (prob + probStep) probStep (cuts @ [x])))"

declare cutoff_loop.simps [simp del]

definition cdf_cutoffs :: "nat \<Rightarrow> homa_config \<Rightarrow> cdf_vector \<Rightarrow> u32 list res" where
  "cdf_cutoffs fuel c vec =
     (if vec = [] then Inl OutOfRange
      else rbind (assertion (isEqual (snd (last vec)) 1)) (\<lambda>_.
        let fac = unschedPrioUsageWeight c;
            levels = unat (prioResolverPrioLevels c);
            probStep = (if fac = 1 then 1 / of_nat levels else (1 - fac) / (1 - fac ^ levels))
        in rbind (cutoff_loop fuel fac vec 0xFFFFFFFF probStep probStep []) (\<lambda>cuts.
           Inr (cuts @ [0xFFFFFFFF]))))"

definition setPrioCutOffs ::
    "nat \<Rightarrow> homa_config \<Rightarrow> cdf_vectors \<Rightarrow> prio_resolver \<Rightarrow> prio_resolver res" where
  "setPrioCutOffs fuel c v r =
     rbind
       (case prioResMode r of
          EXPLICIT \<Rightarrow>
            (let cuts = explicitUnschedPrioCutoff c in
             if cuts = [] then Inl NullPointer
             else Inr (if last cuts \<noteq> 0xFFFFFFFF then cuts @ [0xFFFFFFFF] else cuts))
        | STATIC_CDF_UNIFORM \<Rightarrow> cdf_cutoffs fuel c (cdf v)
        | STATIC_CBF_UNIFORM \<Rightarrow> cdf_cutoffs fuel c (cbfLastCapBytes v)
        | STATIC_CBF_GRADUATED \<Rightarrow> cdf_cutoffs fuel c (remainSizeCbf v)
        | _ \<Rightarrow> Inl RuntimeError) (\<lambda>cuts.
     Inr (r\<lparr>prioCutOffs := cuts\<rparr>))"

text \<open>
  The constructor, after the workload estimator has filled its vectors (\<open>WorkloadPrio\<close> has the
  calls that fill them).
\<close>

definition PriorityResolver ::
    "nat \<Rightarrow> homa_config \<Rightarrow> cdf_vectors \<Rightarrow> prio_resolver res" where
  "PriorityResolver fuel c v =
     setPrioCutOffs fuel c v
       \<lparr>prioCutOffs = [], prioResMode = strPrioModeToInt (unschedPrioResolutionMode c)\<rparr>"

section \<open>The binary search\<close>

definition cutoffs_ok :: "u32 list \<Rightarrow> bool" where
  "cutoffs_ok cuts \<longleftrightarrow> sorted cuts \<and> cuts \<noteq> [] \<and> last cuts = 0xFFFFFFFF"

lemma lower_bound_eqI:
  assumes "k \<le> length xs" and "\<forall>i < k. lt (xs ! i) x" and "k < length xs \<Longrightarrow> \<not> lt (xs ! k) x"
  shows "lower_bound lt xs x = k"
proof -
  have "takeWhile (\<lambda>y. lt y x) xs = take k xs"
    using assms by (intro takeWhile_eq_take_P_nth) auto
  with assms(1) show ?thesis by (simp add: lower_bound_def)
qed

lemma lower_bound_below: "i < lower_bound lt xs x \<Longrightarrow> lt (xs ! i) x"
  unfolding lower_bound_def
  by (metis (no_types, lifting) nth_mem set_takeWhileD takeWhile_nth)

lemma lower_bound_at: "lower_bound lt xs x < length xs \<Longrightarrow> \<not> lt (xs ! lower_bound lt xs x) x"
  unfolding lower_bound_def by (rule nth_length_takeWhile)

lemma mesg_prio_loop_ok:
  assumes "sorted cuts" and "high < length cuts" and "low \<le> high"
    and "\<forall>i < low. cuts ! i < msgSize"
    and "high + 1 < length cuts \<Longrightarrow> msgSize \<le> cuts ! high"
  shows "mesg_prio_loop cuts msgSize low high =
           Inr (min (lower_bound (<) cuts msgSize) (length cuts - 1))"
  using assms
proof (induction cuts msgSize low high rule: mesg_prio_loop.induct)
  case (1 cuts msgSize low high)
  show ?case
  proof (cases "low < high")
    case True
    define mid where "mid = (high + low) div 2"
    have mid: "low \<le> mid" "mid < high" "mid < length cuts" using True 1(4) by (auto simp: mid_def)
    show ?thesis
    proof (cases "msgSize \<le> cuts ! mid")
      case le: True
      have "mesg_prio_loop cuts msgSize low mid = Inr (min (lower_bound (<) cuts msgSize) (length cuts - 1))"
        using 1(1) [OF True mid_def] mid le 1(3-) by simp
      then show ?thesis
        using True mid le by (simp add: mesg_prio_loop.simps [of cuts msgSize low high] mid_def)
    next
      case gt: False
      have "\<forall>i < mid + 1. cuts ! i < msgSize"
      proof (intro allI impI)
        fix i assume "i < mid + 1"
        then have "cuts ! i \<le> cuts ! mid" using 1(3) mid by (intro sorted_nth_mono) auto
        with gt show "cuts ! i < msgSize" by simp
      qed
      then have "mesg_prio_loop cuts msgSize (mid + 1) high =
          Inr (min (lower_bound (<) cuts msgSize) (length cuts - 1))"
        using 1(2) [OF True mid_def] mid gt 1(3-) by simp
      then show ?thesis
        using True mid gt by (simp add: mesg_prio_loop.simps [of cuts msgSize low high] mid_def)
    qed
  next
    case False
    with 1(5) have eq: "low = high" by simp
    have "min (lower_bound (<) cuts msgSize) (length cuts - 1) = high"
    proof (cases "high + 1 < length cuts")
      case True
      have "lower_bound (<) cuts msgSize = high"
        using 1(4,6,7) True eq by (intro lower_bound_eqI) (auto simp: not_less)
      with True show ?thesis by simp
    next
      case last: False
      then have "high = length cuts - 1" using 1(4) by simp
      moreover have "\<not> lower_bound (<) cuts msgSize < high"
      proof
        assume lt: "lower_bound (<) cuts msgSize < high"
        with 1(4) have "\<not> cuts ! lower_bound (<) cuts msgSize < msgSize"
          by (intro lower_bound_at) simp
        with 1(6) lt eq show False by blast
      qed
      ultimately show ?thesis by simp
    qed
    with False show ?thesis by (simp add: mesg_prio_loop.simps [of cuts msgSize low high])
  qed
qed

lemma getMesgPrio_min:
  assumes "sorted cuts" and "cuts \<noteq> []"
  shows "getMesgPrio cuts msgSize =
           Inr (of_nat (min (lower_bound (<) cuts msgSize) (length cuts - 1)))"
  using assms mesg_prio_loop_ok [of cuts "length cuts - 1" 0 msgSize]
  by (simp add: getMesgPrio_def)

lemma getMesgPrio_empty: "getMesgPrio [] msgSize = Inl OutOfRange"
proof -
  have "mesg_prio_loop [] msgSize 0 high = Inl OutOfRange" if "0 < high" for high
    using that by (simp add: mesg_prio_loop.simps [of "[]" msgSize 0 high])
  then show ?thesis by (simp add: getMesgPrio_def)
qed

lemma word32_le_max: "(k :: u32) \<le> 0xFFFFFFFF"
proof -
  have "unat k \<le> unat (0xFFFFFFFF :: u32)" using unsigned_less [of k, where 'a = nat] by simp
  then show ?thesis by (simp only: word_le_nat_alt)
qed

lemma lower_bound_cutoffs:
  assumes "cutoffs_ok cuts"
  shows "lower_bound (<) cuts msgSize < length cuts"
proof (rule ccontr)
  assume "\<not> lower_bound (<) cuts msgSize < length cuts"
  with assms have "length cuts - 1 < lower_bound (<) cuts msgSize"
    by (cases cuts) (auto simp: cutoffs_ok_def)
  from lower_bound_below [OF this] assms have "last cuts < msgSize"
    unfolding cutoffs_ok_def by (metis last_conv_nth)
  with assms word32_le_max [of msgSize] show False by (simp add: cutoffs_ok_def)
qed

lemma getMesgPrio_cutoffs:
  assumes "cutoffs_ok cuts"
  shows "getMesgPrio cuts msgSize = Inr (of_nat (lower_bound (<) cuts msgSize))"
proof -
  have "min (lower_bound (<) cuts msgSize) (length cuts - 1) = lower_bound (<) cuts msgSize"
    using lower_bound_cutoffs [OF assms, of msgSize] by simp
  with getMesgPrio_min [of cuts msgSize] assms show ?thesis by (simp add: cutoffs_ok_def)
qed

lemma lower_bound_mono_key:
  "x \<le> y \<Longrightarrow> lower_bound (<) xs (x :: 'a::linorder) \<le> lower_bound (<) xs y"
  by (induction xs) (auto simp: lower_bound_def)

text \<open>The level of a size, as a number.\<close>

definition prio_level :: "u32 list \<Rightarrow> u32 \<Rightarrow> nat" where
  "prio_level cuts msgSize = lower_bound (<) cuts msgSize"

lemma getMesgPrio_level:
  assumes "cutoffs_ok cuts" and "length cuts \<le> 65536"
  shows "\<exists>p. getMesgPrio cuts msgSize = Inr p \<and> unat p = prio_level cuts msgSize \<and>
           unat p < length cuts"
proof -
  have "lower_bound (<) cuts msgSize < length cuts" by (rule lower_bound_cutoffs [OF assms(1)])
  with assms(2) show ?thesis
    by (simp add: getMesgPrio_cutoffs [OF assms(1)] prio_level_def unsigned_of_nat
      take_bit_nat_eq_self)
qed

section \<open>Packet priorities\<close>

lemma graduated_prios_ok:
  assumes "cutoffs_ok cuts" and "length cuts \<le> 65536"
    and "sum_list (map unat pkts) \<le> unat msgSize"
  shows "\<exists>ps. graduated_prios cuts msgSize pkts = Inr ps \<and> length ps = length pkts \<and>
           (\<forall>i < length pkts. unat (ps ! i) =
              prio_level cuts (msgSize - of_nat (sum_list (map unat (take i pkts)))))"
  using assms(3)
proof (induction pkts arbitrary: msgSize)
  case Nil
  then show ?case by simp
next
  case (Cons pkt pkts)
  define k :: u32 where "k = ucast pkt"
  have uk: "unat k = unat pkt" by (simp add: k_def)
  from Cons.prems have le: "k \<le> msgSize" by (simp add: word_le_nat_alt uk)
  then have "unat (msgSize - k) = unat msgSize - unat pkt" by (simp add: unat_sub uk)
  then have "sum_list (map unat pkts) \<le> unat (msgSize - k)" using Cons.prems by simp
  from Cons.IH [OF this] obtain ps where
    ps: "graduated_prios cuts (msgSize - k) pkts = Inr ps" "length ps = length pkts"
      "\<forall>i < length pkts. unat (ps ! i) =
         prio_level cuts (msgSize - k - of_nat (sum_list (map unat (take i pkts))))" by auto
  from getMesgPrio_level [OF assms(1,2), of msgSize] obtain p where
    p: "getMesgPrio cuts msgSize = Inr p" "unat p = prio_level cuts msgSize" by blast
  have "graduated_prios cuts msgSize (pkt # pkts) = Inr (p # ps)"
    using p(1) ps(1) le by (simp add: k_def)
  moreover have "unat ((p # ps) ! i) = prio_level cuts
      (msgSize - of_nat (sum_list (map unat (take i (pkt # pkts)))))"
    if "i < length (pkt # pkts)" for i
    using that p(2) ps(3) by (cases i) (simp_all add: k_def diff_diff_eq)
  ultimately show ?case using ps(2) by auto
qed

lemma taken_antimono:
  fixes n :: u32
  assumes "i \<le> j" and "sum_list (map unat xs) \<le> unat n"
  shows "n - of_nat (sum_list (map unat (take j xs))) \<le> n - of_nat (sum_list (map unat (take i xs)))"
proof -
  define f where "f k = sum_list (map unat (take k xs))" for k
  have le: "f k \<le> unat n" for k
  proof -
    have "f k + sum_list (map unat (drop k xs)) = sum_list (map unat xs)"
      unfolding f_def by (metis append_take_drop_id map_append sum_list_append)
    with assms(2) show ?thesis by linarith
  qed
  have u: "unat (n - of_nat (f k)) = unat n - f k" for k
  proof -
    have "unat (of_nat (f k) :: u32) = f k"
      using le [of k] unsigned_less [of n, where 'a = nat]
      by (simp add: unsigned_of_nat take_bit_nat_eq_self)
    with le [of k] show ?thesis by (simp add: unat_sub word_le_nat_alt)
  qed
  have "take j xs = take i xs @ take (j - i) (drop i xs)"
    using assms(1) by (metis le_add_diff_inverse take_add)
  then have "f i \<le> f j" unfolding f_def by (simp only: map_append sum_list_append le_add1)
  then have "unat n - f j \<le> unat n - f i" by simp
  then show ?thesis unfolding word_le_nat_alt f_def [symmetric] u .
qed

lemma length_getUnschedPktsPrio:
  "getUnschedPktsPrio r om = Inr ps \<Longrightarrow> length ps = length (om_reqUnschedDataVec om)"
proof -
  have "graduated_prios cuts n pkts = Inr ps \<Longrightarrow> length ps = length pkts" for cuts n pkts ps
    by (induction pkts arbitrary: n ps) (auto simp: res_simps)
  then show "getUnschedPktsPrio r om = Inr ps \<Longrightarrow> length ps = length (om_reqUnschedDataVec om)"
    by (auto simp: getUnschedPktsPrio_def res_simps split: prio_mode.splits)
qed

section \<open>The cut-off sizes\<close>

lemma find_cutoff_suffix:
  "find_cutoff vec prev prob = (vec', r) \<Longrightarrow>
   (\<exists>us. vec = us @ vec') \<and>
   (\<forall>x. r = Some x \<longrightarrow> x \<noteq> prev \<and> (\<exists>p vs. vec' = (x, p) # vs \<and> prob \<le> p))"
proof (induction vec)
  case Nil
  then show ?case by simp
next
  case (Cons e vec)
  obtain x p where e: "e = (x, p)" by (cases e)
  show ?case
  proof (cases "x \<noteq> prev \<and> prob \<le> p")
    case True
    with Cons.prems e have "vec' = (x, p) # vec" and "r = Some x" by simp_all
    with True e show ?thesis by simp
  next
    case False
    with Cons.prems e have "find_cutoff vec prev prob = (vec', r)" by (simp split: if_splits)
    from Cons.IH [OF this] show ?thesis by (metis append_Cons)
  qed
qed

lemma cutoff_loop_ok:
  assumes "sorted_wrt (<) (map fst vec)"
    and "\<not> isLess (prob + (\<Sum>i<n. probStep * fac ^ Suc i)) 1"
  shows "\<exists>more. cutoff_loop n fac vec prev prob probStep cuts = Inr (cuts @ more) \<and>
     length more \<le> n \<and> sorted_wrt (<) more \<and> set more \<subseteq> fst ` set vec \<and>
     ((\<forall>x \<in> fst ` set vec. prev \<le> x) \<longrightarrow> (\<forall>x \<in> set more. prev < x))"
  using assms
proof (induction n arbitrary: vec prev prob probStep cuts)
  case 0
  then show ?case by (simp add: cutoff_loop.simps [of 0])
next
  case (Suc n)
  define step' where "step' = probStep * fac"
  have sum: "prob + (\<Sum>i<Suc n. probStep * fac ^ Suc i) =
      (prob + step') + (\<Sum>i<n. step' * fac ^ Suc i)"
    by (simp add: sum.lessThan_Suc_shift step'_def algebra_simps del: sum.lessThan_Suc)
  show ?case
  proof (cases "isLess prob 1")
    case False
    then show ?thesis by (simp add: cutoff_loop.simps [of "Suc n"])
  next
    case less: True
    obtain vec' r where f: "find_cutoff vec prev prob = (vec', r)" by fastforce
    from find_cutoff_suffix [OF f] obtain us where us: "vec = us @ vec'" by blast
    with Suc.prems(1) have sv: "sorted_wrt (<) (map fst vec')" by (simp add: sorted_wrt_append)
    note IH = Suc.IH [OF sv Suc.prems(2) [unfolded sum]]
    show ?thesis
    proof (cases r)
      case None
      from IH [of prev cuts] obtain more where more: "cutoff_loop n fac vec' prev (prob + step')
          step' cuts = Inr (cuts @ more)" "length more \<le> n" "sorted_wrt (<) more"
        "set more \<subseteq> fst ` set vec'" "(\<forall>x \<in> fst ` set vec'. prev \<le> x) \<longrightarrow> (\<forall>x \<in> set more. prev < x)"
        by blast
      have "cutoff_loop (Suc n) fac vec prev prob probStep cuts = Inr (cuts @ more)"
        using less f None more(1) by (simp add: cutoff_loop.simps [of "Suc n"] Let_def step'_def)
      moreover have "fst ` set vec' \<subseteq> fst ` set vec" using us by auto
      then have "set more \<subseteq> fst ` set vec"
        and "(\<forall>x \<in> fst ` set vec. prev \<le> x) \<longrightarrow> (\<forall>x \<in> set more. prev < x)"
        using more(4,5) by blast+
      moreover have "length more \<le> Suc n" using more(2) by simp
      ultimately show ?thesis using more(3) by (intro exI [of _ more] conjI)
    next
      case (Some x)
      with find_cutoff_suffix [OF f] obtain p vs where x: "x \<noteq> prev" "vec' = (x, p) # vs"
        by blast
      with sv have "\<forall>y \<in> fst ` set vec'. x \<le> y" by auto
      with IH [of x "cuts @ [x]"] obtain more where more: "cutoff_loop n fac vec' x (prob + step')
          step' (cuts @ [x]) = Inr ((cuts @ [x]) @ more)" "length more \<le> n" "sorted_wrt (<) more"
        "set more \<subseteq> fst ` set vec'" "\<forall>y \<in> set more. x < y" by blast
      have "cutoff_loop (Suc n) fac vec prev prob probStep cuts = Inr (cuts @ (x # more))"
        using less f Some more(1) by (simp add: cutoff_loop.simps [of "Suc n"] Let_def step'_def)
      moreover have sub: "set (x # more) \<subseteq> fst ` set vec" using more(4) us x(2) by auto
      moreover have "\<forall>y \<in> set (x # more). prev < y" if le: "\<forall>y \<in> fst ` set vec. prev \<le> y"
      proof
        fix y assume y: "y \<in> set (x # more)"
        with sub le have "prev \<le> x" by (meson list.set_intros(1) subsetD)
        with x(1) have "prev < x" by simp
        with y more(5) show "prev < y" by auto
      qed
      moreover have "length (x # more) \<le> Suc n" and "sorted_wrt (<) (x # more)"
        using more(2,3,5) by simp_all
      ultimately show ?thesis by (intro exI [of _ "x # more"] conjI impI)
    qed
  qed
qed

lemma geometric_steps:
  fixes fac :: rat
  assumes "0 < fac" and "0 < levels"
    and s: "s = (if fac = 1 then 1 / of_nat levels else (1 - fac) / (1 - fac ^ levels))"
  shows "s + (\<Sum>i<levels - 1. s * fac ^ Suc i) = 1"
proof -
  obtain n where n: "levels = Suc n" using assms(2) gr0_implies_Suc by blast
  have "s + (\<Sum>i<n. s * fac ^ Suc i) = (\<Sum>i<Suc n. s * fac ^ i)"
    by (simp add: sum.lessThan_Suc_shift del: sum.lessThan_Suc)
  also have "\<dots> = s * (\<Sum>i<Suc n. fac ^ i)" by (rule sum_distrib_left [symmetric])
  also have "\<dots> = 1"
  proof (cases "fac = 1")
    case True
    then show ?thesis by (simp add: s n)
  next
    case False
    then have "fac < 1 \<or> 1 < fac" by auto
    then have "fac ^ Suc n \<noteq> 1"
      using assms(1) power_Suc_less_one [of fac n] one_less_power [of fac "Suc n"] by auto
    then have "1 - fac ^ Suc n \<noteq> 0" by simp
    moreover have "(\<Sum>i<Suc n. fac ^ i) = (1 - fac ^ Suc n) / (1 - fac)"
      using False by (simp only: sum_gp_strict) simp
    ultimately show ?thesis using False by (simp add: s n del: power_Suc sum.lessThan_Suc)
  qed
  finally show ?thesis by (simp add: n)
qed

text \<open>
  A configured weight is positive and there is at least one level; then the loop ends within as
  many rounds as there are levels, and the cut-offs it yields are fit for the binary search.
\<close>

definition cdf_ok :: "cdf_vector \<Rightarrow> bool" where
  "cdf_ok vec \<longleftrightarrow> vec \<noteq> [] \<and> sorted_wrt (<) (map fst vec) \<and> isEqual (snd (last vec)) 1"

lemma cdf_cutoffs_ok:
  assumes "cdf_ok vec" and "0 < unschedPrioUsageWeight c" and "0 < prioResolverPrioLevels c"
    and "fuel = unat (prioResolverPrioLevels c) - 1"
  shows "\<exists>cuts. cdf_cutoffs fuel c vec = Inr cuts \<and> cutoffs_ok cuts \<and> distinct (butlast cuts) \<and>
           length cuts \<le> unat (prioResolverPrioLevels c)"
proof -
  define levels where "levels = unat (prioResolverPrioLevels c)"
  define fac where "fac = unschedPrioUsageWeight c"
  define s where "s = (if fac = 1 then 1 / of_nat levels else (1 - fac) / (1 - fac ^ levels))"
  have levels: "0 < levels" using assms(3) by (simp add: levels_def word_less_nat_alt)
  have "\<not> isLess (s + (\<Sum>i<fuel. s * fac ^ Suc i)) 1"
    using geometric_steps [OF _ levels s_def] assms(2,4)
    by (simp add: levels_def fac_def isLess_def)
  from cutoff_loop_ok [OF _ this, of vec "0xFFFFFFFF" "[]"] assms(1) obtain more where
    more: "cutoff_loop fuel fac vec 0xFFFFFFFF s s [] = Inr more" "length more \<le> fuel"
      "sorted_wrt (<) more"
    by (auto simp: cdf_ok_def)
  have "cdf_cutoffs fuel c vec = Inr (more @ [0xFFFFFFFF])"
    using more(1) assms(1)
    by (simp add: cdf_cutoffs_def cdf_ok_def Let_def fac_def [symmetric] levels_def [symmetric]
      s_def [symmetric])
  moreover have "sorted more" "distinct more" using more(3)
    by (simp_all add: strict_sorted_iff)
  then have "cutoffs_ok (more @ [0xFFFFFFFF])" and "distinct (butlast (more @ [0xFFFFFFFF]))"
    by (simp_all add: cutoffs_ok_def sorted_append word32_le_max)
  moreover have "length (more @ [0xFFFFFFFF]) \<le> levels" using more(2) assms(4) levels
    by (simp add: levels_def)
  ultimately show ?thesis unfolding levels_def by blast
qed

lemma setPrioCutOffs_cdf:
  assumes "prioResMode r \<in> {STATIC_CDF_UNIFORM, STATIC_CBF_UNIFORM, STATIC_CBF_GRADUATED}"
    and "cdf_ok (cdf v)" and "cdf_ok (cbfLastCapBytes v)" and "cdf_ok (remainSizeCbf v)"
    and "0 < unschedPrioUsageWeight c" and "0 < prioResolverPrioLevels c"
    and "fuel = unat (prioResolverPrioLevels c) - 1"
  shows "\<exists>r'. setPrioCutOffs fuel c v r = Inr r' \<and> cutoffs_ok (prioCutOffs r') \<and>
           prioResMode r' = prioResMode r \<and>
           length (prioCutOffs r') \<le> unat (prioResolverPrioLevels c)"
  using assms(1) cdf_cutoffs_ok [OF assms(2,5,6,7)] cdf_cutoffs_ok [OF assms(3,5,6,7)]
    cdf_cutoffs_ok [OF assms(4,5,6,7)]
  by (auto simp: setPrioCutOffs_def)

lemma setPrioCutOffs_explicit:
  assumes "prioResMode r = EXPLICIT" and "sorted (explicitUnschedPrioCutoff c)"
    and "explicitUnschedPrioCutoff c \<noteq> []"
  shows "\<exists>r'. setPrioCutOffs fuel c v r = Inr r' \<and> cutoffs_ok (prioCutOffs r') \<and>
           prioResMode r' = EXPLICIT"
  using assms by (simp add: setPrioCutOffs_def Let_def cutoffs_ok_def sorted_append word32_le_max)

section \<open>Properties\<close>

text \<open>
  C8: On cut-off sizes as the resolver sets them up, the binary search returns the first level
  whose cut-off is at least the size of the message: the size fits the level and exceeds every
  cut-off before it.
\<close>

theorem getMesgPrio_first_level:
  assumes "cutoffs_ok cuts" and "length cuts \<le> 65536"
  shows "\<exists>p. getMesgPrio cuts msgSize = Inr p \<and> unat p < length cuts \<and>
           msgSize \<le> cuts ! unat p \<and> (\<forall>i < unat p. cuts ! i < msgSize)"
proof -
  from getMesgPrio_level [OF assms, of msgSize] obtain p where
    p: "getMesgPrio cuts msgSize = Inr p" "unat p = lower_bound (<) cuts msgSize"
      "unat p < length cuts" by (auto simp: prio_level_def)
  with lower_bound_at [of "(<)" cuts msgSize] have "msgSize \<le> cuts ! unat p" by simp
  moreover have "\<forall>i < unat p. cuts ! i < msgSize"
    using p(2) by (simp add: lower_bound_below [of _ "(<)" cuts msgSize])
  ultimately show ?thesis using p by blast
qed

lemma getMesgPrio_first_level_witness:
  "\<exists>p. getMesgPrio [100, 5000, 0xFFFFFFFF] 300 = Inr p \<and>
     unat p < length [100, 5000, 0xFFFFFFFF :: u32] \<and>
     300 \<le> [100, 5000, 0xFFFFFFFF :: u32] ! unat p \<and>
     (\<forall>i < unat p. [100, 5000, 0xFFFFFFFF :: u32] ! i < 300)"
  by (rule getMesgPrio_first_level) (simp_all add: cutoffs_ok_def)

text \<open>
  For the distributions of the workload and a positive usage weight the loop that picks the
  cut-offs ends, within as many rounds as there are levels, and leaves increasing cut-offs, closed
  by the largest size and no more of them than levels.
\<close>

theorem PriorityResolver_sets_cutoffs:
  assumes "strPrioModeToInt (unschedPrioResolutionMode c) \<in>
      {STATIC_CDF_UNIFORM, STATIC_CBF_UNIFORM, STATIC_CBF_GRADUATED}"
    and "cdf_ok (cdf v)" and "cdf_ok (cbfLastCapBytes v)" and "cdf_ok (remainSizeCbf v)"
    and "0 < unschedPrioUsageWeight c" and "0 < prioResolverPrioLevels c"
  shows "\<exists>r. PriorityResolver (unat (prioResolverPrioLevels c) - 1) c v = Inr r \<and>
           cutoffs_ok (prioCutOffs r) \<and>
           length (prioCutOffs r) \<le> unat (prioResolverPrioLevels c)"
proof -
  define r0 where "r0 = \<lparr>prioCutOffs = [],
    prioResMode = strPrioModeToInt (unschedPrioResolutionMode c)\<rparr>"
  have "prioResMode r0 \<in> {STATIC_CDF_UNIFORM, STATIC_CBF_UNIFORM, STATIC_CBF_GRADUATED}"
    using assms(1) by (simp add: r0_def)
  from setPrioCutOffs_cdf [OF this assms(2-6) refl] show ?thesis
    unfolding PriorityResolver_def r0_def by auto
qed

lemma PriorityResolver_sets_cutoffs_witness:
  "\<exists>r. PriorityResolver 3 (ini_params\<lparr>prioResolverPrioLevels := 4,
       unschedPrioUsageWeight := 1 / 2\<rparr>)
       (let v = [(100, 1 / 2), (5000, 3 / 4), (90000, 1)]
        in \<lparr>cdf = v, cbfLastCapBytes = v, remainSizeCbf = v\<rparr>) = Inr r \<and>
     cutoffs_ok (prioCutOffs r) \<and> length (prioCutOffs r) \<le> 4"
  using PriorityResolver_sets_cutoffs [of "ini_params\<lparr>prioResolverPrioLevels := 4,
       unschedPrioUsageWeight := 1 / 2\<rparr>" "let v = [(100, 1 / 2), (5000, 3 / 4), (90000, 1)]
        in \<lparr>cdf = v, cbfLastCapBytes = v, remainSizeCbf = v\<rparr>"]
  by (simp add: ini_params_def strPrioModeToInt_def cdf_ok_def isEqual_def Let_def)

text \<open>
  C10: In the graduated modes the priority of each unscheduled packet is the level of what is left
  of the message when that packet goes out, so along a message the priorities never get worse, and
  the assertion of the loop holds whenever the packets do not exceed the message.
\<close>

theorem getUnschedPktsPrio_graduated:
  assumes "prioResMode r \<in> {EXPLICIT, STATIC_CBF_GRADUATED}"
    and "cutoffs_ok (prioCutOffs r)" and "length (prioCutOffs r) \<le> 65536"
    and "sum_list (map unat (om_reqUnschedDataVec om)) \<le> unat (om_msgSize om)"
  shows "\<exists>ps. getUnschedPktsPrio r om = Inr ps \<and>
           length ps = length (om_reqUnschedDataVec om) \<and>
           (\<forall>i < length ps. unat (ps ! i) = prio_level (prioCutOffs r)
              (om_msgSize om - of_nat (sum_list (map unat (take i (om_reqUnschedDataVec om)))))) \<and>
           (\<forall>j < length ps. \<forall>i \<le> j. ps ! j \<le> ps ! i)"
proof -
  from graduated_prios_ok [OF assms(2-4)] obtain ps where
    ps: "graduated_prios (prioCutOffs r) (om_msgSize om) (om_reqUnschedDataVec om) = Inr ps"
      "length ps = length (om_reqUnschedDataVec om)"
      "\<forall>i < length ps. unat (ps ! i) = prio_level (prioCutOffs r)
         (om_msgSize om - of_nat (sum_list (map unat (take i (om_reqUnschedDataVec om)))))"
    by auto
  have "ps ! j \<le> ps ! i" if "j < length ps" "i \<le> j" for i j
  proof -
    have "(om_msgSize om - of_nat (sum_list (map unat (take j (om_reqUnschedDataVec om))))) \<le>
        om_msgSize om - of_nat (sum_list (map unat (take i (om_reqUnschedDataVec om))))"
      by (rule taken_antimono [OF that(2) assms(4)])
    then have "prio_level (prioCutOffs r) (om_msgSize om -
          of_nat (sum_list (map unat (take j (om_reqUnschedDataVec om))))) \<le>
        prio_level (prioCutOffs r) (om_msgSize om -
          of_nat (sum_list (map unat (take i (om_reqUnschedDataVec om)))))"
      unfolding prio_level_def by (rule lower_bound_mono_key)
    with ps(3) that show ?thesis by (simp add: word_le_nat_alt)
  qed
  moreover have "getUnschedPktsPrio r om = Inr ps"
    using assms(1) ps(1) by (auto simp: getUnschedPktsPrio_def)
  ultimately show ?thesis using ps(2,3) by blast
qed

lemma getUnschedPktsPrio_graduated_witness:
  "\<exists>ps. getUnschedPktsPrio \<lparr>prioCutOffs = [100, 5000, 0xFFFFFFFF], prioResMode = EXPLICIT\<rparr>
      (new_outbound\<lparr>om_msgSize := 6000, om_reqUnschedDataVec := [1442, 1442, 1442]\<rparr>) = Inr ps \<and>
     length ps = 3 \<and> ps ! 2 \<le> ps ! 0"
proof -
  define om where
    "om = new_outbound\<lparr>om_msgSize := 6000, om_reqUnschedDataVec := [1442, 1442, 1442]\<rparr>"
  have om: "om_msgSize om = 6000" "om_reqUnschedDataVec om = [1442, 1442, 1442]"
    by (simp_all add: om_def)
  show ?thesis
    unfolding om_def [symmetric]
    using getUnschedPktsPrio_graduated [of
      "\<lparr>prioCutOffs = [100, 5000, 0xFFFFFFFF], prioResMode = EXPLICIT\<rparr>" om]
    by (auto simp: cutoffs_ok_def om)
qed

end
