(* ===== verification/OutboundMessage.thy ===== *)
theory OutboundMessage
  imports UnschedAllocator PriorityResolver
begin

text \<open>
  \<open>HomaTransport::OutboundMessage\<close>: a message on its way out.  The operations that make the
  request and the unscheduled packets, the packet for a grant, and that take the next packet for
  transmission.
\<close>

section \<open>Operations\<close>

definition OutboundMessage :: "app_msg \<Rightarrow> u64 \<Rightarrow> u16 list \<Rightarrow> outbound_msg" where
  "OutboundMessage outMsg msgId reqUnschedDataVec =
     \<lparr>om_msgId = msgId, om_msgSize = app_byteLength outMsg, om_bytesToSched = app_byteLength outMsg,
      om_bytesLeft = app_byteLength outMsg, om_unschedBytesLeft = 0,
      om_nextExpectedUnschedTxTime = 0, om_reqUnschedDataVec = reqUnschedDataVec,
      om_destAddr = app_destAddr outMsg, om_srcAddr = app_srcAddr outMsg,
      om_isEcho = app_isEcho outMsg, om_msgCreationTime = app_msgCreationTime outMsg,
      om_txPkts = [], om_txSchedPkts = []\<rparr>"

text \<open>The order of the packets of a message; both sender schemes share it.\<close>

definition OutbndPktSorter :: "homa_pkt \<Rightarrow> homa_pkt \<Rightarrow> bool" where
  "OutbndPktSorter pkt1 pkt2 \<longleftrightarrow>
     getFirstByte pkt1 > getFirstByte pkt2 \<or>
     (getFirstByte pkt1 = getFirstByte pkt2 \<and> pkt_creationTime pkt1 > pkt_creationTime pkt2) \<or>
     (getFirstByte pkt1 = getFirstByte pkt2 \<and> pkt_creationTime pkt1 = pkt_creationTime pkt2 \<and>
      pkt_priority pkt1 > pkt_priority pkt2)"

text \<open>The first loop: bytes per priority, a flat list of pairs, and the sum of the bytes.\<close>

fun prio_runs ::
    "(u16 \<times> u16) list \<Rightarrow> u32 \<Rightarrow> u32 list \<Rightarrow> u32 \<Rightarrow> (u32 list \<times> u32) res" where
  "prio_runs [] prio runs tot = Inr (runs, tot)"
| "prio_runs ((p, d) # pds) prio runs tot =
     (if ucast p \<noteq> prio then
        prio_runs pds (ucast p) (runs @ [ucast p, ucast d]) (tot + ucast d)
      else if runs = [] then Inl NullPointer
      else prio_runs pds prio (butlast runs @ [last runs + ucast d]) (tot + ucast d))"

text \<open>Takes the bytes of a packet out of the first pair that has its priority.\<close>

fun sub_prio_bytes :: "u32 \<Rightarrow> u32 \<Rightarrow> u32 list \<Rightarrow> u32 list" where
  "sub_prio_bytes prio d (p # b # runs) =
     (if p = prio then (if b - d = 0 then runs else p # (b - d) # runs)
      else p # b # sub_prio_bytes prio d runs)"
| "sub_prio_bytes prio d runs = runs"

definition unsched_pkt ::
    "simtime \<Rightarrow> outbound_msg \<Rightarrow> u32 \<Rightarrow> u32 list \<Rightarrow> pkt_type \<Rightarrow> u16 \<Rightarrow> u16 \<Rightarrow> u32 \<Rightarrow> homa_pkt res" where
  "unsched_pkt cur om totalUnschedBytes runs pktType prio d nextByteToSched =
     (let fields = \<lparr>uf_msgByteLen = om_msgSize om, uf_msgCreationTime = om_msgCreationTime om,
            uf_totalUnschedBytes = ucast totalUnschedBytes, uf_firstByte = nextByteToSched,
            uf_lastByte = nextByteToSched + ucast d - 1,
            uf_prioUnschedBytes = sub_prio_bytes (ucast prio) (ucast d) runs\<rparr>;
          pkt = (new_pkt cur pktType)\<lparr>pkt_destAddr := om_destAddr om, pkt_srcAddr := om_srcAddr om,
            pkt_isEcho := om_isEcho om, pkt_msgId := om_msgId om, pkt_priority := ucast prio,
            pkt_unsched := fields\<rparr>
      in rbind (getDataBytes pkt) (\<lambda>n. Inr (pkt\<lparr>pkt_byteLength := headerSize pkt + n\<rparr>)))"

fun unsched_loop ::
    "simtime \<Rightarrow> u32 \<Rightarrow> u32 list \<Rightarrow> pkt_type \<Rightarrow> (u16 \<times> u16) list \<Rightarrow> u32 \<Rightarrow> outbound_msg \<Rightarrow>
     outbound_msg res" where
  "unsched_loop cur tot runs pktType [] nextByteToSched om = Inr om"
| "unsched_loop cur tot runs pktType ((p, d) # pds) nextByteToSched om =
     rbind (unsched_pkt cur om tot runs pktType p d nextByteToSched) (\<lambda>pkt.
     rbind (getDataBytes pkt) (\<lambda>n.
     unsched_loop cur tot runs UNSCHED_DATA pds (nextByteToSched + n)
       (om\<lparr>om_txPkts := pq_push OutbndPktSorter pkt (om_txPkts om),
           om_bytesToSched := om_bytesToSched om - n\<rparr>)))"

text \<open>The second loop runs at least once and reads the first element of the vector.\<close>

definition prepareRequestAndUnsched ::
    "simtime \<Rightarrow> prio_resolver \<Rightarrow> outbound_msg \<Rightarrow> outbound_msg res" where
  "prepareRequestAndUnsched cur r om =
     rbind (getUnschedPktsPrio r om) (\<lambda>unschedPrioVec.
     let pds = zip unschedPrioVec (om_reqUnschedDataVec om) in
     rbind (prio_runs pds 0xFFFF [] 0) (\<lambda>(runs, tot).
     let om = om\<lparr>om_unschedBytesLeft := tot\<rparr> in
     if om_reqUnschedDataVec om = [] then Inl NullPointer
     else unsched_loop cur tot runs REQUEST pds 0 om))"

definition sched_pkt :: "simtime \<Rightarrow> outbound_msg \<Rightarrow> u32 \<Rightarrow> u32 \<Rightarrow> u16 \<Rightarrow> homa_pkt" where
  "sched_pkt cur om offset bytesToSend schedPrio =
     (let pkt = (new_pkt cur SCHED_DATA)\<lparr>pkt_srcAddr := om_srcAddr om,
            pkt_destAddr := om_destAddr om, pkt_isEcho := om_isEcho om, pkt_msgId := om_msgId om,
            pkt_priority := ucast schedPrio,
            pkt_sched := \<lparr>sf_firstByte = offset, sf_lastByte = offset + bytesToSend - 1\<rparr>\<rparr>
      in pkt\<lparr>pkt_byteLength := bytesToSend + headerSize pkt\<rparr>)"

definition prepareSchedPkt ::
    "simtime \<Rightarrow> u32 \<Rightarrow> u16 \<Rightarrow> u16 \<Rightarrow> outbound_msg \<Rightarrow> (u32 \<times> outbound_msg) res" where
  "prepareSchedPkt cur offset numBytes schedPrio om =
     rbind (assertion (om_bytesToSched om > 0)) (\<lambda>_.
     let bytesToSend = min (ucast numBytes) (om_bytesToSched om);
         dataPkt = sched_pkt cur om offset bytesToSend schedPrio;
         om = om\<lparr>om_txPkts := pq_push OutbndPktSorter dataPkt (om_txPkts om),
                 om_txSchedPkts := om_txSchedPkts om @ [dataPkt],
                 om_bytesToSched := om_bytesToSched om - bytesToSend\<rparr>
     in Inr (om_bytesToSched om, om))"

definition getTransmitReadyPkt :: "outbound_msg \<Rightarrow> (homa_pkt \<times> bool \<times> outbound_msg) res" where
  "getTransmitReadyPkt om =
     (case om_txPkts om of
        [] \<Rightarrow> Inl AssertFailed
      | head # rest \<Rightarrow>
          let om = om\<lparr>om_txPkts := rest\<rparr>;
              om = (if pkt_type head = SCHED_DATA
                    then om\<lparr>om_txSchedPkts := remove1 head (om_txSchedPkts om)\<rparr> else om)
          in rbind (getDataBytes head) (\<lambda>numDataBytes.
             let om = om\<lparr>om_bytesLeft := om_bytesLeft om - numDataBytes\<rparr>;
                 om = (if pkt_type head = REQUEST \<or> pkt_type head = UNSCHED_DATA
                       then om\<lparr>om_unschedBytesLeft := om_unschedBytesLeft om - numDataBytes\<rparr>
                       else om)
             in Inr (head, rest \<noteq> [], om)))"

section \<open>The order of packets\<close>

definition out_key :: "homa_pkt \<Rightarrow> u32 \<times> simtime \<times> u32" where
  "out_key p = (getFirstByte p, pkt_creationTime p, pkt_priority p)"

lemma OutbndPktSorter_key: "OutbndPktSorter a b \<longleftrightarrow> out_key b < out_key a"
  unfolding OutbndPktSorter_def out_key_def less_prod_simp lex_step
  by (cases "getFirstByte a = getFirstByte b"; cases "pkt_creationTime a = pkt_creationTime b"; simp)

interpretation out_pkts: strict_weak_order OutbndPktSorter
  by unfold_locales (auto simp: OutbndPktSorter_key)

section \<open>What holds of a message on its way\<close>

text \<open>Every byte of the message that is left is waiting for a grant or in a queued packet.\<close>

definition data_nat :: "homa_pkt \<Rightarrow> nat" where
  "data_nat p = (case getDataBytes p of Inr n \<Rightarrow> unat n | Inl _ \<Rightarrow> 0)"

definition queued_nat :: "homa_pkt list \<Rightarrow> nat" where
  "queued_nat ps = sum_list (map data_nat ps)"

definition out_pkt_ok :: "outbound_msg \<Rightarrow> homa_pkt \<Rightarrow> bool" where
  "out_pkt_ok om p \<longleftrightarrow> pkt_type p \<in> {REQUEST, UNSCHED_DATA, SCHED_DATA} \<and>
     pkt_msgId p = om_msgId om \<and> pkt_srcAddr p = om_srcAddr om \<and> pkt_destAddr p = om_destAddr om"

definition om_ok :: "outbound_msg \<Rightarrow> bool" where
  "om_ok om \<longleftrightarrow>
     unat (om_bytesLeft om) = unat (om_bytesToSched om) + queued_nat (om_txPkts om) \<and>
     om_bytesLeft om \<le> om_msgSize om \<and>
     (\<forall>p \<in> set (om_txPkts om). out_pkt_ok om p) \<and>
     sorted_wrt (\<lambda>a b. \<not> OutbndPktSorter a b) (om_txPkts om)"

lemma out_pkt_ok_upd [simp]:
  "out_pkt_ok (om\<lparr>om_txPkts := x\<rparr>) p = out_pkt_ok om p"
  "out_pkt_ok (om\<lparr>om_txSchedPkts := x\<rparr>) p = out_pkt_ok om p"
  "out_pkt_ok (om\<lparr>om_bytesToSched := n\<rparr>) p = out_pkt_ok om p"
  "out_pkt_ok (om\<lparr>om_bytesLeft := n\<rparr>) p = out_pkt_ok om p"
  "out_pkt_ok (om\<lparr>om_unschedBytesLeft := n\<rparr>) p = out_pkt_ok om p"
  by (simp_all add: out_pkt_ok_def)

lemma queued_nat_simps [simp]:
  "queued_nat [] = 0" "queued_nat (p # ps) = data_nat p + queued_nat ps"
  "queued_nat (ps @ qs) = queued_nat ps + queued_nat qs"
  by (simp_all add: queued_nat_def)

lemma queued_nat_push [simp]: "queued_nat (pq_push lt p ps) = data_nat p + queued_nat ps"
  by (induction ps) auto

lemma data_pkt_bytes:
  "pkt_type p \<in> {REQUEST, UNSCHED_DATA, SCHED_DATA} \<Longrightarrow>
   \<exists>n. getDataBytes p = Inr n \<and> unat n = data_nat p"
  by (auto simp: getDataBytes_def data_nat_def)

lemma data_nat_le: "data_nat p < 2 ^ 32"
proof (cases "getDataBytes p")
  case (Inr n)
  then show ?thesis using unsigned_less [of n, where 'a = nat] by (simp add: data_nat_def)
qed (simp add: data_nat_def)

section \<open>Packets for a grant and packets sent\<close>

lemma sched_pkt_fields:
  "pkt_type (sched_pkt cur om off n prio) = SCHED_DATA"
  "getFirstByte (sched_pkt cur om off n prio) = off"
  "getDataBytes (sched_pkt cur om off n prio) = Inr n"
  "data_nat (sched_pkt cur om off n prio) = unat n"
  "out_pkt_ok om (sched_pkt cur om off n prio)"
  "pkt_creationTime (sched_pkt cur om off n prio) = cur"
  by (simp_all add: sched_pkt_def Let_def getFirstByte_def getDataBytes_def data_nat_def
    out_pkt_ok_def new_pkt_def)

lemma prepareSchedPkt_ok:
  assumes "om_ok om" and "0 < om_bytesToSched om"
    and n_def: "n = min (ucast (numBytes :: u16)) (om_bytesToSched om)"
  shows "\<exists>om' pkt. prepareSchedPkt cur off numBytes prio om = Inr (om_bytesToSched om - n, om') \<and>
     om_ok om' \<and>
     om' = om\<lparr>om_txPkts := pq_push OutbndPktSorter pkt (om_txPkts om),
              om_txSchedPkts := om_txSchedPkts om @ [pkt],
              om_bytesToSched := om_bytesToSched om - n\<rparr> \<and>
     pkt_type pkt = SCHED_DATA \<and> getFirstByte pkt = off \<and> getDataBytes pkt = Inr n"
proof -
  define pkt where "pkt = sched_pkt cur om off n prio"
  define om' where "om' = om\<lparr>om_txPkts := pq_push OutbndPktSorter pkt (om_txPkts om),
    om_txSchedPkts := om_txSchedPkts om @ [pkt], om_bytesToSched := om_bytesToSched om - n\<rparr>"
  have n: "unat (om_bytesToSched om - n) = unat (om_bytesToSched om) - unat n"
    "unat n \<le> unat (om_bytesToSched om)"
    by (simp_all add: n_def unat_sub word_le_nat_alt [symmetric])
  have "prepareSchedPkt cur off numBytes prio om = Inr (om_bytesToSched om - n, om')"
    using assms(2) by (simp add: prepareSchedPkt_def Let_def n_def pkt_def om'_def)
  moreover have "om_ok om'"
    using assms(1) n out_pkts.swo_push [of "om_txPkts om" pkt]
    by (auto simp: om_ok_def om'_def pkt_def sched_pkt_fields)
  ultimately show ?thesis
    by (auto simp: om'_def pkt_def sched_pkt_fields)
qed

lemma getTransmitReadyPkt_ok:
  assumes "om_ok om" and "om_txPkts om = p # ps"
  shows "\<exists>om'. getTransmitReadyPkt om = Inr (p, ps \<noteq> [], om') \<and> om_ok om' \<and>
     om_txPkts om' = ps \<and> om_bytesToSched om' = om_bytesToSched om \<and>
     unat (om_bytesLeft om) = unat (om_bytesLeft om') + data_nat p \<and>
     om_msgId om' = om_msgId om \<and> om_srcAddr om' = om_srcAddr om \<and>
     om_destAddr om' = om_destAddr om \<and> om_msgCreationTime om' = om_msgCreationTime om \<and>
     om_msgSize om' = om_msgSize om"
proof -
  from assms have p: "out_pkt_ok om p" by (simp add: om_ok_def)
  then obtain n where n: "getDataBytes p = Inr n" "unat n = data_nat p"
    using data_pkt_bytes [of p] by (auto simp: out_pkt_ok_def)
  have le: "n \<le> om_bytesLeft om" using assms n by (simp add: om_ok_def word_le_nat_alt)
  then have u: "unat (om_bytesLeft om - n) = unat (om_bytesLeft om) - data_nat p"
    by (simp add: unat_sub n)
  have le': "om_bytesLeft om - n \<le> om_msgSize om"
    using assms(1) u unfolding om_ok_def word_le_nat_alt by linarith
  have le2: "data_nat p \<le> unat (om_bytesLeft om)" using le n(2) by (simp add: word_le_nat_alt)
  define om' where "om' = (let om1 = om\<lparr>om_txPkts := ps\<rparr>;
      om1 = (if pkt_type p = SCHED_DATA
            then om1\<lparr>om_txSchedPkts := remove1 p (om_txSchedPkts om1)\<rparr> else om1);
      om1 = om1\<lparr>om_bytesLeft := om_bytesLeft om - n\<rparr>
    in if pkt_type p = REQUEST \<or> pkt_type p = UNSCHED_DATA
       then om1\<lparr>om_unschedBytesLeft := om_unschedBytesLeft om - n\<rparr> else om1)"
  have f: "om_txPkts om' = ps" "om_bytesToSched om' = om_bytesToSched om"
    "om_bytesLeft om' = om_bytesLeft om - n" "om_msgId om' = om_msgId om"
    "om_srcAddr om' = om_srcAddr om" "om_destAddr om' = om_destAddr om"
    "om_msgCreationTime om' = om_msgCreationTime om" "om_msgSize om' = om_msgSize om"
    by (simp_all add: om'_def Let_def)
  have pk: "out_pkt_ok om' q = out_pkt_ok om q" for q by (simp add: out_pkt_ok_def f)
  have "getTransmitReadyPkt om = Inr (p, ps \<noteq> [], om')"
    by (simp add: getTransmitReadyPkt_def assms(2) n om'_def Let_def)
  moreover have "om_ok om'"
    using assms u le' unfolding om_ok_def f pk by simp
  ultimately show ?thesis using f u le2 by auto
qed

section \<open>The request and the unscheduled packets\<close>

definition resolver_ok :: "prio_resolver \<Rightarrow> bool" where
  "resolver_ok r \<longleftrightarrow> prioResMode r \<noteq> INVALID_PRIO_MODE \<and> cutoffs_ok (prioCutOffs r) \<and>
     length (prioCutOffs r) \<le> 65535"

definition data_sum :: "u16 list \<Rightarrow> nat" where
  "data_sum ds = sum_list (map unat ds)"

lemma data_sum_simps [simp]: "data_sum [] = 0" "data_sum (d # ds) = unat d + data_sum ds"
  by (simp_all add: data_sum_def)

lemma getUnschedPktsPrio_ok:
  assumes "resolver_ok r" and "data_sum (om_reqUnschedDataVec om) \<le> unat (om_msgSize om)"
  shows "\<exists>ps. getUnschedPktsPrio r om = Inr ps \<and> length ps = length (om_reqUnschedDataVec om) \<and>
           (\<forall>p \<in> set ps. p \<noteq> 0xFFFF)"
proof -
  let ?c = "prioCutOffs r"
  from assms(1) have c: "cutoffs_ok ?c" "length ?c \<le> 65536" "length ?c \<le> 65535"
    by (simp_all add: resolver_ok_def)
  have small: "p \<noteq> 0xFFFF" if "unat p < 65535" for p :: u16 using that by auto
  have lvl: "prio_level ?c n < 65535" for n
    using lower_bound_cutoffs [OF c(1), of n] c(3) by (simp add: prio_level_def)
  from graduated_prios_ok [OF c(1,2), of "om_reqUnschedDataVec om" "om_msgSize om"] assms(2)
  obtain gs where gs: "graduated_prios ?c (om_msgSize om) (om_reqUnschedDataVec om) = Inr gs"
    "length gs = length (om_reqUnschedDataVec om)" "\<forall>i < length gs. unat (gs ! i) < 65535"
    using lvl by (auto simp: data_sum_def)
  then have gs': "\<forall>p \<in> set gs. p \<noteq> 0xFFFF" using small by (metis in_set_conv_nth)
  from getMesgPrio_level [OF c(1,2), of "om_msgSize om"] obtain p where
    p: "getMesgPrio ?c (om_msgSize om) = Inr p" "unat p < 65535" using c(3) by auto
  have pz: "p \<noteq> 0xFFFF" by (rule small [OF p(2)])
  show ?thesis
  proof (cases "prioResMode r")
    case INVALID_PRIO_MODE
    with assms(1) show ?thesis by (simp add: resolver_ok_def)
  qed (simp_all add: getUnschedPktsPrio_def gs gs' p pz)
qed

lemma prio_runs_ok:
  assumes "runs \<noteq> [] \<or> pds = [] \<or> ucast (fst (hd pds)) \<noteq> prio"
  shows "\<exists>runs'. prio_runs pds prio runs tot = Inr (runs', tot + of_nat (data_sum (map snd pds)))"
  using assms
proof (induction pds prio runs tot rule: prio_runs.induct)
  case (2 p d pds prio runs tot)
  have a: "tot + ucast d + of_nat n = tot + of_nat (unat d + n)" for n
    by (simp add: add.assoc)
  show ?case
  proof (cases "ucast p = prio")
    case True
    with 2 show ?thesis by (simp add: a)
  next
    case False
    with 2 show ?thesis by (simp add: a)
  qed
qed simp

lemma unsched_pkt_ok:
  assumes "t = REQUEST \<or> t = UNSCHED_DATA"
  shows "\<exists>pkt. unsched_pkt cur om tot runs t p d n = Inr pkt \<and> getDataBytes pkt = Inr (ucast d) \<and>
     data_nat pkt = unat d \<and> getFirstByte pkt = n \<and> out_pkt_ok om pkt \<and> pkt_type pkt = t \<and>
     pkt_priority pkt = ucast p \<and> pkt_creationTime pkt = cur"
  using assms by (auto simp: unsched_pkt_def Let_def getDataBytes_def data_nat_def getFirstByte_def
    out_pkt_ok_def new_pkt_def)

lemma unsched_loop_ok:
  assumes "om_ok om" and "data_sum (map snd pds) \<le> unat (om_bytesToSched om)"
    and "t = REQUEST \<or> t = UNSCHED_DATA"
  shows "\<exists>om'. unsched_loop cur tot runs t pds n om = Inr om' \<and> om_ok om' \<and>
     om' = om\<lparr>om_txPkts := om_txPkts om', om_bytesToSched := om_bytesToSched om'\<rparr> \<and>
     unat (om_bytesToSched om) = unat (om_bytesToSched om') + data_sum (map snd pds) \<and>
     mset (map data_nat (om_txPkts om')) =
       mset (map data_nat (om_txPkts om)) + mset (map unat (map snd pds))"
  using assms
proof (induction pds arbitrary: t n om)
  case Nil
  then show ?case by simp
next
  case (Cons pd pds)
  obtain p d where pd: "pd = (p, d)" by (cases pd)
  from unsched_pkt_ok [OF Cons.prems(3), of cur om tot runs p d n] obtain pkt where
    pkt: "unsched_pkt cur om tot runs t p d n = Inr pkt" "getDataBytes pkt = Inr (ucast d)"
      "data_nat pkt = unat d" "out_pkt_ok om pkt" by blast
  define om1 where "om1 = om\<lparr>om_txPkts := pq_push OutbndPktSorter pkt (om_txPkts om),
    om_bytesToSched := om_bytesToSched om - ucast d\<rparr>"
  have le: "unat d \<le> unat (om_bytesToSched om)" using Cons.prems(2) pd by simp
  then have "(ucast d :: u32) \<le> om_bytesToSched om" by (simp add: word_le_nat_alt)
  then have u: "unat (om_bytesToSched om - ucast d) = unat (om_bytesToSched om) - unat d"
    by (simp add: unat_sub)
  have "om_ok om1" using Cons.prems(1) pkt u le out_pkts.swo_push [of "om_txPkts om" pkt]
    by (auto simp: om_ok_def om1_def)
  moreover have "data_sum (map snd pds) \<le> unat (om_bytesToSched om1)"
    using Cons.prems(2) u pd by (simp add: om1_def)
  ultimately obtain om' where om':
    "unsched_loop cur tot runs UNSCHED_DATA pds (n + ucast d) om1 = Inr om'" "om_ok om'"
    "om' = om1\<lparr>om_txPkts := om_txPkts om', om_bytesToSched := om_bytesToSched om'\<rparr>"
    "unat (om_bytesToSched om1) = unat (om_bytesToSched om') + data_sum (map snd pds)"
    "mset (map data_nat (om_txPkts om')) =
       mset (map data_nat (om_txPkts om1)) + mset (map unat (map snd pds))"
    using Cons.IH [of om1 UNSCHED_DATA "n + ucast d"] by blast
  have "unsched_loop cur tot runs t (pd # pds) n om = Inr om'"
    using pkt om'(1) by (simp add: pd om1_def)
  moreover have "om' = om\<lparr>om_txPkts := om_txPkts om', om_bytesToSched := om_bytesToSched om'\<rparr>"
    by (subst om'(3)) (simp add: om1_def)
  moreover have "mset (map data_nat (om_txPkts om')) =
      mset (map data_nat (om_txPkts om)) + mset (map unat (map snd (pd # pds)))"
    using om'(5) pkt(3) pd by (simp add: om1_def)
  moreover have "unat (om_bytesToSched om) =
      unat (om_bytesToSched om') + data_sum (map snd (pd # pds))"
    using om'(4) u le pd by (simp add: om1_def)
  ultimately show ?case using om'(2) by blast
qed

text \<open>A message just made from an application message, before its packets are.\<close>

definition om_fresh :: "outbound_msg \<Rightarrow> bool" where
  "om_fresh om \<longleftrightarrow> om_bytesToSched om = om_msgSize om \<and> om_bytesLeft om = om_msgSize om \<and>
     om_txPkts om = [] \<and> om_txSchedPkts om = [] \<and> om_reqUnschedDataVec om \<noteq> [] \<and>
     data_sum (om_reqUnschedDataVec om) \<le> unat (om_msgSize om)"

lemma om_fresh_ok: "om_fresh om \<Longrightarrow> om_ok om"
  by (simp add: om_fresh_def om_ok_def)

lemma prepare_unfold:
  assumes "resolver_ok r" and "om_fresh om"
  shows "\<exists>pds runs. prepareRequestAndUnsched cur r om =
      unsched_loop cur (of_nat (data_sum (om_reqUnschedDataVec om))) runs REQUEST pds 0
        (om\<lparr>om_unschedBytesLeft := of_nat (data_sum (om_reqUnschedDataVec om))\<rparr>) \<and>
      map snd pds = om_reqUnschedDataVec om"
proof -
  from assms(2) have f: "om_reqUnschedDataVec om \<noteq> []"
    "data_sum (om_reqUnschedDataVec om) \<le> unat (om_msgSize om)" by (simp_all add: om_fresh_def)
  from getUnschedPktsPrio_ok [OF assms(1) f(2)] obtain ps where
    ps: "getUnschedPktsPrio r om = Inr ps" "length ps = length (om_reqUnschedDataVec om)"
      "\<forall>p \<in> set ps. p \<noteq> 0xFFFF" by blast
  define pds where "pds = zip ps (om_reqUnschedDataVec om)"
  have snd: "map snd pds = om_reqUnschedDataVec om" using ps(2) by (simp add: pds_def)
  have ne: "pds \<noteq> []" using f(1) ps(2) by (cases ps) (auto simp: pds_def)
  then have "fst (hd pds) \<in> set ps" unfolding pds_def
    by (metis hd_in_set in_set_zipE prod.collapse)
  with ps(3) have "fst (hd pds) \<noteq> 0xFFFF" by blast
  then have "unat (fst (hd pds)) \<noteq> unat (0xFFFF :: u16)" by (simp only: word_unat_eq_iff not_False_eq_True)
  then have "unat (ucast (fst (hd pds)) :: u32) \<noteq> unat (0xFFFF :: u32)" by simp
  then have "ucast (fst (hd pds)) \<noteq> (0xFFFF :: u32)" by metis
  with prio_runs_ok [of "[]" pds "0xFFFF" 0] obtain runs where
    runs: "prio_runs pds 0xFFFF [] 0 = Inr (runs, of_nat (data_sum (map snd pds)))" by auto
  have "prepareRequestAndUnsched cur r om =
      unsched_loop cur (of_nat (data_sum (om_reqUnschedDataVec om))) runs REQUEST pds 0
        (om\<lparr>om_unschedBytesLeft := of_nat (data_sum (om_reqUnschedDataVec om))\<rparr>)"
    using f(1) by (simp add: prepareRequestAndUnsched_def ps(1) pds_def [symmetric] runs snd Let_def)
  with snd show ?thesis by blast
qed

lemma prepareRequestAndUnsched_ok:
  assumes "resolver_ok r" and "om_fresh om"
  shows "\<exists>om'. prepareRequestAndUnsched cur r om = Inr om' \<and> om_ok om' \<and>
     mset (map data_nat (om_txPkts om')) = mset (map unat (om_reqUnschedDataVec om)) \<and>
     om_bytesLeft om' = om_msgSize om' \<and>
     om' = om\<lparr>om_txPkts := om_txPkts om', om_bytesToSched := om_bytesToSched om',
       om_unschedBytesLeft := om_unschedBytesLeft om'\<rparr> \<and>
     unat (om_bytesToSched om') + data_sum (om_reqUnschedDataVec om) = unat (om_msgSize om)"
proof -
  let ?tot = "of_nat (data_sum (om_reqUnschedDataVec om)) :: u32"
  define om1 where "om1 = om\<lparr>om_unschedBytesLeft := ?tot\<rparr>"
  from prepare_unfold [OF assms, of cur] obtain pds runs where
    u: "prepareRequestAndUnsched cur r om = unsched_loop cur ?tot runs REQUEST pds 0 om1"
      "map snd pds = om_reqUnschedDataVec om" by (auto simp: om1_def)
  from assms(2) have f: "om_bytesToSched om = om_msgSize om" "om_bytesLeft om = om_msgSize om"
    "data_sum (om_reqUnschedDataVec om) \<le> unat (om_msgSize om)" "om_reqUnschedDataVec om \<noteq> []"
    by (simp_all add: om_fresh_def)
  have "om_ok om1" using om_fresh_ok [OF assms(2)] by (simp add: om_ok_def om1_def)
  moreover have "data_sum (map snd pds) \<le> unat (om_bytesToSched om1)"
    using f u(2) by (simp add: om1_def)
  ultimately obtain om' where om':
    "unsched_loop cur ?tot runs REQUEST pds 0 om1 = Inr om'" "om_ok om'"
    "om' = om1\<lparr>om_txPkts := om_txPkts om', om_bytesToSched := om_bytesToSched om'\<rparr>"
    "unat (om_bytesToSched om1) = unat (om_bytesToSched om') + data_sum (map snd pds)"
    "mset (map data_nat (om_txPkts om')) =
       mset (map data_nat (om_txPkts om1)) + mset (map unat (map snd pds))"
    using unsched_loop_ok [of om1 pds REQUEST cur ?tot runs 0] by blast
  have e: "om_txPkts om1 = []" using assms(2) by (simp add: om1_def om_fresh_def)
  have "om_bytesLeft om' = om_bytesLeft om" "om_msgSize om' = om_msgSize om"
    "om_unschedBytesLeft om' = ?tot"
    by (subst om'(3), simp add: om1_def)+
  moreover from this have "om' = om\<lparr>om_txPkts := om_txPkts om',
      om_bytesToSched := om_bytesToSched om', om_unschedBytesLeft := om_unschedBytesLeft om'\<rparr>"
    by (subst om'(3)) (simp add: om1_def)
  moreover have "mset (map data_nat (om_txPkts om')) = mset (map unat (om_reqUnschedDataVec om))"
    using om'(5) e u(2) by simp
  moreover have "unat (om_bytesToSched om') + data_sum (om_reqUnschedDataVec om) =
      unat (om_msgSize om)"
    using om'(4) u(2) f(1) by (simp add: om1_def)
  moreover have "prepareRequestAndUnsched cur r om = Inr om'" using om'(1) u(1) by simp
  ultimately show ?thesis using om'(2) f(2) by (intro exI [of _ om'] conjI) simp_all
qed

section \<open>The unscheduled packets tile the front of the message\<close>

fun tiles :: "nat \<Rightarrow> homa_pkt list \<Rightarrow> u16 list \<Rightarrow> bool" where
  "tiles n [] [] \<longleftrightarrow> True"
| "tiles n (p # ps) (d # ds) \<longleftrightarrow>
     getFirstByte p = of_nat n \<and> getDataBytes p = Inr (ucast d) \<and> tiles (n + unat d) ps ds"
| "tiles n _ _ \<longleftrightarrow> False"

lemma pq_push_last: "\<forall>y \<in> set q. \<not> lt y x \<Longrightarrow> pq_push lt x q = q @ [x]"
  by (induction q) auto

lemma unsched_loop_tiles:
  assumes "0 \<notin> set (map snd pds)" and "n + data_sum (map snd pds) < 2 ^ 32"
    and "\<forall>q \<in> set (om_txPkts om). getFirstByte q < of_nat n"
    and "t = REQUEST \<or> t = UNSCHED_DATA"
    and "unsched_loop cur tot runs t pds (of_nat n) om = Inr om'"
  shows "\<exists>ps. om_txPkts om' = om_txPkts om @ ps \<and> tiles n ps (map snd pds) \<and>
     map pkt_type ps = (case pds of [] \<Rightarrow> [] | _ # pds \<Rightarrow> t # map (\<lambda>_. UNSCHED_DATA) pds)"
  using assms
proof (induction pds arbitrary: t n om)
  case Nil
  then show ?case by auto
next
  case (Cons pd pds)
  obtain p d where pd: "pd = (p, d)" by (cases pd)
  from unsched_pkt_ok [OF Cons.prems(4), of cur om tot runs p d "of_nat n"] obtain pkt where
    pkt: "unsched_pkt cur om tot runs t p d (of_nat n) = Inr pkt"
      "getDataBytes pkt = Inr (ucast d)" "getFirstByte pkt = of_nat n" "pkt_type pkt = t" by blast
  have app: "pq_push OutbndPktSorter pkt (om_txPkts om) = om_txPkts om @ [pkt]"
  proof (rule pq_push_last, rule ballI)
    fix q assume "q \<in> set (om_txPkts om)"
    with Cons.prems(3) pkt(3) have "getFirstByte q < getFirstByte pkt" by simp
    then show "\<not> OutbndPktSorter q pkt" by (auto simp: OutbndPktSorter_def)
  qed
  define om1 where "om1 = om\<lparr>om_txPkts := om_txPkts om @ [pkt],
    om_bytesToSched := om_bytesToSched om - ucast d\<rparr>"
  have nd: "of_nat n + ucast d = (of_nat (n + unat d) :: u32)" by simp
  have run: "unsched_loop cur tot runs UNSCHED_DATA pds (of_nat (n + unat d)) om1 = Inr om'"
    using Cons.prems(5) pkt by (simp add: pd app om1_def del: of_nat_add) (simp only: nd)
  have dpos: "0 < unat d" using Cons.prems(1) pd by (auto simp: unat_gt_0)
  have bnd: "n + unat d < 2 ^ 32" using Cons.prems(2) pd by simp
  have grow: "(of_nat n :: u32) < of_nat (n + unat d)"
    using of_nat_less_u32 [of n "n + unat d"] dpos bnd by simp
  have "\<forall>q \<in> set (om_txPkts om1). getFirstByte q < of_nat (n + unat d)"
  proof
    fix q assume "q \<in> set (om_txPkts om1)"
    then have "q \<in> set (om_txPkts om) \<or> q = pkt" by (auto simp: om1_def)
    then have "getFirstByte q \<le> of_nat n" using Cons.prems(3) pkt(3) by auto
    with grow show "getFirstByte q < of_nat (n + unat d)" by (rule order.strict_trans1 [rotated])
  qed
  from Cons.IH [OF _ _ this _ run] Cons.prems(1,2) pd obtain ps where
    ps: "om_txPkts om' = om_txPkts om1 @ ps" "tiles (n + unat d) ps (map snd pds)"
      "map pkt_type ps = (case pds of [] \<Rightarrow> []
         | _ # pds \<Rightarrow> UNSCHED_DATA # map (\<lambda>_. UNSCHED_DATA) pds)"
    by (auto simp: add.assoc)
  then have "om_txPkts om' = om_txPkts om @ (pkt # ps)" by (simp add: om1_def)
  moreover have "tiles n (pkt # ps) (map snd (pd # pds))" using ps(2) pkt pd by simp
  moreover have "map pkt_type (pkt # ps) = t # map (\<lambda>_. UNSCHED_DATA) pds"
    using ps(3) pkt(4) by (cases pds) simp_all
  ultimately show ?case by auto
qed

section \<open>Properties\<close>

text \<open>
  C5: For a message made from an application message whose request and unscheduled shares are not
  empty and do not exceed it, the packets put in the queue are, from the front of the queue on, a
  request and then unscheduled packets; they carry the shares, one after the other, from byte zero
  on without a gap, and what remains to be granted is exactly the rest of the message.
\<close>

theorem prepareRequestAndUnsched_tiles:
  assumes "resolver_ok r" and "data_sum ds \<le> unat (app_byteLength m)" and "ds \<noteq> []"
    and "0 \<notin> set ds"
  shows "\<exists>om. prepareRequestAndUnsched cur r (OutboundMessage m msgId ds) = Inr om \<and> om_ok om \<and>
     tiles 0 (om_txPkts om) ds \<and>
     map pkt_type (om_txPkts om) = REQUEST # map (\<lambda>_. UNSCHED_DATA) (tl ds) \<and>
     unat (om_bytesToSched om) + data_sum ds = unat (app_byteLength m)"
proof -
  let ?om = "OutboundMessage m msgId ds"
  have f: "om_fresh ?om" using assms by (simp add: om_fresh_def OutboundMessage_def)
  have om: "om_reqUnschedDataVec ?om = ds" "om_msgSize ?om = app_byteLength m" "om_txPkts ?om = []"
    by (simp_all add: OutboundMessage_def)
  from prepareRequestAndUnsched_ok [OF assms(1) f, of cur] obtain om' where
    om': "prepareRequestAndUnsched cur r ?om = Inr om'" "om_ok om'"
      "unat (om_bytesToSched om') + data_sum ds = unat (app_byteLength m)" unfolding om by blast
  from prepare_unfold [OF assms(1) f, of cur] obtain pds runs where
    u: "prepareRequestAndUnsched cur r ?om = unsched_loop cur (of_nat (data_sum ds)) runs REQUEST
          pds 0 (?om\<lparr>om_unschedBytesLeft := of_nat (data_sum ds)\<rparr>)"
      "map snd pds = ds" unfolding om by blast
  let ?om1 = "?om\<lparr>om_unschedBytesLeft := of_nat (data_sum ds)\<rparr>"
  have run: "unsched_loop cur (of_nat (data_sum ds)) runs REQUEST pds (of_nat 0) ?om1 = Inr om'"
    using om'(1) u(1) by simp
  have bnd: "0 + data_sum (map snd pds) < 2 ^ 32"
    using assms(2) u(2) unsigned_less [of "app_byteLength m", where 'a = nat] by simp
  have e: "om_txPkts ?om1 = []" by (simp add: om)
  have "\<exists>ps. om_txPkts om' = om_txPkts ?om1 @ ps \<and> tiles 0 ps (map snd pds) \<and>
      map pkt_type ps = (case pds of [] \<Rightarrow> [] | _ # pds \<Rightarrow> REQUEST # map (\<lambda>_. UNSCHED_DATA) pds)"
    by (rule unsched_loop_tiles [OF _ bnd _ _ run]) (simp_all add: e u(2) assms(4))
  then obtain ps where ps: "om_txPkts om' = ps" "tiles 0 ps ds"
    "map pkt_type ps = (case pds of [] \<Rightarrow> [] | _ # pds \<Rightarrow> REQUEST # map (\<lambda>_. UNSCHED_DATA) pds)"
    unfolding e u(2) append_Nil by blast
  have "map pkt_type ps = REQUEST # map (\<lambda>_. UNSCHED_DATA) (tl ds)"
    using ps(3) u(2) assms(3) by (cases pds) (auto simp: comp_def)
  with om' ps show ?thesis by (intro exI [of _ om']) simp
qed

lemma prepareRequestAndUnsched_tiles_witness:
  "\<exists>om. prepareRequestAndUnsched 0
       \<lparr>prioCutOffs = [100, 0xFFFFFFFF], prioResMode = STATIC_CBF_GRADUATED\<rparr>
       (OutboundMessage \<lparr>app_destAddr = 2, app_srcAddr = 1, app_isEcho = False,
          app_byteLength = 5000, app_msgCreationTime = 0, app_transportSchedDelay = 0,
          app_msgBytesOnWire = 0\<rparr> 9 [1442, 1000]) = Inr om \<and> om_ok om \<and>
     unat (om_bytesToSched om) + 2442 = 5000"
proof -
  define r where "r = \<lparr>prioCutOffs = [100, 0xFFFFFFFF], prioResMode = STATIC_CBF_GRADUATED\<rparr>"
  define m where "m = \<lparr>app_destAddr = 2, app_srcAddr = 1, app_isEcho = False,
    app_byteLength = 5000, app_msgCreationTime = 0, app_transportSchedDelay = 0,
    app_msgBytesOnWire = 0\<rparr>"
  have r: "resolver_ok r" by (simp add: r_def resolver_ok_def cutoffs_ok_def)
  have m: "unat (app_byteLength m) = 5000" by (simp add: m_def)
  have ds: "data_sum [1442, 1000] = 2442" by (simp add: data_sum_def)
  have "\<exists>om. prepareRequestAndUnsched 0 r (OutboundMessage m 9 [1442, 1000]) = Inr om \<and> om_ok om \<and>
     tiles 0 (om_txPkts om) [1442, 1000] \<and>
     map pkt_type (om_txPkts om) = REQUEST # map (\<lambda>_. UNSCHED_DATA) (tl [1442, 1000 :: u16]) \<and>
     unat (om_bytesToSched om) + data_sum [1442, 1000] = unat (app_byteLength m)"
    by (rule prepareRequestAndUnsched_tiles [OF r]) (simp_all add: ds m)
  then show ?thesis unfolding r_def [symmetric] m_def [symmetric] m ds by iprover
qed

end
