(* ===== verification/SendController.thy ===== *)
theory SendController
  imports OutboundMessage
begin

text \<open>
  \<open>HomaTransport::SendController\<close>: the messages to send, the order in which they are sent
  (\<open>OutbndMsgSorter\<close>), and the handlers for a new message of the application, a grant, the end
  of a transmission and a grant to be sent.  The handlers change the whole transport, since they
  schedule the send timer, send packets and emit signals; \<open>testAndEmitStabilitySignal\<close> of the
  transport, which they call, is here too.
\<close>

section \<open>Operations\<close>

text \<open>
  The double arithmetic that rounds the next emission up to a multiple of the period is done on
  ticks; a period of zero makes the quotient infinite, which the conversion to simulation time
  refuses.
\<close>

definition testAndEmitStabilitySignal :: "homa \<Rightarrow> homa res" where
  "testAndEmitStabilitySignal t =
     (let numMsgs = length (outboundMsgMap (sx t)); currentTime = now t in
      if numMsgs = 0 then Inr (t\<lparr>emitSignalTimer := None\<rparr>)
      else if emitSignalTimer t \<noteq> None then Inr t
      else rbind
        (if currentTime = nextEmitSignalTime t then
           Inr ((emit Stability [int numMsgs] t)
             \<lparr>nextEmitSignalTime := currentTime + signalEmitPeriod (cfg t)\<rparr>)
         else if nextEmitSignalTime t < currentTime then
           if signalEmitPeriod (cfg t) = 0 then Inl RuntimeError
           else
             let offset = currentTime - nextEmitSignalTime t;
                 intpart = offset div signalEmitPeriod (cfg t);
                 fracpart = offset mod signalEmitPeriod (cfg t);
                 intpart = (if fracpart = 0 then intpart else intpart + 1)
             in Inr (t\<lparr>nextEmitSignalTime :=
                  nextEmitSignalTime t + intpart * signalEmitPeriod (cfg t)\<rparr>)
         else Inr t) (\<lambda>t.
        rbind (scheduleAt currentTime (nextEmitSignalTime t) (emitSignalTimer t)) (\<lambda>timer.
        Inr (t\<lparr>emitSignalTimer := timer\<rparr>))))"

text \<open>
  The order of messages.  The depot lets no other scheme through than the two that are handled, so
  the exception of the third branch is left out of the functor.
\<close>

definition OutbndMsgSorter :: "homa_config \<Rightarrow> outbound_msg \<Rightarrow> outbound_msg \<Rightarrow> bool" where
  "OutbndMsgSorter c msg1 msg2 =
     (case sxScheme c of
        OBSERVE_PKT_PRIOS \<Rightarrow>
          (case om_txPkts msg2 of
             [] \<Rightarrow>
               (case om_txPkts msg1 of
                  [] \<Rightarrow> om_msgCreationTime msg1 < om_msgCreationTime msg2 \<or>
                    (om_msgCreationTime msg1 = om_msgCreationTime msg2 \<and>
                     om_msgId msg1 < om_msgId msg2)
                | _ \<Rightarrow> True)
           | pkt2 # _ \<Rightarrow>
               (case om_txPkts msg1 of
                  [] \<Rightarrow> False
                | pkt1 # _ \<Rightarrow>
                    pkt_priority pkt1 < pkt_priority pkt2 \<or>
                    (pkt_priority pkt1 = pkt_priority pkt2 \<and>
                     pkt_creationTime pkt1 < pkt_creationTime pkt2) \<or>
                    (pkt_priority pkt1 = pkt_priority pkt2 \<and>
                     pkt_creationTime pkt1 = pkt_creationTime pkt2 \<and>
                     om_msgCreationTime msg1 < om_msgCreationTime msg2) \<or>
                    (pkt_priority pkt1 = pkt_priority pkt2 \<and>
                     pkt_creationTime pkt1 = pkt_creationTime pkt2 \<and>
                     om_msgCreationTime msg1 = om_msgCreationTime msg2 \<and>
                     om_msgId msg1 < om_msgId msg2)))
      | SRBF \<Rightarrow>
          om_bytesLeft msg1 < om_bytesLeft msg2 \<or>
          (om_bytesLeft msg1 = om_bytesLeft msg2 \<and>
           om_msgCreationTime msg1 < om_msgCreationTime msg2) \<or>
          (om_bytesLeft msg1 = om_bytesLeft msg2 \<and>
           om_msgCreationTime msg1 = om_msgCreationTime msg2 \<and> om_msgId msg1 < om_msgId msg2)
      | UNDEFINED \<Rightarrow> False)"

text \<open>The set holds pointers: the functor follows them into the map of the messages.\<close>

definition msg_before ::
    "homa_config \<Rightarrow> (u64 \<times> outbound_msg) list \<Rightarrow> u64 \<Rightarrow> u64 \<Rightarrow> bool" where
  "msg_before c m i j =
     (case (map_of m i, map_of m j) of
        (Some a, Some b) \<Rightarrow> OutbndMsgSorter c a b
      | _ \<Rightarrow> False)"

definition set_insert_msg :: "u64 \<Rightarrow> homa \<Rightarrow> homa res" where
  "set_insert_msg msg t =
     (case sset_insert (msg_before (cfg t) (outboundMsgMap (sx t))) msg (outbndMsgSet (sx t)) of
        (inserted, q) \<Rightarrow>
          rbind (assertion inserted) (\<lambda>_. Inr (t\<lparr>sx := (sx t)\<lparr>outbndMsgSet := q\<rparr>\<rparr>)))"

definition sendPktAndScheduleNext :: "homa_pkt \<Rightarrow> homa \<Rightarrow> homa res" where
  "sendPktAndScheduleNext sxPkt t =
     rbind (getDataBytes sxPkt) (\<lambda>numDataBytes.
     let bytesSentOnWire = getBytesOnWire numDataBytes (pkt_type sxPkt);
         currentTime = now t;
         sxPktDuration = tx_time (nicLinkSpeed (cfg t)) (unat bytesSentOnWire)
     in rbind
       (if pkt_type sxPkt \<in> {REQUEST, UNSCHED_DATA, SCHED_DATA} then
          rbind (assertion (bytesLeftToSend (sx t) \<ge> ucast numDataBytes)) (\<lambda>_.
          let s = (sx t)\<lparr>bytesLeftToSend := bytesLeftToSend (sx t) - ucast numDataBytes,
                sentBytesPerActivePeriod :=
                  sentBytesPerActivePeriod (sx t) + ucast bytesSentOnWire\<rparr>
          in if bytesLeftToSend s = 0 then
               let activePeriod = currentTime - sx_activePeriodStart s + sxPktDuration;
                   t = emit SxActiveBytes [uint (sentBytesPerActivePeriod s)] t;
                   t = emit SxActiveTime [activePeriod] t
               in Inr (t\<lparr>sx := s\<lparr>sentBytesPerActivePeriod := 0,
                                  sx_activePeriodStart := currentTime\<rparr>\<rparr>)
             else Inr (t\<lparr>sx := s\<rparr>))
        else if pkt_type sxPkt = GRANT then
          if bytesLeftToSend (sx t) > 0 then
            Inr (t\<lparr>sx := (sx t)\<lparr>sentBytesPerActivePeriod :=
                   sentBytesPerActivePeriod (sx t) + ucast bytesSentOnWire\<rparr>\<rparr>)
          else Inr (emit SxActiveTime [sxPktDuration]
                      (emit SxActiveBytes [uint bytesSentOnWire] t))
        else Inl RuntimeError) (\<lambda>t.
     let nextSendTime = sxPktDuration + currentTime;
         t = t\<lparr>sx := (sx t)\<lparr>sentPkt := sxPkt, sentPktDuration := sxPktDuration\<rparr>,
               outs := outs t @ [SendUdp sxPkt]\<rparr>
     in rbind (scheduleAt currentTime nextSendTime (sendTimer t)) (\<lambda>timer.
        Inr (t\<lparr>sendTimer := timer\<rparr>))))"

definition msgTransmitComplete :: "u64 \<Rightarrow> homa \<Rightarrow> homa res" where
  "msgTransmitComplete msg t =
     rbind (of_option NullPointer (map_of (outboundMsgMap (sx t)) msg)) (\<lambda>om.
     let destIp = om_destAddr om in
     rbind (of_option OutOfRange (map_of (rxAddrMsgMap (sx t)) destIp)) (\<lambda>msgs.
     let msgs = remove1 msg msgs;
         rxmap = (if msgs = [] then al_del destIp (rxAddrMsgMap (sx t))
                  else al_put destIp msgs (rxAddrMsgMap (sx t)))
     in testAndEmitStabilitySignal
          (t\<lparr>sx := (sx t)\<lparr>rxAddrMsgMap := rxmap,
                            outboundMsgMap := al_del (om_msgId om) (outboundMsgMap (sx t))\<rparr>\<rparr>)))"

text \<open>
  The lines that take the first message of the set, send its next packet and put it back; the
  source has them in the branch of the send timer and in the branch of a new data packet.
\<close>

definition send_first_msg :: "homa \<Rightarrow> homa res" where
  "send_first_msg t =
     (case outbndMsgSet (sx t) of
        [] \<Rightarrow> Inl NullPointer
      | highPrioMsg # _ \<Rightarrow>
          (case sset_erase (msg_before (cfg t) (outboundMsgMap (sx t))) highPrioMsg
                  (outbndMsgSet (sx t)) of
             (numRemoved, q) \<Rightarrow>
               rbind (assertion (numRemoved = 1)) (\<lambda>_.
               rbind (of_option NullPointer (map_of (outboundMsgMap (sx t)) highPrioMsg)) (\<lambda>om.
               rbind (getTransmitReadyPkt om) (\<lambda>(sxPkt, hasMoreReadyPkt, om).
               rbind (sendPktAndScheduleNext sxPkt
                       (t\<lparr>sx := (sx t)\<lparr>outbndMsgSet := q,
                          outboundMsgMap := al_put highPrioMsg om (outboundMsgMap (sx t))\<rparr>\<rparr>)) (\<lambda>t.
               if om_bytesLeft om \<le> 0 then
                 rbind (assertion (\<not> hasMoreReadyPkt)) (\<lambda>_. msgTransmitComplete highPrioMsg t)
               else if hasMoreReadyPkt then set_insert_msg highPrioMsg t
               else Inr t))))))"

datatype send_arg = SendTimer | SendPkt homa_pkt | DataReady

definition sendOrQueue :: "send_arg \<Rightarrow> homa \<Rightarrow> homa res" where
  "sendOrQueue msg t =
     (case msg of
        SendTimer \<Rightarrow>
          rbind (assertion (sendTimerKind t = TIMER_SEND)) (\<lambda>_.
          case outGrantQueue (sx t) of
            sxPkt # grants \<Rightarrow>
              sendPktAndScheduleNext sxPkt (t\<lparr>sx := (sx t)\<lparr>outGrantQueue := grants\<rparr>\<rparr>)
          | [] \<Rightarrow> if outbndMsgSet (sx t) \<noteq> [] then send_first_msg t else Inr t)
      | SendPkt sxPkt \<Rightarrow>
          rbind (assertion (pkt_type sxPkt = GRANT)) (\<lambda>_.
          if sendTimer t \<noteq> None then
            Inr (t\<lparr>sx := (sx t)\<lparr>outGrantQueue := pq_push pkt_gt sxPkt (outGrantQueue (sx t))\<rparr>\<rparr>)
          else rbind (assertion (outGrantQueue (sx t) = [])) (\<lambda>_.
               sendPktAndScheduleNext sxPkt t))
      | DataReady \<Rightarrow>
          if sendTimer t \<noteq> None then Inr t
          else rbind (assertion (outGrantQueue (sx t) = [] \<and> length (outbndMsgSet (sx t)) = 1)) (\<lambda>_.
               send_first_msg t))"

definition processSendMsgFromApp :: "app_msg \<Rightarrow> homa \<Rightarrow> homa res" where
  "processSendMsgFromApp sendMsg t =
     (let t = emit MsgsLeftToSend [int (length (outboundMsgMap (sx t)))] t;
          t = emit BytesLeftToSend [uint (bytesLeftToSend (sx t))] t;
          t = emit BytesNeedGrant [uint (bytesNeedGrant (sx t))] t;
          destAddr = app_destAddr sendMsg;
          msgSize = app_byteLength sendMsg;
          msgId = sx_msgId (sx t)
      in rbind (getReqUnschedDataPkts (cfg t) destAddr msgSize (unschedByteAllocator (sx t)))
           (\<lambda>(reqUnschedDataVec, alloc).
         let m = (case map_of (outboundMsgMap (sx t)) msgId of
                    None \<Rightarrow> al_put msgId (OutboundMessage sendMsg msgId reqUnschedDataVec)
                              (outboundMsgMap (sx t))
                  | Some _ \<Rightarrow> outboundMsgMap (sx t));
             msgs = (case map_of (rxAddrMsgMap (sx t)) destAddr of None \<Rightarrow> [] | Some ids \<Rightarrow> ids);
             s = (sx t)\<lparr>unschedByteAllocator := alloc, outboundMsgMap := m,
                   rxAddrMsgMap := al_put destAddr
                     (if msgId \<in> set msgs then msgs else msgs @ [msgId]) (rxAddrMsgMap (sx t))\<rparr>
         in rbind (of_option OutOfRange (map_of m msgId)) (\<lambda>om.
         rbind (if bytesLeftToSend s = 0
                then rbind (assertion (sentBytesPerActivePeriod s = 0)) (\<lambda>_.
                     Inr (s\<lparr>sx_activePeriodStart := now t, sentBytesPerActivePeriod := 0\<rparr>))
                else Inr s) (\<lambda>s.
         let s = s\<lparr>bytesLeftToSend := bytesLeftToSend s + ucast (om_bytesLeft om)\<rparr> in
         rbind (testAndEmitStabilitySignal (t\<lparr>sx := s\<rparr>)) (\<lambda>t.
         rbind (prepareRequestAndUnsched (now t) (prioRes t) om) (\<lambda>om.
         let t = t\<lparr>sx := (sx t)\<lparr>outboundMsgMap := al_put msgId om (outboundMsgMap (sx t))\<rparr>\<rparr> in
         rbind (set_insert_msg msgId t) (\<lambda>t.
         sendOrQueue DataReady
           (t\<lparr>sx := (sx t)\<lparr>bytesNeedGrant := bytesNeedGrant (sx t) + ucast (om_bytesToSched om),
                             sx_msgId := msgId + 1\<rparr>\<rparr>))))))))"

definition processReceivedGrant :: "homa_pkt \<Rightarrow> homa \<Rightarrow> homa res" where
  "processReceivedGrant rxPkt t =
     rbind (getDataBytes rxPkt) (\<lambda>n.
     let t = t\<lparr>sx := (sx t)\<lparr>sumGrantsInGap :=
               sumGrantsInGap (sx t) + ucast (getBytesOnWire n (pkt_type rxPkt))\<rparr>\<rparr>;
         msg = pkt_msgId rxPkt
     in rbind (of_option OutOfRange (map_of (outboundMsgMap (sx t)) msg)) (\<lambda>om.
     rbind (assertion (pkt_type rxPkt = GRANT \<and> pkt_destAddr rxPkt = om_srcAddr om \<and>
              pkt_srcAddr rxPkt = om_destAddr om)) (\<lambda>_.
     case sset_erase (msg_before (cfg t) (outboundMsgMap (sx t))) msg (outbndMsgSet (sx t)) of
       (numRemoved, q) \<Rightarrow>
     rbind (assertion (numRemoved \<le> 1)) (\<lambda>_.
     let bytesToSchedOld = om_bytesToSched om; g = pkt_grant rxPkt in
     rbind (prepareSchedPkt (now t) (gf_offset g) (gf_grantBytes g) (gf_schedPrio g) om)
       (\<lambda>(bytesToSchedNew, om).
     let numBytesSent = bytesToSchedOld - bytesToSchedNew;
         s = (sx t)\<lparr>outbndMsgSet := q, outboundMsgMap := al_put msg om (outboundMsgMap (sx t)),
               bytesNeedGrant := bytesNeedGrant (sx t) - scast numBytesSent\<rparr>
     in rbind (assertion (0 <s numBytesSent)) (\<lambda>_.
        rbind (set_insert_msg msg (t\<lparr>sx := s\<rparr>)) (\<lambda>t.
        sendOrQueue DataReady t)))))))"

text \<open>The statistics taken when the NIC has sent a packet.\<close>

definition oldest_sched_pkt :: "simtime \<Rightarrow> outbound_msg list \<Rightarrow> simtime" where
  "oldest_sched_pkt cur msgs =
     foldl (\<lambda>oldest p. if pkt_creationTime p < oldest then pkt_creationTime p else oldest) cur
       (concat (map om_txSchedPkts msgs))"

definition trailing_unsched :: "outbound_msg list \<Rightarrow> u64" where
  "trailing_unsched msgs =
     foldl (\<lambda>n om. if om_msgSize om > om_bytesLeft om then n + ucast (om_unschedBytesLeft om) else n)
       0 msgs"

definition transmit_delays :: "u32 \<times> u64 list \<Rightarrow> homa \<Rightarrow> homa" where
  "transmit_delays entry t =
     (if fst entry = pkt_destAddr (sentPkt (sx t)) then t
      else
        let msgs = List.map_filter (map_of (outboundMsgMap (sx t))) (snd entry);
            totalTrailingUnsched = trailing_unsched msgs;
            currentTime = now t;
            oldestSchedPkt = oldest_sched_pkt currentTime msgs;
            dur = sentPktDuration (sx t);
            t = (if totalTrailingUnsched > 0 then
                   let left = tx_time (nicLinkSpeed (cfg t))
                         (unat (getBytesOnWire (ucast totalTrailingUnsched) UNSCHED_DATA))
                   in emit SxUnschedPktDelay [if dur < left then dur else left] t
                 else t)
        in if oldestSchedPkt \<noteq> currentTime then
             emit SxSchedPktDelay [if dur < currentTime - oldestSchedPkt then dur
                                   else currentTime - oldestSchedPkt] t
           else t)"

definition handlePktTransmitEnd :: "homa \<Rightarrow> homa" where
  "handlePktTransmitEnd t = fold transmit_delays (rxAddrMsgMap (sx t)) t"

text \<open>The \<open>SEND\<close> branch of \<open>handleMessage\<close>: the timer has fired.\<close>

definition handle_send_timer :: "homa \<Rightarrow> homa res" where
  "handle_send_timer t = sendOrQueue SendTimer (handlePktTransmitEnd (t\<lparr>sendTimer := None\<rparr>))"

definition initSendController :: "u64 \<Rightarrow> send_ctrl \<Rightarrow> send_ctrl" where
  "initSendController seed s =
     s\<lparr>bytesLeftToSend := 0, bytesNeedGrant := 0, sx_msgId := seed,
       unschedByteAllocator := UnschedByteAllocator\<rparr>"

definition SendController :: send_ctrl where
  "SendController =
     \<lparr>bytesLeftToSend = 0, bytesNeedGrant = 0, sx_msgId = 0, sentPkt = new_pkt 0 REQUEST,
      sentPktDuration = 0, outboundMsgMap = [], rxAddrMsgMap = [],
      unschedByteAllocator = UnschedByteAllocator, outbndMsgSet = [], outGrantQueue = [],
      sx_activePeriodStart = 0, sentBytesPerActivePeriod = 0, sumGrantsInGap = 0\<rparr>"

text \<open>
  The constructor of the transport.  The depot and the resolver, null until \<open>initialize\<close> makes
  them, are arguments.
\<close>

definition HomaTransport :: "homa_config \<Rightarrow> prio_resolver \<Rightarrow> homa" where
  "HomaTransport c r =
     \<lparr>now = 0, cfg = c, prioRes = r, sx = SendController, rx = ReceiveScheduler 0,
      trackRTTs = TrackRTTs, localAddr = 0, sendTimer = None, sendTimerKind = TIMER_START,
      emitSignalTimer = None, nextEmitSignalTime = 0, outstandingGrantBytes = 0, outs = []\<rparr>"

section \<open>The order of messages is strict and total on messages with distinct ids\<close>

definition sort_key :: "homa_config \<Rightarrow> outbound_msg \<Rightarrow> nat \<times> nat \<times> int \<times> int \<times> u64" where
  "sort_key c om =
     (if sxScheme c = SRBF then (unat (om_bytesLeft om), 0, 0, om_msgCreationTime om, om_msgId om)
      else case om_txPkts om of
        [] \<Rightarrow> (1, 0, 0, om_msgCreationTime om, om_msgId om)
      | p # _ \<Rightarrow> (0, unat (pkt_priority p), pkt_creationTime p, om_msgCreationTime om, om_msgId om))"

lemma OutbndMsgSorter_key:
  assumes "sxScheme c \<noteq> UNDEFINED"
  shows "OutbndMsgSorter c a b \<longleftrightarrow> sort_key c a < sort_key c b"
proof (cases "sxScheme c")
  case SRBF
  then show ?thesis
    unfolding OutbndMsgSorter_def sort_key_def
    by (cases "om_bytesLeft a = om_bytesLeft b";
        cases "om_msgCreationTime a = om_msgCreationTime b")
      (auto simp: less_prod_simp word_less_nat_alt word_unat_eq_iff)
next
  case OBSERVE_PKT_PRIOS
  show ?thesis
  proof (cases "om_txPkts a"; cases "om_txPkts b")
    fix p ps q qs
    assume "om_txPkts a = p # ps" and "om_txPkts b = q # qs"
    with OBSERVE_PKT_PRIOS show ?thesis
      unfolding OutbndMsgSorter_def sort_key_def
      by (cases "pkt_priority p = pkt_priority q";
          cases "pkt_creationTime p = pkt_creationTime q";
          cases "om_msgCreationTime a = om_msgCreationTime b")
        (auto simp: less_prod_simp word_less_nat_alt word_unat_eq_iff)
  qed (use OBSERVE_PKT_PRIOS in
      \<open>auto simp: OutbndMsgSorter_def sort_key_def less_prod_simp\<close>)
qed (use assms in simp)

type_synonym msg_map = "(u64 \<times> outbound_msg) list"

definition mkey :: "homa_config \<Rightarrow> msg_map \<Rightarrow> u64 \<Rightarrow> nat \<times> nat \<times> int \<times> int \<times> u64" where
  "mkey c m i = (case map_of m i of Some om \<Rightarrow> sort_key c om | None \<Rightarrow> (0, 0, 0, 0, i))"

interpretation msg_order: keyed_order "\<lambda>i j. mkey c m i < mkey c m j" "mkey c m" for c m
  by unfold_locales (rule refl)

definition ids_ok :: "msg_map \<Rightarrow> bool" where
  "ids_ok m \<longleftrightarrow> (\<forall>i om. map_of m i = Some om \<longrightarrow> om_msgId om = i)"

definition q_ok :: "homa_config \<Rightarrow> msg_map \<Rightarrow> u64 list \<Rightarrow> bool" where
  "q_ok c m q \<longleftrightarrow> sorted_wrt (\<lambda>i j. mkey c m i < mkey c m j) q \<and> set q \<subseteq> dom (map_of m)"

lemma msg_before_mkey:
  "sxScheme c \<noteq> UNDEFINED \<Longrightarrow> i \<in> dom (map_of m) \<Longrightarrow> j \<in> dom (map_of m) \<Longrightarrow>
   msg_before c m i j \<longleftrightarrow> mkey c m i < mkey c m j"
  by (auto simp: msg_before_def mkey_def OutbndMsgSorter_key)

lemma sort_key_id: "snd (snd (snd (snd (sort_key c om)))) = om_msgId om"
  by (simp add: sort_key_def split: list.split)

lemma mkey_inj:
  assumes "ids_ok m" and "i \<in> dom (map_of m)" and "j \<in> dom (map_of m)" and "i \<noteq> j"
  shows "mkey c m i < mkey c m j \<or> mkey c m j < mkey c m i"
proof -
  from assms obtain a b where ab: "map_of m i = Some a" "map_of m j = Some b"
    "om_msgId a = i" "om_msgId b = j" by (auto simp: ids_ok_def)
  then have "snd (snd (snd (snd (mkey c m i)))) \<noteq> snd (snd (snd (snd (mkey c m j))))"
    using assms(4) by (simp add: mkey_def sort_key_id)
  then have "mkey c m i \<noteq> mkey c m j" by metis
  then show ?thesis by (simp add: neq_iff)
qed

lemma q_insert:
  assumes "sxScheme c \<noteq> UNDEFINED" and "ids_ok m" and "q_ok c m q" and "i \<in> dom (map_of m)"
    and "i \<notin> set q"
  shows "\<exists>q'. sset_insert (msg_before c m) i q = (True, q') \<and> q_ok c m q' \<and>
           set q' = insert i (set q)"
proof -
  have sub: "set q \<subseteq> dom (map_of m)" and srt: "sorted_wrt (\<lambda>i j. mkey c m i < mkey c m j) q"
    using assms(3) by (auto simp: q_ok_def)
  have "sset_insert (msg_before c m) i q = sset_insert (\<lambda>i j. mkey c m i < mkey c m j) i q"
    using sub assms(1,4) by (intro sset_insert_cong conjI msg_before_mkey) auto
  moreover have "\<exists>q'. sset_insert (\<lambda>i j. mkey c m i < mkey c m j) i q = (True, q') \<and>
      sorted_wrt (\<lambda>i j. mkey c m i < mkey c m j) q' \<and> set q' = insert i (set q)"
    using srt by (rule msg_order.swo_insert) (use sub assms(2,4,5) mkey_inj in blast)
  ultimately show ?thesis using sub assms(4) by (auto simp: q_ok_def)
qed

lemma q_erase:
  assumes "sxScheme c \<noteq> UNDEFINED" and "ids_ok m" and "q_ok c m q" and "i \<in> dom (map_of m)"
  shows "sset_erase (msg_before c m) i q = (if i \<in> set q then 1 else 0, remove1 i q) \<and>
           q_ok c m (remove1 i q) \<and> set (remove1 i q) = set q - {i}"
proof -
  have sub: "set q \<subseteq> dom (map_of m)" and srt: "sorted_wrt (\<lambda>i j. mkey c m i < mkey c m j) q"
    using assms(3) by (auto simp: q_ok_def)
  have eq: "sset_erase (msg_before c m) i q = sset_erase (\<lambda>i j. mkey c m i < mkey c m j) i q"
    using sub assms(1,4) by (intro sset_erase_cong conjI msg_before_mkey) auto
  have erase: "sset_erase (\<lambda>i j. mkey c m i < mkey c m j) i q =
      (if i \<in> set q then 1 else 0, remove1 i q)"
  proof (cases "i \<in> set q")
    case True
    with msg_order.swo_erase [OF srt True] show ?thesis by simp
  next
    case False
    have "sset_erase (\<lambda>i j. mkey c m i < mkey c m j) i q = (0, q)"
      using srt by (rule msg_order.swo_erase_absent) (use sub assms(2,4) False mkey_inj in blast)
    with False show ?thesis by (simp add: remove1_idem)
  qed
  have "distinct q" using srt by (rule msg_order.swo_distinct)
  then have "set (remove1 i q) = set q - {i}" by simp
  then show ?thesis using eq erase sub msg_order.swo_remove1 [OF srt, of i]
    by (auto simp: q_ok_def)
qed

lemma mkey_other [simp]: "j \<noteq> i \<Longrightarrow> mkey c (al_put i om m) j = mkey c m j"
  "j \<noteq> i \<Longrightarrow> mkey c (al_del i m) j = mkey c m j"
  by (simp_all add: mkey_def)

lemma q_frame:
  assumes "q_ok c m q" and "i \<notin> set q"
  shows "q_ok c (al_put i om m) q" and "q_ok c (al_del i m) q"
proof -
  have ne: "\<And>j. j \<in> set q \<Longrightarrow> j \<noteq> i" using assms(2) by blast
  have srt: "sorted_wrt (\<lambda>i j. mkey c m i < mkey c m j) q" using assms(1) by (simp add: q_ok_def)
  have "sorted_wrt (\<lambda>j k. mkey c (al_put i om m) j < mkey c (al_put i om m) k) q"
    using srt ne by (subst sorted_wrt_cong [of q _ "\<lambda>i j. mkey c m i < mkey c m j"]) simp_all
  then show "q_ok c (al_put i om m) q" using assms(1) by (auto simp: q_ok_def)
  have "sorted_wrt (\<lambda>j k. mkey c (al_del i m) j < mkey c (al_del i m) k) q"
    using srt ne by (subst sorted_wrt_cong [of q _ "\<lambda>i j. mkey c m i < mkey c m j"]) simp_all
  then show "q_ok c (al_del i m) q" using assms by (auto simp: q_ok_def)
qed

section \<open>The invariant of the send controller\<close>

definition ready :: "msg_map \<Rightarrow> u64 set" where
  "ready m = {i. \<exists>om. map_of m i = Some om \<and> om_txPkts om \<noteq> []}"

definition to_dest :: "msg_map \<Rightarrow> u32 \<Rightarrow> u64 set" where
  "to_dest m a = {i. \<exists>om. map_of m i = Some om \<and> om_destAddr om = a}"

text \<open>
  A message in the map: its bytes are accounted for, only an empty message sends an empty packet,
  and a message with nothing left still has a packet to send.
\<close>

definition msg_ok :: "u64 \<Rightarrow> outbound_msg \<Rightarrow> bool" where
  "msg_ok i om \<longleftrightarrow> om_ok om \<and> om_msgId om = i \<and>
     ((\<forall>p \<in> set (om_txPkts om). 0 < data_nat p) \<or> length (om_txPkts om) = 1 \<and> om_bytesLeft om = 0) \<and>
     (om_bytesLeft om = 0 \<longrightarrow> om_txPkts om \<noteq> [])"

definition store_ok :: "msg_map \<Rightarrow> bool" where
  "store_ok m \<longleftrightarrow> al_wf m \<and> (\<forall>i om. map_of m i = Some om \<longrightarrow> msg_ok i om)"

definition left_sum :: "msg_map \<Rightarrow> nat" where
  "left_sum m = al_sum (\<lambda>om. unat (om_bytesLeft om)) m"

definition need_sum :: "msg_map \<Rightarrow> nat" where
  "need_sum m = al_sum (\<lambda>om. unat (om_bytesToSched om)) m"

fun rx_entry :: "u64 set \<Rightarrow> u64 list option \<Rightarrow> bool" where
  "rx_entry S None \<longleftrightarrow> S = {}"
| "rx_entry S (Some ids) \<longleftrightarrow> ids \<noteq> [] \<and> distinct ids \<and> set ids = S"

definition rx_ok :: "msg_map \<Rightarrow> (u32 \<times> u64 list) list \<Rightarrow> bool" where
  "rx_ok m r \<longleftrightarrow> (\<forall>a. rx_entry (to_dest m a) (map_of r a))"

definition sx_ok :: "homa_config \<Rightarrow> send_ctrl \<Rightarrow> bool" where
  "sx_ok c s \<longleftrightarrow>
     store_ok (outboundMsgMap s) \<and>
     q_ok c (outboundMsgMap s) (outbndMsgSet s) \<and>
     set (outbndMsgSet s) = ready (outboundMsgMap s) \<and>
     unat (bytesLeftToSend s) = left_sum (outboundMsgMap s) \<and>
     unat (bytesNeedGrant s) = need_sum (outboundMsgMap s) \<and>
     rx_ok (outboundMsgMap s) (rxAddrMsgMap s) \<and>
     (bytesLeftToSend s = 0 \<longrightarrow> sentBytesPerActivePeriod s = 0) \<and>
     (\<forall>p \<in> set (outGrantQueue s). pkt_type p = GRANT) \<and>
     alloc_ok c (unschedByteAllocator s)"

definition cfg_ok :: "homa_config \<Rightarrow> bool" where
  "cfg_ok c \<longleftrightarrow> 0 < nicLinkSpeed c \<and> 0 < signalEmitPeriod c \<and> sxScheme c \<noteq> UNDEFINED \<and>
     0 < defaultReqBytes c \<and> defaultReqBytes c \<le> 1442"

definition sx_inv :: "homa \<Rightarrow> bool" where
  "sx_inv t \<longleftrightarrow> cfg_ok (cfg t) \<and> resolver_ok (prioRes t) \<and> sendTimerKind t = TIMER_SEND \<and>
     sx_ok (cfg t) (sx t) \<and>
     (sendTimer t = None \<longrightarrow> outbndMsgSet (sx t) = [] \<and> outGrantQueue (sx t) = [])"

text \<open>What sending a packet leaves alone, in the controller and in the transport.\<close>

definition sx_frame :: "send_ctrl \<Rightarrow> send_ctrl" where
  "sx_frame s = s\<lparr>bytesLeftToSend := 0, sentBytesPerActivePeriod := 0, sx_activePeriodStart := 0,
     sentPkt := new_pkt 0 REQUEST, sentPktDuration := 0\<rparr>"

definition sx_env :: "homa \<Rightarrow> homa" where
  "sx_env t = t\<lparr>sx := SendController, sendTimer := None, emitSignalTimer := None,
     nextEmitSignalTime := 0, outs := []\<rparr>"

fun sent_of :: "out_event list \<Rightarrow> homa_pkt list" where
  "sent_of [] = []"
| "sent_of (SendUdp p # es) = p # sent_of es"
| "sent_of (Emit g v # es) = sent_of es"
| "sent_of (SendApp m # es) = sent_of es"

definition sent :: "homa \<Rightarrow> homa_pkt list" where
  "sent t = sent_of (outs t)"

lemma sent_of_append [simp]: "sent_of (xs @ ys) = sent_of xs @ sent_of ys"
  by (induction xs rule: sent_of.induct) auto

text \<open>The packets that wait for the wire, as a multiset.\<close>

definition queued_pkts :: "send_ctrl \<Rightarrow> homa_pkt multiset" where
  "queued_pkts s =
     mset (outGrantQueue s) + al_sum (\<lambda>om. mset (om_txPkts om)) (outboundMsgMap s)"

lemma sx_frame_fields:
  assumes "sx_frame s = sx_frame s'"
  shows "outboundMsgMap s = outboundMsgMap s'" "outbndMsgSet s = outbndMsgSet s'"
    "bytesNeedGrant s = bytesNeedGrant s'" "rxAddrMsgMap s = rxAddrMsgMap s'"
    "outGrantQueue s = outGrantQueue s'" "unschedByteAllocator s = unschedByteAllocator s'"
    "sx_msgId s = sx_msgId s'"
  using assms by (cases s; cases s'; simp add: sx_frame_def)+

lemma sx_env_fields:
  assumes "sx_env t = sx_env t'"
  shows "cfg t = cfg t'" "now t = now t'" "prioRes t = prioRes t'" "rx t = rx t'"
    "trackRTTs t = trackRTTs t'" "localAddr t = localAddr t'" "sendTimerKind t = sendTimerKind t'"
    "outstandingGrantBytes t = outstandingGrantBytes t'"
  using assms by (cases t; cases t'; simp add: sx_env_def)+

lemma sx_env_upd [simp]:
  "sx_env (t\<lparr>sx := s\<rparr>) = sx_env t" "sx_env (t\<lparr>sendTimer := x\<rparr>) = sx_env t"
  "sx_env (t\<lparr>emitSignalTimer := x\<rparr>) = sx_env t" "sx_env (t\<lparr>nextEmitSignalTime := y\<rparr>) = sx_env t"
  "sx_env (t\<lparr>outs := o'\<rparr>) = sx_env t" "sx_env (emit g v t) = sx_env t"
  by (simp_all add: sx_env_def emit_def)

section \<open>The stability signal and the wire\<close>

lemma next_multiple:
  fixes p :: int
  assumes "0 < p" and "0 \<le> d"
  shows "d \<le> (if d mod p = 0 then d div p else d div p + 1) * p"
proof -
  have "d = d div p * p + d mod p" by simp
  moreover have "d mod p < p" using assms(1) by simp
  moreover have "(d div p + 1) * p = d div p * p + p" by (simp add: distrib_right)
  ultimately show ?thesis by (simp only: split: if_split) linarith
qed

lemma testAndEmitStabilitySignal_ok:
  assumes "0 < signalEmitPeriod (cfg t)"
  shows "\<exists>t'. testAndEmitStabilitySignal t = Inr t' \<and> sx t' = sx t \<and> sx_env t' = sx_env t \<and>
     sendTimer t' = sendTimer t \<and> sent t' = sent t"
proof -
  consider "outboundMsgMap (sx t) = [] \<or> emitSignalTimer t \<noteq> None"
    | "outboundMsgMap (sx t) \<noteq> []" "emitSignalTimer t = None" "now t = nextEmitSignalTime t"
    | "outboundMsgMap (sx t) \<noteq> []" "emitSignalTimer t = None" "nextEmitSignalTime t < now t"
    | "outboundMsgMap (sx t) \<noteq> []" "emitSignalTimer t = None" "now t < nextEmitSignalTime t"
    by fastforce
  then show ?thesis
  proof cases
    case 3
    define d where "d = now t - nextEmitSignalTime t"
    define p where "p = signalEmitPeriod (cfg t)"
    define k where "k = (if d mod p = 0 then d div p else d div p + 1)"
    have "d \<le> k * p"
      using 3 assms next_multiple [of p d] by (simp add: d_def p_def k_def)
    then have "scheduleAt (now t) (nextEmitSignalTime t + k * p) None =
        Inr (Some (nextEmitSignalTime t + k * p))"
      by (intro scheduleAt_idle) (simp add: d_def)
    with 3 assms show ?thesis
      by (simp add: testAndEmitStabilitySignal_def Let_def d_def [symmetric] p_def [symmetric]
        k_def [symmetric] sent_def)
  qed (use assms in \<open>auto simp: testAndEmitStabilitySignal_def Let_def scheduleAt_idle sent_def\<close>)
qed

lemma sendPkt_data:
  assumes "pkt_type p \<in> {REQUEST, UNSCHED_DATA, SCHED_DATA}"
    and "data_nat p \<le> unat (bytesLeftToSend (sx t))" and "0 < nicLinkSpeed (cfg t)"
    and "sendTimer t = None" and "bytesLeftToSend (sx t) = 0 \<longrightarrow> sentBytesPerActivePeriod (sx t) = 0"
  shows "\<exists>t'. sendPktAndScheduleNext p t = Inr t' \<and> sx_frame (sx t') = sx_frame (sx t) \<and>
     unat (bytesLeftToSend (sx t')) = unat (bytesLeftToSend (sx t)) - data_nat p \<and>
     (bytesLeftToSend (sx t') = 0 \<longrightarrow> sentBytesPerActivePeriod (sx t') = 0) \<and>
     sx_env t' = sx_env t \<and> sendTimer t' \<noteq> None \<and> sent t' = sent t @ [p]"
proof -
  from data_pkt_bytes [OF assms(1)] obtain n where n: "getDataBytes p = Inr n" "unat n = data_nat p"
    by blast
  then have le: "ucast n \<le> bytesLeftToSend (sx t)" using assms(2) by (simp add: word_le_nat_alt)
  then have u: "unat (bytesLeftToSend (sx t) - ucast n) = unat (bytesLeftToSend (sx t)) - data_nat p"
    by (simp add: unat_sub n)
  define d where "d = tx_time (nicLinkSpeed (cfg t)) (unat (getBytesOnWire n (pkt_type p)))"
  have d: "0 \<le> d" using assms(3) by (simp add: d_def tx_time_nonneg)
  show ?thesis
  proof (cases "bytesLeftToSend (sx t) - ucast n = 0")
    case True
    then show ?thesis using assms(1,4) n le u d
      by (simp add: sendPktAndScheduleNext_def Let_def d_def [symmetric] scheduleAt_idle sent_def
        sx_frame_def)
  next
    case False
    then show ?thesis using assms(1,4) n le u d
      by (simp add: sendPktAndScheduleNext_def Let_def d_def [symmetric] scheduleAt_idle sent_def
        sx_frame_def)
  qed
qed

lemma sendPkt_grant:
  assumes "pkt_type p = GRANT" and "0 < nicLinkSpeed (cfg t)" and "sendTimer t = None"
    and "bytesLeftToSend (sx t) = 0 \<longrightarrow> sentBytesPerActivePeriod (sx t) = 0"
  shows "\<exists>t'. sendPktAndScheduleNext p t = Inr t' \<and> sx_frame (sx t') = sx_frame (sx t) \<and>
     bytesLeftToSend (sx t') = bytesLeftToSend (sx t) \<and>
     (bytesLeftToSend (sx t') = 0 \<longrightarrow> sentBytesPerActivePeriod (sx t') = 0) \<and>
     sx_env t' = sx_env t \<and> sendTimer t' \<noteq> None \<and> sent t' = sent t @ [p]"
proof -
  have n: "getDataBytes p = Inr 0" using assms(1) by (simp add: getDataBytes_def)
  define d where "d = tx_time (nicLinkSpeed (cfg t)) (unat (getBytesOnWire 0 GRANT))"
  have d: "0 \<le> d" using assms(2) by (simp add: d_def tx_time_nonneg)
  show ?thesis
    using assms n d
    by (cases "bytesLeftToSend (sx t) = 0")
      (auto simp: sendPktAndScheduleNext_def Let_def d_def [symmetric] scheduleAt_idle sent_def
        word_gt_0 sx_frame_def)
qed

section \<open>How the updates of the map change what the invariant counts\<close>

declare al_del_put [simp]

lemma store_ok_ids: "store_ok m \<Longrightarrow> ids_ok m"
  by (auto simp: store_ok_def ids_ok_def msg_ok_def)

lemma store_put: "store_ok m \<Longrightarrow> msg_ok i om \<Longrightarrow> store_ok (al_put i om m)"
  by (simp add: store_ok_def)

lemma store_del: "store_ok m \<Longrightarrow> store_ok (al_del i m)"
  by (simp add: store_ok_def)

lemma ready_put:
  "ready (al_put i om m) = (if om_txPkts om \<noteq> [] then insert i (ready m) else ready m - {i})"
  by (auto simp: ready_def)

lemma ready_del: "ready (al_del i m) = ready m - {i}"
  by (auto simp: ready_def)

lemma to_dest_put:
  "to_dest (al_put i om m) a =
     (if om_destAddr om = a then insert i (to_dest m a) else to_dest m a - {i})"
  by (auto simp: to_dest_def)

lemma to_dest_del: "to_dest (al_del i m) a = to_dest m a - {i}"
  by (auto simp: to_dest_def)

lemma to_dest_mem: "map_of m i = Some om \<Longrightarrow> i \<in> to_dest m a \<longleftrightarrow> om_destAddr om = a"
  by (simp add: to_dest_def)

lemma sum_put:
  assumes "map_of m i = Some om0"
  shows "left_sum (al_put i om m) + unat (om_bytesLeft om0) = left_sum m + unat (om_bytesLeft om)"
    and "need_sum (al_put i om m) + unat (om_bytesToSched om0) =
      need_sum m + unat (om_bytesToSched om)"
  using al_sum_put [OF assms] by (simp_all add: left_sum_def need_sum_def)

lemma sum_put_new:
  assumes "map_of m i = None"
  shows "left_sum (al_put i om m) = left_sum m + unat (om_bytesLeft om)"
    and "need_sum (al_put i om m) = need_sum m + unat (om_bytesToSched om)"
  using assms by (simp_all add: left_sum_def need_sum_def al_sum_put_new)

lemma sum_del:
  assumes "al_wf m" and "map_of m i = Some om"
  shows "left_sum (al_del i m) + unat (om_bytesLeft om) = left_sum m"
    and "need_sum (al_del i m) + unat (om_bytesToSched om) = need_sum m"
  using al_sum_del [OF assms, of "\<lambda>om. unat (om_bytesLeft om)"]
    al_sum_del [OF assms, of "\<lambda>om. unat (om_bytesToSched om)"]
  by (simp_all add: left_sum_def need_sum_def)

lemma left_sum_ge: "map_of m i = Some om \<Longrightarrow> unat (om_bytesLeft om) \<le> left_sum m"
  unfolding left_sum_def by (rule al_sum_ge [where f = "\<lambda>om. unat (om_bytesLeft om)"])

lemma need_sum_ge: "map_of m i = Some om \<Longrightarrow> unat (om_bytesToSched om) \<le> need_sum m"
  unfolding need_sum_def by (rule al_sum_ge [where f = "\<lambda>om. unat (om_bytesToSched om)"])

lemma rx_ok_put:
  assumes "rx_ok m r" and "map_of m i = Some om0" and "om_destAddr om = om_destAddr om0"
  shows "rx_ok (al_put i om m) r"
proof -
  have "to_dest (al_put i om m) a = to_dest m a" for a
    using assms(2,3) by (auto simp: to_dest_def)
  with assms(1) show ?thesis by (simp add: rx_ok_def)
qed

lemma rx_ok_new:
  assumes "rx_ok m r" and "map_of m i = None"
    and a_def: "a = om_destAddr om"
    and ids_def: "ids = (case map_of r a of None \<Rightarrow> [] | Some ids \<Rightarrow> ids)"
  shows "i \<notin> set ids" and "rx_ok (al_put i om m) (al_put a (ids @ [i]) r)"
proof -
  have no: "i \<notin> to_dest m b" for b using assms(2) by (simp add: to_dest_def)
  from assms(1) have e: "rx_entry (to_dest m b) (map_of r b)" for b by (simp add: rx_ok_def)
  have ids: "distinct ids" "set ids = to_dest m a"
    using e [of a] by (cases "map_of r a"; simp add: ids_def)+
  then show ni: "i \<notin> set ids" using no by simp
  have "rx_entry (to_dest (al_put i om m) b) (map_of (al_put a (ids @ [i]) r) b)" for b
  proof (cases "b = a")
    case True
    with ids ni show ?thesis by (simp add: to_dest_put a_def)
  next
    case False
    with e [of b] no [of b] show ?thesis by (simp add: to_dest_put a_def)
  qed
  then show "rx_ok (al_put i om m) (al_put a (ids @ [i]) r)" by (simp add: rx_ok_def)
qed

lemma rx_ok_del:
  assumes "rx_ok m r" and "map_of m i = Some om" and a_def: "a = om_destAddr om"
  shows "\<exists>ids. map_of r a = Some ids \<and>
    rx_ok (al_del i m) (if remove1 i ids = [] then al_del a r else al_put a (remove1 i ids) r)"
proof -
  have i: "i \<in> to_dest m b \<longleftrightarrow> b = a" for b using to_dest_mem [OF assms(2)] by (auto simp: a_def)
  from assms(1) have e: "rx_entry (to_dest m b) (map_of r b)" for b by (simp add: rx_ok_def)
  from e [of a] i [of a] obtain ids where ids: "map_of r a = Some ids" "distinct ids"
    "set ids = to_dest m a" by (cases "map_of r a") auto
  have r: "set (remove1 i ids) = to_dest m a - {i}" "distinct (remove1 i ids)"
    using ids by simp_all
  let ?r = "if remove1 i ids = [] then al_del a r else al_put a (remove1 i ids) r"
  have "rx_entry (to_dest (al_del i m) b) (map_of ?r b)" for b
  proof (cases "b = a")
    case True
    show ?thesis
    proof (cases "remove1 i ids = []")
      case True
      then have "to_dest m a - {i} = {}" using r(1) by simp
      with True \<open>b = a\<close> show ?thesis by (simp add: to_dest_del)
    next
      case False
      with \<open>b = a\<close> r show ?thesis by (simp add: to_dest_del)
    qed
  next
    case False
    then have "to_dest (al_del i m) b = to_dest m b" using i [of b] by (simp add: to_dest_del)
    with e [of b] False show ?thesis by simp
  qed
  then have "rx_ok (al_del i m) ?r" by (simp add: rx_ok_def)
  with ids(1) show ?thesis by blast
qed

section \<open>Every handler keeps the invariant and never faults\<close>

lemma msg_ok_queue_empty:
  assumes "msg_ok i om" and "om_txPkts om = p # ps"
    and "unat (om_bytesLeft om) = data_nat p"
  shows "ps = [] \<and> om_bytesToSched om = 0"
proof -
  from assms have q: "unat (om_bytesToSched om) + queued_nat ps = 0"
    by (simp add: msg_ok_def om_ok_def)
  then have "om_bytesToSched om = 0" by (simp add: unsigned_eq_0_iff)
  moreover have "ps = []"
  proof (cases ps)
    case (Cons p' ps')
    with q have "data_nat p' = 0" by simp
    with assms Cons show ?thesis by (auto simp: msg_ok_def)
  qed simp
  ultimately show ?thesis by simp
qed

lemma msg_ok_sent:
  assumes "msg_ok i om" and "om_txPkts om = p # ps" and "om_ok om'" and "om_txPkts om' = ps"
    and "om_msgId om' = om_msgId om" and "om_bytesLeft om' \<noteq> 0"
  shows "msg_ok i om'"
  using assms by (auto simp: msg_ok_def)

text \<open>The end of a message: it leaves the maps.\<close>

lemma msgTransmitComplete_ok:
  assumes "0 < signalEmitPeriod (cfg t)" and "map_of (outboundMsgMap (sx t)) i = Some om"
    and "om_msgId om = i" and "rx_ok (outboundMsgMap (sx t)) (rxAddrMsgMap (sx t))"
  shows "\<exists>t' r. msgTransmitComplete i t = Inr t' \<and>
     sx t' = (sx t)\<lparr>rxAddrMsgMap := r, outboundMsgMap := al_del i (outboundMsgMap (sx t))\<rparr> \<and>
     rx_ok (al_del i (outboundMsgMap (sx t))) r \<and>
     sx_env t' = sx_env t \<and> sendTimer t' = sendTimer t \<and> sent t' = sent t"
proof -
  from rx_ok_del [OF assms(4,2) refl] obtain ids where
    ids: "map_of (rxAddrMsgMap (sx t)) (om_destAddr om) = Some ids"
    and rx: "rx_ok (al_del i (outboundMsgMap (sx t)))
      (if remove1 i ids = [] then al_del (om_destAddr om) (rxAddrMsgMap (sx t))
       else al_put (om_destAddr om) (remove1 i ids) (rxAddrMsgMap (sx t)))" by blast
  let ?r = "if remove1 i ids = [] then al_del (om_destAddr om) (rxAddrMsgMap (sx t))
       else al_put (om_destAddr om) (remove1 i ids) (rxAddrMsgMap (sx t))"
  let ?t = "t\<lparr>sx := (sx t)\<lparr>rxAddrMsgMap := ?r, outboundMsgMap := al_del i (outboundMsgMap (sx t))\<rparr>\<rparr>"
  have "msgTransmitComplete i t = testAndEmitStabilitySignal ?t"
    by (simp add: msgTransmitComplete_def assms(2,3) ids Let_def)
  moreover from testAndEmitStabilitySignal_ok [of ?t] assms(1) obtain t' where
    "testAndEmitStabilitySignal ?t = Inr t'" "sx t' = sx ?t" "sx_env t' = sx_env ?t"
    "sendTimer t' = sendTimer ?t" "sent t' = sent ?t" by auto
  ultimately show ?thesis using rx by (intro exI [of _ t'] exI [of _ ?r]) (simp add: sent_def)
qed

lemma set_insert_msg_ok:
  assumes "sxScheme (cfg t) \<noteq> UNDEFINED" and "ids_ok (outboundMsgMap (sx t))"
    and "q_ok (cfg t) (outboundMsgMap (sx t)) (outbndMsgSet (sx t))"
    and "i \<in> dom (map_of (outboundMsgMap (sx t)))" and "i \<notin> set (outbndMsgSet (sx t))"
  shows "\<exists>q. set_insert_msg i t = Inr (t\<lparr>sx := (sx t)\<lparr>outbndMsgSet := q\<rparr>\<rparr>) \<and>
     q_ok (cfg t) (outboundMsgMap (sx t)) q \<and> set q = insert i (set (outbndMsgSet (sx t)))"
  using q_insert [OF assms] by (auto simp: set_insert_msg_def)

lemma send_first_msg_ok:
  assumes "cfg_ok (cfg t)" and "sx_ok (cfg t) (sx t)" and "sendTimer t = None"
    and "outbndMsgSet (sx t) = i # q"
  shows "\<exists>t' om p. map_of (outboundMsgMap (sx t)) i = Some om \<and> om_txPkts om \<noteq> [] \<and>
     p = hd (om_txPkts om) \<and> send_first_msg t = Inr t' \<and> sx_ok (cfg t') (sx t') \<and>
     sx_env t' = sx_env t \<and> sendTimer t' \<noteq> None \<and> sent t' = sent t @ [p] \<and>
     queued_pkts (sx t) = add_mset p (queued_pkts (sx t'))"
proof -
  let ?m = "outboundMsgMap (sx t)"
  note c = assms(1) [unfolded cfg_ok_def]
  from assms(2) have st: "store_ok ?m" and qk: "q_ok (cfg t) ?m (i # q)"
    and qs: "set (i # q) = ready ?m" and lft: "unat (bytesLeftToSend (sx t)) = left_sum ?m"
    and need: "unat (bytesNeedGrant (sx t)) = need_sum ?m" and rx: "rx_ok ?m (rxAddrMsgMap (sx t))"
    and act: "bytesLeftToSend (sx t) = 0 \<longrightarrow> sentBytesPerActivePeriod (sx t) = 0"
    and gr: "\<forall>p \<in> set (outGrantQueue (sx t)). pkt_type p = GRANT"
    and al: "alloc_ok (cfg t) (unschedByteAllocator (sx t))"
    by (simp_all add: sx_ok_def assms(4))
  have wf: "al_wf ?m" using st by (simp add: store_ok_def)
  have "i \<in> ready ?m" using qs by auto
  then obtain om p ps where om: "map_of ?m i = Some om" "om_txPkts om = p # ps"
    by (auto simp: ready_def neq_Nil_conv)
  have mok: "msg_ok i om" using st om(1) by (simp add: store_ok_def)
  then have omk: "om_ok om" "om_msgId om = i" by (simp_all add: msg_ok_def)
  from getTransmitReadyPkt_ok [OF omk(1) om(2)] obtain om' where
    g: "getTransmitReadyPkt om = Inr (p, ps \<noteq> [], om')" "om_ok om'" "om_txPkts om' = ps"
      "om_bytesToSched om' = om_bytesToSched om"
      "unat (om_bytesLeft om) = unat (om_bytesLeft om') + data_nat p"
      "om_msgId om' = i" "om_destAddr om' = om_destAddr om" using omk(2) by auto
  have sch: "sxScheme (cfg t) \<noteq> UNDEFINED" using c by blast
  have dom: "i \<in> dom (map_of ?m)" using om(1) by blast
  have er: "sset_erase (msg_before (cfg t) ?m) i (i # q) = (1, q)" and qk1: "q_ok (cfg t) ?m q"
    and "set q = set (i # q) - {i}"
    using q_erase [OF sch store_ok_ids [OF st] qk dom] by (simp_all del: sset_erase.simps)
  then have idq: "i \<notin> set q" by blast
  let ?m1 = "al_put i om' ?m"
  let ?t1 = "t\<lparr>sx := (sx t)\<lparr>outbndMsgSet := q, outboundMsgMap := ?m1\<rparr>\<rparr>"
  have ptype: "pkt_type p \<in> {REQUEST, UNSCHED_DATA, SCHED_DATA}"
    using omk(1) om(2) by (simp add: om_ok_def out_pkt_ok_def)
  have le: "data_nat p \<le> unat (bytesLeftToSend (sx ?t1))"
    using left_sum_ge [OF om(1)] g(5) lft by simp
  from sendPkt_data [OF ptype le] c act assms(3) obtain t2 where
    t2: "sendPktAndScheduleNext p ?t1 = Inr t2" "sx_frame (sx t2) = sx_frame (sx ?t1)"
      "unat (bytesLeftToSend (sx t2)) = unat (bytesLeftToSend (sx t)) - data_nat p"
      "bytesLeftToSend (sx t2) = 0 \<longrightarrow> sentBytesPerActivePeriod (sx t2) = 0"
      "sx_env t2 = sx_env t" "sendTimer t2 \<noteq> None" "sent t2 = sent t @ [p]"
    by (auto simp: sent_def)
  note fr = sx_frame_fields [OF t2(2), simplified] and en = sx_env_fields [OF t2(5)]
  have run: "send_first_msg t =
      (if om_bytesLeft om' = 0 then
         rbind (assertion (\<not> ps \<noteq> [])) (\<lambda>_. msgTransmitComplete i t2)
       else if ps \<noteq> [] then set_insert_msg i t2 else Inr t2)"
    by (simp add: send_first_msg_def assms(4) er om(1) g(1) t2(1) del: sset_erase.simps)
  have sums: "left_sum ?m1 = unat (bytesLeftToSend (sx t2))" "need_sum ?m1 = need_sum ?m"
    using sum_put [OF om(1), of om', unfolded g(4)] g(5) t2(3) lft by linarith+
  have pk: "al_sum (\<lambda>om. mset (om_txPkts om)) ?m =
      add_mset p (al_sum (\<lambda>om. mset (om_txPkts om)) ?m1)"
    using al_sum_put [OF om(1), of "\<lambda>om. mset (om_txPkts om)" om'] om(2) g(3) by simp
  have rx1: "rx_ok ?m1 (rxAddrMsgMap (sx t2))"
    using rx_ok_put [OF rx om(1) g(7)] fr by simp
  have qk2: "q_ok (cfg t) ?m1 q" by (rule q_frame(1) [OF qk1 idq])
  have rd: "ready ?m - {i} = set q" using qs idq by auto
  consider (fin) "om_bytesLeft om' = 0" | (more) "om_bytesLeft om' \<noteq> 0" "ps \<noteq> []"
    | (wait) "om_bytesLeft om' \<noteq> 0" "ps = []" by blast
  then have "\<exists>t'. send_first_msg t = Inr t' \<and> sx_ok (cfg t') (sx t') \<and> sx_env t' = sx_env t \<and>
      sendTimer t' \<noteq> None \<and> sent t' = sent t @ [p] \<and>
      queued_pkts (sx t) = add_mset p (queued_pkts (sx t'))"
  proof cases
    case fin
    with g(5) have "unat (om_bytesLeft om) = data_nat p" by simp
    from msg_ok_queue_empty [OF mok om(2) this] have e: "ps = []" "om_bytesToSched om = 0" by auto
    have "rx_ok (outboundMsgMap (sx t2)) (rxAddrMsgMap (sx t2))" using rx1 fr by simp
    moreover have "map_of (outboundMsgMap (sx t2)) i = Some om'" using fr by simp
    moreover have "0 < signalEmitPeriod (cfg t2)" using c en by simp
    ultimately obtain t' r where t': "msgTransmitComplete i t2 = Inr t'"
      "sx t' = (sx t2)\<lparr>rxAddrMsgMap := r, outboundMsgMap := al_del i ?m\<rparr>"
      "rx_ok (al_del i ?m) r" "sx_env t' = sx_env t2" "sendTimer t' = sendTimer t2"
      "sent t' = sent t2"
      using msgTransmitComplete_ok [of t2 i om'] g(6) fr by auto
    have "left_sum (al_del i ?m) = unat (bytesLeftToSend (sx t2))"
      "need_sum (al_del i ?m) = need_sum ?m"
      using sum_del [OF wf om(1)] g(5) fin e(2) t2(3) lft by simp_all
    then have "sx_ok (cfg t) (sx t')"
      using t'(2,3) store_del [OF st] q_frame(2) [OF qk1 idq] rd t2(4) gr al need fr
      by (simp add: sx_ok_def ready_del)
    moreover have "queued_pkts (sx t) = add_mset p (queued_pkts (sx t'))"
      using al_sum_del [OF wf om(1), of "\<lambda>om. mset (om_txPkts om)", symmetric] om(2) e(1) fr t'(2)
      by (simp add: queued_pkts_def)
    ultimately show ?thesis using run fin e t' t2 sx_env_fields(1) [of t' t] by simp
  next
    case more
    have st1: "store_ok ?m1"
      by (rule store_put [OF st msg_ok_sent [OF mok om(2) g(2,3)]]) (use g(6) omk more in simp_all)
    have "sxScheme (cfg t2) \<noteq> UNDEFINED" "ids_ok (outboundMsgMap (sx t2))"
      "q_ok (cfg t2) (outboundMsgMap (sx t2)) (outbndMsgSet (sx t2))"
      "i \<in> dom (map_of (outboundMsgMap (sx t2)))" "i \<notin> set (outbndMsgSet (sx t2))"
      using c en fr store_ok_ids [OF st1] qk2 idq by simp_all
    from set_insert_msg_ok [OF this] obtain q' where
      q': "set_insert_msg i t2 = Inr (t2\<lparr>sx := (sx t2)\<lparr>outbndMsgSet := q'\<rparr>\<rparr>)"
        "q_ok (cfg t) ?m1 q'" "set q' = insert i (set q)" using fr en by auto
    have "set q' = ready ?m1" using q'(3) rd more(2) g(3) by (auto simp: ready_put)
    then have "sx_ok (cfg t) ((sx t2)\<lparr>outbndMsgSet := q'\<rparr>)"
      using st1 q'(2) sums rx1 t2(4) gr al need fr by (simp add: sx_ok_def)
    moreover have "queued_pkts (sx t) = add_mset p (queued_pkts ((sx t2)\<lparr>outbndMsgSet := q'\<rparr>))"
      using pk fr by (simp add: queued_pkts_def)
    ultimately show ?thesis using run more q'(1) t2 en by (auto simp: sent_def)
  next
    case wait
    have st1: "store_ok ?m1"
      by (rule store_put [OF st msg_ok_sent [OF mok om(2) g(2,3)]]) (use g(6) omk wait in simp_all)
    have "set q = ready ?m1" using rd wait(2) g(3) by (simp add: ready_put)
    then have "sx_ok (cfg t) (sx t2)"
      using st1 qk2 sums rx1 t2(4) gr al need fr by (simp add: sx_ok_def)
    moreover have "queued_pkts (sx t) = add_mset p (queued_pkts (sx t2))"
      using pk fr by (simp add: queued_pkts_def)
    ultimately show ?thesis using run wait t2 en by auto
  qed
  with om show ?thesis by auto
qed

lemma sx_inv_busy:
  assumes "sx_inv t" and "sx_env t' = sx_env t" and "sx_ok (cfg t') (sx t')"
    and "sendTimer t' \<noteq> None"
  shows "sx_inv t'"
  using assms sx_env_fields [OF assms(2)] by (auto simp: sx_inv_def)

lemma sx_ok_grant_sent:
  assumes "sx_ok c s" and "sx_frame s' = sx_frame s" and "bytesLeftToSend s' = bytesLeftToSend s"
    and "bytesLeftToSend s' = 0 \<longrightarrow> sentBytesPerActivePeriod s' = 0"
  shows "sx_ok c s'"
  using assms sx_frame_fields [OF assms(2)] by (simp add: sx_ok_def)

lemma sendOrQueue_grant_ok:
  assumes "sx_inv t" and "pkt_type p = GRANT"
  shows "\<exists>t'. sendOrQueue (SendPkt p) t = Inr t' \<and> sx_inv t' \<and> sx_env t' = sx_env t \<and>
     (if sendTimer t = None then sent t' = sent t @ [p] \<and> outGrantQueue (sx t') = []
      else sent t' = sent t \<and> p \<in> set (outGrantQueue (sx t')))"
proof (cases "sendTimer t")
  case None
  from assms(1) None have q: "outGrantQueue (sx t) = []" "0 < nicLinkSpeed (cfg t)"
    "sx_ok (cfg t) (sx t)" by (simp_all add: sx_inv_def cfg_ok_def)
  then have act: "bytesLeftToSend (sx t) = 0 \<longrightarrow> sentBytesPerActivePeriod (sx t) = 0"
    by (simp add: sx_ok_def)
  from sendPkt_grant [OF assms(2) q(2) None act] obtain t' where
    t': "sendPktAndScheduleNext p t = Inr t'" "sx_frame (sx t') = sx_frame (sx t)"
      "bytesLeftToSend (sx t') = bytesLeftToSend (sx t)"
      "bytesLeftToSend (sx t') = 0 \<longrightarrow> sentBytesPerActivePeriod (sx t') = 0"
      "sx_env t' = sx_env t" "sendTimer t' \<noteq> None" "sent t' = sent t @ [p]" by blast
  have "sx_ok (cfg t') (sx t')"
    using sx_ok_grant_sent [OF q(3) t'(2-4)] sx_env_fields(1) [OF t'(5)] by simp
  with assms(1) t' have "sx_inv t'" by (intro sx_inv_busy [of t t'])
  moreover have "sendOrQueue (SendPkt p) t = Inr t'"
    using None assms(2) q(1) t'(1) by (simp add: sendOrQueue_def)
  moreover have "outGrantQueue (sx t') = []" using q(1) sx_frame_fields(5) [OF t'(2)] by simp
  ultimately show ?thesis using None t' by auto
next
  case (Some x)
  let ?t = "t\<lparr>sx := (sx t)\<lparr>outGrantQueue := pq_push pkt_gt p (outGrantQueue (sx t))\<rparr>\<rparr>"
  have "sx_inv ?t" using assms Some by (simp add: sx_inv_def sx_ok_def)
  then show ?thesis using Some assms(2) by (simp add: sendOrQueue_def sent_def)
qed

lemma sendOrQueue_data_ok:
  assumes "cfg_ok (cfg t)" and "resolver_ok (prioRes t)" and "sendTimerKind t = TIMER_SEND"
    and "sx_ok (cfg t) (sx t)"
    and "sendTimer t = None \<longrightarrow> outGrantQueue (sx t) = [] \<and> length (outbndMsgSet (sx t)) = 1"
  shows "\<exists>t'. sendOrQueue DataReady t = Inr t' \<and> sx_inv t' \<and> sx_env t' = sx_env t"
proof (cases "sendTimer t")
  case None
  with assms(5) obtain i where i: "outbndMsgSet (sx t) = [i]" "outGrantQueue (sx t) = []"
    by (auto simp: length_Suc_conv)
  from send_first_msg_ok [OF assms(1,4) None i(1)] obtain t' where
    t': "send_first_msg t = Inr t'" "sx_ok (cfg t') (sx t')" "sx_env t' = sx_env t"
      "sendTimer t' \<noteq> None" by blast
  with None i assms sx_env_fields [OF t'(3)] show ?thesis
    by (auto simp: sendOrQueue_def sx_inv_def)
next
  case (Some x)
  with assms show ?thesis by (simp add: sendOrQueue_def sx_inv_def)
qed

lemma transmit_delays_frame:
  "sx (transmit_delays e t) = sx t" "sx_env (transmit_delays e t) = sx_env t"
  "sendTimer (transmit_delays e t) = sendTimer t" "sent (transmit_delays e t) = sent t"
  by (simp_all add: transmit_delays_def Let_def sent_def)

lemma handlePktTransmitEnd_frame:
  "sx (handlePktTransmitEnd t) = sx t \<and> sx_env (handlePktTransmitEnd t) = sx_env t \<and>
   sendTimer (handlePktTransmitEnd t) = sendTimer t \<and> sent (handlePktTransmitEnd t) = sent t"
proof -
  have "sx (fold transmit_delays es t) = sx t \<and> sx_env (fold transmit_delays es t) = sx_env t \<and>
      sendTimer (fold transmit_delays es t) = sendTimer t \<and>
      sent (fold transmit_delays es t) = sent t" for es
    by (induction es arbitrary: t) (simp_all add: transmit_delays_frame)
  then show ?thesis by (simp add: handlePktTransmitEnd_def)
qed

lemma handle_send_timer_ok:
  assumes "sx_inv t"
  shows "\<exists>t'. handle_send_timer t = Inr t' \<and> sx_inv t' \<and> sx_env t' = sx_env t \<and>
     (case outGrantQueue (sx t) of
        g # _ \<Rightarrow> sent t' = sent t @ [g] \<and> queued_pkts (sx t) = add_mset g (queued_pkts (sx t'))
      | [] \<Rightarrow> (case outbndMsgSet (sx t) of
          [] \<Rightarrow> sent t' = sent t \<and> sendTimer t' = None \<and> sx t' = sx t
        | i # _ \<Rightarrow> (\<exists>om p ps. map_of (outboundMsgMap (sx t)) i = Some om \<and>
            om_txPkts om = p # ps \<and> sent t' = sent t @ [p] \<and>
            queued_pkts (sx t) = add_mset p (queued_pkts (sx t')))))"
proof -
  define t0 where "t0 = handlePktTransmitEnd (t\<lparr>sendTimer := None\<rparr>)"
  from handlePktTransmitEnd_frame [of "t\<lparr>sendTimer := None\<rparr>"] have
    f: "sx t0 = sx t" "sx_env t0 = sx_env t" "sendTimer t0 = None" "sent t0 = sent t"
    by (simp_all add: t0_def sent_def)
  note e = sx_env_fields [OF f(2)]
  from assms have c: "cfg_ok (cfg t0)" "sendTimerKind t0 = TIMER_SEND" "sx_ok (cfg t0) (sx t0)"
    by (simp_all add: sx_inv_def e f)
  have run: "handle_send_timer t = (case outGrantQueue (sx t) of
      g # gs \<Rightarrow> sendPktAndScheduleNext g (t0\<lparr>sx := (sx t)\<lparr>outGrantQueue := gs\<rparr>\<rparr>)
    | [] \<Rightarrow> if outbndMsgSet (sx t) \<noteq> [] then send_first_msg t0 else Inr t0)"
    using c(2) by (simp add: handle_send_timer_def sendOrQueue_def t0_def [symmetric] f
        split: list.split)
  show ?thesis
  proof (cases "outGrantQueue (sx t)")
    case (Cons g gs)
    let ?t1 = "t0\<lparr>sx := (sx t)\<lparr>outGrantQueue := gs\<rparr>\<rparr>"
    have ok1: "sx_ok (cfg ?t1) (sx ?t1)" and g: "pkt_type g = GRANT"
      using c(3) Cons by (auto simp: sx_ok_def f)
    have act: "bytesLeftToSend (sx ?t1) = 0 \<longrightarrow> sentBytesPerActivePeriod (sx ?t1) = 0"
      using c(3) by (simp add: sx_ok_def f)
    from sendPkt_grant [OF g, of ?t1] c(1) act f(3) obtain t' where
      t': "sendPktAndScheduleNext g ?t1 = Inr t'" "sx_frame (sx t') = sx_frame (sx ?t1)"
        "bytesLeftToSend (sx t') = bytesLeftToSend (sx ?t1)"
        "bytesLeftToSend (sx t') = 0 \<longrightarrow> sentBytesPerActivePeriod (sx t') = 0"
        "sx_env t' = sx_env t0" "sendTimer t' \<noteq> None" "sent t' = sent t0 @ [g]"
      by (auto simp: cfg_ok_def sent_def)
    have "sx_ok (cfg t') (sx t')"
      using sx_ok_grant_sent [OF ok1 t'(2-4)] sx_env_fields(1) [OF t'(5)] by simp
    then have "sx_inv t'" using assms t'(5,6) f(2) by (intro sx_inv_busy [of t t']) simp_all
    moreover have "queued_pkts (sx t) = add_mset g (queued_pkts (sx t'))"
      using Cons sx_frame_fields [OF t'(2)] by (simp add: queued_pkts_def)
    ultimately show ?thesis using run Cons t' f by simp
  next
    case Nil
    show ?thesis
    proof (cases "outbndMsgSet (sx t)")
      case (Cons i q)
      from send_first_msg_ok [OF c(1,3) f(3), of i q] Cons f(1) obtain t' om p where
        t': "map_of (outboundMsgMap (sx t)) i = Some om" "om_txPkts om \<noteq> []"
          "p = hd (om_txPkts om)" "send_first_msg t0 = Inr t'" "sx_ok (cfg t') (sx t')"
          "sx_env t' = sx_env t0" "sendTimer t' \<noteq> None" "sent t' = sent t0 @ [p]"
          "queued_pkts (sx t) = add_mset p (queued_pkts (sx t'))" by auto
      have "sx_inv t'" using assms t'(5-7) f(2) by (intro sx_inv_busy [of t t']) simp_all
      moreover obtain ps where "om_txPkts om = p # ps" using t'(2,3) by (cases "om_txPkts om") auto
      ultimately show ?thesis using run Nil Cons t'(1,4,6,8,9) f by simp
    next
      case e': Nil
      have "sx_inv t0" using assms Nil e' e by (simp add: sx_inv_def f)
      then show ?thesis using run Nil e' f by simp
    qed
  qed
qed

section \<open>Grants and new messages\<close>

text \<open>What a grant must satisfy: it names a message of this sender that still needs bytes.\<close>

definition grant_ok :: "homa_pkt \<Rightarrow> homa \<Rightarrow> bool" where
  "grant_ok p t \<longleftrightarrow> pkt_type p = GRANT \<and> 0 < gf_grantBytes (pkt_grant p) \<and>
     (case map_of (outboundMsgMap (sx t)) (pkt_msgId p) of
        None \<Rightarrow> False
      | Some om \<Rightarrow> pkt_destAddr p = om_srcAddr om \<and> pkt_srcAddr p = om_destAddr om \<and>
          0 < om_bytesToSched om)"

lemma granted_bytes:
  fixes g :: u16 and b :: u32
  assumes "0 < g" and "0 < b"
  shows "b - (b - min (ucast g) b) = min (ucast g) b" and "0 <s min (ucast g) b"
    and "unat (scast (min (ucast g) b) :: u64) = unat (min (ucast g) b)"
    and "0 < unat (min (ucast g) b)"
proof -
  define n where "n = min (ucast g) b"
  have n16: "unat n < 65536"
    using unsigned_less [of g, where 'a = nat] by (simp add: n_def unat_min)
  have pos: "0 < unat n" using assms by (simp add: n_def word_less_nat_alt unat_min)
  have un: "uint n = int (unat n)" by (rule uint_nat)
  have "sint n = signed_take_bit 31 (uint n)" by (simp add: sint_uint)
  also have "\<dots> = int (unat n)"
  proof -
    have "signed_take_bit 31 (int k) = int k" if "k < 65536" for k
      using that by (simp add: signed_take_bit_int_eq_self_iff)
    from this [OF n16] show ?thesis unfolding un .
  qed
  finally have si: "sint n = int (unat n)" .
  show "b - (b - min (ucast g) b) = min (ucast g) b" by simp
  have "0 < sint n" using pos si by linarith
  then show "0 <s min (ucast g) b" unfolding n_def [symmetric] word_sless_alt by simp
  have "(scast n :: u64) = of_nat (unat n)" unfolding scast_eq si by (rule of_int_of_nat_eq)
  then have "(scast n :: u64) = ucast n" by (simp only: of_nat_unat)
  then have "unat (scast n :: u64) = unat n" by (simp only: unat_ucast_u32_u64)
  then show "unat (scast (min (ucast g) b) :: u64) = unat (min (ucast g) b)"
    unfolding n_def .
  show "0 < unat (min (ucast g) b)" using pos unfolding n_def .
qed

lemma q_ok_length:
  assumes "q_ok c m q"
  shows "length q = card (set q)"
proof -
  have "distinct q"
    using assms unfolding q_ok_def by (intro msg_order.swo_distinct) blast
  then show ?thesis by (simp add: distinct_card)
qed

lemma processReceivedGrant_ok:
  assumes "sx_inv t" and "grant_ok p t"
  shows "\<exists>t'. processReceivedGrant p t = Inr t' \<and> sx_inv t' \<and> sx_env t' = sx_env t"
proof -
  let ?m = "outboundMsgMap (sx t)" and ?i = "pkt_msgId p" and ?q = "outbndMsgSet (sx t)"
  let ?g = "pkt_grant p"
  from assms(1) have c: "cfg_ok (cfg t)" "resolver_ok (prioRes t)" "sendTimerKind t = TIMER_SEND"
    and ok: "sx_ok (cfg t) (sx t)"
    and idle: "sendTimer t = None \<longrightarrow> ?q = [] \<and> outGrantQueue (sx t) = []"
    by (simp_all add: sx_inv_def)
  from ok have st: "store_ok ?m" and qk: "q_ok (cfg t) ?m ?q" and qs: "set ?q = ready ?m"
    and need: "unat (bytesNeedGrant (sx t)) = need_sum ?m" and rx: "rx_ok ?m (rxAddrMsgMap (sx t))"
    by (simp_all add: sx_ok_def)
  from assms(2) obtain om where g: "pkt_type p = GRANT" "0 < gf_grantBytes ?g"
    "map_of ?m ?i = Some om" "pkt_destAddr p = om_srcAddr om" "pkt_srcAddr p = om_destAddr om"
    "0 < om_bytesToSched om" by (auto simp: grant_ok_def split: option.splits)
  have mok: "msg_ok ?i om" using st g(3) by (simp add: store_ok_def)
  then have omk: "om_ok om" by (simp add: msg_ok_def)
  have sch: "sxScheme (cfg t) \<noteq> UNDEFINED" using c(1) by (simp add: cfg_ok_def)
  have dm: "?i \<in> dom (map_of ?m)" using g(3) by blast
  define q1 where "q1 = remove1 ?i ?q"
  have er: "sset_erase (msg_before (cfg t) ?m) ?i ?q = (if ?i \<in> set ?q then 1 else 0, q1)"
    and qk1: "q_ok (cfg t) ?m q1" and q1s: "set q1 = set ?q - {?i}"
    using q_erase [OF sch store_ok_ids [OF st] qk dm] by (simp_all add: q1_def)
  define n where "n = min (ucast (gf_grantBytes ?g)) (om_bytesToSched om)"
  note gb = granted_bytes [OF g(2,6), folded n_def]
  from prepareSchedPkt_ok [OF omk g(6) n_def] obtain om' pkt where
    p': "prepareSchedPkt (now t) (gf_offset ?g) (gf_grantBytes ?g) (gf_schedPrio ?g) om =
        Inr (om_bytesToSched om - n, om')" "om_ok om'"
      "om' = om\<lparr>om_txPkts := pq_push OutbndPktSorter pkt (om_txPkts om),
              om_txSchedPkts := om_txSchedPkts om @ [pkt],
              om_bytesToSched := om_bytesToSched om - n\<rparr>" "getDataBytes pkt = Inr n" by blast
  have f: "om_msgId om' = om_msgId om" "om_destAddr om' = om_destAddr om"
    "om_bytesLeft om' = om_bytesLeft om" "om_txPkts om' \<noteq> []"
    "set (om_txPkts om') = insert pkt (set (om_txPkts om))"
    "om_bytesToSched om' = om_bytesToSched om - n" by (simp_all add: p'(3))
  have pos: "om_bytesLeft om \<noteq> 0"
    using omk g(6) by (auto simp: om_ok_def word_less_nat_alt)
  have "0 < data_nat pkt" using p'(4) gb(4) by (simp add: data_nat_def)
  then have mok': "msg_ok ?i om'" using mok p'(2) f pos by (auto simp: msg_ok_def)
  let ?m1 = "al_put ?i om' ?m"
  let ?need = "bytesNeedGrant (sx t) - scast n"
  have nle: "unat n \<le> unat (om_bytesToSched om)" by (simp add: n_def unat_min)
  then have u: "unat (om_bytesToSched om') = unat (om_bytesToSched om) - unat n"
    by (simp add: f unat_sub word_le_nat_alt)
  have "unat n \<le> need_sum ?m" using nle need_sum_ge [OF g(3)] by linarith
  then have un: "unat ?need = need_sum ?m - unat n"
    using gb(3) need by (simp add: unat_sub word_le_nat_alt)
  have sums: "left_sum ?m1 = left_sum ?m" "need_sum ?m1 = unat ?need"
    using sum_put [OF g(3), of om', unfolded f(3)] u un nle by linarith+
  have st1: "store_ok ?m1" by (rule store_put [OF st mok'])
  let ?s = "(sx t)\<lparr>sumGrantsInGap := sumGrantsInGap (sx t) + ucast (getBytesOnWire 0 GRANT),
      outbndMsgSet := q1, outboundMsgMap := ?m1, bytesNeedGrant := ?need\<rparr>"
  let ?t1 = "t\<lparr>sx := ?s\<rparr>"
  have "?i \<notin> set q1" using q1s by simp
  moreover have "q_ok (cfg t) ?m1 q1" by (rule q_frame(1) [OF qk1 \<open>?i \<notin> set q1\<close>])
  ultimately obtain q' where
    q': "set_insert_msg ?i ?t1 = Inr (?t1\<lparr>sx := ?s\<lparr>outbndMsgSet := q'\<rparr>\<rparr>)"
      "q_ok (cfg t) ?m1 q'" "set q' = insert ?i (set q1)"
    using set_insert_msg_ok [of ?t1 ?i] sch store_ok_ids [OF st1] by auto
  let ?t2 = "?t1\<lparr>sx := ?s\<lparr>outbndMsgSet := q'\<rparr>\<rparr>"
  have run: "processReceivedGrant p t = sendOrQueue DataReady ?t2"
    using g er p'(1) gb(1,2) q'(1)
    by (simp add: processReceivedGrant_def getDataBytes_def Let_def)
  have "set q' = ready ?m1" using q'(3) q1s qs f(4) by (auto simp: ready_put)
  then have ok2: "sx_ok (cfg ?t2) (sx ?t2)"
    using ok st1 q'(2) sums rx_ok_put [OF rx g(3) f(2)] by (simp add: sx_ok_def)
  have "sendTimer ?t2 = None \<longrightarrow> outGrantQueue (sx ?t2) = [] \<and> length (outbndMsgSet (sx ?t2)) = 1"
    using idle q'(3) q1s q_ok_length [OF q'(2)] by simp
  from sendOrQueue_data_ok [OF _ _ _ ok2 this] c run show ?thesis by simp
qed

text \<open>
  A message the application may hand over: the id the controller is about to use is free, and the
  counters of bytes do not overflow.
\<close>

definition app_ok :: "app_msg \<Rightarrow> homa \<Rightarrow> bool" where
  "app_ok msg t \<longleftrightarrow> map_of (outboundMsgMap (sx t)) (sx_msgId (sx t)) = None \<and>
     unat (bytesLeftToSend (sx t)) + unat (app_byteLength msg) < 2 ^ 64"

lemma need_le_left:
  assumes "store_ok m"
  shows "need_sum m \<le> left_sum m"
proof -
  have "unat (om_bytesToSched om) \<le> unat (om_bytesLeft om)" if "(i, om) \<in> set m" for i om
  proof -
    from assms that have "map_of m i = Some om" by (simp add: store_ok_def al_wf_map_of)
    with assms show ?thesis by (simp add: store_ok_def msg_ok_def om_ok_def)
  qed
  then show ?thesis unfolding need_sum_def left_sum_def al_sum_def
    by (intro sum_list_mono) (auto simp: case_prod_beta)
qed

lemma new_msg_ok:
  assumes "cfg_ok c" and "resolver_ok r" and "alloc_ok c a"
  shows "\<exists>vec a' om. getReqUnschedDataPkts c dest (app_byteLength msg) a = Inr (vec, a') \<and>
     alloc_ok c a' \<and>
     prepareRequestAndUnsched cur r (OutboundMessage msg i vec) = Inr om \<and> msg_ok i om \<and>
     om_txPkts om \<noteq> [] \<and> om_bytesLeft om = app_byteLength msg \<and>
     om_destAddr om = app_destAddr msg \<and> om_bytesToSched om \<le> app_byteLength msg"
proof -
  define n where "n = unat (app_byteLength msg)"
  from assms(1) have c: "defaultReqBytes c \<le> 1442" "0 < unat (defaultReqBytes c)"
    by (simp_all add: cfg_ok_def word_less_nat_alt)
  from getReqUnschedDataPkts_ok [OF assms(3) c(1), of dest "app_byteLength msg"] obtain d ds a' where
    v: "getReqUnschedDataPkts c dest (app_byteLength msg) a = Inr (d # ds, a')" "alloc_ok c a'"
      "unat d = req_bytes c n" "map unat ds = chunks 1442 (unsched_bytes c n)"
    unfolding n_def by blast
  let ?om = "OutboundMessage msg i (d # ds)"
  have f: "om_msgSize ?om = app_byteLength msg" "om_reqUnschedDataVec ?om = d # ds"
    "om_destAddr ?om = app_destAddr msg" "om_msgId ?om = i"
    by (simp_all add: OutboundMessage_def)
  have "data_sum (d # ds) \<le> n" using v(3,4) by (simp add: data_sum_def req_bytes_def unsched_bytes_def)
  then have "om_fresh ?om" by (simp add: om_fresh_def OutboundMessage_def n_def)
  from prepareRequestAndUnsched_ok [OF assms(2) this, of cur] obtain om where
    om: "prepareRequestAndUnsched cur r ?om = Inr om" "om_ok om"
      "mset (map data_nat (om_txPkts om)) = mset (map unat (d # ds))"
      "om_bytesLeft om = om_msgSize om"
      "om = ?om\<lparr>om_txPkts := om_txPkts om, om_bytesToSched := om_bytesToSched om,
         om_unschedBytesLeft := om_unschedBytesLeft om\<rparr>"
      "unat (om_bytesToSched om) + data_sum (d # ds) = n" unfolding f n_def by blast
  have g: "om_msgId om = i" "om_destAddr om = app_destAddr msg" "om_msgSize om = app_byteLength msg"
    by (subst om(5), simp add: f)+
  have len: "length (om_txPkts om) = Suc (length ds)"
    using om(3) by (metis length_Cons length_map size_mset)
  have "(\<forall>p \<in> set (om_txPkts om). 0 < data_nat p) \<or> length (om_txPkts om) = 1 \<and> om_bytesLeft om = 0"
  proof (cases "n = 0")
    case True
    then have "ds = []" using v(4) by (simp add: unsched_bytes_def)
    with True len om(4) g(3) show ?thesis by (simp add: n_def unsigned_eq_0_iff)
  next
    case False
    then have "0 < unat d" using v(3) c(2) by (simp add: req_bytes_def)
    moreover have "\<forall>x \<in> set (map unat ds). 0 < x"
      unfolding v(4) using chunks_le [of 1442] by auto
    ultimately have "\<forall>x \<in> set (map data_nat (om_txPkts om)). 0 < x"
      using mset_eq_setD [OF om(3)] by simp
    then show ?thesis by simp
  qed
  moreover have "om_txPkts om \<noteq> []" using len by auto
  moreover have "om_bytesToSched om \<le> app_byteLength msg"
    using om(6) by (simp add: word_le_nat_alt n_def)
  ultimately show ?thesis using v(1,2) om(1,2,4) g by (auto simp: msg_ok_def)
qed

declare al_put_put [simp]

lemma processSendMsgFromApp_ok:
  assumes "sx_inv t" and "app_ok msg t"
  shows "\<exists>t'. processSendMsgFromApp msg t = Inr t' \<and> sx_inv t' \<and> sx_env t' = sx_env t"
proof -
  let ?m = "outboundMsgMap (sx t)" and ?i = "sx_msgId (sx t)" and ?q = "outbndMsgSet (sx t)"
  let ?a = "app_destAddr msg"
  from assms(1) have c: "cfg_ok (cfg t)" "resolver_ok (prioRes t)" "sendTimerKind t = TIMER_SEND"
    and ok: "sx_ok (cfg t) (sx t)"
    and idle: "sendTimer t = None \<longrightarrow> ?q = [] \<and> outGrantQueue (sx t) = []"
    by (simp_all add: sx_inv_def)
  from ok have st: "store_ok ?m" and qk: "q_ok (cfg t) ?m ?q" and qs: "set ?q = ready ?m"
    and lft: "unat (bytesLeftToSend (sx t)) = left_sum ?m"
    and need: "unat (bytesNeedGrant (sx t)) = need_sum ?m" and rx: "rx_ok ?m (rxAddrMsgMap (sx t))"
    and act: "bytesLeftToSend (sx t) = 0 \<longrightarrow> sentBytesPerActivePeriod (sx t) = 0"
    and al: "alloc_ok (cfg t) (unschedByteAllocator (sx t))"
    by (simp_all add: sx_ok_def)
  from assms(2) have fresh: "map_of ?m ?i = None"
    and ovf: "left_sum ?m + unat (app_byteLength msg) < 2 ^ 64" by (simp_all add: app_ok_def lft)
  have sch: "sxScheme (cfg t) \<noteq> UNDEFINED" using c(1) by (simp add: cfg_ok_def)
  from new_msg_ok [OF c(1,2) al, of ?a msg "now t" ?i] obtain vec a' om where
    v: "getReqUnschedDataPkts (cfg t) ?a (app_byteLength msg) (unschedByteAllocator (sx t)) = Inr (vec, a')"
      "alloc_ok (cfg t) a'"
      "prepareRequestAndUnsched (now t) (prioRes t) (OutboundMessage msg ?i vec) = Inr om"
      "msg_ok ?i om" "om_txPkts om \<noteq> []" "om_bytesLeft om = app_byteLength msg"
      "om_destAddr om = ?a" "om_bytesToSched om \<le> app_byteLength msg" by blast
  define ids where "ids = (case map_of (rxAddrMsgMap (sx t)) ?a of None \<Rightarrow> [] | Some ids \<Rightarrow> ids)"
  have zl: "bytesLeftToSend (sx t) + ucast (app_byteLength msg) = 0 \<longrightarrow> bytesLeftToSend (sx t) = 0"
  proof
    assume "bytesLeftToSend (sx t) + ucast (app_byteLength msg) = 0"
    then have "unat (bytesLeftToSend (sx t) + ucast (app_byteLength msg)) = 0" by simp
    with ovf lft have "unat (bytesLeftToSend (sx t)) = 0" by (simp add: unat_word_ariths)
    then show "bytesLeftToSend (sx t) = 0" by (simp add: unsigned_eq_0_iff)
  qed
  note rxn = rx_ok_new [OF rx fresh v(7) [symmetric] ids_def]
  let ?om0 = "OutboundMessage msg ?i vec"
  let ?m1 = "al_put ?i om ?m"
  let ?left = "bytesLeftToSend (sx t) + ucast (app_byteLength msg)"
  define s0 where "s0 = (sx t)\<lparr>unschedByteAllocator := a', outboundMsgMap := al_put ?i ?om0 ?m,
    rxAddrMsgMap := al_put ?a (ids @ [?i]) (rxAddrMsgMap (sx t))\<rparr>"
  define s0' where "s0' = (if bytesLeftToSend s0 = 0
    then s0\<lparr>sx_activePeriodStart := now t, sentBytesPerActivePeriod := 0\<rparr> else s0)"
  define s1 where "s1 = s0'\<lparr>bytesLeftToSend := ?left\<rparr>"
  have act0: "(if bytesLeftToSend s0 = 0 then rbind (assertion (sentBytesPerActivePeriod s0 = 0)) (\<lambda>_.
        Inr (s0\<lparr>sx_activePeriodStart := now t, sentBytesPerActivePeriod := 0\<rparr>)) else Inr s0) = Inr s0'"
    using act by (simp add: s0'_def s0_def)
  have s1: "outboundMsgMap s1 = al_put ?i ?om0 ?m" "bytesLeftToSend s1 = ?left"
    "rxAddrMsgMap s1 = al_put ?a (ids @ [?i]) (rxAddrMsgMap (sx t))"
    "unschedByteAllocator s1 = a'" "outbndMsgSet s1 = ?q"
    "bytesNeedGrant s1 = bytesNeedGrant (sx t)" "outGrantQueue s1 = outGrantQueue (sx t)"
    "?left = 0 \<longrightarrow> sentBytesPerActivePeriod s1 = 0"
    "bytesLeftToSend s0' = bytesLeftToSend (sx t)" "outboundMsgMap s0' = al_put ?i ?om0 ?m"
    using act zl by (auto simp: s1_def s0'_def s0_def)
  define t1 where "t1 = (emit BytesNeedGrant [uint (bytesNeedGrant (sx t))]
    (emit BytesLeftToSend [uint (bytesLeftToSend (sx t))]
    (emit MsgsLeftToSend [int (length ?m)] t)))\<lparr>sx := s1\<rparr>"
  have e1: "sx_env t1 = sx_env t" "sendTimer t1 = sendTimer t" "sx t1 = s1"
    by (simp_all add: t1_def)
  from testAndEmitStabilitySignal_ok [of t1] c(1) sx_env_fields(1) [OF e1(1)] obtain t2 where
    t2: "testAndEmitStabilitySignal t1 = Inr t2" "sx t2 = s1" "sx_env t2 = sx_env t1"
      "sendTimer t2 = sendTimer t1" using e1(3) by (auto simp: cfg_ok_def)
  note en = sx_env_fields [OF t2(3) [unfolded e1(1)]]
  define t3 where "t3 = t2\<lparr>sx := s1\<lparr>outboundMsgMap := ?m1\<rparr>\<rparr>"
  have e3: "sx t3 = s1\<lparr>outboundMsgMap := ?m1\<rparr>" "cfg t3 = cfg t" "sendTimer t3 = sendTimer t"
    "sx_env t3 = sx_env t"
    using en t2 e1 by (simp_all add: t3_def)
  have st1: "store_ok ?m1" by (rule store_put [OF st v(4)])
  have iq: "?i \<notin> set ?q" using qs fresh by (simp add: ready_def)
  have "q_ok (cfg t) ?m1 ?q" by (rule q_frame(1) [OF qk iq])
  then obtain q' where
    q': "set_insert_msg ?i t3 = Inr (t3\<lparr>sx := (sx t3)\<lparr>outbndMsgSet := q'\<rparr>\<rparr>)"
      "q_ok (cfg t) ?m1 q'" "set q' = insert ?i (set ?q)"
    using set_insert_msg_ok [of t3 ?i] sch store_ok_ids [OF st1] iq by (auto simp: e3 s1)
  let ?need = "bytesNeedGrant (sx t) + ucast (om_bytesToSched om)"
  let ?t4 = "t3\<lparr>sx := (sx t3)\<lparr>outbndMsgSet := q', bytesNeedGrant := ?need, sx_msgId := ?i + 1\<rparr>\<rparr>"
  have om0: "om_bytesLeft ?om0 = app_byteLength msg" by (simp add: OutboundMessage_def)
  have put: "(if ?i \<in> set ids then ids else ids @ [?i]) = ids @ [?i]" using rxn(1) by simp
  have "processSendMsgFromApp msg t =
      rbind (testAndEmitStabilitySignal t1) (\<lambda>t.
      rbind (prepareRequestAndUnsched (now t) (prioRes t) ?om0) (\<lambda>om.
      let t = t\<lparr>sx := (sx t)\<lparr>outboundMsgMap := al_put ?i om (outboundMsgMap (sx t))\<rparr>\<rparr> in
      rbind (set_insert_msg ?i t) (\<lambda>t.
      sendOrQueue DataReady
        (t\<lparr>sx := (sx t)\<lparr>bytesNeedGrant := bytesNeedGrant (sx t) + ucast (om_bytesToSched om),
                          sx_msgId := ?i + 1\<rparr>\<rparr>))))"
    unfolding processSendMsgFromApp_def Let_def emit_fields v(1) rbind_Inr prod.case fresh
      option.case ids_def [symmetric] put s0_def [symmetric] act0 map_of_al_put
    by (simp add: act0 om0 s1_def s1(9) t1_def)
  then have run: "processSendMsgFromApp msg t = sendOrQueue DataReady ?t4"
    using t2(1,2) v(3) en q'(1) s1(1,6) by (simp add: t3_def Let_def)
  have l: "unat ?left = left_sum ?m1"
    using ovf lft sum_put_new(1) [OF fresh, of om] v(6)
    by (simp add: unat_word_ariths)
  have "unat (om_bytesToSched om) \<le> unat (app_byteLength msg)" using v(8) by (simp add: word_le_nat_alt)
  then have "need_sum ?m + unat (om_bytesToSched om) < 2 ^ 64"
    using ovf need_le_left [OF st] by linarith
  then have n: "unat ?need = need_sum ?m1"
    using need sum_put_new(2) [OF fresh, of om] by (simp add: unat_word_ariths)
  have "set q' = ready ?m1" using q'(3) qs v(5) by (simp add: ready_put)
  then have ok4: "sx_ok (cfg ?t4) (sx ?t4)"
    using ok st1 q'(2) l n rxn(2) v(2) act
    by (simp add: sx_ok_def e3 s1)
  have "sendTimer ?t4 = None \<longrightarrow> outGrantQueue (sx ?t4) = [] \<and> length (outbndMsgSet (sx ?t4)) = 1"
    using idle q'(3) q_ok_length [OF q'(2)] by (simp add: e3 s1)
  moreover have "sx_env ?t4 = sx_env t" by (simp add: e3)
  ultimately show ?thesis
    using sendOrQueue_data_ok [of ?t4] c ok4 run sx_env_fields [of ?t4 t] by simp
qed

section \<open>The sender as a transition system\<close>

text \<open>
  What can happen to a send controller whose transport has started: the NIC finishes a packet, the
  application hands over a message, a grant arrives, the receiver side sends a grant, time passes.
\<close>

datatype sx_event = SendTimerFires | AppMessage app_msg | GrantArrives homa_pkt
  | GrantToSend homa_pkt | TimePasses simtime

fun sx_enabled :: "sx_event \<Rightarrow> homa \<Rightarrow> bool" where
  "sx_enabled SendTimerFires t \<longleftrightarrow> sendTimer t = Some (now t)"
| "sx_enabled (AppMessage m) t \<longleftrightarrow> app_ok m t"
| "sx_enabled (GrantArrives p) t \<longleftrightarrow> grant_ok p t"
| "sx_enabled (GrantToSend p) t \<longleftrightarrow> pkt_type p = GRANT"
| "sx_enabled (TimePasses n) t \<longleftrightarrow>
     now t \<le> n \<and> (case sendTimer t of None \<Rightarrow> True | Some due \<Rightarrow> n \<le> due)"

fun sx_handle :: "sx_event \<Rightarrow> homa \<Rightarrow> homa res" where
  "sx_handle SendTimerFires t = handle_send_timer t"
| "sx_handle (AppMessage m) t = processSendMsgFromApp m t"
| "sx_handle (GrantArrives p) t = processReceivedGrant p t"
| "sx_handle (GrantToSend p) t = sendOrQueue (SendPkt p) t"
| "sx_handle (TimePasses n) t = Inr (t\<lparr>now := n\<rparr>)"

inductive sx_run :: "homa \<Rightarrow> homa \<Rightarrow> bool" where
  sx_start: "sx_run t t"
| sx_step: "sx_run t u \<Longrightarrow> sx_enabled e u \<Longrightarrow> sx_handle e u = Inr v \<Longrightarrow> sx_run t v"

inductive_cases sx_runE: "sx_run t u"

lemma sx_handle_ok:
  assumes "sx_inv t" and "sx_enabled e t"
  shows "\<exists>t'. sx_handle e t = Inr t' \<and> sx_inv t'"
proof (cases e)
  case SendTimerFires
  with handle_send_timer_ok [OF assms(1)] show ?thesis by auto
next
  case (AppMessage m)
  with processSendMsgFromApp_ok [OF assms(1)] assms(2) show ?thesis by auto
next
  case (GrantArrives p)
  with processReceivedGrant_ok [OF assms(1)] assms(2) show ?thesis by auto
next
  case (GrantToSend p)
  with sendOrQueue_grant_ok [OF assms(1)] assms(2) show ?thesis by auto
next
  case (TimePasses n)
  with assms show ?thesis by (simp add: sx_inv_def)
qed

lemma sx_run_inv: "sx_run t u \<Longrightarrow> sx_inv t \<Longrightarrow> sx_inv u"
proof (induction rule: sx_run.induct)
  case (sx_step t u e v)
  then have "sx_inv u" by blast
  from sx_handle_ok [OF this sx_step.hyps(2)] sx_step.hyps(3) show ?case by auto
qed

definition sx_started :: "homa_config \<Rightarrow> prio_resolver \<Rightarrow> u64 \<Rightarrow> homa" where
  "sx_started c r seed =
     (HomaTransport c r)\<lparr>sx := initSendController seed SendController,
       sendTimerKind := TIMER_SEND\<rparr>"

lemma sx_inv_started:
  assumes "cfg_ok c" and "resolver_ok r"
  shows "sx_inv (sx_started c r seed)"
  using assms alloc_ok_init [of c]
  by (simp add: sx_inv_def sx_started_def HomaTransport_def initSendController_def
    SendController_def sx_ok_def store_ok_def q_ok_def ready_def left_sum_def need_sum_def
    rx_ok_def to_dest_def)

section \<open>Draining the queues\<close>

fun drain :: "nat \<Rightarrow> homa \<Rightarrow> homa res" where
  "drain 0 t = Inr t"
| "drain (Suc n) t =
     (case sendTimer t of
        None \<Rightarrow> Inr t
      | Some due \<Rightarrow> rbind (handle_send_timer (t\<lparr>now := due\<rparr>)) (drain n))"

lemma al_sum_all_zero: "(\<And>k v. (k, v) \<in> set m \<Longrightarrow> f v = 0) \<Longrightarrow> al_sum f m = 0"
  unfolding al_sum_def by (induction m) fastforce+

lemma no_queue_no_pkts:
  assumes "sx_ok c s" and "outbndMsgSet s = []" and "outGrantQueue s = []"
  shows "queued_pkts s = {#}"
proof -
  from assms(1,2) have "ready (outboundMsgMap s) = {}" and wf: "al_wf (outboundMsgMap s)"
    by (auto simp: sx_ok_def store_ok_def)
  then have "mset (om_txPkts om) = {#}" if "(k, om) \<in> set (outboundMsgMap s)" for k om
    using that al_wf_map_of [OF wf, of k om] by (auto simp: ready_def)
  then have "al_sum (\<lambda>om. mset (om_txPkts om)) (outboundMsgMap s) = {#}"
    by (rule al_sum_all_zero)
  with assms(3) show ?thesis by (simp add: queued_pkts_def)
qed

lemma handle_send_timer_step:
  assumes "sx_inv t"
  shows "\<exists>t'. handle_send_timer t = Inr t' \<and> sx_inv t' \<and>
     (if outGrantQueue (sx t) = [] \<and> outbndMsgSet (sx t) = []
      then sent t' = sent t \<and> sendTimer t' = None
      else \<exists>p. sent t' = sent t @ [p] \<and> queued_pkts (sx t) = add_mset p (queued_pkts (sx t')))"
  using handle_send_timer_ok [OF assms]
  by (cases "outGrantQueue (sx t)"; cases "outbndMsgSet (sx t)"; fastforce)

lemma drain_all:
  assumes "sx_inv t"
  shows "\<exists>t'. drain (Suc (size (queued_pkts (sx t)))) t = Inr t' \<and> sx_inv t' \<and>
     sendTimer t' = None \<and> mset (sent t') = mset (sent t) + queued_pkts (sx t)"
  using assms
proof (induction "size (queued_pkts (sx t))" arbitrary: t)
  case 0
  show ?case
  proof (cases "sendTimer t")
    case None
    with 0 show ?thesis by simp
  next
    case (Some due)
    let ?u = "t\<lparr>now := due\<rparr>"
    have e: "queued_pkts (sx t) = {#}" using 0(1) by simp
    have "sx_inv ?u" using 0(2) by (simp add: sx_inv_def)
    from handle_send_timer_step [OF this] e obtain t' where
      "handle_send_timer ?u = Inr t'" "sx_inv t'" "sendTimer t' = None" "sent t' = sent ?u"
      by (auto split: if_splits)
    with Some e show ?thesis by (simp add: sent_def)
  qed
next
  case (Suc n)
  show ?case
  proof (cases "sendTimer t")
    case None
    with Suc.prems have "queued_pkts (sx t) = {#}"
      using no_queue_no_pkts [of "cfg t" "sx t"] by (simp add: sx_inv_def)
    with Suc.hyps(2) show ?thesis by simp
  next
    case (Some due)
    let ?u = "t\<lparr>now := due\<rparr>"
    have inv: "sx_inv ?u" using Suc.prems by (simp add: sx_inv_def)
    have "\<not> (outGrantQueue (sx t) = [] \<and> outbndMsgSet (sx t) = [])"
      using no_queue_no_pkts [of "cfg t" "sx t"] Suc.prems Suc.hyps(2) by (auto simp: sx_inv_def)
    with handle_send_timer_step [OF inv] obtain t' p where
      t': "handle_send_timer ?u = Inr t'" "sx_inv t'" "sent t' = sent ?u @ [p]"
        "queued_pkts (sx t) = add_mset p (queued_pkts (sx t'))"
      by (auto split: if_splits)
    with Suc.hyps(2) have n: "n = size (queued_pkts (sx t'))" by simp
    from Suc.hyps(1) [OF this t'(2)] obtain t'' where
      "drain (Suc n) t' = Inr t''" "sx_inv t''" "sendTimer t'' = None"
      "mset (sent t'') = mset (sent t') + queued_pkts (sx t')" using n by auto
    with Some t' n show ?thesis by (simp add: sent_def)
  qed
qed

section \<open>Properties\<close>

text \<open>
  C2: Started with a sound configuration, the sender handles every event that can happen, in any
  order and any number, without a failed assertion, a missing map entry or any other fault, and the
  counters of bytes left to send and of bytes waiting for grants are at all times the sums over the
  messages.
\<close>

theorem sender_never_faults:
  assumes "cfg_ok c" and "resolver_ok r" and "sx_run (sx_started c r seed) t" and "sx_enabled e t"
  shows "\<exists>t'. sx_handle e t = Inr t' \<and>
     unat (bytesLeftToSend (sx t')) = (\<Sum>(i, om) \<leftarrow> outboundMsgMap (sx t'). unat (om_bytesLeft om)) \<and>
     unat (bytesNeedGrant (sx t')) = (\<Sum>(i, om) \<leftarrow> outboundMsgMap (sx t'). unat (om_bytesToSched om)) \<and>
     (\<forall>(i, om) \<in> set (outboundMsgMap (sx t')). unat (om_bytesLeft om) =
        unat (om_bytesToSched om) + (\<Sum>p \<leftarrow> om_txPkts om. data_nat p)) \<and>
     (sendTimer t' = None \<longrightarrow> queued_pkts (sx t') = {#})"
proof -
  from sx_run_inv [OF assms(3) sx_inv_started [OF assms(1,2)]] have "sx_inv t" .
  from sx_handle_ok [OF this assms(4)] obtain t' where t': "sx_handle e t = Inr t'" "sx_inv t'"
    by blast
  then have ok: "sx_ok (cfg t') (sx t')" by (simp add: sx_inv_def)
  have "unat (om_bytesLeft om) = unat (om_bytesToSched om) + (\<Sum>p \<leftarrow> om_txPkts om. data_nat p)"
    if "(i, om) \<in> set (outboundMsgMap (sx t'))" for i om
    using ok that al_wf_map_of [of "outboundMsgMap (sx t')" i om]
    by (auto simp: sx_ok_def store_ok_def msg_ok_def om_ok_def queued_nat_def)
  moreover have "queued_pkts (sx t') = {#}" if "sendTimer t' = None"
    using t'(2) that no_queue_no_pkts [OF ok] by (simp add: sx_inv_def)
  moreover have "unat (bytesLeftToSend (sx t')) = left_sum (outboundMsgMap (sx t'))"
    "unat (bytesNeedGrant (sx t')) = need_sum (outboundMsgMap (sx t'))"
    using ok by (simp_all add: sx_ok_def)
  ultimately show ?thesis using t'(1) unfolding al_sum_case left_sum_def need_sum_def by auto
qed

definition sample_config :: homa_config where
  "sample_config = ini_params\<lparr>sxScheme := SRBF, cfg_rtt := 8000000\<rparr>"

definition sample_resolver :: prio_resolver where
  "sample_resolver = \<lparr>prioCutOffs = [0xFFFFFFFF], prioResMode = STATIC_CBF_GRADUATED\<rparr>"

definition sample_msg :: app_msg where
  "sample_msg = \<lparr>app_destAddr = 2, app_srcAddr = 1, app_isEcho = False, app_byteLength = 20000,
     app_msgCreationTime = 0, app_transportSchedDelay = 0, app_msgBytesOnWire = 0\<rparr>"

lemma sample_config_ok: "cfg_ok sample_config" "resolver_ok sample_resolver"
  by (simp_all add: cfg_ok_def sample_config_def ini_params_def resolver_ok_def cutoffs_ok_def
    sample_resolver_def)

lemma sender_never_faults_witness:
  "\<exists>t'. sx_handle (AppMessage sample_msg) (sx_started sample_config sample_resolver 7) = Inr t' \<and>
     unat (bytesLeftToSend (sx t')) = (\<Sum>(i, om) \<leftarrow> outboundMsgMap (sx t'). unat (om_bytesLeft om))"
proof -
  have "sx_enabled (AppMessage sample_msg) (sx_started sample_config sample_resolver 7)"
    by (simp add: app_ok_def sx_started_def HomaTransport_def initSendController_def
      SendController_def sample_msg_def)
  from sender_never_faults [OF sample_config_ok sx_start this] show ?thesis by blast
qed

text \<open>
  C3: When the NIC becomes idle, no grant waits and the scheme is SRBF, the packet that goes out is
  the first packet of a message with the fewest bytes left among all messages that have a packet
  ready, and within that message it is a packet with the lowest first byte.
\<close>

theorem send_timer_shortest_remaining_first:
  assumes "sx_inv t" and "sxScheme (cfg t) = SRBF" and "outGrantQueue (sx t) = []"
    and "outbndMsgSet (sx t) \<noteq> []"
  shows "\<exists>t' i om p. handle_send_timer t = Inr t' \<and> sent t' = sent t @ [p] \<and>
     map_of (outboundMsgMap (sx t)) i = Some om \<and> p \<in> set (om_txPkts om) \<and>
     (\<forall>j om'. map_of (outboundMsgMap (sx t)) j = Some om' \<longrightarrow> om_txPkts om' \<noteq> [] \<longrightarrow>
        om_bytesLeft om \<le> om_bytesLeft om') \<and>
     (\<forall>q \<in> set (om_txPkts om). getFirstByte p \<le> getFirstByte q)"
proof -
  let ?m = "outboundMsgMap (sx t)"
  from assms(4) obtain i q where q: "outbndMsgSet (sx t) = i # q" by (cases "outbndMsgSet (sx t)") auto
  from handle_send_timer_ok [OF assms(1)] assms(3) q obtain t' om p ps where
    t': "handle_send_timer t = Inr t'" "map_of ?m i = Some om" "om_txPkts om = p # ps"
      "sent t' = sent t @ [p]" by auto
  from assms(1) have qk: "q_ok (cfg t) ?m (i # q)" and rd: "set (i # q) = ready ?m"
    and st: "store_ok ?m" by (simp_all add: sx_inv_def sx_ok_def q)
  have "om_bytesLeft om \<le> om_bytesLeft om'"
    if j: "map_of ?m j = Some om'" "om_txPkts om' \<noteq> []" for j om'
  proof -
    have "j \<in> set (i # q)" using rd j by (auto simp: ready_def)
    with qk have "j = i \<or> mkey (cfg t) ?m i < mkey (cfg t) ?m j" by (auto simp: q_ok_def)
    then show ?thesis
      using j t'(2) assms(2)
      by (auto simp: mkey_def sort_key_def less_prod_simp word_le_nat_alt)
  qed
  moreover have "om_ok om" using st t'(2) by (auto simp: store_ok_def msg_ok_def)
  then have "\<forall>x \<in> set ps. \<not> OutbndPktSorter p x" using t'(3) by (simp add: om_ok_def)
  then have "\<forall>x \<in> set (om_txPkts om). getFirstByte p \<le> getFirstByte x"
    using t'(3) by (auto simp: OutbndPktSorter_def not_less)
  moreover have "p \<in> set (om_txPkts om)" using t'(3) by simp
  ultimately show ?thesis using t'(1,2,4) by blast
qed

definition sample_outbound :: outbound_msg where
  "sample_outbound = new_outbound\<lparr>om_msgId := 5, om_msgSize := 10, om_bytesLeft := 10,
     om_destAddr := 2, om_txPkts := [(new_pkt 0 REQUEST)\<lparr>pkt_msgId := 5, pkt_destAddr := 2,
       pkt_unsched := empty_unsched\<lparr>uf_lastByte := 9\<rparr>\<rparr>]\<rparr>"

definition sample_sending :: homa where
  "sample_sending = (sx_started sample_config sample_resolver 6)\<lparr>sendTimer := Some 0,
     sx := SendController\<lparr>outboundMsgMap := [(5, sample_outbound)], outbndMsgSet := [5],
       bytesLeftToSend := 10, rxAddrMsgMap := [(2, [5])]\<rparr>\<rparr>"

lemma sample_sending_inv: "sx_inv sample_sending"
proof -
  have om: "msg_ok 5 sample_outbound"
    by (simp add: msg_ok_def om_ok_def sample_outbound_def new_outbound_def new_pkt_def
      out_pkt_ok_def data_nat_def getDataBytes_def empty_unsched_def)
  have f: "om_bytesLeft sample_outbound = 10" "om_bytesToSched sample_outbound = 0"
    "om_destAddr sample_outbound = 2" "om_txPkts sample_outbound \<noteq> []"
    by (simp_all add: sample_outbound_def new_outbound_def)
  have "rx_ok [(5, sample_outbound)] [(2, [5])]"
    using f by (auto simp: rx_ok_def to_dest_def)
  then show ?thesis
    using sample_config_ok om f alloc_ok_init [of sample_config]
    by (auto simp: sx_inv_def sample_sending_def sx_started_def HomaTransport_def
      SendController_def sx_ok_def store_ok_def al_wf_def q_ok_def ready_def left_sum_def
      need_sum_def al_sum_def)
qed

lemma send_timer_shortest_remaining_first_witness:
  "\<exists>t' i om p. handle_send_timer sample_sending = Inr t' \<and> sent t' = sent sample_sending @ [p] \<and>
     map_of (outboundMsgMap (sx sample_sending)) i = Some om \<and> p \<in> set (om_txPkts om)"
proof -
  have "sxScheme (cfg sample_sending) = SRBF" "outGrantQueue (sx sample_sending) = []"
    "outbndMsgSet (sx sample_sending) \<noteq> []"
    by (simp_all add: sample_sending_def sx_started_def HomaTransport_def SendController_def
      sample_config_def)
  from send_timer_shortest_remaining_first [OF sample_sending_inv this] show ?thesis by blast
qed

text \<open>
  C4: If nothing new arrives, the send timer, fired once for every packet that waits and once
  more, sends them all, each exactly once, and then stops.
\<close>

theorem send_timer_drains:
  assumes "sx_inv t"
  shows "\<exists>t'. drain (Suc (size (queued_pkts (sx t)))) t = Inr t' \<and> sendTimer t' = None \<and>
     mset (sent t') = mset (sent t) + queued_pkts (sx t) \<and> queued_pkts (sx t') = {#}"
proof -
  from drain_all [OF assms] obtain t' where
    t': "drain (Suc (size (queued_pkts (sx t)))) t = Inr t'" "sx_inv t'" "sendTimer t' = None"
      "mset (sent t') = mset (sent t) + queued_pkts (sx t)" by blast
  then have "queued_pkts (sx t') = {#}"
    using no_queue_no_pkts [of "cfg t'" "sx t'"] by (simp add: sx_inv_def)
  with t' show ?thesis by blast
qed

lemma send_timer_drains_witness:
  "\<exists>t'. drain (Suc (size (queued_pkts (sx sample_sending)))) sample_sending = Inr t' \<and>
     sendTimer t' = None \<and> queued_pkts (sx t') = {#}"
  using send_timer_drains [OF sample_sending_inv] by blast

end
