(* ===== verification/ReceiveScheduler.thy ===== *)
theory ReceiveScheduler
  imports SchedSenders SendController
begin

text \<open>
  \<open>HomaTransport::ReceiveScheduler\<close> and its \<open>SenderState\<close>: what happens when a data packet
  arrives, when the grant timer of a sender fires and when the timer that watches the link fires.
  The handlers work on the whole transport, since they send grants through the send controller,
  hand messages to the application and emit signals.
\<close>

section \<open>Counters\<close>

definition vec_add :: "nat \<Rightarrow> 'a::plus \<Rightarrow> 'a list \<Rightarrow> 'a list res" where
  "vec_add i x xs = (if i < length xs then Inr (xs[i := xs ! i + x]) else Inl OutOfRange)"

definition addArrivedBytes :: "pkt_type \<Rightarrow> u16 \<Rightarrow> u32 \<Rightarrow> recv_sched \<Rightarrow> recv_sched res" where
  "addArrivedBytes pktType prio dataBytesInPkt r =
     (let arrivedBytesOnWire = getBytesOnWire dataBytesInPkt pktType;
          r = r\<lparr>allBytesRecvd := allBytesRecvd r + ucast arrivedBytesOnWire\<rparr>
      in rbind (vec_add (unat prio) (ucast arrivedBytesOnWire) (bytesRecvdPerPrio r)) (\<lambda>v.
         Inr (r\<lparr>bytesRecvdPerPrio := v\<rparr>)))"

definition addPendingGrantedBytes :: "u16 \<Rightarrow> u32 \<Rightarrow> recv_sched \<Rightarrow> recv_sched res" where
  "addPendingGrantedBytes prio grantedBytes r =
     (let schedBytesOnWire = getBytesOnWire grantedBytes SCHED_DATA
      in rbind (vec_add (unat prio) (ucast schedBytesOnWire) (scheduledBytesPerPrio r)) (\<lambda>v.
         rbind (vec_add (unat prio) schedBytesOnWire (inflightSchedPerPrio r)) (\<lambda>w.
         Inr (r\<lparr>scheduledBytesPerPrio := v,
                inflightSchedBytes := inflightSchedBytes r + ucast schedBytesOnWire,
                inflightSchedPerPrio := w\<rparr>))))"

definition addPendingUnschedBytes ::
    "pkt_type \<Rightarrow> u16 \<Rightarrow> u32 \<Rightarrow> recv_sched \<Rightarrow> recv_sched res" where
  "addPendingUnschedBytes pktType prio bytesToArrive r =
     (let unschedBytesOnWire = getBytesOnWire bytesToArrive pktType
      in rbind (vec_add (unat prio) (ucast unschedBytesOnWire) (unschedToRecvPerPrio r)) (\<lambda>v.
         rbind (vec_add (unat prio) unschedBytesOnWire (inflightUnschedPerPrio r)) (\<lambda>w.
         Inr (r\<lparr>unschedToRecvPerPrio := v,
                inflightUnschedBytes := inflightUnschedBytes r + ucast unschedBytesOnWire,
                inflightUnschedPerPrio := w\<rparr>))))"

definition pendingBytesArrived :: "pkt_type \<Rightarrow> u16 \<Rightarrow> u32 \<Rightarrow> recv_sched \<Rightarrow> recv_sched res" where
  "pendingBytesArrived pktType prio dataBytesInPkt r =
     (let arrivedBytesOnWire = getBytesOnWire dataBytesInPkt pktType
      in if pktType = REQUEST \<or> pktType = UNSCHED_DATA then
           rbind (vec_add (unat prio) (- arrivedBytesOnWire) (inflightUnschedPerPrio r)) (\<lambda>w.
           Inr (r\<lparr>inflightUnschedBytes := inflightUnschedBytes r - ucast arrivedBytesOnWire,
                  inflightUnschedPerPrio := w\<rparr>))
         else if pktType = SCHED_DATA then
           rbind (vec_add (unat prio) (- arrivedBytesOnWire) (inflightSchedPerPrio r)) (\<lambda>w.
           Inr (r\<lparr>inflightSchedBytes := inflightSchedBytes r - ucast arrivedBytesOnWire,
                  inflightSchedPerPrio := w\<rparr>))
         else Inl RuntimeError)"

definition getInflightBytes :: "recv_sched \<Rightarrow> u64" where
  "getInflightBytes r = inflightUnschedBytes r + inflightSchedBytes r"

definition tryRecordActiveMesgStats :: "simtime \<Rightarrow> homa \<Rightarrow> homa res" where
  "tryRecordActiveMesgStats timeNow t =
     rbind (numActiveSenders (schedSenders (rx t))) (\<lambda>newActiveSx.
     if newActiveSx \<noteq> numActiveScheds (rx t) then
       let t = emit ActiveScheds [int (numActiveScheds (rx t)), timeNow - schedChangeTime (rx t)] t
       in Inr (t\<lparr>rx := (rx t)\<lparr>numActiveScheds := newActiveSx, schedChangeTime := timeNow\<rparr>\<rparr>)
     else Inr t)"

section \<open>The state of a sender\<close>

definition SenderState :: "homa_config \<Rightarrow> u32 \<Rightarrow> sender_state" where
  "SenderState c srcAddr =
     \<lparr>ss_senderAddr = srcAddr, ss_grantTimer = None, ss_mesgsToGrant = [], ss_incompleteMesgs = [],
      ss_lastGrantPrio = ucast (allPrio c), ss_lastIdx = unat (adaptiveSchedPrioLevels c)\<rparr>"

definition getNextGrantTime :: "homa_config \<Rightarrow> simtime \<Rightarrow> u32 \<Rightarrow> simtime" where
  "getNextGrantTime c currentTime grantSize =
     (let grantedPktSizeOnWire = getBytesOnWire grantSize SCHED_DATA
      in tx_time (nicLinkSpeed c) (unat grantedPktSizeOnWire) + currentTime)"

text \<open>The set of messages to grant holds pointers: its functor follows them into the map.\<close>

definition mesg_before :: "(u64 \<times> inbound_msg) list \<Rightarrow> u64 \<Rightarrow> u64 \<Rightarrow> bool" where
  "mesg_before m i j =
     (case (map_of m i, map_of m j) of
        (Some a, Some b) \<Rightarrow> CompareBytesToGrant a b
      | _ \<Rightarrow> False)"

definition lookupInboundMesg :: "homa_pkt \<Rightarrow> recv_sched \<Rightarrow> inbound_msg option" where
  "lookupInboundMesg rxPkt r =
     (case map_of (ipSendersMap r) (pkt_srcAddr rxPkt) of
        None \<Rightarrow> None
      | Some s \<Rightarrow> map_of (ss_incompleteMesgs s) (pkt_msgId rxPkt))"

text \<open>The loop over the pairs of a priority and the bytes announced for it.\<close>

fun add_pending_unsched :: "pkt_type \<Rightarrow> u32 list \<Rightarrow> recv_sched \<Rightarrow> recv_sched res" where
  "add_pending_unsched pktType [] r = Inr r"
| "add_pending_unsched pktType [prio] r = Inl OutOfRange"
| "add_pending_unsched pktType (prio # unschedBytesInPrio # rest) r =
     rbind (addPendingUnschedBytes pktType (ucast prio) unschedBytesInPrio r)
       (add_pending_unsched pktType rest)"

definition set_sender :: "u32 \<Rightarrow> sender_state \<Rightarrow> homa \<Rightarrow> homa" where
  "set_sender s st t = t\<lparr>rx := (rx t)\<lparr>ipSendersMap := al_put s st (ipSendersMap (rx t))\<rparr>\<rparr>"

text \<open>
  The first half of \<open>handleInboundPkt\<close>: the message of the packet, made if it is new, taken out
  of the set of messages to grant if it is there, and the statistics.
\<close>

definition find_mesg ::
    "homa_pkt \<Rightarrow> u32 \<Rightarrow> sender_state \<Rightarrow> homa \<Rightarrow> (inbound_msg \<times> sender_state \<times> homa) res" where
  "find_mesg rxPkt pktData st t =
     (let pktType = pkt_type rxPkt; mid = pkt_msgId rxPkt
      in case map_of (ss_incompleteMesgs st) mid of
           None \<Rightarrow>
             rbind (assertion (pktType = REQUEST \<or> pktType = UNSCHED_DATA)) (\<lambda>_.
             rbind (InboundMessage (cfg t) (now t) rxPkt) (\<lambda>im.
             rbind (add_pending_unsched pktType (uf_prioUnschedBytes (pkt_unsched rxPkt)) (rx t)) (\<lambda>r.
             Inr (updatePerPrioStats r im, st,
                  emit TotalOutstandingBytes [uint (getInflightBytes r)] (t\<lparr>rx := r\<rparr>)))))
         | Some im \<Rightarrow>
             rbind (if im_bytesToGrant im > 0 then
                      case sset_erase (mesg_before (ss_incompleteMesgs st)) mid (ss_mesgsToGrant st) of
                        (numRemoved, q) \<Rightarrow>
                          rbind (assertion (numRemoved = 1)) (\<lambda>_. Inr (st\<lparr>ss_mesgsToGrant := q\<rparr>))
                    else Inr st) (\<lambda>st.
             rbind (pendingBytesArrived pktType (ucast (pkt_priority rxPkt)) pktData (rx t)) (\<lambda>r.
             Inr (im, st,
                  emit TotalOutstandingBytes [uint (getInflightBytes r)] (t\<lparr>rx := r\<rparr>)))))"

text \<open>The bytes of the packet are filled in.\<close>

definition fill_pkt ::
    "simtime \<Rightarrow> homa_pkt \<Rightarrow> inbound_msg \<Rightarrow> track_rtts \<Rightarrow> u32 \<Rightarrow> (inbound_msg \<times> track_rtts \<times> u32) res" where
  "fill_pkt cur rxPkt im tr outst =
     (if pkt_type rxPkt = REQUEST \<or> pkt_type rxPkt = UNSCHED_DATA then
        fillinRxBytes cur (uf_firstByte (pkt_unsched rxPkt)) (uf_lastByte (pkt_unsched rxPkt))
          (pkt_type rxPkt) im tr outst
      else if pkt_type rxPkt = SCHED_DATA then
        fillinRxBytes cur (sf_firstByte (pkt_sched rxPkt)) (sf_lastByte (pkt_sched rxPkt))
          (pkt_type rxPkt) im tr outst
      else Inl RuntimeError)"

text \<open>The last part: the message is complete, fully granted, or goes back into the set.\<close>

definition settle_mesg ::
    "homa_pkt \<Rightarrow> inbound_msg \<Rightarrow> sender_state \<Rightarrow> homa \<Rightarrow> ((bool \<times> int) \<times> sender_state \<times> homa) res" where
  "settle_mesg rxPkt im st t =
     (let mid = pkt_msgId rxPkt;
          isMesgSched = im_msgSize im - ucast (im_totalUnschedBytes im) > 0
      in rbind (assertion (isMesgSched \<or> im_msgSize im = ucast (im_totalUnschedBytes im))) (\<lambda>_.
         if im_bytesToReceive im = 0 then
           rbind (assertion (im_bytesToGrant im = 0)) (\<lambda>_.
           rbind (assertion (im_inflightGrants im = [])) (\<lambda>_.
           rbind (prepareRxMsgForApp (cfg t) im) (\<lambda>rxMsg.
           Inr ((isMesgSched, -1),
                st\<lparr>ss_incompleteMesgs := al_del (im_msgIdAtSender im) (ss_incompleteMesgs st)\<rparr>,
                t\<lparr>outs := outs t @ [SendApp rxMsg]\<rparr>))))
         else
           let st = st\<lparr>ss_incompleteMesgs := al_put mid im (ss_incompleteMesgs st)\<rparr>
           in if im_bytesToGrant im = 0 then
                Inr ((isMesgSched, if isMesgSched then 0 else sint (im_bytesToReceive im)), st, t)
              else
                case sset_insert (mesg_before (ss_incompleteMesgs st)) mid (ss_mesgsToGrant st) of
                  (inserted, q) \<Rightarrow>
                    rbind (assertion inserted) (\<lambda>_.
                    Inr ((isMesgSched, if q \<noteq> [] \<and> hd q = mid then 1 else 2),
                         st\<lparr>ss_mesgsToGrant := q\<rparr>, t))))"

definition handleInboundPkt :: "u32 \<Rightarrow> homa_pkt \<Rightarrow> homa \<Rightarrow> ((bool \<times> int) \<times> homa) res" where
  "handleInboundPkt s rxPkt t =
     rbind (of_option NullPointer (map_of (ipSendersMap (rx t)) s)) (\<lambda>st.
     rbind (getDataBytes rxPkt) (\<lambda>pktData.
     rbind (addArrivedBytes (pkt_type rxPkt) (ucast (pkt_priority rxPkt)) pktData (rx t)) (\<lambda>r.
     rbind (find_mesg rxPkt pktData st (t\<lparr>rx := r\<rparr>)) (\<lambda>(im, st, t).
     rbind (assertion (pkt_msgId rxPkt = im_msgIdAtSender im \<and>
              pkt_srcAddr rxPkt = ss_senderAddr st)) (\<lambda>_.
     rbind (fill_pkt (now t) rxPkt im (trackRTTs t) (outstandingGrantBytes t)) (\<lambda>(im, tr, outst).
     rbind (settle_mesg rxPkt im st (t\<lparr>trackRTTs := tr, outstandingGrantBytes := outst\<rparr>))
       (\<lambda>(ret, st, t).
     Inr (ret, set_sender s st t))))))))"

text \<open>
  \<open>sendAndScheduleGrant\<close>.  \<open>rearm\<close> is the end of the branch that leaves a message to grant: the
  timer is set when that message has room for more bytes in flight.
\<close>

definition rearm :: "u32 \<Rightarrow> u16 \<Rightarrow> inbound_msg \<Rightarrow> homa \<Rightarrow> (int \<times> homa) res" where
  "rearm s grantSize im t =
     rbind (of_option NullPointer (map_of (ipSendersMap (rx t)) s)) (\<lambda>st.
     if im_totalBytesInFlight im < maxOutstandingRecvBytes (cfg t) then
       rbind (scheduleAt (now t) (getNextGrantTime (cfg t) (now t) (ucast grantSize))
                (ss_grantTimer st)) (\<lambda>timer.
       Inr (sint (im_bytesToGrant im), set_sender s (st\<lparr>ss_grantTimer := timer\<rparr>) t))
     else Inr (sint (im_bytesToGrant im), t))"

definition send_grant ::
    "u32 \<Rightarrow> u32 \<Rightarrow> sender_state \<Rightarrow> u64 \<Rightarrow> inbound_msg \<Rightarrow> homa \<Rightarrow> (int \<times> homa) res" where
  "send_grant s grantPrio st mid topMesg t =
     (let grantSize = (ucast (min (im_bytesToGrant topMesg) (grantMaxBytes (cfg t))) :: u16)
      in rbind (prepareGrant (now t) grantSize (ucast grantPrio) topMesg (outstandingGrantBytes t))
           (\<lambda>(grantPkt, im, outst).
         let grantSize = gf_grantBytes (pkt_grant grantPkt);
             prio = gf_schedPrio (pkt_grant grantPkt)
         in rbind (addPendingGrantedBytes prio (ucast grantSize) (rx t)) (\<lambda>r.
            let im = updatePerPrioStats r im;
                st = st\<lparr>ss_lastGrantPrio := grantPrio,
                       ss_incompleteMesgs := al_put mid im (ss_incompleteMesgs st)\<rparr>
            in rbind (sendOrQueue (SendPkt grantPkt)
                        (set_sender s st (t\<lparr>rx := r, outstandingGrantBytes := outst\<rparr>))) (\<lambda>t.
               let t = emit OutstandingGrantBytes [uint (outstandingGrantBytes t)] t
               in if im_bytesToGrant im > 0 then rearm s grantSize im t
                  else
                    let q = tl (ss_mesgsToGrant st);
                        t = set_sender s (st\<lparr>ss_mesgsToGrant := q\<rparr>) t
                    in case q of
                         [] \<Rightarrow> Inr (-1, t)
                       | j # _ \<Rightarrow>
                           rbind (of_option NullPointer (map_of (ss_incompleteMesgs st) j)) (\<lambda>newTop.
                           rbind (assertion (im_bytesToGrant newTop > 0)) (\<lambda>_.
                           rearm s grantSize newTop t))))))"

definition sendAndScheduleGrant :: "u32 \<Rightarrow> u32 \<Rightarrow> homa \<Rightarrow> (int \<times> homa) res" where
  "sendAndScheduleGrant s grantPrio t =
     rbind (of_option NullPointer (map_of (ipSendersMap (rx t)) s)) (\<lambda>st.
     case ss_mesgsToGrant st of
       [] \<Rightarrow> Inl AssertFailed
     | mid # _ \<Rightarrow>
         rbind (of_option NullPointer (map_of (ss_incompleteMesgs st) mid)) (\<lambda>topMesg.
         rbind (assertion (im_bytesToGrant topMesg > 0)) (\<lambda>_.
         rbind (getSchedPktPrio (cfg t) (prioRes t) topMesg) (\<lambda>resolverPrio.
         let grantPrio = min grantPrio (ucast resolverPrio)
         in if ss_grantTimer st \<noteq> None \<and> ss_lastGrantPrio st \<le> grantPrio then Inr (0, t)
            else
              let st = st\<lparr>ss_grantTimer := None\<rparr>;
                  t = set_sender s st t
              in if im_totalBytesInFlight topMesg \<ge> maxOutstandingRecvBytes (cfg t) then Inr (0, t)
                 else send_grant s grantPrio st mid topMesg t))))"

section \<open>Reacting to arrivals and grants\<close>

text \<open>The list operations on the state of the transport.\<close>

definition rx_remove :: "u32 \<Rightarrow> homa \<Rightarrow> (int \<times> homa) res" where
  "rx_remove s t =
     rbind (sched_remove s (ipSendersMap (rx t)) (schedSenders (rx t))) (\<lambda>(i, m, l).
     Inr (i, t\<lparr>rx := (rx t)\<lparr>ipSendersMap := m, schedSenders := l\<rparr>\<rparr>))"

definition rx_removeAt :: "int \<Rightarrow> homa \<Rightarrow> (u32 option \<times> homa) res" where
  "rx_removeAt i t =
     rbind (sched_removeAt i (ipSendersMap (rx t)) (schedSenders (rx t))) (\<lambda>(s, m, l).
     Inr (s, t\<lparr>rx := (rx t)\<lparr>ipSendersMap := m, schedSenders := l\<rparr>\<rparr>))"

definition rx_insPoint :: "u32 \<Rightarrow> homa \<Rightarrow> (int \<times> int \<times> int) res" where
  "rx_insPoint s t = insPoint s (ipSendersMap (rx t)) (schedSenders (rx t))"

definition rx_insert :: "u32 option \<Rightarrow> homa \<Rightarrow> homa res" where
  "rx_insert s t =
     rbind (of_option NullPointer s) (\<lambda>s.
     rbind (sched_insert s (ipSendersMap (rx t)) (schedSenders (rx t))) (\<lambda>l.
     Inr (t\<lparr>rx := (rx t)\<lparr>schedSenders := l\<rparr>\<rparr>)))"

text \<open>
  The lines that grant to a sender taken out of the list and find its new place; \<open>old\<close> is the
  state before the grant and the result the state after it.
\<close>

definition grant_to :: "sched_state \<Rightarrow> homa \<Rightarrow> (sched_state \<times> homa) res" where
  "grant_to old t =
     rbind (of_option NullPointer (st_s old)) (\<lambda>s.
     rbind (sendAndScheduleGrant s (ucast (getPrioForMesg (cfg t) old)) t) (\<lambda>(_, t).
     rbind (rx_insPoint s t) (\<lambda>(sInd, head, n).
     Inr (setVar (numToGrant (schedSenders (rx t))) head n (Some s) sInd, t))))"

text \<open>
  The recursion goes on only after a message has been granted in full, so the number of messages
  to grant bounds it; \<open>fuel\<close> is that bound.
\<close>

fun handleGrantSentEvent :: "nat \<Rightarrow> sched_state \<Rightarrow> sched_state \<Rightarrow> homa \<Rightarrow> homa res" where
  "handleGrantSentEvent 0 old cur t = Inl OutOfFuel"
| "handleGrantSentEvent (Suc fuel) old cur t =
     rbind (assertion (st_sInd old \<ge> st_headIdx old \<and>
              st_sInd old < st_headIdx old + st_numToGrant old)) (\<lambda>_.
     if st_sInd old = st_sInd cur then
       rbind (assertion (st_sInd cur < st_headIdx cur + st_numToGrant cur)) (\<lambda>_.
       rx_insert (st_s cur) t)
     else if st_sInd cur \<ge> 0 \<and> st_sInd cur < st_headIdx cur then Inl RuntimeError
     else
       rbind (if st_sInd cur \<ge> 0 then rx_insert (st_s cur) t else Inr t) (\<lambda>t.
       if (st_sInd cur < 0 \<or> st_sInd cur \<ge> st_numToGrant cur + st_headIdx cur) \<and>
          st_numSenders cur \<ge> st_numToGrant cur
       then
         let indToGrant = st_headIdx cur + st_numToGrant cur - 1
         in rbind (rx_removeAt indToGrant t) (\<lambda>(sToGrant, t).
            let old = cur\<lparr>st_s := sToGrant, st_sInd := indToGrant\<rparr>
            in rbind (grant_to old t) (\<lambda>(cur, t).
               handleGrantSentEvent fuel old cur t))
       else Inr t))"

definition grant_fuel :: "homa \<Rightarrow> nat" where
  "grant_fuel t = Suc (al_sum (\<lambda>st. length (ss_mesgsToGrant st)) (ipSendersMap (rx t)))"

definition handlePktArrivalEvent :: "sched_state \<Rightarrow> sched_state \<Rightarrow> homa \<Rightarrow> homa res" where
  "handlePktArrivalEvent old cur t =
     (if st_sInd cur < 0 then
        if st_sInd old < 0 \<or> st_sInd old \<ge> st_numToGrant old + st_headIdx old then Inr t
        else if st_sInd old \<ge> st_headIdx old \<and> st_sInd old < st_numToGrant old + st_headIdx old then
          let indToGrant = (if st_numSenders cur < st_numToGrant cur
                then st_headIdx cur + st_numSenders cur - 1
                else st_headIdx cur + st_numToGrant cur - 1)
          in rbind (rx_removeAt indToGrant t) (\<lambda>(sToGrant, t).
             let old = cur\<lparr>st_s := sToGrant, st_sInd := indToGrant\<rparr>
             in rbind (grant_to old t) (\<lambda>(cur, t').
                handleGrantSentEvent (grant_fuel t) old cur t'))
        else Inl RuntimeError
      else if st_sInd cur \<ge> st_headIdx cur + st_numToGrant cur then
        if st_sInd old < 0 \<or> st_sInd old \<ge> st_headIdx old + st_numToGrant old then
          rx_insert (st_s cur) t
        else if st_sInd old \<ge> st_headIdx old \<and> st_sInd old < st_numToGrant old + st_headIdx old then
          rbind (rx_insert (st_s cur) t) (\<lambda>t.
          let indToGrant = st_headIdx cur + st_numToGrant cur - 1
          in rbind (rx_removeAt indToGrant t) (\<lambda>(sToGrant, t).
             let old = cur\<lparr>st_s := sToGrant, st_sInd := indToGrant\<rparr>
             in rbind (grant_to old t) (\<lambda>(cur, t').
                handleGrantSentEvent (grant_fuel t) old cur t')))
        else Inl RuntimeError
      else
        let old = cur
        in rbind (grant_to old t) (\<lambda>(c, t').
           handleGrantSentEvent (grant_fuel t) old (c\<lparr>st_numToGrant := st_numToGrant cur\<rparr>) t'))"

definition handleGrantTimerEvent :: "u32 \<Rightarrow> homa \<Rightarrow> homa res" where
  "handleGrantTimerEvent s t =
     rbind (rx_remove s t) (\<lambda>(_, t).
     rbind (rx_insPoint s t) (\<lambda>(sInd, headInd, sendersNum).
     if sInd < 0 then Inr t
     else if sInd - headInd \<ge> int (numToGrant (schedSenders (rx t))) then rx_insert (Some s) t
     else
       let old = setVar (numToGrant (schedSenders (rx t))) headInd sendersNum (Some s) sInd
       in rbind (grant_to old t) (\<lambda>(cur, t').
          handleGrantSentEvent (grant_fuel t) old cur t')))"

text \<open>
  The timer that watches the link; it has fired, so it is not scheduled any more.  The index of
  the sender to promote is in the range, since there are more senders than are granted.
\<close>

definition handleBwUtilTimerEvent :: "homa \<Rightarrow> homa res" where
  "handleBwUtilTimerEvent t =
     (if bwCheckInterval (rx t) = None then Inl RuntimeError
      else
        let timeNow = now t; l = schedSenders (rx t)
        in if numSenders l \<le> numToGrant l then Inr t
           else
             let l = l\<lparr>numToGrant := numToGrant l + 1\<rparr>
             in rbind (if headIdx l \<noteq> 0 then
                         rbind (assertion (list_all (\<lambda>x. x = None) (take (headIdx l) (senders l)))) (\<lambda>_.
                         Inr (l\<lparr>headIdx := headIdx l - 1, senders := tl (senders l)\<rparr>))
                       else Inr l) (\<lambda>l.
                let t = t\<lparr>rx := (rx t)\<lparr>schedSenders := l\<rparr>\<rparr>;
                    indToGrant = headIdx l + numToGrant l - 1
                in if indToGrant \<ge> length (senders l) then Inl OutOfRange
                   else
                     let lowPrioSx = senders l ! indToGrant;
                         old = setVar (numToGrant l) (int (headIdx l)) (int (numSenders l)) lowPrioSx
                           (int indToGrant)
                     in rbind (rx_removeAt (int indToGrant) t) (\<lambda>(sxToGrant, t).
                        rbind (assertion (sxToGrant = lowPrioSx)) (\<lambda>_.
                        rbind (of_option NullPointer lowPrioSx) (\<lambda>s.
                        rbind (of_option NullPointer (map_of (ipSendersMap (rx t)) s)) (\<lambda>st.
                        rbind (assertion (ss_mesgsToGrant st \<noteq> [])) (\<lambda>_.
                        rbind (of_option NullPointer (top_mesg st)) (\<lambda>topMesg.
                        rbind (assertion (im_bytesToGrant topMesg > 0)) (\<lambda>_.
                        rbind (sendAndScheduleGrant s (ucast (getPrioForMesg (cfg t) old)) t) (\<lambda>(_, t').
                        rbind (grant_to old t') (\<lambda>(cur, t').
                        rbind (handleGrantSentEvent (grant_fuel t) old cur t') (\<lambda>t.
                        rbind (scheduleAt timeNow (timeNow + cfg_rtt (cfg t))
                                 (schedBwUtilTimer (rx t))) (\<lambda>timer.
                        tryRecordActiveMesgStats timeNow
                          (t\<lparr>rx := (rx t)\<lparr>schedBwUtilTimer := timer\<rparr>\<rparr>))))))))))))))"

section \<open>The entry points\<close>

definition processGrantTimers :: "u32 \<Rightarrow> homa \<Rightarrow> homa res" where
  "processGrantTimers s t =
     rbind (handleGrantTimerEvent s t) (\<lambda>t.
     let timeNow = now t;
         r = rx t;
         t = (if inOversubPeriod r \<and> numSenders (schedSenders r) \<le> numToGrant (schedSenders r)
              then t\<lparr>rx := r\<lparr>inOversubPeriod := False, oversubPeriodStop := Some timeNow\<rparr>\<rparr>
              else t)
     in tryRecordActiveMesgStats timeNow t)"

text \<open>The latest of the earliest grants under way of the senders that wait.\<close>

fun max_earliest_grant :: "sender_map \<Rightarrow> simtime \<Rightarrow> u32 option list \<Rightarrow> simtime \<Rightarrow> simtime res" where
  "max_earliest_grant m cur [] acc = Inr acc"
| "max_earliest_grant m cur (None # ss) acc = max_earliest_grant m cur ss acc"
| "max_earliest_grant m cur (Some s # ss) acc =
     rbind (of_option NullPointer (map_of m s)) (\<lambda>st.
     if ss_mesgsToGrant st = [] then max_earliest_grant m cur ss acc
     else rbind (of_option NullPointer (top_mesg st)) (\<lambda>im.
          case im_inflightGrants im of
            [] \<Rightarrow> Inr cur
          | (off, n, tm) # gs \<Rightarrow> max_earliest_grant m cur ss (max acc tm)))"

text \<open>
  The high and the low estimate of the bandwidth the receiver wasted.  The quotients of simulation
  times are taken over the integers.
\<close>

definition self_waste ::
    "simtime \<Rightarrow> simtime \<Rightarrow> simtime \<Rightarrow> simtime \<Rightarrow> simtime \<Rightarrow> (simtime \<times> simtime) res" where
  "self_waste rtt lastRecv maxEarliestGrant wastedGap rxGrantsTime =
     (let (high, low) =
        (if maxEarliestGrant \<le> lastRecv - rtt then (0, 0)
         else if maxEarliestGrant \<le> lastRecv then
           let h = min wastedGap (maxEarliestGrant + rtt - lastRecv) in (h, h)
         else (wastedGap, min (maxEarliestGrant - lastRecv + rtt) wastedGap))
      in rbind (assertion (rxGrantsTime \<le> wastedGap)) (\<lambda>_.
         Inr (high - rxGrantsTime * high div wastedGap, low - rxGrantsTime * low div wastedGap)))"

definition record_self_waste :: "simtime \<Rightarrow> homa \<Rightarrow> homa res" where
  "record_self_waste pktDuration t =
     (let r = rx t;
          sinceLastPkt = now t - lastRecvTime r;
          rxGrantsTime = tx_time (nicLinkSpeed (cfg t)) (unat (sumGrantsInGap (sx t)))
      in rbind (assertion (sinceLastPkt - pktDuration \<ge> -1)) (\<lambda>_.
         rbind (if sinceLastPkt > pktDuration + rxGrantsTime \<and> numSenders (schedSenders r) \<noteq> 0 then
                  rbind (max_earliest_grant (ipSendersMap r) (now t) (senders (schedSenders r)) 0)
                    (\<lambda>maxEarliestGrant.
                  rbind (self_waste (cfg_rtt (cfg t)) (lastRecvTime r) maxEarliestGrant
                           (sinceLastPkt - pktDuration) rxGrantsTime) (\<lambda>(high, low).
                  Inr (emit LowerRxSelfWaste [low] (emit HigherRxSelfWaste [high] t))))
                else Inr t) (\<lambda>t.
         Inr (t\<lparr>rx := (rx t)\<lparr>lastRecvTime := now t\<rparr>, sx := (sx t)\<lparr>sumGrantsInGap := 0\<rparr>\<rparr>))))"

text \<open>
  The bookkeeping of oversubscription before and after the packet is handled.  A difference with
  \<open>MAXTIME\<close> does not occur in the source's own use and is a fault of the model.
\<close>

definition oversub_before :: "u32 \<Rightarrow> simtime \<Rightarrow> homa \<Rightarrow> homa res" where
  "oversub_before pktLenOnWire pktDuration t =
     (let r = rx t; timeNow = now t
      in if numSenders (schedSenders r) > numToGrant (schedSenders r) then
           rbind (assertion (inOversubPeriod r \<and> oversubPeriodStop r = None \<and>
             (case oversubPeriodStart r of None \<Rightarrow> False | Some st \<Rightarrow> st < timeNow - pktDuration))) (\<lambda>_.
           Inr (t\<lparr>rx := r\<lparr>rcvdBytesPerOversubPeriod := rcvdBytesPerOversubPeriod r + ucast pktLenOnWire\<rparr>\<rparr>))
         else case oversubPeriodStop r of
           None \<Rightarrow> Inr t
         | Some stop \<Rightarrow>
             rbind (assertion (\<not> inOversubPeriod r \<and> stop \<le> timeNow)) (\<lambda>_.
             rbind (of_option OutOfRange (oversubPeriodStart r)) (\<lambda>start.
             let oversubOffset = stop - timeNow + pktDuration;
                 oversubDuration = stop - start + (if oversubOffset > 0 then oversubOffset else 0);
                 bytes = rcvdBytesPerOversubPeriod r +
                   (if oversubOffset > 0
                    then of_int (oversubOffset * nicLinkSpeed (cfg t) div 8000) else 0);
                 t = emit OversubBytes [uint bytes] (emit OversubTime [oversubDuration] t)
             in Inr (t\<lparr>rx := (rx t)\<lparr>rcvdBytesPerOversubPeriod := 0, oversubPeriodStart := None,
                    oversubPeriodStop := None, inOversubPeriod := False\<rparr>\<rparr>))))"

definition oversub_after :: "u32 \<Rightarrow> simtime \<Rightarrow> homa \<Rightarrow> homa res" where
  "oversub_after pktLenOnWire pktDuration t =
     (let r = rx t; timeNow = now t
      in if numSenders (schedSenders r) \<le> numToGrant (schedSenders r) then
           rbind (if inOversubPeriod r then
                    rbind (of_option OutOfRange (oversubPeriodStart r)) (\<lambda>start.
                    Inr (emit OversubBytes [uint (rcvdBytesPerOversubPeriod r)]
                          (emit OversubTime [timeNow - start] t)))
                  else Inr t) (\<lambda>t.
           Inr (t\<lparr>rx := (rx t)\<lparr>rcvdBytesPerOversubPeriod := 0, inOversubPeriod := False,
                  oversubPeriodStart := None, oversubPeriodStop := None\<rparr>\<rparr>))
         else if \<not> inOversubPeriod r then
           rbind (assertion (rcvdBytesPerOversubPeriod r = 0 \<and> oversubPeriodStart r = None \<and>
                    oversubPeriodStop r = None)) (\<lambda>_.
           Inr (t\<lparr>rx := r\<lparr>inOversubPeriod := True, oversubPeriodStart := Some (timeNow - pktDuration),
                  oversubPeriodStop := None,
                  rcvdBytesPerOversubPeriod := rcvdBytesPerOversubPeriod r + ucast pktLenOnWire\<rparr>\<rparr>))
         else Inr t)"

definition reset_bw_timer :: "simtime \<Rightarrow> homa \<Rightarrow> homa res" where
  "reset_bw_timer timeNow t =
     (case bwCheckInterval (rx t) of
        None \<Rightarrow> Inr t
      | Some interval \<Rightarrow>
          if numSenders (schedSenders (rx t)) = 0 then Inr (t\<lparr>rx := (rx t)\<lparr>schedBwUtilTimer := None\<rparr>\<rparr>)
          else
            let due = (case schedBwUtilTimer (rx t) of None \<Rightarrow> interval + timeNow
                       | Some schedTime \<Rightarrow> max schedTime (interval + timeNow))
            in rbind (scheduleAt timeNow due None) (\<lambda>timer.
               Inr (t\<lparr>rx := (rx t)\<lparr>schedBwUtilTimer := timer\<rparr>\<rparr>)))"

text \<open>The sender of the packet is taken out of the list, handled, and granted or put back.\<close>

definition handle_sender_pkt :: "homa_pkt \<Rightarrow> homa \<Rightarrow> homa res" where
  "handle_sender_pkt rxPkt t =
     (let s = pkt_srcAddr rxPkt;
          t = (case map_of (ipSendersMap (rx t)) s of
                 None \<Rightarrow> set_sender s (SenderState (cfg t) s) t | Some _ \<Rightarrow> t);
          l = schedSenders (rx t);
          old = setVar (numToGrant l) (int (headIdx l)) (int (numSenders l)) (Some s) 0
      in rbind (rx_remove s t) (\<lambda>(sIndOld, t).
         let old = old\<lparr>st_sInd := sIndOld\<rparr>
         in rbind (handleInboundPkt s rxPkt t) (\<lambda>(msgCompHandle, t).
            rbind (rx_insPoint s t) (\<lambda>(sInd, head, n).
            let cur = setVar (numToGrant (schedSenders (rx t))) head n (Some s) sInd
            in rbind (handleMesgRecvCompletionEvent (cfg t) msgCompHandle old cur (schedSenders (rx t)))
                 (\<lambda>(cur, l).
               handlePktArrivalEvent old cur (t\<lparr>rx := (rx t)\<lparr>schedSenders := l\<rparr>\<rparr>))))))"

definition processReceivedPkt :: "homa_pkt \<Rightarrow> homa \<Rightarrow> homa res" where
  "processReceivedPkt rxPkt t =
     rbind (getDataBytes rxPkt) (\<lambda>n.
     let pktLenOnWire = getBytesOnWire n (pkt_type rxPkt);
         pktDuration = tx_time (nicLinkSpeed (cfg t)) (unat pktLenOnWire);
         timeNow = now t
     in rbind (record_self_waste pktDuration t) (\<lambda>t.
        rbind (oversub_before pktLenOnWire pktDuration t) (\<lambda>t.
        rbind (handle_sender_pkt rxPkt t) (\<lambda>t.
        rbind (oversub_after pktLenOnWire pktDuration t) (\<lambda>t.
        rbind (tryRecordActiveMesgStats timeNow t) (\<lambda>t.
        reset_bw_timer timeNow t))))))"

text \<open>\<open>initialize\<close> of the scheduler.\<close>

definition initReceiveScheduler :: "homa_config \<Rightarrow> recv_sched \<Rightarrow> recv_sched res" where
  "initReceiveScheduler c r =
     rbind (SchedSenders c) (\<lambda>l.
     let n = unat (allPrio c)
     in Inr (r\<lparr>schedSenders := l,
          inflightUnschedPerPrio := replicate n 0, inflightSchedPerPrio := replicate n 0,
          bytesRecvdPerPrio := replicate n 0, scheduledBytesPerPrio := replicate n 0,
          unschedToRecvPerPrio := replicate n 0, schedBwUtilTimer := None,
          bwCheckInterval := (if linkCheckBytes c < 0 then None
            else Some (8000 * linkCheckBytes c div nicLinkSpeed c))\<rparr>))"

end
