(* ===== verification/HomaModule.thy ===== *)
theory HomaModule
  imports ReceiveScheduler
begin

text \<open>
  The transport module itself: its initialisation, the packets that come from the network and the
  dispatch of everything that can happen to it.  A self message is named by the timer it comes
  from; a timer that fires is not scheduled any more.
\<close>

section \<open>Operations\<close>

text \<open>
  The depot is made from the parameters, the vectors of the workload estimator and the random
  number that seeds the message ids are arguments; \<open>fuel\<close> is that of the cut-off loop.
\<close>

definition clamp_grant_bytes :: "homa_config \<Rightarrow> homa_config" where
  "clamp_grant_bytes c =
     (let maxDataBytes = MAX_ETHERNET_PAYLOAD_BYTES - IP_HEADER_SIZE - UDP_HEADER_SIZE -
            headerSize (new_pkt 0 SCHED_DATA)
      in if grantMaxBytes c > maxDataBytes then c\<lparr>grantMaxBytes := maxDataBytes\<rparr> else c)"

definition initialize :: "nat \<Rightarrow> homa_config \<Rightarrow> cdf_vectors \<Rightarrow> u64 \<Rightarrow> homa \<Rightarrow> homa res" where
  "initialize fuel par v seed t =
     rbind (HomaConfigDepot par) (\<lambda>c.
     let c = clamp_grant_bytes c
     in rbind (PriorityResolver fuel c v) (\<lambda>resolver.
        rbind (initReceiveScheduler c (rx t)) (\<lambda>r.
        rbind (scheduleAt (now t) (now t) None) (\<lambda>timer.
        Inr (t\<lparr>cfg := c, prioRes := resolver, rx := r, sx := initSendController seed (sx t),
             nextEmitSignalTime := 0, emitSignalTimer := None, outstandingGrantBytes := 0,
             sendTimerKind := TIMER_START, sendTimer := timer\<rparr>)))))"

definition processStart :: "homa \<Rightarrow> homa res" where
  "processStart t =
     rbind (scheduleAt (now t) (now t) (emitSignalTimer t)) (\<lambda>timer.
     Inr (t\<lparr>sendTimerKind := TIMER_SEND, emitSignalTimer := timer\<rparr>))"

text \<open>The local address is that of the first message or packet; all others must agree.\<close>

definition check_local_addr :: "u32 \<Rightarrow> homa \<Rightarrow> homa res" where
  "check_local_addr a t =
     (if localAddr t = 0 then Inr (t\<lparr>localAddr := a\<rparr>)
      else rbind (assertion (localAddr t = a)) (\<lambda>_. Inr t))"

definition begin_active_period :: "u32 \<Rightarrow> simtime \<Rightarrow> homa \<Rightarrow> homa res" where
  "begin_active_period pktLenOnWire pktDuration t =
     (let r = rx t
      in rbind (if getInflightBytes r = 0 then
                  rbind (assertion (rcvdBytesPerActivePeriod r = 0)) (\<lambda>_.
                  Inr (r\<lparr>rx_activePeriodStart := now t - pktDuration, rcvdBytesPerActivePeriod := 0\<rparr>))
                else Inr r) (\<lambda>r.
         Inr (t\<lparr>rx := r\<lparr>rcvdBytesPerActivePeriod :=
                rcvdBytesPerActivePeriod r + ucast pktLenOnWire\<rparr>\<rparr>)))"

definition end_active_period :: "homa \<Rightarrow> homa" where
  "end_active_period t =
     (if getInflightBytes (rx t) = 0 then
        let t = emit RxActiveTime [now t - rx_activePeriodStart (rx t)] t;
            t = emit RxActiveBytes [uint (rcvdBytesPerActivePeriod (rx t))] t
        in t\<lparr>rx := (rx t)\<lparr>rcvdBytesPerActivePeriod := 0, rx_activePeriodStart := now t\<rparr>\<rparr>
      else t)"

definition handleRecvdPkt :: "homa_pkt \<Rightarrow> homa \<Rightarrow> homa res" where
  "handleRecvdPkt rxPkt t =
     rbind (check_local_addr (pkt_destAddr rxPkt) t) (\<lambda>t.
     if unat (pkt_priority rxPkt) \<ge> unat (allPrio (cfg t)) then Inl OutOfRange
     else
       let t = emit (PriorityStats (unat (pkt_priority rxPkt))) [] t
       in rbind (getDataBytes rxPkt) (\<lambda>n.
          let pktLenOnWire = getBytesOnWire n (pkt_type rxPkt);
              pktDuration = tx_time (nicLinkSpeed (cfg t)) (unat pktLenOnWire)
          in rbind (begin_active_period pktLenOnWire pktDuration t) (\<lambda>t.
             rbind (case pkt_type rxPkt of
                      REQUEST \<Rightarrow> processReceivedPkt rxPkt t
                    | UNSCHED_DATA \<Rightarrow> processReceivedPkt rxPkt t
                    | SCHED_DATA \<Rightarrow> processReceivedPkt rxPkt t
                    | GRANT \<Rightarrow> processReceivedGrant rxPkt t
                    | BadType _ \<Rightarrow> Inl RuntimeError) (\<lambda>t.
             Inr (end_active_period t)))))"

datatype homa_msg = SendTimerMsg | GrantTimerMsg u32 | EmitTimerMsg | BwCheckMsg
  | AppIn app_msg | UdpIn homa_pkt

definition handleMessage :: "homa_msg \<Rightarrow> homa \<Rightarrow> homa res" where
  "handleMessage msg t =
     (case msg of
        SendTimerMsg \<Rightarrow>
          (case sendTimerKind t of
             TIMER_START \<Rightarrow> processStart (t\<lparr>sendTimer := None\<rparr>)
           | TIMER_SEND \<Rightarrow> handle_send_timer t)
      | GrantTimerMsg s \<Rightarrow>
          rbind (of_option NullPointer (map_of (ipSendersMap (rx t)) s)) (\<lambda>st.
          processGrantTimers s (set_sender s (st\<lparr>ss_grantTimer := None\<rparr>) t))
      | EmitTimerMsg \<Rightarrow> testAndEmitStabilitySignal (t\<lparr>emitSignalTimer := None\<rparr>)
      | BwCheckMsg \<Rightarrow> handleBwUtilTimerEvent (t\<lparr>rx := (rx t)\<lparr>schedBwUtilTimer := None\<rparr>\<rparr>)
      | AppIn outMsg \<Rightarrow>
          rbind (check_local_addr (app_srcAddr outMsg) t) (\<lambda>t. processSendMsgFromApp outMsg t)
      | UdpIn pkt \<Rightarrow> handleRecvdPkt pkt t)"

end
