(* ===== verification/InboundRun.thy ===== *)
theory InboundRun
  imports InboundMessage
begin

text \<open>
  The life of one inbound message: the events that can happen to it in any order, a run relation
  over them, and what holds in every state of a run.
\<close>

section \<open>A message from its first packet to its last\<close>

text \<open>
  What can happen to a message: one of its unscheduled packets arrives, a grant for some of the
  bytes left to grant goes out, or the scheduled packet of a grant under way arrives, in any order
  and at any time not before the last event.  The view holds the message, the round trip times,
  the counter of the transport, the pending unscheduled packets and the time of the last event.
\<close>

datatype inbound_event = UnschedArrives u32 u32 pkt_type | SchedArrives u32 u32 | GrantSent u16 u16

record inbound_view =
  iv_im :: inbound_msg
  iv_rtts :: track_rtts
  iv_outstanding :: u32
  iv_pending :: "nat multiset"
  iv_clock :: simtime

fun inbound_enabled :: "simtime \<Rightarrow> inbound_event \<Rightarrow> inbound_view \<Rightarrow> bool" where
  "inbound_enabled cur (UnschedArrives b e t) v \<longleftrightarrow>
     iv_clock v \<le> cur \<and> (t = REQUEST \<or> t = UNSCHED_DATA) \<and> unat (e - b + 1) \<in># iv_pending v"
| "inbound_enabled cur (SchedArrives b e) v \<longleftrightarrow>
     iv_clock v \<le> cur \<and>
     (\<exists>(off, n, tm) \<in> set (sched_grants (iv_pending v) (iv_im v)).
        off = b \<and> e - b + 1 = ucast n \<and> tm < cur)"
| "inbound_enabled cur (GrantSent n prio) v \<longleftrightarrow>
     iv_clock v \<le> cur \<and> 0 < n \<and> ucast n \<le> im_bytesToGrant (iv_im v)"

fun inbound_step :: "simtime \<Rightarrow> inbound_event \<Rightarrow> inbound_view \<Rightarrow> inbound_view res" where
  "inbound_step cur (UnschedArrives b e t) v =
     rbind (fillinRxBytes cur b e t (iv_im v) (iv_rtts v) (iv_outstanding v)) (\<lambda>(im, tr, out).
     Inr \<lparr>iv_im = im, iv_rtts = tr, iv_outstanding = out,
          iv_pending = iv_pending v - {#unat (e - b + 1)#}, iv_clock = cur\<rparr>)"
| "inbound_step cur (SchedArrives b e) v =
     rbind (fillinRxBytes cur b e SCHED_DATA (iv_im v) (iv_rtts v) (iv_outstanding v)) (\<lambda>(im, tr, out).
     Inr (v\<lparr>iv_im := im, iv_rtts := tr, iv_outstanding := out, iv_clock := cur\<rparr>))"
| "inbound_step cur (GrantSent n prio) v =
     rbind (prepareGrant cur n prio (iv_im v) (iv_outstanding v)) (\<lambda>(pkt, im, out).
     Inr (v\<lparr>iv_im := im, iv_outstanding := out, iv_clock := cur\<rparr>))"

inductive inbound_run :: "homa_config \<Rightarrow> homa_pkt \<Rightarrow> u32 \<Rightarrow> inbound_view \<Rightarrow> bool"
  for c p outst where
  start: "InboundMessage c cur p = Inr im \<Longrightarrow> unsched_parts (pkt_unsched p) P \<Longrightarrow> rtts_ok tr \<Longrightarrow>
    inbound_run c p outst \<lparr>iv_im = im, iv_rtts = tr, iv_outstanding = outst, iv_pending = P,
      iv_clock = cur\<rparr>"
| step: "inbound_run c p outst v \<Longrightarrow> inbound_enabled cur ev v \<Longrightarrow> inbound_step cur ev v = Inr v' \<Longrightarrow>
    inbound_run c p outst v'"

definition iv_inv :: "u32 \<Rightarrow> homa_pkt \<Rightarrow> inbound_view \<Rightarrow> bool" where
  "iv_inv outst p v \<longleftrightarrow>
     im_inv (iv_pending v) (iv_im v) \<and> rtts_ok (iv_rtts v) \<and>
     im_lastGrantTime (iv_im v) \<le> iv_clock v \<and>
     (iv_pending v \<noteq> {#} \<longrightarrow> im_inflightGrants (iv_im v) \<noteq> []) \<and>
     iv_outstanding v = outst + granted_wire (sched_grants (iv_pending v) (iv_im v)) \<and>
     im_msgSize (iv_im v) = uf_msgByteLen (pkt_unsched p) \<and> im_srcAddr (iv_im v) = pkt_srcAddr p"

lemma InboundMessage_type: "InboundMessage c cur p = Inr im \<Longrightarrow> pkt_type p = REQUEST \<or> pkt_type p = UNSCHED_DATA"
  by (auto simp: InboundMessage_def split: if_splits)

lemma iv_inv_start:
  assumes "InboundMessage c cur p = Inr im" and "unsched_parts (pkt_unsched p) P" and "rtts_ok tr"
  shows "iv_inv outst p \<lparr>iv_im = im, iv_rtts = tr, iv_outstanding = outst, iv_pending = P, iv_clock = cur\<rparr>"
  using InboundMessage_inv [OF InboundMessage_type [OF assms(1)] assms(2), of c cur] assms
  by (auto simp: iv_inv_def)

text \<open>Every event brings a message nearer to its end, and until then there is an event.\<close>

definition iv_measure :: "inbound_view \<Rightarrow> nat" where
  "iv_measure v = 2 * unat (im_bytesToGrant (iv_im v)) +
     granted_sum (sched_grants (iv_pending v) (iv_im v)) + size (iv_pending v)"

lemma inbound_step_inv:
  assumes inv: "iv_inv outst p v" and en: "inbound_enabled cur ev v"
  shows "\<exists>v'. inbound_step cur ev v = Inr v' \<and> iv_inv outst p v' \<and> iv_measure v' < iv_measure v"
proof (cases ev)
  case (UnschedArrives b e t)
  define k where "k = unat (e - b + 1)"
  have k: "k \<in># iv_pending v" and t: "t = UNSCHED_DATA \<or> t = REQUEST" and cur: "iv_clock v \<le> cur"
    using en by (auto simp: UnschedArrives k_def)
  have e: "e - b + 1 = of_nat k" unfolding k_def by (rule word_of_unat) simp
  have im: "im_inv (iv_pending v) (iv_im v)" using inv by (simp add: iv_inv_def)
  from fillinRxBytes_unsched [OF im k t e, of cur "iv_rtts v" "iv_outstanding v"] obtain im' where
    im': "fillinRxBytes cur b e t (iv_im v) (iv_rtts v) (iv_outstanding v) =
       Inr (im', iv_rtts v, iv_outstanding v)"
     "im_inv (iv_pending v - {#k#}) im'"
     "sched_grants (iv_pending v - {#k#}) im' = sched_grants (iv_pending v) (iv_im v)"
     "im_static im' = im_static (iv_im v)" "im_granting im' = im_granting (iv_im v)"
    by blast
  have r: "inbound_step cur ev v = Inr \<lparr>iv_im = im', iv_rtts = iv_rtts v,
      iv_outstanding = iv_outstanding v, iv_pending = iv_pending v - {#k#}, iv_clock = cur\<rparr>"
    by (simp add: UnschedArrives im'(1) k_def)
  have "size (iv_pending v - {#k#}) < size (iv_pending v)" using k by (rule size_Diff1_less)
  then show ?thesis
    unfolding r using inv im'(2-5) cur
    by (simp add: iv_inv_def iv_measure_def im_static_def im_granting_def im_inv_def)
next
  case (SchedArrives b e)
  then obtain n tm where mem: "(b, n, tm) \<in> set (sched_grants (iv_pending v) (iv_im v))"
    and e: "e - b + 1 = ucast n" and tm: "tm < cur" and cur: "iv_clock v \<le> cur"
    using en by auto
  have im: "im_inv (iv_pending v) (iv_im v)" and tr: "rtts_ok (iv_rtts v)"
    using inv by (simp_all add: iv_inv_def)
  from fillinRxBytes_sched [OF im mem e tr tm, of "iv_outstanding v"] obtain im' tr' where
    im': "fillinRxBytes cur b e SCHED_DATA (iv_im v) (iv_rtts v) (iv_outstanding v) =
       Inr (im', tr', iv_outstanding v - getBytesOnWire (ucast n) SCHED_DATA)"
     "im_inv (iv_pending v) im'" "rtts_ok tr'"
     "granted_wire (sched_grants (iv_pending v) (iv_im v)) =
        getBytesOnWire (ucast n) SCHED_DATA + granted_wire (sched_grants (iv_pending v) im')"
     "im_static im' = im_static (iv_im v)" "im_granting im' = im_granting (iv_im v)"
     "granted_sum (sched_grants (iv_pending v) im') < granted_sum (sched_grants (iv_pending v) (iv_im v))"
    by blast
  have r: "inbound_step cur ev v = Inr (v\<lparr>iv_im := im', iv_rtts := tr',
      iv_outstanding := iv_outstanding v - getBytesOnWire (ucast n) SCHED_DATA, iv_clock := cur\<rparr>)"
    by (simp add: SchedArrives im'(1))
  show ?thesis
    unfolding r using inv im'(2-7) cur
    by (simp add: iv_inv_def iv_measure_def im_static_def im_granting_def im_inv_def)
next
  case (GrantSent n prio)
  have n: "0 < unat n" "unat n \<le> unat (im_bytesToGrant (iv_im v))" and cur: "iv_clock v \<le> cur"
    using en by (simp_all add: GrantSent word_le_nat_alt word_less_nat_alt)
  have im: "im_inv (iv_pending v) (iv_im v)" and l: "im_lastGrantTime (iv_im v) \<le> cur"
    and h: "iv_pending v = {#} \<or> im_inflightGrants (iv_im v) \<noteq> []"
    using inv cur by (auto simp: iv_inv_def)
  from prepareGrant_inv [OF im n l h, of prio "iv_outstanding v"] obtain pkt im' where
    im': "prepareGrant cur n prio (iv_im v) (iv_outstanding v) =
       Inr (pkt, im', iv_outstanding v + getBytesOnWire (ucast n) SCHED_DATA)"
     "im_inv (iv_pending v) im'"
     "sched_grants (iv_pending v) im' =
        sched_grants (iv_pending v) (iv_im v) @ [(im_offset (iv_im v), n, cur)]"
     "im_static im' = im_static (iv_im v)" "im_lastGrantTime im' = cur"
     "im_bytesToGrant im' = im_bytesToGrant (iv_im v) - ucast n"
    by blast
  have g': "unat (im_bytesToGrant im') = unat (im_bytesToGrant (iv_im v)) - unat n"
    unfolding im'(6) using n by (simp add: unat_sub word_le_nat_alt)
  have "2 * unat (im_bytesToGrant im') + granted_sum (sched_grants (iv_pending v) im') <
      2 * unat (im_bytesToGrant (iv_im v)) + granted_sum (sched_grants (iv_pending v) (iv_im v))"
    unfolding g' im'(3) using n by simp
  then have m: "iv_measure (v\<lparr>iv_im := im', iv_outstanding := w, iv_clock := cur\<rparr>) < iv_measure v" for w
    by (simp add: iv_measure_def)
  have r: "inbound_step cur ev v = Inr (v\<lparr>iv_im := im',
      iv_outstanding := iv_outstanding v + getBytesOnWire (ucast n) SCHED_DATA, iv_clock := cur\<rparr>)"
    by (simp add: GrantSent im'(1))
  have "iv_inv outst p (v\<lparr>iv_im := im',
      iv_outstanding := iv_outstanding v + getBytesOnWire (ucast n) SCHED_DATA, iv_clock := cur\<rparr>)"
    using inv im'(2-5) by (simp add: iv_inv_def im_static_def im_granting_def im_inv_def add.assoc)
  with m show ?thesis unfolding r by blast
qed

lemma inbound_run_inv: "inbound_run c p outst v \<Longrightarrow> iv_inv outst p v"
proof (induction rule: inbound_run.induct)
  case (start cur im P tr)
  then show ?case by (rule iv_inv_start)
next
  case (step v cur ev v')
  from inbound_step_inv [OF step.IH step.hyps(2)] step.hyps(3) show ?case by auto
qed

lemma iv_measure_0:
  assumes inv: "iv_inv outst p v" and m: "iv_measure v = 0"
  shows "iv_pending v = {#} \<and> im_bytesToReceive (iv_im v) = 0 \<and> im_inflightGrants (iv_im v) = []"
proof -
  have P: "iv_pending v = {#}" and g: "granted_sum (sched_grants (iv_pending v) (iv_im v)) = 0"
    and G: "im_bytesToGrant (iv_im v) = 0"
    using m unfolding iv_measure_def by (auto simp: unat_eq_zero)
  have im: "im_inv (iv_pending v) (iv_im v)" using inv by (simp add: iv_inv_def)
  then have "grants_ok (unat (im_totalUnschedBytes (iv_im v))) (unat (im_offset (iv_im v)))
      (sched_grants (iv_pending v) (iv_im v))" unfolding im_inv_def by blast
  from granted_sum_0 [OF this] g have "sched_grants (iv_pending v) (iv_im v) = []" by simp
  with P G im_complete_iff [OF im] show ?thesis by (simp add: sched_grants_def)
qed

lemma inbound_enabled_ex:
  assumes inv: "iv_inv outst p v" and m: "0 < iv_measure v"
  shows "\<exists>ev. inbound_enabled (iv_clock v + 1) ev v"
proof -
  have im: "im_inv (iv_pending v) (iv_im v)" and l: "im_lastGrantTime (iv_im v) \<le> iv_clock v"
    using inv by (simp_all add: iv_inv_def)
  consider "iv_pending v \<noteq> {#}" | "sched_grants (iv_pending v) (iv_im v) \<noteq> []"
    | "im_bytesToGrant (iv_im v) \<noteq> 0"
  proof -
    have "im_bytesToGrant (iv_im v) \<noteq> 0"
      if P: "iv_pending v = {#}" and g: "sched_grants (iv_pending v) (iv_im v) = []"
    proof
      assume "im_bytesToGrant (iv_im v) = 0"
      with m show False unfolding iv_measure_def g by (simp add: P)
    qed
    with that show ?thesis by blast
  qed
  then show ?thesis
  proof cases
    case 1
    then obtain k where k: "k \<in># iv_pending v" by auto
    have "k \<le> sum_mset (iv_pending v)" using k using sum_mset.remove [OF k] by simp
    also have "\<dots> \<le> unat (im_totalUnschedBytes (iv_im v))" using im unfolding im_inv_def by blast
    finally have "k < 65536" using unat_u16_less le_less_trans by blast
    then have "unat (of_nat k :: u32) = k" by (simp add: unsigned_of_nat take_bit_nat_eq_self)
    with k have "inbound_enabled (iv_clock v + 1) (UnschedArrives 0 (of_nat k - 1) REQUEST) v" by simp
    then show ?thesis by blast
  next
    case 2
    then obtain off n tm where g: "(off, n, tm) \<in> set (sched_grants (iv_pending v) (iv_im v))"
      by (cases "sched_grants (iv_pending v) (iv_im v)") auto
    then have "tm \<le> im_lastGrantTime (iv_im v)" using im unfolding im_inv_def by blast
    with l have "(\<lambda>(off', n', tm'). off' = off \<and> off + ucast n - 1 - off + 1 = ucast n' \<and>
        tm' < iv_clock v + 1) (off, n, tm)" by simp
    then have "inbound_enabled (iv_clock v + 1) (SchedArrives off (off + ucast n - 1)) v"
      unfolding inbound_enabled.simps using g by (intro conjI bexI) simp_all
    then show ?thesis by blast
  next
    case 3
    then have "1 \<le> im_bytesToGrant (iv_im v)" by (metis unat_gt_0 word_le_nat_alt unsigned_1 Suc_leI One_nat_def)
    then have "inbound_enabled (iv_clock v + 1) (GrantSent 1 0) v" by simp
    then show ?thesis by blast
  qed
qed

section \<open>Properties\<close>

definition sample_request :: homa_pkt where
  "sample_request = (new_pkt 0 REQUEST)\<lparr>pkt_srcAddr := 7, pkt_destAddr := 9, pkt_msgId := 1,
     pkt_unsched := empty_unsched\<lparr>uf_msgByteLen := 5000, uf_totalUnschedBytes := 1542,
       uf_lastByte := 1441\<rparr>\<rparr>"

lemma sample_request_parts: "unsched_parts (pkt_unsched sample_request) {#1442, 100#}"
  by (simp add: unsched_parts_def sample_request_def unsched_wire_def empty_unsched_def
      getBytesOnWire_def)

lemma sample_request_run:
  "\<exists>im. InboundMessage ini_params 5 sample_request = Inr im \<and>
     inbound_run ini_params sample_request 0 \<lparr>iv_im = im, iv_rtts = TrackRTTs, iv_outstanding = 0,
       iv_pending = {#1442, 100#}, iv_clock = 5\<rparr>"
proof -
  have "pkt_type sample_request = REQUEST" by (simp add: sample_request_def new_pkt_def)
  then obtain im where "InboundMessage ini_params 5 sample_request = Inr im"
    using InboundMessage_inv [OF _ sample_request_parts] by blast
  then show ?thesis using inbound_run.start [OF _ sample_request_parts rtts_ok_init] by blast
qed



text \<open>
  C13: Every arrival and every grant brings an inbound message nearer to its end, and as long as it
  is not there one is possible.  At the end nothing is left in flight and the application gets a
  message of the full length.
\<close>

theorem inbound_message_completes:
  assumes "inbound_run c p outst v"
  shows "if iv_measure v = 0
     then \<exists>m. prepareRxMsgForApp c (iv_im v) = Inr m \<and> im_bytesToReceive (iv_im v) = 0 \<and>
       im_inflightGrants (iv_im v) = [] \<and> iv_outstanding v = outst \<and>
       app_byteLength m = uf_msgByteLen (pkt_unsched p) \<and> app_srcAddr m = pkt_srcAddr p
     else (\<exists>cur ev. inbound_enabled cur ev v) \<and>
       (\<forall>cur ev. inbound_enabled cur ev v \<longrightarrow>
          (\<exists>v'. inbound_step cur ev v = Inr v' \<and> iv_measure v' < iv_measure v))"
proof -
  have inv: "iv_inv outst p v" using assms by (rule inbound_run_inv)
  then have im: "im_inv (iv_pending v) (iv_im v)" by (simp add: iv_inv_def)
  show ?thesis
  proof (cases "iv_measure v = 0")
    case True
    from iv_measure_0 [OF inv True] prepareRxMsgForApp_ok [OF im, of c] inv show ?thesis
      using True by (auto simp: iv_inv_def sched_grants_def)
  next
    case False
    then show ?thesis using inbound_enabled_ex [OF inv] inbound_step_inv [OF inv] by auto
  qed
qed

lemma inbound_message_completes_witness:
  "\<exists>v cur ev. inbound_run ini_params sample_request 0 v \<and> iv_measure v = 6918 \<and>
     inbound_enabled cur ev v"
proof -
  from sample_request_run obtain im where
    im: "InboundMessage ini_params 5 sample_request = Inr im" and run:
    "inbound_run ini_params sample_request 0
      \<lparr>iv_im = im, iv_rtts = TrackRTTs, iv_outstanding = 0, iv_pending = {#1442, 100#}, iv_clock = 5\<rparr>"
    by blast
  from im have "im_bytesToGrant im = 3458" and "im_inflightGrants im = [(0, 1542, 0)]"
    by (auto simp: InboundMessage_def sample_request_def new_pkt_def empty_unsched_def ini_params_def Let_def)
  then have m: "iv_measure \<lparr>iv_im = im, iv_rtts = TrackRTTs, iv_outstanding = 0,
      iv_pending = {#1442, 100#}, iv_clock = 5\<rparr> = 6918"
    by (simp add: iv_measure_def sched_grants_def)
  from inbound_message_completes [OF run] m run show ?thesis
    by (metis (lifting) numeral_neq_zero)
qed
end
