(* ===== verification/RxSenders.thy ===== *)
theory RxSenders
  imports HomaModule
begin

text \<open>
  What the receiver keeps about one sender: its incomplete messages are consistent with what is
  under way for them, and the set of messages to grant is ranked and holds exactly the messages
  with bytes left to grant.  The operations of \<open>SenderState\<close> keep this and do not fault.
\<close>

section \<open>Frames\<close>

text \<open>The fields that only statistics use, and the map of the senders, are left out.\<close>

definition stats_free :: "recv_sched \<Rightarrow> recv_sched" where
  "stats_free r = r\<lparr>ipSendersMap := [], inflightUnschedPerPrio := [], inflightSchedPerPrio := [],
     inflightSchedBytes := 0, inflightUnschedBytes := 0, bytesRecvdPerPrio := [],
     scheduledBytesPerPrio := [], unschedToRecvPerPrio := [], allBytesRecvd := 0\<rparr>"

definition vecs_ok :: "nat \<Rightarrow> recv_sched \<Rightarrow> bool" where
  "vecs_ok n r \<longleftrightarrow> length (inflightUnschedPerPrio r) = n \<and> length (inflightSchedPerPrio r) = n \<and>
     length (bytesRecvdPerPrio r) = n \<and> length (scheduledBytesPerPrio r) = n \<and>
     length (unschedToRecvPerPrio r) = n"

definition same_env :: "homa \<Rightarrow> homa \<Rightarrow> bool" where
  "same_env t t' \<longleftrightarrow> cfg t' = cfg t \<and> prioRes t' = prioRes t \<and> now t' = now t \<and>
     stats_free (rx t') = stats_free (rx t)"

definition base_ok :: "homa \<Rightarrow> bool" where
  "base_ok t \<longleftrightarrow> sx_inv t \<and> rtts_ok (trackRTTs t) \<and> vecs_ok (unat (allPrio (cfg t))) (rx t)"

lemma same_env_refl [simp]: "same_env t t"
  by (simp add: same_env_def)

lemma same_env_trans: "same_env t u \<Longrightarrow> same_env u v \<Longrightarrow> same_env t v"
  by (simp add: same_env_def)

lemma stats_free_fields:
  assumes "stats_free r = stats_free r'"
  shows "schedSenders r = schedSenders r'" "bwCheckInterval r = bwCheckInterval r'"
    "oversubPeriodStart r = oversubPeriodStart r'" "oversubPeriodStop r = oversubPeriodStop r'"
    "inOversubPeriod r = inOversubPeriod r'" "lastRecvTime r = lastRecvTime r'"
    "rcvdBytesPerOversubPeriod r = rcvdBytesPerOversubPeriod r'"
    "schedBwUtilTimer r = schedBwUtilTimer r'"
  using assms by (cases r; cases r'; simp add: stats_free_def)+

lemma stats_free_upd [simp]: "stats_free (r\<lparr>ipSendersMap := m\<rparr>) = stats_free r"
  by (simp add: stats_free_def)

lemma vecs_ok_upd [simp]: "vecs_ok n (r\<lparr>ipSendersMap := m\<rparr>) = vecs_ok n r"
  by (simp add: vecs_ok_def)

section \<open>The counters do not fault\<close>

lemma vec_add_ok: "i < length xs \<Longrightarrow> \<exists>ys. vec_add i x xs = Inr ys \<and> length ys = length xs"
  by (simp add: vec_add_def)

text \<open>What every counter operation gives for a valid priority.\<close>

definition counted :: "nat \<Rightarrow> recv_sched \<Rightarrow> recv_sched res \<Rightarrow> bool" where
  "counted n r res \<longleftrightarrow> (\<exists>r'. res = Inr r' \<and> vecs_ok n r' \<and> stats_free r' = stats_free r \<and>
     ipSendersMap r' = ipSendersMap r)"

lemma addArrivedBytes_ok:
  "vecs_ok n r \<Longrightarrow> unat prio < n \<Longrightarrow> counted n r (addArrivedBytes pt prio k r)"
  by (simp add: counted_def addArrivedBytes_def vec_add_def vecs_ok_def stats_free_def Let_def)

lemma addPendingGrantedBytes_ok:
  "vecs_ok n r \<Longrightarrow> unat prio < n \<Longrightarrow> counted n r (addPendingGrantedBytes prio k r)"
  by (simp add: counted_def addPendingGrantedBytes_def vec_add_def vecs_ok_def stats_free_def Let_def)

lemma addPendingUnschedBytes_ok:
  "vecs_ok n r \<Longrightarrow> unat prio < n \<Longrightarrow> counted n r (addPendingUnschedBytes pt prio k r)"
  by (simp add: counted_def addPendingUnschedBytes_def vec_add_def vecs_ok_def stats_free_def Let_def)

lemma pendingBytesArrived_ok:
  "vecs_ok n r \<Longrightarrow> unat prio < n \<Longrightarrow> pt = REQUEST \<or> pt = UNSCHED_DATA \<or> pt = SCHED_DATA \<Longrightarrow>
   counted n r (pendingBytesArrived pt prio k r)"
  by (auto simp: counted_def pendingBytesArrived_def vec_add_def vecs_ok_def stats_free_def Let_def)

lemma counted_trans:
  "counted n r m \<Longrightarrow> (\<And>r'. vecs_ok n r' \<Longrightarrow> counted n r' (f r')) \<Longrightarrow> counted n r (rbind m f)"
  unfolding counted_def by force

text \<open>The pairs announced by a packet: an even number of entries with valid priorities.\<close>

fun prio_pairs_ok :: "nat \<Rightarrow> u32 list \<Rightarrow> bool" where
  "prio_pairs_ok n [] \<longleftrightarrow> True"
| "prio_pairs_ok n [p] \<longleftrightarrow> False"
| "prio_pairs_ok n (p # b # ps) \<longleftrightarrow> unat (ucast p :: u16) < n \<and> prio_pairs_ok n ps"

lemma add_pending_unsched_ok:
  "vecs_ok n r \<Longrightarrow> prio_pairs_ok n ps \<Longrightarrow> counted n r (add_pending_unsched pt ps r)"
proof (induction n ps arbitrary: r rule: prio_pairs_ok.induct)
  case (1 n)
  then show ?case by (simp add: counted_def)
next
  case (3 n p b ps)
  show ?case unfolding add_pending_unsched.simps
    by (rule counted_trans [OF addPendingUnschedBytes_ok]) (use 3 in simp_all)
qed simp

section \<open>The set of messages to grant\<close>

type_synonym mesg_map = "(u64 \<times> inbound_msg) list"

definition ikey :: "mesg_map \<Rightarrow> u64 \<Rightarrow> u32 \<times> u32 \<times> simtime \<times> u64" where
  "ikey m i = (case map_of m i of Some im \<Rightarrow> mesg_key im | None \<Rightarrow> (0, 0, 0, i))"

interpretation grants_order: keyed_order "\<lambda>i j. ikey m i < ikey m j" "ikey m" for m
  by unfold_locales (rule refl)

definition grantable :: "mesg_map \<Rightarrow> u64 set" where
  "grantable m = {i. \<exists>im. map_of m i = Some im \<and> 0 < im_bytesToGrant im}"

definition in_ids_ok :: "mesg_map \<Rightarrow> bool" where
  "in_ids_ok m \<longleftrightarrow> (\<forall>i im. map_of m i = Some im \<longrightarrow> im_msgIdAtSender im = i)"

definition gq_sorted :: "mesg_map \<Rightarrow> u64 list \<Rightarrow> bool" where
  "gq_sorted m q \<longleftrightarrow> sorted_wrt (\<lambda>i j. ikey m i < ikey m j) q \<and> set q \<subseteq> dom (map_of m)"

lemma ikey_distinct: "in_ids_ok m \<Longrightarrow> i \<noteq> j \<Longrightarrow> i \<in> dom (map_of m) \<Longrightarrow> j \<in> dom (map_of m) \<Longrightarrow> ikey m i \<noteq> ikey m j"
  by (auto simp: ikey_def in_ids_ok_def mesg_key_def)

lemma mesg_before_ikey:
  "i \<in> dom (map_of m) \<Longrightarrow> j \<in> dom (map_of m) \<Longrightarrow> mesg_before m i j \<longleftrightarrow> ikey m i < ikey m j"
  by (auto simp: mesg_before_def ikey_def CompareBytesToGrant_key)

lemma mesg_before_both:
  assumes "set q \<subseteq> dom (map_of m)" and "i \<in> dom (map_of m)" and "y \<in> set q"
  shows "mesg_before m i y = (ikey m i < ikey m y) \<and> mesg_before m y i = (ikey m y < ikey m i)"
proof -
  have "y \<in> dom (map_of m)" using assms(1,3) by (rule subsetD)
  with assms(2) show ?thesis by (simp only: mesg_before_ikey simp_thms)
qed

lemma gq_erase:
  assumes "gq_sorted m q" and "i \<in> set q"
  shows "sset_erase (mesg_before m) i q = (1, remove1 i q) \<and> gq_sorted m (remove1 i q) \<and>
     set (remove1 i q) = set q - {i}"
proof -
  have d: "set q \<subseteq> dom (map_of m)" and s: "sorted_wrt (\<lambda>i j. ikey m i < ikey m j) q"
    using assms(1) by (simp_all add: gq_sorted_def)
  have "sset_erase (mesg_before m) i q = sset_erase (\<lambda>i j. ikey m i < ikey m j) i q"
    by (rule sset_erase_cong) (rule mesg_before_both [OF d subsetD [OF d assms(2)]])
  also have "\<dots> = (1, remove1 i q)" by (rule grants_order.swo_erase [OF s assms(2)])
  finally have e: "sset_erase (mesg_before m) i q = (1, remove1 i q)" .
  have r: "set (remove1 i q) = set q - {i}"
    using grants_order.swo_distinct [OF s] by simp
  have "gq_sorted m (remove1 i q)"
    using grants_order.swo_remove1 [OF s, of i] r d unfolding gq_sorted_def by blast
  with e r show ?thesis by simp
qed

lemma gq_insert:
  assumes "gq_sorted m q" and "in_ids_ok m" and "i \<in> dom (map_of m)" and "i \<notin> set q"
  shows "\<exists>q'. sset_insert (mesg_before m) i q = (True, q') \<and> gq_sorted m q' \<and> set q' = insert i (set q)"
proof -
  have d: "set q \<subseteq> dom (map_of m)" and s: "sorted_wrt (\<lambda>i j. ikey m i < ikey m j) q"
    using assms(1) by (simp_all add: gq_sorted_def)
  have "sset_insert (mesg_before m) i q = sset_insert (\<lambda>i j. ikey m i < ikey m j) i q"
    by (rule sset_insert_cong) (rule mesg_before_both [OF d assms(3)])
  moreover have "\<exists>q'. sset_insert (\<lambda>i j. ikey m i < ikey m j) i q = (True, q') \<and>
      sorted_wrt (\<lambda>i j. ikey m i < ikey m j) q' \<and> set q' = insert i (set q)"
  proof (rule grants_order.swo_insert [OF s])
    fix y assume y: "y \<in> set q"
    then have "i \<noteq> y" using assms(4) by blast
    from ikey_distinct [OF assms(2) this assms(3) subsetD [OF d y]]
    show "ikey m i < ikey m y \<or> ikey m y < ikey m i" by (simp only: neq_iff)
  qed
  ultimately show ?thesis using d assms(3) by (auto simp: gq_sorted_def)
qed

lemma ikey_put: "j \<noteq> i \<Longrightarrow> ikey (al_put i im m) j = ikey m j"
  by (simp add: ikey_def)

lemma gq_put:
  assumes "gq_sorted m q" and "i \<notin> set q"
  shows "gq_sorted (al_put i im m) q"
proof -
  have "ikey (al_put i im m) x = ikey m x" if "x \<in> set q" for x
    by (rule ikey_put) (use that assms(2) in blast)
  then have "sorted_wrt (\<lambda>a b. ikey (al_put i im m) a < ikey (al_put i im m) b) q =
      sorted_wrt (\<lambda>a b. ikey m a < ikey m b) q"
    by (intro sorted_wrt_cong) simp
  with assms show ?thesis by (auto simp: gq_sorted_def)
qed

lemma gq_del:
  assumes "gq_sorted m q" and "i \<notin> set q"
  shows "gq_sorted (al_del i m) q"
proof -
  have "ikey (al_del i m) x = ikey m x" if "x \<in> set q" for x
  proof -
    from that assms(2) have "x \<noteq> i" by blast
    then show ?thesis by (simp add: ikey_def)
  qed
  then have "sorted_wrt (\<lambda>a b. ikey (al_del i m) a < ikey (al_del i m) b) q =
      sorted_wrt (\<lambda>a b. ikey m a < ikey m b) q"
    by (intro sorted_wrt_cong) simp
  with assms show ?thesis by (auto simp: gq_sorted_def)
qed

text \<open>The first message may come even earlier in the order.\<close>

lemma gq_put_hd:
  assumes "gq_sorted m (i # q)" and "\<forall>j. ikey m i < ikey m j \<longrightarrow> mesg_key im < ikey m j"
  shows "gq_sorted (al_put i im m) (i # q)"
proof -
  have s: "sorted_wrt (\<lambda>a b. ikey m a < ikey m b) (i # q)" using assms(1) by (simp add: gq_sorted_def)
  then have ni: "i \<notin> set q" by auto
  have "gq_sorted m q" using assms(1) by (simp add: gq_sorted_def)
  then have q: "gq_sorted (al_put i im m) q" using ni by (rule gq_put)
  have k: "ikey (al_put i im m) i = mesg_key im" by (simp add: ikey_def)
  have "\<forall>j \<in> set q. ikey (al_put i im m) i < ikey (al_put i im m) j"
  proof
    fix j assume j: "j \<in> set q"
    then have "ikey m i < ikey m j" using s by simp
    with assms(2) have "mesg_key im < ikey m j" by blast
    moreover have "j \<noteq> i" using j ni by blast
    ultimately show "ikey (al_put i im m) i < ikey (al_put i im m) j" unfolding k by (simp add: ikey_put)
  qed
  with q show ?thesis by (simp add: gq_sorted_def)
qed


section \<open>The messages of a sender\<close>

text \<open>
  An incomplete message: what is under way for it is as the invariant says, and it is not complete.
  \<open>P\<close> holds the sizes of its unscheduled packets that are still to come.
\<close>

definition mesg_ok :: "u32 \<Rightarrow> simtime \<Rightarrow> nat multiset \<Rightarrow> inbound_msg \<Rightarrow> bool" where
  "mesg_ok s cur P im \<longleftrightarrow> im_inv P im \<and> 0 \<notin># P \<and> im_srcAddr im = s \<and>
     im_bytesToReceive im \<noteq> 0 \<and> im_lastGrantTime im \<le> cur"

definition sender_ok :: "u32 \<Rightarrow> simtime \<Rightarrow> (u64 \<Rightarrow> nat multiset) \<Rightarrow> sender_state \<Rightarrow> bool" where
  "sender_ok s cur G st \<longleftrightarrow> ss_senderAddr st = s \<and>
     al_wf (ss_incompleteMesgs st) \<and> in_ids_ok (ss_incompleteMesgs st) \<and>
     (\<forall>i im. map_of (ss_incompleteMesgs st) i = Some im \<longrightarrow> mesg_ok s cur (G i) im) \<and>
     gq_sorted (ss_incompleteMesgs st) (ss_mesgsToGrant st) \<and>
     set (ss_mesgsToGrant st) = grantable (ss_incompleteMesgs st)"

definition static_key :: "inbound_msg \<Rightarrow> u32 \<times> simtime \<times> u64" where
  "static_key im = (im_msgSize im, im_msgCreationTime im, im_msgIdAtSender im)"

definition mesg_keys :: "sender_state \<Rightarrow> (u32 \<times> simtime \<times> u64) set" where
  "mesg_keys st = static_key ` ran (map_of (ss_incompleteMesgs st))"

lemma im_static_fields:
  assumes "im_static a = im_static b"
  shows "im_srcAddr a = im_srcAddr b" "im_msgIdAtSender a = im_msgIdAtSender b"
    "im_msgSize a = im_msgSize b" "im_totalUnschedBytes a = im_totalUnschedBytes b"
    "static_key a = static_key b" "im_destAddr a = im_destAddr b"
  using assms by (simp_all add: im_static_def static_key_def)

lemma updatePerPrioStats_fields [simp]:
  "im_inv P (updatePerPrioStats r im) = im_inv P im"
  "im_static (updatePerPrioStats r im) = im_static im"
  "im_granting (updatePerPrioStats r im) = im_granting im"
  "sched_grants P (updatePerPrioStats r im) = sched_grants P im"
  "im_bytesToReceive (updatePerPrioStats r im) = im_bytesToReceive im"
  "im_bytesToGrant (updatePerPrioStats r im) = im_bytesToGrant im"
  "im_inflightGrants (updatePerPrioStats r im) = im_inflightGrants im"
  "im_lastGrantTime (updatePerPrioStats r im) = im_lastGrantTime im"
  "im_srcAddr (updatePerPrioStats r im) = im_srcAddr im"
  "im_msgIdAtSender (updatePerPrioStats r im) = im_msgIdAtSender im"
  "im_totalBytesInFlight (updatePerPrioStats r im) = im_totalBytesInFlight im"
  "mesg_key (updatePerPrioStats r im) = mesg_key im"
  by (simp_all add: updatePerPrioStats_def im_inv_def im_static_def im_granting_def sched_grants_def
      mesg_key_def)

section \<open>A packet of the sender\<close>

text \<open>The data bytes of a packet, the pending packets after it, and when it is one that is due.\<close>

definition pkt_bytes :: "homa_pkt \<Rightarrow> u32" where
  "pkt_bytes p = (if pkt_type p = SCHED_DATA then sf_lastByte (pkt_sched p) - sf_firstByte (pkt_sched p) + 1
     else uf_lastByte (pkt_unsched p) - uf_firstByte (pkt_unsched p) + 1)"

definition pending_after :: "homa_pkt \<Rightarrow> nat multiset \<Rightarrow> nat multiset" where
  "pending_after p P = (if pkt_type p = SCHED_DATA then P else P - {#unat (pkt_bytes p)#})"

definition pkt_due :: "simtime \<Rightarrow> homa_pkt \<Rightarrow> nat multiset \<Rightarrow> inbound_msg \<Rightarrow> bool" where
  "pkt_due cur p P im \<longleftrightarrow>
     (pkt_type p = REQUEST \<or> pkt_type p = UNSCHED_DATA) \<and> unat (pkt_bytes p) \<in># P \<or>
     pkt_type p = SCHED_DATA \<and> (\<exists>(off, n, tm) \<in> set (sched_grants P im).
        off = sf_firstByte (pkt_sched p) \<and> pkt_bytes p = ucast n \<and> tm < cur)"

lemma fill_pkt_ok:
  assumes inv: "im_inv P im" and due: "pkt_due cur p P im" and tr: "rtts_ok tr"
  shows "\<exists>im' tr' outst'. fill_pkt cur p im tr outst = Inr (im', tr', outst') \<and>
     im_inv (pending_after p P) im' \<and> rtts_ok tr' \<and> im_static im' = im_static im \<and>
     im_granting im' = im_granting im"
proof (cases "pkt_type p = SCHED_DATA")
  case True
  with due obtain off n tm where g: "(off, n, tm) \<in> set (sched_grants P im)"
    "off = sf_firstByte (pkt_sched p)" "pkt_bytes p = ucast n" "tm < cur"
    by (auto simp: pkt_due_def)
  have b: "sf_lastByte (pkt_sched p) - off + 1 = ucast n" using g(2,3) True by (simp add: pkt_bytes_def)
  from fillinRxBytes_sched [OF inv g(1) b tr g(4), of outst] g(2) True show ?thesis
    unfolding fill_pkt_def pending_after_def by auto
next
  case False
  with due have t: "pkt_type p = UNSCHED_DATA \<or> pkt_type p = REQUEST" and k: "unat (pkt_bytes p) \<in># P"
    by (auto simp: pkt_due_def)
  have b: "uf_lastByte (pkt_unsched p) - uf_firstByte (pkt_unsched p) + 1 = of_nat (unat (pkt_bytes p))"
    using False by (simp add: pkt_bytes_def)
  from fillinRxBytes_unsched [OF inv k t b, of cur tr outst] obtain im' where
    im': "fillinRxBytes cur (uf_firstByte (pkt_unsched p)) (uf_lastByte (pkt_unsched p)) (pkt_type p) im tr
        outst = Inr (im', tr, outst)"
      "im_inv (P - {#unat (pkt_bytes p)#}) im'" "im_static im' = im_static im"
      "im_granting im' = im_granting im" by blast
  have "fill_pkt cur p im tr outst = Inr (im', tr, outst)"
    using t im'(1) unfolding fill_pkt_def by auto
  with im' tr False show ?thesis unfolding pending_after_def by auto
qed

definition new_mesg_ok :: "nat \<Rightarrow> homa_pkt \<Rightarrow> nat multiset \<Rightarrow> bool" where
  "new_mesg_ok levels p P \<longleftrightarrow> (pkt_type p = REQUEST \<or> pkt_type p = UNSCHED_DATA) \<and>
     unsched_parts (pkt_unsched p) P \<and> unat (pkt_bytes p) \<in># P \<and>
     prio_pairs_ok levels (uf_prioUnschedBytes (pkt_unsched p))"

definition pkt_key3 :: "homa_pkt \<Rightarrow> u32 \<times> simtime \<times> u64" where
  "pkt_key3 p = (uf_msgByteLen (pkt_unsched p), uf_msgCreationTime (pkt_unsched p), pkt_msgId p)"

text \<open>What \<open>find_mesg\<close> returns: the message, out of the set of messages to grant.\<close>

definition found :: "u32 \<Rightarrow> homa_pkt \<Rightarrow> nat multiset \<Rightarrow> sender_state \<Rightarrow> homa \<Rightarrow>
    inbound_msg \<Rightarrow> sender_state \<Rightarrow> homa \<Rightarrow> bool" where
  "found s p P st t im st' t' \<longleftrightarrow>
     im_inv P im \<and> pkt_due (now t) p P im \<and> im_srcAddr im = s \<and> im_msgIdAtSender im = pkt_msgId p \<and>
     im_lastGrantTime im \<le> now t \<and>
     st' = st\<lparr>ss_mesgsToGrant := ss_mesgsToGrant st'\<rparr> \<and>
     gq_sorted (ss_incompleteMesgs st) (ss_mesgsToGrant st') \<and>
     set (ss_mesgsToGrant st') = grantable (ss_incompleteMesgs st) - {pkt_msgId p} \<and>
     (pkt_msgId p \<in> set (ss_mesgsToGrant st) \<longrightarrow> 0 < im_bytesToGrant im) \<and>
     base_ok t' \<and> same_env t t' \<and> ipSendersMap (rx t') = ipSendersMap (rx t) \<and>
     (case map_of (ss_incompleteMesgs st) (pkt_msgId p) of
        None \<Rightarrow> static_key im = pkt_key3 p | Some im0 \<Rightarrow> static_key im = static_key im0)"

lemma base_ok_rx:
  "base_ok t \<Longrightarrow> vecs_ok (unat (allPrio (cfg t))) r \<Longrightarrow> base_ok (emit g v (t\<lparr>rx := r\<rparr>))"
  by (simp add: base_ok_def sx_inv_def)

lemma find_mesg_new:
  assumes st: "sender_ok s (now t) G st" and t: "base_ok t" and src: "pkt_srcAddr p = s"
    and new: "map_of (ss_incompleteMesgs st) (pkt_msgId p) = None"
    and ok: "new_mesg_ok (unat (allPrio (cfg t))) p P"
  shows "\<exists>im st' t'. find_mesg p k st t = Inr (im, st', t') \<and> found s p P st t im st' t'"
proof -
  have ty: "pkt_type p = REQUEST \<or> pkt_type p = UNSCHED_DATA" and parts: "unsched_parts (pkt_unsched p) P"
    and kP: "unat (pkt_bytes p) \<in># P" and pp: "prio_pairs_ok (unat (allPrio (cfg t))) (uf_prioUnschedBytes (pkt_unsched p))"
    using ok by (auto simp: new_mesg_ok_def)
  from InboundMessage_inv [OF ty parts, of "cfg t" "now t"] obtain im where
    im: "InboundMessage (cfg t) (now t) p = Inr im" "im_inv P im" "im_lastGrantTime im = now t"
      "im_srcAddr im = s" "im_msgIdAtSender im = pkt_msgId p" by (auto simp: src)
  have key: "static_key im = pkt_key3 p"
    using im(1) ty by (auto simp: InboundMessage_def Let_def static_key_def pkt_key3_def)
  have "vecs_ok (unat (allPrio (cfg t))) (rx t)" using t by (simp add: base_ok_def)
  from add_pending_unsched_ok [OF this pp, of "pkt_type p"] obtain r where
    r: "add_pending_unsched (pkt_type p) (uf_prioUnschedBytes (pkt_unsched p)) (rx t) = Inr r"
      "vecs_ok (unat (allPrio (cfg t))) r" "stats_free r = stats_free (rx t)"
      "ipSendersMap r = ipSendersMap (rx t)"
    by (auto simp: counted_def)
  let ?t' = "emit TotalOutstandingBytes [uint (getInflightBytes r)] (t\<lparr>rx := r\<rparr>)"
  have "find_mesg p k st t = Inr (updatePerPrioStats r im, st, ?t')"
    using ty by (simp add: find_mesg_def new im(1) r(1) Let_def)
  moreover have "found s p P st t (updatePerPrioStats r im) st ?t'"
  proof -
    have "pkt_msgId p \<notin> grantable (ss_incompleteMesgs st)" using new by (simp add: grantable_def)
    moreover have "pkt_due (now t) p P (updatePerPrioStats r im)" using ty kP by (simp add: pkt_due_def)
    moreover have "static_key (updatePerPrioStats r im) = static_key im"
      by (simp add: static_key_def updatePerPrioStats_def)
    ultimately show ?thesis
      using st im base_ok_rx [OF t r(2)] r new key unfolding found_def sender_ok_def
      by (simp add: same_env_def)
  qed
  ultimately show ?thesis by blast
qed

lemma find_mesg_known:
  assumes st: "sender_ok s (now t) G st" and t: "base_ok t"
    and known: "map_of (ss_incompleteMesgs st) (pkt_msgId p) = Some im"
    and due: "pkt_due (now t) p (G (pkt_msgId p)) im"
    and prio: "unat (ucast (pkt_priority p) :: u16) < unat (allPrio (cfg t))"
  shows "\<exists>st' t'. find_mesg p k st t = Inr (im, st', t') \<and> found s p (G (pkt_msgId p)) st t im st' t'"
proof -
  let ?i = "pkt_msgId p" and ?m = "ss_incompleteMesgs st"
  have mo: "mesg_ok s (now t) (G ?i) im" and ids: "in_ids_ok ?m" and gq: "gq_sorted ?m (ss_mesgsToGrant st)"
    and gs: "set (ss_mesgsToGrant st) = grantable ?m"
    using st known unfolding sender_ok_def by blast+
  have ty: "pkt_type p = REQUEST \<or> pkt_type p = UNSCHED_DATA \<or> pkt_type p = SCHED_DATA"
    using due by (auto simp: pkt_due_def)
  have "vecs_ok (unat (allPrio (cfg t))) (rx t)" using t by (simp add: base_ok_def)
  from pendingBytesArrived_ok [OF this prio ty, of k] obtain r where
    r: "pendingBytesArrived (pkt_type p) (ucast (pkt_priority p)) k (rx t) = Inr r"
      "vecs_ok (unat (allPrio (cfg t))) r" "stats_free r = stats_free (rx t)"
      "ipSendersMap r = ipSendersMap (rx t)"
    by (auto simp: counted_def)
  let ?t' = "emit TotalOutstandingBytes [uint (getInflightBytes r)] (t\<lparr>rx := r\<rparr>)"
  have mem: "?i \<in> set (ss_mesgsToGrant st) \<longleftrightarrow> 0 < im_bytesToGrant im"
    unfolding gs using known by (simp add: grantable_def)
  have "im_msgIdAtSender im = ?i" using ids known by (simp add: in_ids_ok_def)
  note base = base_ok_rx [OF t r(2), of TotalOutstandingBytes "[uint (getInflightBytes r)]"]
  show ?thesis
  proof (cases "0 < im_bytesToGrant im")
    case True
    with mem have i: "?i \<in> set (ss_mesgsToGrant st)" by simp
    let ?st' = "st\<lparr>ss_mesgsToGrant := remove1 ?i (ss_mesgsToGrant st)\<rparr>"
    have e: "sset_erase (mesg_before ?m) ?i (ss_mesgsToGrant st) = (1, remove1 ?i (ss_mesgsToGrant st))"
      "gq_sorted ?m (remove1 ?i (ss_mesgsToGrant st))"
      "set (remove1 ?i (ss_mesgsToGrant st)) = grantable ?m - {?i}"
      using gq_erase [OF gq i] gs by simp_all
    have "find_mesg p k st t = Inr (im, ?st', ?t')"
      by (simp add: find_mesg_def known True e(1) r(1) Let_def)
    moreover have "found s p (G ?i) st t im ?st' ?t'"
      using mo due e(2,3) base r(3,4) True known \<open>im_msgIdAtSender im = ?i\<close>
      unfolding found_def mesg_ok_def by (simp add: same_env_def)
    ultimately show ?thesis by blast
  next
    case False
    have "find_mesg p k st t = Inr (im, st, ?t')"
      using False by (simp add: find_mesg_def known r(1) Let_def)
    moreover have "found s p (G ?i) st t im st ?t'"
      using mo due base r(3,4) False known gq gs mem \<open>im_msgIdAtSender im = ?i\<close>
      unfolding found_def mesg_ok_def by (simp add: same_env_def)
    ultimately show ?thesis by blast
  qed
qed


lemma grantable_put:
  "grantable (al_put i im m) = (if 0 < im_bytesToGrant im then insert i (grantable m) else grantable m - {i})"
  by (auto simp: grantable_def)

lemma grantable_del: "grantable (al_del i m) = grantable m - {i}"
  by (auto simp: grantable_def)

lemma mesg_keys_put:
  "ss_incompleteMesgs st' = al_put i im (ss_incompleteMesgs st) \<Longrightarrow>
   mesg_keys st' \<subseteq> insert (static_key im) (mesg_keys st)"
  by (auto simp: mesg_keys_def ran_def)

lemma mesg_keys_del:
  "ss_incompleteMesgs st' = al_del i (ss_incompleteMesgs st) \<Longrightarrow> mesg_keys st' \<subseteq> mesg_keys st"
  by (auto simp: mesg_keys_def ran_def)

lemma settle_mesg_ok:
  assumes st: "sender_ok s cur G st0" and q: "st = st0\<lparr>ss_mesgsToGrant := q\<rparr>"
    and gq: "gq_sorted (ss_incompleteMesgs st0) q"
    and gs: "set q = grantable (ss_incompleteMesgs st0) - {pkt_msgId p}"
    and im: "im_inv P im" "0 \<notin># P" "im_srcAddr im = s" "im_msgIdAtSender im = pkt_msgId p"
      "im_lastGrantTime im \<le> cur"
  shows "\<exists>ret st' os. settle_mesg p im st t = Inr (ret, st', t\<lparr>outs := outs t @ os\<rparr>) \<and>
     sender_ok s cur (G(pkt_msgId p := P)) st' \<and> ss_lastIdx st' = ss_lastIdx st0 \<and>
     ss_grantTimer st' = ss_grantTimer st0 \<and>
     mesg_keys st' \<subseteq> insert (static_key im) (mesg_keys st0) \<and>
     set (ss_mesgsToGrant st') =
       (if 0 < im_bytesToGrant im then insert (pkt_msgId p) (set q) else set q)"
proof -
  let ?i = "pkt_msgId p" and ?m = "ss_incompleteMesgs st0"
  let ?S = "im_msgSize im - ucast (im_totalUnschedBytes im) > 0"
  have wf: "al_wf ?m" and ids: "in_ids_ok ?m" and addr: "ss_senderAddr st0 = s"
    and ms: "\<And>i im. map_of ?m i = Some im \<Longrightarrow> mesg_ok s cur (G i) im"
    using st unfolding sender_ok_def by blast+
  have i: "?i \<notin> set q" using gs by simp
  have S: "?S \<or> im_msgSize im = ucast (im_totalUnschedBytes im)" by (simp add: word_gt_0)
  then have a: "assertion (?S \<or> im_msgSize im = ucast (im_totalUnschedBytes im)) = Inr ()" by simp
  show ?thesis
  proof (cases "im_bytesToReceive im = 0")
    case True
    with im(1,2) im_complete_iff [OF im(1)] have c: "im_bytesToGrant im = 0" "sched_grants P im = []" "P = {#}"
      by auto
    then have g: "im_inflightGrants im = []" by (simp add: sched_grants_def)
    from prepareRxMsgForApp_ok [OF im(1) True, of "cfg t"] obtain rm where
      rm: "prepareRxMsgForApp (cfg t) im = Inr rm" by blast
    let ?st' = "st\<lparr>ss_incompleteMesgs := al_del ?i ?m\<rparr>"
    have "settle_mesg p im st t = Inr ((?S, -1), ?st', t\<lparr>outs := outs t @ [SendApp rm]\<rparr>)"
      using True c(1) g rm im(4) unfolding settle_mesg_def Let_def a by (simp add: q)
    moreover have "sender_ok s cur (G(?i := P)) ?st'"
      using wf ids addr ms gq_del [OF gq i] gs unfolding sender_ok_def
      by (simp add: q grantable_del in_ids_ok_def)
    moreover have "mesg_keys ?st' \<subseteq> mesg_keys st0" by (rule mesg_keys_del [of _ ?i]) (simp add: q)
    ultimately show ?thesis using c(1)
      by (intro exI [of _ "(?S, -1)"] exI [of _ ?st'] exI [of _ "[SendApp rm]"]) (auto simp: q)
  next
    case False
    let ?m' = "al_put ?i im ?m"
    have mo: "mesg_ok s cur P im" using im False by (simp add: mesg_ok_def)
    have ids': "in_ids_ok ?m'" using ids im(4) by (simp add: in_ids_ok_def)
    have ms': "\<forall>j jm. map_of ?m' j = Some jm \<longrightarrow> mesg_ok s cur ((G(?i := P)) j) jm"
      using ms mo by simp
    have gq': "gq_sorted ?m' q" by (rule gq_put [OF gq i])
    show ?thesis
    proof (cases "im_bytesToGrant im = 0")
      case g0: True
      let ?st' = "st\<lparr>ss_incompleteMesgs := ?m'\<rparr>"
      let ?ret = "(?S, if ?S then 0 else sint (im_bytesToReceive im))"
      have "settle_mesg p im st t = Inr (?ret, ?st', t)"
        using False g0 unfolding settle_mesg_def Let_def a by (simp add: q)
      moreover have "sender_ok s cur (G(?i := P)) ?st'"
        using wf ids' ms' addr gq' gs g0 unfolding sender_ok_def by (simp add: q grantable_put)
      moreover have "mesg_keys ?st' \<subseteq> insert (static_key im) (mesg_keys st0)"
        by (rule mesg_keys_put) (simp add: q)
      ultimately show ?thesis using g0
        by (intro exI [of _ ?ret] exI [of _ ?st'] exI [of _ "[]"]) (simp add: q)
    next
      case g1: False
      then have pos: "0 < im_bytesToGrant im" by (simp add: word_gt_0)
      have "?i \<in> dom (map_of ?m')" by simp
      from gq_insert [OF gq' ids' this i] obtain q' where
        q': "sset_insert (mesg_before ?m') ?i q = (True, q')" "gq_sorted ?m' q'" "set q' = insert ?i (set q)"
        by blast
      let ?st' = "st\<lparr>ss_incompleteMesgs := ?m', ss_mesgsToGrant := q'\<rparr>"
      let ?ret = "(?S, if q' \<noteq> [] \<and> hd q' = ?i then 1 else 2)"
      have "settle_mesg p im st t = Inr (?ret, ?st', t)"
        using False g1 q'(1) unfolding settle_mesg_def Let_def a by (simp add: q)
      moreover have "sender_ok s cur (G(?i := P)) ?st'"
        using wf ids' ms' addr q' gs pos unfolding sender_ok_def by (auto simp: q grantable_put)
      moreover have "mesg_keys ?st' \<subseteq> insert (static_key im) (mesg_keys st0)"
        by (rule mesg_keys_put) (simp add: q)
      ultimately show ?thesis using pos q'(3)
        by (intro exI [of _ ?ret] exI [of _ ?st'] exI [of _ "[]"]) (simp add: q)
    qed
  qed
qed


text \<open>A packet the receiver may get from a sender, with the packets pending before it.\<close>

definition arrival_ok ::
    "nat \<Rightarrow> simtime \<Rightarrow> (u64 \<Rightarrow> nat multiset) \<Rightarrow> sender_state \<Rightarrow> homa_pkt \<Rightarrow> nat multiset \<Rightarrow> bool" where
  "arrival_ok levels cur G st p P \<longleftrightarrow> unat (ucast (pkt_priority p) :: u16) < levels \<and>
     (case map_of (ss_incompleteMesgs st) (pkt_msgId p) of
        None \<Rightarrow> new_mesg_ok levels p P
      | Some im \<Rightarrow> P = G (pkt_msgId p) \<and> pkt_due cur p P im)"

lemma find_mesg_ok:
  assumes "sender_ok s (now t) G st" and "base_ok t" and "pkt_srcAddr p = s"
    and "arrival_ok (unat (allPrio (cfg t))) (now t) G st p P"
  shows "\<exists>im st' t'. find_mesg p k st t = Inr (im, st', t') \<and> found s p P st t im st' t' \<and>
     0 \<notin># pending_after p P"
proof (cases "map_of (ss_incompleteMesgs st) (pkt_msgId p)")
  case None
  with assms(4) have ok: "new_mesg_ok (unat (allPrio (cfg t))) p P" by (simp add: arrival_ok_def)
  have "0 \<notin># pending_after p P"
  proof
    assume z: "0 \<in># pending_after p P"
    have "0 \<in># P" using z by (auto simp: pending_after_def dest: in_diffD split: if_splits)
    with ok have "P = {#0#}" and "unat (pkt_bytes p) \<in># P" and "pkt_type p \<noteq> SCHED_DATA"
      by (auto simp: new_mesg_ok_def unsched_parts_def)
    with z show False by (simp add: pending_after_def)
  qed
  with find_mesg_new [OF assms(1-3) None ok] show ?thesis by blast
next
  case (Some im)
  with assms(4) have P: "P = G (pkt_msgId p)" and due: "pkt_due (now t) p (G (pkt_msgId p)) im"
    and prio: "unat (ucast (pkt_priority p) :: u16) < unat (allPrio (cfg t))"
    by (auto simp: arrival_ok_def)
  have "mesg_ok s (now t) (G (pkt_msgId p)) im" using assms(1) Some unfolding sender_ok_def by blast
  then have "0 \<notin># pending_after p P"
    unfolding pending_after_def P mesg_ok_def by (auto dest: in_diffD)
  with find_mesg_known [OF assms(1,2) Some due prio] show ?thesis unfolding P by blast
qed

lemma handleInboundPkt_ok:
  assumes m: "map_of (ipSendersMap (rx t)) s = Some st" and st: "sender_ok s (now t) G st"
    and t: "base_ok t" and src: "pkt_srcAddr p = s"
    and arr: "arrival_ok (unat (allPrio (cfg t))) (now t) G st p P"
  shows "\<exists>ret st' t'. handleInboundPkt s p t = Inr (ret, t') \<and>
     ipSendersMap (rx t') = al_put s st' (ipSendersMap (rx t)) \<and>
     sender_ok s (now t) (G(pkt_msgId p := pending_after p P)) st' \<and>
     ss_lastIdx st' = ss_lastIdx st \<and> ss_grantTimer st' = ss_grantTimer st \<and>
     (ss_mesgsToGrant st \<noteq> [] \<longrightarrow> ss_mesgsToGrant st' \<noteq> []) \<and>
     mesg_keys st' \<subseteq> (case map_of (ss_incompleteMesgs st) (pkt_msgId p) of
        None \<Rightarrow> insert (pkt_key3 p) (mesg_keys st) | Some _ \<Rightarrow> mesg_keys st) \<and>
     base_ok t' \<and> same_env t t'"
proof -
  let ?n = "unat (allPrio (cfg t))"
  have prio: "unat (ucast (pkt_priority p) :: u16) < ?n" using arr by (simp add: arrival_ok_def)
  have "pkt_type p = REQUEST \<or> pkt_type p = UNSCHED_DATA \<or> pkt_type p = SCHED_DATA"
    using arr unfolding arrival_ok_def new_mesg_ok_def pkt_due_def by (auto split: option.splits)
  then obtain k where k: "getDataBytes p = Inr k" by (auto simp: getDataBytes_def)
  have "vecs_ok ?n (rx t)" using t by (simp add: base_ok_def)
  from addArrivedBytes_ok [OF this prio, of "pkt_type p" k] obtain r where
    r: "addArrivedBytes (pkt_type p) (ucast (pkt_priority p)) k (rx t) = Inr r" "vecs_ok ?n r"
      "stats_free r = stats_free (rx t)" "ipSendersMap r = ipSendersMap (rx t)"
    by (auto simp: counted_def)
  let ?t1 = "t\<lparr>rx := r\<rparr>"
  have t1: "base_ok ?t1" using t r(2) by (simp add: base_ok_def sx_inv_def)
  have env1: "same_env t ?t1" using r(3) by (simp add: same_env_def)
  have st1: "sender_ok s (now ?t1) G st" and arr1: "arrival_ok (unat (allPrio (cfg ?t1))) (now ?t1) G st p P"
    using st arr by simp_all
  from find_mesg_ok [OF st1 t1 src arr1, of k] obtain im st' t2 where
    f: "find_mesg p k st ?t1 = Inr (im, st', t2)" "found s p P st ?t1 im st' t2"
      and z: "0 \<notin># pending_after p P" by blast
  have im: "im_inv P im" "pkt_due (now t) p P im" "im_srcAddr im = s" "im_msgIdAtSender im = pkt_msgId p"
      "im_lastGrantTime im \<le> now t"
    and st': "st' = st\<lparr>ss_mesgsToGrant := ss_mesgsToGrant st'\<rparr>"
      "gq_sorted (ss_incompleteMesgs st) (ss_mesgsToGrant st')"
      "set (ss_mesgsToGrant st') = grantable (ss_incompleteMesgs st) - {pkt_msgId p}"
      "pkt_msgId p \<in> set (ss_mesgsToGrant st) \<longrightarrow> 0 < im_bytesToGrant im"
    and t2: "base_ok t2" "same_env ?t1 t2" "ipSendersMap (rx t2) = ipSendersMap r"
    and key: "case map_of (ss_incompleteMesgs st) (pkt_msgId p) of
        None \<Rightarrow> static_key im = pkt_key3 p | Some im0 \<Rightarrow> static_key im = static_key im0"
    using f(2) unfolding found_def by simp_all
  have now2: "now t2 = now t" and cfg2: "cfg t2 = cfg t" using t2(2) by (simp_all add: same_env_def)
  have tr: "rtts_ok (trackRTTs t2)" using t2(1) by (simp add: base_ok_def)
  from fill_pkt_ok [OF im(1,2) tr, of "outstandingGrantBytes t2"] obtain im' tr' outst' where
    fill: "fill_pkt (now t) p im (trackRTTs t2) (outstandingGrantBytes t2) = Inr (im', tr', outst')"
      "im_inv (pending_after p P) im'" "rtts_ok tr'" "im_static im' = im_static im"
      "im_granting im' = im_granting im" by blast
  note sf = im_static_fields [OF fill(4)]
  have gr: "im_bytesToGrant im' = im_bytesToGrant im" "im_lastGrantTime im' = im_lastGrantTime im"
    using fill(5) by (simp_all add: im_granting_def)
  let ?t3 = "t2\<lparr>trackRTTs := tr', outstandingGrantBytes := outst'\<rparr>"
  have im': "im_srcAddr im' = s" "im_msgIdAtSender im' = pkt_msgId p" "im_lastGrantTime im' \<le> now t"
    using im(3-5) sf gr by simp_all
  from settle_mesg_ok [OF st st'(1-3) fill(2) z im', of ?t3] obtain ret st2 os where
    settle: "settle_mesg p im' st' ?t3 = Inr (ret, st2, ?t3\<lparr>outs := outs ?t3 @ os\<rparr>)"
      "sender_ok s (now t) (G(pkt_msgId p := pending_after p P)) st2" "ss_lastIdx st2 = ss_lastIdx st"
      "ss_grantTimer st2 = ss_grantTimer st" "mesg_keys st2 \<subseteq> insert (static_key im') (mesg_keys st)"
      "set (ss_mesgsToGrant st2) = (if 0 < im_bytesToGrant im' then insert (pkt_msgId p) (set (ss_mesgsToGrant st'))
         else set (ss_mesgsToGrant st'))" by blast
  let ?t4 = "set_sender s st2 (?t3\<lparr>outs := outs ?t3 @ os\<rparr>)"
  have addr: "ss_senderAddr st' = s" using st by (subst st'(1)) (simp add: sender_ok_def)
  have a: "assertion (pkt_msgId p = im_msgIdAtSender im \<and> pkt_srcAddr p = ss_senderAddr st') = Inr ()"
    by (rule assertion_holds) (simp add: im(4) src addr)
  have "handleInboundPkt s p t = Inr (ret, ?t4)"
    unfolding handleInboundPkt_def m k of_option_Some rbind_Inr r(1) f(1) prod.case a now2 fill(1) settle(1)
    by (rule refl)
  moreover have "ipSendersMap (rx ?t4) = al_put s st2 (ipSendersMap (rx t))"
    using t2(3) r(4) by (simp add: set_sender_def)
  moreover have "ss_mesgsToGrant st2 \<noteq> []" if "ss_mesgsToGrant st \<noteq> []"
  proof -
    from that obtain j where j: "j \<in> set (ss_mesgsToGrant st)" by (cases "ss_mesgsToGrant st") auto
    have "set (ss_mesgsToGrant st) = grantable (ss_incompleteMesgs st)" using st by (simp add: sender_ok_def)
    with j have "j \<in> set (ss_mesgsToGrant st2)"
      using settle(6) st'(3,4) gr(1) by (cases "j = pkt_msgId p") auto
    then show ?thesis by auto
  qed
  moreover have "mesg_keys st2 \<subseteq> (case map_of (ss_incompleteMesgs st) (pkt_msgId p) of
        None \<Rightarrow> insert (pkt_key3 p) (mesg_keys st) | Some _ \<Rightarrow> mesg_keys st)"
  proof (cases "map_of (ss_incompleteMesgs st) (pkt_msgId p)")
    case None
    then show ?thesis using key settle(5) sf(5) by simp
  next
    case (Some im0)
    then have "static_key im' \<in> mesg_keys st"
      using key sf(5) by (auto simp: mesg_keys_def ran_def)
    with Some settle(5) show ?thesis by auto
  qed
  moreover have "base_ok ?t4"
    using t2(1) fill(3) by (simp add: base_ok_def sx_inv_def set_sender_def)
  moreover have "same_env t ?t4"
    using env1 t2(2) by (simp add: same_env_def set_sender_def)
  ultimately show ?thesis using settle(2-4)
    by (intro exI [of _ ret] exI [of _ st2] exI [of _ ?t4]) blast
qed


section \<open>A grant for the sender\<close>

definition rx_cfg_ok :: "homa_config \<Rightarrow> prio_resolver \<Rightarrow> bool" where
  "rx_cfg_ok c r \<longleftrightarrow> 0 < allPrio c \<and> 0 < grantMaxBytes c \<and> unat (grantMaxBytes c) < 65536 \<and>
     0 < nicLinkSpeed c \<and> 0 < numSendersToKeepGranted c \<and>
     numSendersToKeepGranted c \<le> adaptiveSchedPrioLevels c \<and> adaptiveSchedPrioLevels c \<le> allPrio c \<and>
     prioResMode r \<in> {EXPLICIT, STATIC_CBF_GRADUATED, STATIC_CDF_UNIFORM, STATIC_CBF_UNIFORM} \<and>
     cutoffs_ok (prioCutOffs r) \<and> length (prioCutOffs r) \<le> unat (allPrio c)"

lemma getSchedPktPrio_ok:
  assumes "rx_cfg_ok c r"
  shows "\<exists>p. getSchedPktPrio c r im = Inr p \<and> unat p < unat (allPrio c)"
proof -
  have c: "cutoffs_ok (prioCutOffs r)" "length (prioCutOffs r) \<le> unat (allPrio c)" "0 < allPrio c"
    "prioResMode r \<in> {EXPLICIT, STATIC_CBF_GRADUATED, STATIC_CDF_UNIFORM, STATIC_CBF_UNIFORM}"
    using assms by (simp_all add: rx_cfg_ok_def)
  have l: "length (prioCutOffs r) \<le> 65536" using c(2) unat_u16_less [of "allPrio c"] by linarith
  have m: "\<exists>p. getMesgPrio (prioCutOffs r) n = Inr p \<and> unat p < unat (allPrio c)" for n
    using getMesgPrio_level [OF c(1) l, of n] c(2) by fastforce
  have top: "unat (allPrio c - 1) < unat (allPrio c)"
    using c(3) by (intro unat_sub_less) (simp_all add: word_le_nat_alt word_less_nat_alt)
  show ?thesis
    using c(4) m [of "im_bytesToGrant im"] m [of "im_msgSize im"] top
    by (auto simp: getSchedPktPrio_def Let_def)
qed

text \<open>
  What a grant to a sender with messages \<open>i # q\<close> leaves: either the same messages, the first of
  which ranks no lower than before, or, when the first is granted in full, the others.
\<close>

definition granted_step :: "u32 \<Rightarrow> (u64 \<Rightarrow> nat multiset) \<Rightarrow> sender_state \<Rightarrow> homa \<Rightarrow> sender_state \<Rightarrow> homa \<Rightarrow> bool" where
  "granted_step s G st t st' t' \<longleftrightarrow>
     ipSendersMap (rx t') = al_put s st' (ipSendersMap (rx t)) \<and>
     sender_ok s (now t) G st' \<and> base_ok t' \<and> same_env t t' \<and>
     mesg_keys st' \<subseteq> mesg_keys st \<and> ss_lastIdx st' = ss_lastIdx st \<and>
     (ss_mesgsToGrant st' = ss_mesgsToGrant st \<and>
        ikey (ss_incompleteMesgs st') (hd (ss_mesgsToGrant st)) \<le>
          ikey (ss_incompleteMesgs st) (hd (ss_mesgsToGrant st)) \<or>
      ss_mesgsToGrant st' = tl (ss_mesgsToGrant st))"

lemma rearm_ok:
  assumes "map_of (ipSendersMap (rx t)) s = Some st" and "ss_grantTimer st = None"
    and "0 < nicLinkSpeed (cfg t)"
  shows "\<exists>v timer. rearm s n im t = Inr (v, set_sender s (st\<lparr>ss_grantTimer := timer\<rparr>) t)"
proof (cases "im_totalBytesInFlight im < maxOutstandingRecvBytes (cfg t)")
  case True
  have "now t \<le> getNextGrantTime (cfg t) (now t) (ucast n)"
    using assms(3) by (simp add: getNextGrantTime_def tx_time_nonneg)
  then show ?thesis using assms True by (auto simp: rearm_def scheduleAt_idle)
next
  case False
  have e: "st\<lparr>ss_grantTimer := None\<rparr> = st" using assms(2) by (cases st) simp
  have "set_sender s (st\<lparr>ss_grantTimer := None\<rparr>) t = t"
    unfolding set_sender_def e al_put_same [OF assms(1)] by simp
  then show ?thesis using assms False by (auto simp: rearm_def intro: exI [of _ None])
qed

lemma sender_ok_timer [simp]: "sender_ok s cur G (st\<lparr>ss_grantTimer := x\<rparr>) = sender_ok s cur G st"
  by (simp add: sender_ok_def)

lemma mesg_keys_timer [simp]:
  "mesg_keys (st\<lparr>ss_grantTimer := x\<rparr>) = mesg_keys st" "mesg_keys (st\<lparr>ss_lastIdx := k\<rparr>) = mesg_keys st"
  "mesg_keys (st\<lparr>ss_lastGrantPrio := y\<rparr>) = mesg_keys st" "mesg_keys (st\<lparr>ss_mesgsToGrant := q\<rparr>) = mesg_keys st"
  by (simp_all add: mesg_keys_def)

lemma sender_ok_idx [simp]: "sender_ok s cur G (st\<lparr>ss_lastIdx := x\<rparr>) = sender_ok s cur G st"
  by (simp add: sender_ok_def)

lemma prepareGrant_mesg:
  assumes mo: "mesg_ok s cur P im" and n: "0 < unat n" "unat n \<le> unat (im_bytesToGrant im)"
  shows "\<exists>pkt im'. prepareGrant cur n prio im outst =
       Inr (pkt, im', outst + getBytesOnWire (ucast n) SCHED_DATA) \<and> mesg_ok s cur P im' \<and>
     pkt_type pkt = GRANT \<and> gf_grantBytes (pkt_grant pkt) = n \<and> gf_schedPrio (pkt_grant pkt) = prio \<and>
     im_static im' = im_static im \<and> mesg_key im' < mesg_key im"
proof -
  have inv: "im_inv P im" and cur: "im_lastGrantTime im \<le> cur" and z: "0 \<notin># P" and s: "im_srcAddr im = s"
    using mo by (simp_all add: mesg_ok_def)
  have head: "P = {#} \<or> im_inflightGrants im \<noteq> []" using inv unfolding im_inv_def by blast
  from prepareGrant_inv [OF inv n cur head, of prio outst] obtain pkt im' where
    p: "prepareGrant cur n prio im outst = Inr (pkt, im', outst + getBytesOnWire (ucast n) SCHED_DATA)"
      "im_inv P im'" "sched_grants P im' = sched_grants P im @ [(im_offset im, n, cur)]"
      "pkt_type pkt = GRANT" "gf_grantBytes (pkt_grant pkt) = n" "gf_schedPrio (pkt_grant pkt) = prio"
      "im_bytesToGrant im' = im_bytesToGrant im - ucast n" "im_static im' = im_static im"
      "im_lastGrantTime im' = cur" by blast
  have "unat (im_bytesToReceive im') = unat (im_bytesToGrant im') + granted_sum (sched_grants P im') + sum_mset P"
    using p(2) unfolding im_inv_def by blast
  with p(3) n(1) have "im_bytesToReceive im' \<noteq> 0" by auto
  with p(2,8,9) z s have "mesg_ok s cur P im'" by (simp add: mesg_ok_def im_static_def)
  moreover have "im_bytesToGrant im' < im_bytesToGrant im"
    unfolding p(7) word_less_nat_alt using n by (simp add: unat_sub word_le_nat_alt)
  then have "mesg_key im' < mesg_key im" by (simp add: mesg_key_def)
  ultimately show ?thesis using p by blast
qed


lemma granted_sender_ok:
  assumes st: "sender_ok s cur G st" and q: "ss_mesgsToGrant st = i # q"
    and m: "map_of (ss_incompleteMesgs st) i = Some im"
    and mo: "mesg_ok s cur (G i) im'" and id: "im_static im' = im_static im"
    and key: "mesg_key im' < mesg_key im"
    and st': "ss_senderAddr st' = ss_senderAddr st"
      "ss_incompleteMesgs st' = al_put i im' (ss_incompleteMesgs st)"
      "ss_mesgsToGrant st' = (if 0 < im_bytesToGrant im' then i # q else q)"
  shows "sender_ok s cur G st' \<and> mesg_keys st' \<subseteq> mesg_keys st \<and>
     ikey (ss_incompleteMesgs st') i \<le> ikey (ss_incompleteMesgs st) i"
proof -
  let ?m = "ss_incompleteMesgs st"
  have wf: "al_wf ?m" and ids: "in_ids_ok ?m" and gq: "gq_sorted ?m (i # q)"
    and gs: "set (i # q) = grantable ?m" and addr: "ss_senderAddr st = s"
    and ms: "\<And>j jm. map_of ?m j = Some jm \<Longrightarrow> mesg_ok s cur (G j) jm"
    using st q unfolding sender_ok_def by simp_all
  have ni: "i \<notin> set q" using gq by (auto simp: gq_sorted_def)
  have gq': "gq_sorted (al_put i im' ?m) (i # q)"
  proof (rule gq_put_hd [OF gq], intro allI impI)
    fix j assume "ikey ?m i < ikey ?m j"
    with m key show "mesg_key im' < ikey ?m j" by (simp add: ikey_def)
  qed
  then have gq2: "gq_sorted (al_put i im' ?m) q" by (simp add: gq_sorted_def)
  have "sender_ok s cur G st'"
    unfolding sender_ok_def st'
    using wf ids gq' gq2 gs ms mo addr ni m im_static_fields(2) [OF id]
    by (auto simp: in_ids_ok_def grantable_put)
  moreover have "static_key im' \<in> mesg_keys st"
    using m im_static_fields(5) [OF id] by (auto simp: mesg_keys_def ran_def)
  then have "mesg_keys st' \<subseteq> mesg_keys st" using mesg_keys_put [OF st'(2)] by auto
  moreover have "ikey (ss_incompleteMesgs st') i \<le> ikey ?m i"
    using m key unfolding st'(2) by (simp add: ikey_def)
  ultimately show ?thesis by blast
qed

lemma send_grant_ok:
  assumes m: "map_of (ipSendersMap (rx t)) s = Some st" and tm: "ss_grantTimer st = None"
    and st: "sender_ok s (now t) G st" and q: "ss_mesgsToGrant st = i # q"
    and im: "map_of (ss_incompleteMesgs st) i = Some im"
    and t: "base_ok t" and c: "rx_cfg_ok (cfg t) (prioRes t)" and prio: "unat gprio < unat (allPrio (cfg t))"
  shows "\<exists>v st' t'. send_grant s gprio st i im t = Inr (v, t') \<and> granted_step s G st t st' t'"
proof -
  let ?n = "ucast (min (im_bytesToGrant im) (grantMaxBytes (cfg t))) :: u16"
  have "i \<in> grantable (ss_incompleteMesgs st)" using st q unfolding sender_ok_def by (metis list.set_intros(1))
  then have pos: "0 < im_bytesToGrant im" using im by (simp add: grantable_def)
  have mo: "mesg_ok s (now t) (G i) im" using st im unfolding sender_ok_def by blast
  have cc: "0 < grantMaxBytes (cfg t)" "unat (grantMaxBytes (cfg t)) < 65536" "0 < nicLinkSpeed (cfg t)"
    using c by (simp_all add: rx_cfg_ok_def)
  have un: "unat ?n = min (unat (im_bytesToGrant im)) (unat (grantMaxBytes (cfg t)))"
    using cc(2) unat_ucast16 [of "min (im_bytesToGrant im) (grantMaxBytes (cfg t))"] by (simp add: unat_min)
  have n: "0 < unat ?n" "unat ?n \<le> unat (im_bytesToGrant im)"
    using pos cc(1) unfolding un by (simp_all add: word_less_nat_alt)
  from prepareGrant_mesg [OF mo n, of "ucast gprio" "outstandingGrantBytes t"] obtain pkt im' where
    pg: "prepareGrant (now t) ?n (ucast gprio) im (outstandingGrantBytes t) =
       Inr (pkt, im', outstandingGrantBytes t + getBytesOnWire (ucast ?n) SCHED_DATA)"
      "mesg_ok s (now t) (G i) im'" "pkt_type pkt = GRANT" "gf_grantBytes (pkt_grant pkt) = ?n"
      "gf_schedPrio (pkt_grant pkt) = ucast gprio" "im_static im' = im_static im" "mesg_key im' < mesg_key im"
    by blast
  define outst where "outst = outstandingGrantBytes t + getBytesOnWire (ucast ?n) SCHED_DATA"
  have up: "unat (ucast gprio :: u16) < unat (allPrio (cfg t))"
    using prio unat_u16_less [of "allPrio (cfg t)"] unat_ucast16 [of gprio] by simp
  have "vecs_ok (unat (allPrio (cfg t))) (rx t)" using t by (simp add: base_ok_def)
  from addPendingGrantedBytes_ok [OF this up, of "ucast ?n"] obtain r where
    r: "addPendingGrantedBytes (ucast gprio) (ucast ?n) (rx t) = Inr r"
      "vecs_ok (unat (allPrio (cfg t))) r" "stats_free r = stats_free (rx t)"
      "ipSendersMap r = ipSendersMap (rx t)" by (auto simp: counted_def)
  define im2 where "im2 = updatePerPrioStats r im'"
  define st2 where "st2 = st\<lparr>ss_lastGrantPrio := gprio,
      ss_incompleteMesgs := al_put i im2 (ss_incompleteMesgs st)\<rparr>"
  define t2 where "t2 = set_sender s st2 (t\<lparr>rx := r, outstandingGrantBytes := outst\<rparr>)"
  have "sx_inv t2" using t by (simp add: t2_def base_ok_def sx_inv_def set_sender_def)
  from sendOrQueue_grant_ok [OF this pg(3)] obtain t3 where
    t3: "sendOrQueue (SendPkt pkt) t2 = Inr t3" "sx_inv t3" "sx_env t3 = sx_env t2" by blast
  note e3 = sx_env_fields [OF t3(3)]
  define t4 where "t4 = emit OutstandingGrantBytes [uint (outstandingGrantBytes t3)] t3"
  have rx4: "ipSendersMap (rx t4) = al_put s st2 (ipSendersMap (rx t))"
    using e3(4) r(4) by (simp add: t4_def t2_def set_sender_def)
  have env4: "same_env t t4"
    using e3 r(3) by (simp add: same_env_def t4_def t2_def set_sender_def)
  have base4: "base_ok t4"
    using t3(2) e3 t r(2) by (simp add: base_ok_def t4_def t2_def set_sender_def sx_inv_def)
  have ns4: "0 < nicLinkSpeed (cfg t4)" using env4 cc(3) by (simp add: same_env_def)
  have mo2: "mesg_ok s (now t) (G i) im2" using pg(2) by (simp add: im2_def mesg_ok_def)
  have id2: "im_static im2 = im_static im" and key2: "mesg_key im2 < mesg_key im"
    using pg(6,7) by (simp_all add: im2_def)
  have eq: "send_grant s gprio st i im t =
     (if im_bytesToGrant im2 > 0 then rearm s ?n im2 t4
      else case q of
             [] \<Rightarrow> Inr (-1, set_sender s (st2\<lparr>ss_mesgsToGrant := q\<rparr>) t4)
           | j # _ \<Rightarrow>
               rbind (of_option NullPointer (map_of (ss_incompleteMesgs st2) j)) (\<lambda>newTop.
               rbind (assertion (im_bytesToGrant newTop > 0)) (\<lambda>_.
               rearm s ?n newTop (set_sender s (st2\<lparr>ss_mesgsToGrant := q\<rparr>) t4))))"
  proof -
    have tl: "tl (ss_mesgsToGrant st2) = q" by (simp add: st2_def q)
    show ?thesis
      unfolding send_grant_def Let_def pg(1) rbind_Inr prod.case pg(4,5) r(1)
        outst_def [symmetric] im2_def [symmetric] st2_def [symmetric] t2_def [symmetric] t3(1)
        t4_def [symmetric] tl by (rule refl)
  qed
  show ?thesis
  proof (cases "0 < im_bytesToGrant im2")
    case True
    have "map_of (ipSendersMap (rx t4)) s = Some st2" by (simp add: rx4)
    moreover have "ss_grantTimer st2 = None" by (simp add: st2_def tm)
    ultimately obtain v timer where
      v: "rearm s ?n im2 t4 = Inr (v, set_sender s (st2\<lparr>ss_grantTimer := timer\<rparr>) t4)"
      using rearm_ok ns4 by blast
    let ?st' = "st2\<lparr>ss_grantTimer := timer\<rparr>"
    let ?t' = "set_sender s ?st' t4"
    have "sender_ok s (now t) G ?st' \<and> mesg_keys ?st' \<subseteq> mesg_keys st \<and>
        ikey (ss_incompleteMesgs ?st') i \<le> ikey (ss_incompleteMesgs st) i"
      by (rule granted_sender_ok [OF st q im mo2 id2 key2]) (simp_all add: st2_def q True)
    moreover have "ipSendersMap (rx ?t') = al_put s ?st' (ipSendersMap (rx t))"
      by (simp add: set_sender_def rx4 al_put_put)
    moreover have "base_ok ?t'" using base4 by (simp add: base_ok_def set_sender_def sx_inv_def)
    moreover have "same_env t ?t'" using env4 by (simp add: same_env_def set_sender_def)
    moreover have "ss_mesgsToGrant ?st' = ss_mesgsToGrant st" "ss_lastIdx ?st' = ss_lastIdx st"
      by (simp_all add: st2_def)
    ultimately have "granted_step s G st t ?st' ?t'" unfolding granted_step_def q by simp
    then show ?thesis unfolding eq using True v by auto
  next
    case False
    let ?st3 = "st2\<lparr>ss_mesgsToGrant := q\<rparr>"
    let ?t5 = "set_sender s ?st3 t4"
    have step: "granted_step s G st t (?st3\<lparr>ss_grantTimer := timer\<rparr>)
        (set_sender s (?st3\<lparr>ss_grantTimer := timer\<rparr>) ?t5)" for timer
    proof -
      let ?st' = "?st3\<lparr>ss_grantTimer := timer\<rparr>"
      let ?t' = "set_sender s ?st' ?t5"
      have "sender_ok s (now t) G ?st' \<and> mesg_keys ?st' \<subseteq> mesg_keys st \<and>
          ikey (ss_incompleteMesgs ?st') i \<le> ikey (ss_incompleteMesgs st) i"
        by (rule granted_sender_ok [OF st q im mo2 id2 key2]) (use False in \<open>simp_all add: st2_def\<close>)
      moreover have "ipSendersMap (rx ?t') = al_put s ?st' (ipSendersMap (rx t))"
        by (simp add: set_sender_def rx4 al_put_put)
      moreover have "base_ok ?t'" using base4 by (simp add: base_ok_def set_sender_def sx_inv_def)
      moreover have "same_env t ?t'" using env4 by (simp add: same_env_def set_sender_def)
      moreover have "ss_mesgsToGrant ?st' = q" "ss_lastIdx ?st' = ss_lastIdx st" by (simp_all add: st2_def)
      ultimately show ?thesis unfolding granted_step_def q by simp
    qed
    show ?thesis
    proof (cases q)
      case Nil
      have same: "set_sender s (?st3\<lparr>ss_grantTimer := None\<rparr>) ?t5 = ?t5"
      proof -
        have "?st3\<lparr>ss_grantTimer := None\<rparr> = ?st3" using tm by (cases st) (simp add: st2_def)
        then show ?thesis by (simp add: set_sender_def al_put_put)
      qed
      show ?thesis using step [of None] False Nil unfolding eq same by auto
    next
      case (Cons j q')
      have "j \<in> grantable (ss_incompleteMesgs st)" and ji: "j \<noteq> i"
        using st q Cons unfolding sender_ok_def by (auto simp: gq_sorted_def)
      then obtain jm where jm: "map_of (ss_incompleteMesgs st2) j = Some jm" "0 < im_bytesToGrant jm"
        by (auto simp: grantable_def st2_def)
      have "map_of (ipSendersMap (rx ?t5)) s = Some ?st3" by (simp add: set_sender_def)
      moreover have "ss_grantTimer ?st3 = None" by (simp add: st2_def tm)
      moreover have "0 < nicLinkSpeed (cfg ?t5)" using ns4 by (simp add: set_sender_def)
      ultimately obtain v timer where
        v: "rearm s ?n jm ?t5 = Inr (v, set_sender s (?st3\<lparr>ss_grantTimer := timer\<rparr>) ?t5)"
        using rearm_ok by blast
      show ?thesis using step [of timer] False jm v unfolding eq Cons by auto
    qed
  qed
qed


lemma granted_step_none:
  assumes "map_of (ipSendersMap (rx t)) s = Some st" and "sender_ok s (now t) G st" and "base_ok t"
  shows "granted_step s G st t st t"
  using assms by (simp add: granted_step_def al_put_same)

lemma sendAndScheduleGrant_ok:
  assumes m: "map_of (ipSendersMap (rx t)) s = Some st"
    and st: "sender_ok s (now t) G st" and ne: "ss_mesgsToGrant st \<noteq> []"
    and t: "base_ok t" and c: "rx_cfg_ok (cfg t) (prioRes t)"
  shows "\<exists>v st' t'. sendAndScheduleGrant s gprio t = Inr (v, t') \<and> granted_step s G st t st' t'"
proof -
  from ne obtain i q where q: "ss_mesgsToGrant st = i # q" by (cases "ss_mesgsToGrant st") auto
  have "i \<in> grantable (ss_incompleteMesgs st)" using st q unfolding sender_ok_def by (metis list.set_intros(1))
  then obtain im where im: "map_of (ss_incompleteMesgs st) i = Some im" "0 < im_bytesToGrant im"
    by (auto simp: grantable_def)
  from getSchedPktPrio_ok [OF c] obtain rp where
    rp: "getSchedPktPrio (cfg t) (prioRes t) im = Inr rp" "unat rp < unat (allPrio (cfg t))" by blast
  define gp where "gp = min gprio (ucast rp)"
  have gp: "unat gp < unat (allPrio (cfg t))" using rp(2) by (simp add: gp_def unat_min)
  define st1 where "st1 = st\<lparr>ss_grantTimer := None\<rparr>"
  define t1 where "t1 = set_sender s st1 t"
  have eq: "sendAndScheduleGrant s gprio t =
     (if ss_grantTimer st \<noteq> None \<and> ss_lastGrantPrio st \<le> gp then Inr (0, t)
      else if im_totalBytesInFlight im \<ge> maxOutstandingRecvBytes (cfg t1) then Inr (0, t1)
      else send_grant s gp st1 i im t1)"
    unfolding sendAndScheduleGrant_def m of_option_Some rbind_Inr q list.case im(1) Let_def
      assertion_holds [OF im(2)] rp(1) gp_def [symmetric] st1_def [symmetric] t1_def [symmetric]
    by (rule refl)
  have t1f: "ipSendersMap (rx t1) = al_put s st1 (ipSendersMap (rx t))" "cfg t1 = cfg t" "now t1 = now t"
    "prioRes t1 = prioRes t" "same_env t t1"
    by (simp_all add: t1_def set_sender_def same_env_def)
  have base1: "base_ok t1" using t by (simp add: t1_def base_ok_def set_sender_def sx_inv_def)
  have m1: "map_of (ipSendersMap (rx t1)) s = Some st1" by (simp add: t1f)
  have lift: "granted_step s G st t st' t'" if "granted_step s G st1 t1 st' t'" for st' t'
    using that same_env_trans [OF t1f(5)] unfolding granted_step_def
    by (auto simp: t1f al_put_put st1_def)
  have st1: "sender_ok s (now t1) G st1" using st by (simp add: st1_def t1f)
  consider "ss_grantTimer st \<noteq> None \<and> ss_lastGrantPrio st \<le> gp"
    | "\<not> (ss_grantTimer st \<noteq> None \<and> ss_lastGrantPrio st \<le> gp)" "im_totalBytesInFlight im \<ge> maxOutstandingRecvBytes (cfg t1)"
    | "\<not> (ss_grantTimer st \<noteq> None \<and> ss_lastGrantPrio st \<le> gp)" "\<not> im_totalBytesInFlight im \<ge> maxOutstandingRecvBytes (cfg t1)"
    by blast
  then show ?thesis
  proof cases
    case 1
    then show ?thesis using granted_step_none [OF m st t] unfolding eq if_P [OF 1] by blast
  next
    case 2
    have "granted_step s G st t st1 t1" by (rule lift, rule granted_step_none [OF m1 st1 base1])
    then show ?thesis unfolding eq if_not_P [OF 2(1)] if_P [OF 2(2)] by blast
  next
    case 3
    have a: "ss_grantTimer st1 = None" "ss_mesgsToGrant st1 = i # q"
        "map_of (ss_incompleteMesgs st1) i = Some im" by (simp_all add: st1_def q im(1))
    have b: "rx_cfg_ok (cfg t1) (prioRes t1)" "unat gp < unat (allPrio (cfg t1))" using c gp by (simp_all add: t1f)
    from send_grant_ok [OF m1 a(1) st1 a(2,3) base1 b] obtain v st' t' where
      "send_grant s gp st1 i im t1 = Inr (v, t')" "granted_step s G st1 t1 st' t'" by blast
    with lift show ?thesis unfolding eq if_not_P [OF 3(1)] if_not_P [OF 3(2)] by blast
  qed
qed

end
