(* ===== verification/RxSched.thy ===== *)
theory RxSched
  imports RxSenders
begin

text \<open>
  The receiver as a whole: the senders are consistent, the list ranks exactly those that wait for
  grants, and the handlers of \<open>SchedSenders\<close> keep this, do not fault and end.
\<close>

section \<open>The invariant of the receiver\<close>

type_synonym pendings = "u32 \<Rightarrow> u64 \<Rightarrow> nat multiset"

definition senders_ok :: "simtime \<Rightarrow> pendings \<Rightarrow> sender_map \<Rightarrow> bool" where
  "senders_ok cur G m \<longleftrightarrow> al_wf m \<and>
     (\<forall>s st. map_of m s = Some st \<longrightarrow> sender_ok s cur (G s) st) \<and>
     (\<forall>s s' st st'. s \<noteq> s' \<longrightarrow> map_of m s = Some st \<longrightarrow> map_of m s' = Some st' \<longrightarrow>
        mesg_keys st \<inter> mesg_keys st' = {})"

definition waiting :: "sender_map \<Rightarrow> u32 set" where
  "waiting m = {s. \<exists>st. map_of m s = Some st \<and> ss_mesgsToGrant st \<noteq> []}"

definition rx_core :: "pendings \<Rightarrow> homa \<Rightarrow> bool" where
  "rx_core G t \<longleftrightarrow> base_ok t \<and> rx_cfg_ok (cfg t) (prioRes t) \<and>
     senders_ok (now t) G (ipSendersMap (rx t)) \<and>
     schedPrios (schedSenders (rx t)) = unat (adaptiveSchedPrioLevels (cfg t)) \<and>
     numToGrant (schedSenders (rx t)) = unat (numSendersToKeepGranted (cfg t))"

text \<open>The list ranks the senders \<open>ss\<close>, which are those that wait, without the ones in \<open>X\<close>.\<close>

definition rx_list :: "u32 set \<Rightarrow> u32 list \<Rightarrow> homa \<Rightarrow> bool" where
  "rx_list X ss t \<longleftrightarrow> sched_ok ss (schedSenders (rx t)) \<and> ranked (ipSendersMap (rx t)) ss \<and>
     set ss = waiting (ipSendersMap (rx t)) - X"

text \<open>What the handlers leave alone: everything but the senders, the list and the statistics.\<close>

definition rx_same :: "homa \<Rightarrow> homa \<Rightarrow> bool" where
  "rx_same t t' \<longleftrightarrow> cfg t' = cfg t \<and> prioRes t' = prioRes t \<and> now t' = now t \<and>
     stats_free ((rx t')\<lparr>schedSenders := schedSenders (rx t)\<rparr>) = stats_free (rx t) \<and>
     numToGrant (schedSenders (rx t')) = numToGrant (schedSenders (rx t)) \<and>
     schedPrios (schedSenders (rx t')) = schedPrios (schedSenders (rx t))"

lemma rx_same_refl [simp]: "rx_same t t"
  by (cases "rx t") (simp add: rx_same_def)

lemma rx_same_trans: "rx_same t u \<Longrightarrow> rx_same u v \<Longrightarrow> rx_same t v"
  unfolding rx_same_def stats_free_def by (cases "rx t"; cases "rx u"; cases "rx v") simp

lemma same_env_rx_same: "same_env t u \<Longrightarrow> rx_same t u"
  unfolding rx_same_def same_env_def using stats_free_fields(1) [of "rx u" "rx t"]
  by (cases "rx t"; cases "rx u") (simp add: stats_free_def)

definition total_mesgs :: "homa \<Rightarrow> nat" where
  "total_mesgs t = al_sum (\<lambda>st. length (ss_mesgsToGrant st)) (ipSendersMap (rx t))"

lemma senders_okD:
  assumes "senders_ok cur G m" and "map_of m s = Some st"
  shows "sender_ok s cur (G s) st"
  using assms unfolding senders_ok_def by blast

lemma waiting_top:
  assumes ok: "senders_ok cur G m" and w: "s \<in> waiting m"
  shows "has_top m s" and "\<exists>st im. map_of m s = Some st \<and>
     map_of (ss_incompleteMesgs st) (hd (ss_mesgsToGrant st)) = Some im \<and>
     sender_key m s = mesg_key im \<and> im_msgIdAtSender im = hd (ss_mesgsToGrant st)"
proof -
  from w obtain st where st: "map_of m s = Some st" "ss_mesgsToGrant st \<noteq> []" by (auto simp: waiting_def)
  then obtain i q where q: "ss_mesgsToGrant st = i # q" by (cases "ss_mesgsToGrant st") auto
  have so: "sender_ok s cur (G s) st" by (rule senders_okD [OF ok st(1)])
  then have "i \<in> grantable (ss_incompleteMesgs st)" using q unfolding sender_ok_def by (metis list.set_intros(1))
  then obtain im where im: "map_of (ss_incompleteMesgs st) i = Some im" by (auto simp: grantable_def)
  have top: "top_mesg st = Some im" by (simp add: top_mesg_def q im)
  show "has_top m s" using st top by (auto simp: has_top_def)
  have "im_msgIdAtSender im = i" using so im unfolding sender_ok_def in_ids_ok_def by blast
  then show "\<exists>st im. map_of m s = Some st \<and>
     map_of (ss_incompleteMesgs st) (hd (ss_mesgsToGrant st)) = Some im \<and>
     sender_key m s = mesg_key im \<and> im_msgIdAtSender im = hd (ss_mesgsToGrant st)"
    using st(1) q im top by (auto simp: sender_key_def)
qed

lemma sender_key_ikey:
  assumes "map_of m s = Some st" and "ss_mesgsToGrant st \<noteq> []" and "senders_ok cur G m"
  shows "sender_key m s = ikey (ss_incompleteMesgs st) (hd (ss_mesgsToGrant st))"
  using waiting_top(2) [OF assms(3), of s] assms(1,2) by (auto simp: waiting_def ikey_def)

lemma sender_keys_distinct:
  assumes ok: "senders_ok cur G m" and "s \<in> waiting m" and "s' \<in> waiting m" and ne: "s \<noteq> s'"
  shows "sender_key m s \<noteq> sender_key m s'"
proof -
  from waiting_top(2) [OF ok assms(2)] obtain st im where
    a: "map_of m s = Some st" "map_of (ss_incompleteMesgs st) (hd (ss_mesgsToGrant st)) = Some im"
      "sender_key m s = mesg_key im" by blast
  from waiting_top(2) [OF ok assms(3)] obtain st' im' where
    b: "map_of m s' = Some st'" "map_of (ss_incompleteMesgs st') (hd (ss_mesgsToGrant st')) = Some im'"
      "sender_key m s' = mesg_key im'" by blast
  have "mesg_keys st \<inter> mesg_keys st' = {}" using ok ne a(1) b(1) unfolding senders_ok_def by blast
  moreover have "static_key im \<in> mesg_keys st" using a(2) by (auto simp: mesg_keys_def ran_def)
  moreover have "static_key im' \<in> mesg_keys st'" using b(2) by (auto simp: mesg_keys_def ran_def)
  ultimately have "static_key im \<noteq> static_key im'" by auto
  then show ?thesis unfolding a(3) b(3) by (auto simp: mesg_key_def static_key_def)
qed

lemma senders_ok_put:
  assumes ok: "senders_ok cur G m" and st': "sender_ok s cur (G' s) st'"
    and G': "\<And>s'. s' \<noteq> s \<Longrightarrow> G' s' = G s'"
    and keys: "\<And>s' st2. s' \<noteq> s \<Longrightarrow> map_of m s' = Some st2 \<Longrightarrow> mesg_keys st' \<inter> mesg_keys st2 = {}"
  shows "senders_ok cur G' (al_put s st' m)"
proof -
  have each: "sender_ok a cur (G' a) sa" if "map_of (al_put s st' m) a = Some sa" for a sa
    using that ok st' G' [of a] unfolding senders_ok_def by (cases "a = s") auto
  have "mesg_keys sa \<inter> mesg_keys sb = {}"
    if ab: "a \<noteq> b" "map_of (al_put s st' m) a = Some sa" "map_of (al_put s st' m) b = Some sb" for a b sa sb
  proof -
    consider "a = s" | "b = s" | "a \<noteq> s" "b \<noteq> s" by blast
    then show ?thesis
    proof cases
      case 1
      with ab keys [of b sb] show ?thesis by auto
    next
      case 2
      with ab keys [of a sa] show ?thesis by auto
    next
      case 3
      then show ?thesis using ok ab unfolding senders_ok_def by simp
    qed
  qed
  with each ok show ?thesis unfolding senders_ok_def by (simp add: al_wf_put)
qed

lemma senders_ok_put_subset:
  assumes "senders_ok cur G m" and "map_of m s = Some st" and "sender_ok s cur (G s) st'"
    and "mesg_keys st' \<subseteq> mesg_keys st"
  shows "senders_ok cur G (al_put s st' m)"
proof (rule senders_ok_put [where G = G])
  fix s' st2 assume "s' \<noteq> s" and "map_of m s' = Some st2"
  then have "mesg_keys st \<inter> mesg_keys st2 = {}" using assms(1,2) unfolding senders_ok_def by blast
  with assms(4) show "mesg_keys st' \<inter> mesg_keys st2 = {}" by blast
qed (use assms in simp_all)

lemma waiting_put: "waiting (al_put s st m) =
    (if ss_mesgsToGrant st \<noteq> [] then insert s (waiting m) else waiting m - {s})"
  by (auto simp: waiting_def)

text \<open>Changes of one sender do not matter to the ranking of the others.\<close>

lemma ranked_put: "s \<notin> set ss \<Longrightarrow> ranked (al_put s st m) ss = ranked m ss"
  by (rule ranked_cong) (auto simp: has_top_def sender_key_def)

lemma place_put: "s \<notin> set ss \<Longrightarrow> sender_key (al_put s st m) s = sender_key m s \<Longrightarrow>
   place (al_put s st m) ss s = place m ss s"
proof -
  assume s: "s \<notin> set ss" and k: "sender_key (al_put s st m) s = sender_key m s"
  have "takeWhile (\<lambda>y. \<not> sender_key (al_put s st m) s < sender_key (al_put s st m) y) ss =
      takeWhile (\<lambda>y. \<not> sender_key m s < sender_key m y) ss"
    by (intro takeWhile_cong refl) (use s k in \<open>auto simp: sender_key_def\<close>)
  then show ?thesis by (simp add: place_def upper_bound_def)
qed

lemma sender_key_lastIdx [simp]:
  "map_of m s = Some st \<Longrightarrow> sender_key (al_put s (st\<lparr>ss_lastIdx := k\<rparr>) m) s' = sender_key m s'"
  by (cases "s' = s") (simp_all add: sender_key_def top_mesg_def split: list.split)

text \<open>And the handlers that grant never make a sender wait that did not.\<close>

definition rx_step :: "homa \<Rightarrow> homa \<Rightarrow> bool" where
  "rx_step t t' \<longleftrightarrow> rx_same t t' \<and> waiting (ipSendersMap (rx t')) \<subseteq> waiting (ipSendersMap (rx t))"

lemma rx_step_refl [simp]: "rx_step t t"
  by (simp add: rx_step_def)

lemma rx_step_trans: "rx_step t u \<Longrightarrow> rx_step u v \<Longrightarrow> rx_step t v"
  unfolding rx_step_def using rx_same_trans by blast

lemma rx_step_same: "rx_step t t' \<Longrightarrow> rx_same t t'"
  by (simp add: rx_step_def)

lemma rx_stepI: "rx_same t t' \<Longrightarrow> waiting (ipSendersMap (rx t')) \<subseteq> waiting (ipSendersMap (rx t)) \<Longrightarrow> rx_step t t'"
  by (simp add: rx_step_def)

section \<open>The list operations on the receiver\<close>

definition rx_out :: "pendings \<Rightarrow> u32 \<Rightarrow> u32 list \<Rightarrow> homa \<Rightarrow> bool" where
  "rx_out G s ss t \<longleftrightarrow> rx_core G t \<and> rx_list {s} ss t \<and> s \<in> dom (map_of (ipSendersMap (rx t)))"

text \<open>The state of the scheduler for a sender that is out of the list.\<close>

definition cur_state :: "u32 list \<Rightarrow> u32 \<Rightarrow> homa \<Rightarrow> sched_state" where
  "cur_state ss s t =
     (let l = schedSenders (rx t); m = ipSendersMap (rx t); h = new_head m ss s l
      in if s \<in> waiting m
         then setVar (numToGrant l) (int h) (int (length ss + 1)) (Some s) (int (h + place m ss s))
         else setVar (numToGrant l) (int (headIdx l)) (int (length ss)) (Some s) (-1))"

lemma rx_insPoint_ok:
  assumes "rx_out G s ss t"
  shows "\<exists>i h n. rx_insPoint s t = Inr (i, h, n) \<and>
     setVar (numToGrant (schedSenders (rx t))) h n (Some s) i = cur_state ss s t"
proof -
  let ?m = "ipSendersMap (rx t)" and ?l = "schedSenders (rx t)"
  have so: "senders_ok (now t) G ?m" and sch: "sched_ok ss ?l" and r: "ranked ?m ss"
    using assms by (auto simp: rx_out_def rx_core_def rx_list_def)
  show ?thesis
  proof (cases "s \<in> waiting ?m")
    case True
    from insPoint_ok [OF sch r waiting_top(1) [OF so True]] show ?thesis
      using True by (simp add: rx_insPoint_def cur_state_def Let_def)
  next
    case False
    from assms obtain st where st: "map_of ?m s = Some st" by (auto simp: rx_out_def)
    with False have "ss_mesgsToGrant st = []" by (auto simp: waiting_def)
    from insPoint_idle [OF st this, of ?l] show ?thesis
      using False sch by (simp add: rx_insPoint_def cur_state_def Let_def sched_ok_def)
  qed
qed

lemma rx_core_list:
  "rx_core G t \<Longrightarrow> numToGrant l = numToGrant (schedSenders (rx t)) \<Longrightarrow>
   schedPrios l = schedPrios (schedSenders (rx t)) \<Longrightarrow> rx_core G (t\<lparr>rx := (rx t)\<lparr>schedSenders := l\<rparr>\<rparr>)"
  by (simp add: rx_core_def base_ok_def sx_inv_def vecs_ok_def)

lemma rx_same_list:
  "numToGrant l = numToGrant (schedSenders (rx t)) \<Longrightarrow> schedPrios l = schedPrios (schedSenders (rx t)) \<Longrightarrow>
   rx_same t (t\<lparr>rx := (rx t)\<lparr>ipSendersMap := m, schedSenders := l\<rparr>\<rparr>)"
  by (cases "rx t") (simp add: rx_same_def stats_free_def)

lemma rx_insert_ok:
  assumes out: "rx_out G s ss t" and w: "s \<in> waiting (ipSendersMap (rx t))"
  shows "\<exists>t'. rx_insert (Some s) t = Inr t' \<and> rx_core G t' \<and>
     rx_list {} (insert_at (place (ipSendersMap (rx t)) ss s) s ss) t' \<and> rx_step t t' \<and>
     ipSendersMap (rx t') = ipSendersMap (rx t) \<and>
     headIdx (schedSenders (rx t')) = new_head (ipSendersMap (rx t)) ss s (schedSenders (rx t))"
proof -
  let ?m = "ipSendersMap (rx t)" and ?l = "schedSenders (rx t)"
  have core: "rx_core G t" and so: "senders_ok (now t) G ?m" and sch: "sched_ok ss ?l" and r: "ranked ?m ss"
    and ss: "set ss = waiting ?m - {s}"
    using out by (auto simp: rx_out_def rx_core_def rx_list_def)
  note top = waiting_top(1) [OF so w]
  from sched_insert_ok [OF sch r top] obtain l' where
    l': "sched_insert s ?m ?l = Inr l'" "sched_ok (insert_at (place ?m ss s) s ss) l'"
      "headIdx l' = new_head ?m ss s ?l" "numToGrant l' = numToGrant ?l" "schedPrios l' = schedPrios ?l"
    by blast
  have "ranked ?m (insert_at (place ?m ss s) s ss)"
  proof (rule ranked_insert_at [OF r top], intro ballI)
    fix x assume "x \<in> set ss"
    then have "x \<in> waiting ?m" and "x \<noteq> s" using ss by auto
    then show "sender_key ?m x \<noteq> sender_key ?m s" using sender_keys_distinct [OF so _ w] by blast
  qed
  moreover have "set (insert_at (place ?m ss s) s ss) = waiting ?m" using ss w by auto
  ultimately show ?thesis
    using l' rx_core_list [OF core l'(4,5)] rx_stepI [OF rx_same_list [OF l'(4,5), of ?m]]
    by (intro exI [of _ "t\<lparr>rx := (rx t)\<lparr>schedSenders := l'\<rparr>\<rparr>"]) (simp add: rx_insert_def rx_list_def)
qed

text \<open>Taking a listed sender out, by name or by index.\<close>

lemma rx_taken:
  assumes core: "rx_core G t" and rl: "rx_list {} ss t" and k: "k < length ss"
    and st: "map_of (ipSendersMap (rx t)) (ss ! k) = Some st"
  defines "l' \<equiv> drop_entry (headIdx (schedSenders (rx t)) + k) (schedSenders (rx t))"
    and "m' \<equiv> al_put (ss ! k) (st\<lparr>ss_lastIdx := headIdx (schedSenders (rx t)) + k\<rparr>) (ipSendersMap (rx t))"
  defines "t' \<equiv> t\<lparr>rx := (rx t)\<lparr>ipSendersMap := m', schedSenders := l'\<rparr>\<rparr>"
  shows "rx_out G (ss ! k) (take k ss @ drop (Suc k) ss) t' \<and> rx_step t t' \<and>
     waiting (ipSendersMap (rx t')) = waiting (ipSendersMap (rx t)) \<and>
     total_mesgs t' = total_mesgs t"
proof -
  let ?m = "ipSendersMap (rx t)" and ?l = "schedSenders (rx t)" and ?s = "ss ! k"
  let ?rest = "take k ss @ drop (Suc k) ss"
  have so: "senders_ok (now t) G ?m" and sch: "sched_ok ss ?l" and r: "ranked ?m ss" and ss: "set ss = waiting ?m"
    using core rl by (auto simp: rx_core_def rx_list_def)
  have d: "distinct ss" using r by (rule ranked_distinct)
  have sk: "ss = take k ss @ ?s # drop (Suc k) ss" using k by (rule id_take_nth_drop)
  have "distinct (take k ss @ ?s # drop (Suc k) ss)" using d by (simp only: sk [symmetric])
  then have s: "?s \<notin> set ?rest" by auto
  have "set ss = insert ?s (set ?rest)" by (subst sk) auto
  with s ss have rest: "set ?rest = waiting ?m - {?s}" by auto
  have w: "?s \<in> waiting ?m" using k ss by (metis nth_mem)
  have same: "numToGrant l' = numToGrant ?l" "schedPrios l' = schedPrios ?l"
    by (simp_all add: l'_def drop_entry_def Let_def)
  have sok: "sender_ok ?s (now t) (G ?s) (st\<lparr>ss_lastIdx := headIdx ?l + k\<rparr>)"
    using senders_okD [OF so st] by simp
  have so': "senders_ok (now t) G m'" unfolding m'_def
    by (rule senders_ok_put_subset [OF so st sok]) simp
  have core': "rx_core G t'"
    using core so' same by (simp add: rx_core_def t'_def base_ok_def sx_inv_def vecs_ok_def)
  have wt: "waiting m' = waiting ?m" using w st unfolding m'_def waiting_put by (auto simp: waiting_def)
  have rk: "ranked m' ?rest" unfolding m'_def by (simp only: ranked_put [OF s] ranked_delete [OF r])
  have "sched_ok ?rest l'" unfolding l'_def by (rule drop_entry_ok [OF sch k])
  then have "rx_list {?s} ?rest t'" using rk rest wt by (simp add: rx_list_def t'_def)
  moreover have "?s \<in> dom (map_of m')" by (simp add: m'_def)
  moreover have "rx_step t t'"
    by (rule rx_stepI, unfold t'_def, rule rx_same_list [OF same]) (use wt in simp)
  moreover have "total_mesgs t' = total_mesgs t"
    using al_sum_put [OF st, of "\<lambda>st. length (ss_mesgsToGrant st)" "st\<lparr>ss_lastIdx := headIdx ?l + k\<rparr>"]
    by (simp add: total_mesgs_def t'_def m'_def)
  ultimately show ?thesis using core' wt by (simp add: rx_out_def t'_def)
qed

lemma rx_removeAt_ok:
  assumes core: "rx_core G t" and rl: "rx_list {} ss t" and k: "k < length ss"
    and i: "i = int (headIdx (schedSenders (rx t)) + k)"
  shows "\<exists>st t'. rx_removeAt i t = Inr (Some (ss ! k), t') \<and>
     map_of (ipSendersMap (rx t)) (ss ! k) = Some st \<and>
     rx_out G (ss ! k) (take k ss @ drop (Suc k) ss) t' \<and> rx_step t t' \<and>
     waiting (ipSendersMap (rx t')) = waiting (ipSendersMap (rx t)) \<and> total_mesgs t' = total_mesgs t \<and>
     ipSendersMap (rx t') = al_put (ss ! k) (st\<lparr>ss_lastIdx := headIdx (schedSenders (rx t)) + k\<rparr>)
       (ipSendersMap (rx t)) \<and>
     schedSenders (rx t') = drop_entry (headIdx (schedSenders (rx t)) + k) (schedSenders (rx t))"
proof -
  have "ss ! k \<in> waiting (ipSendersMap (rx t))" using rl k by (metis rx_list_def Diff_empty nth_mem)
  then obtain st where st: "map_of (ipSendersMap (rx t)) (ss ! k) = Some st" by (auto simp: waiting_def)
  have sch: "sched_ok ss (schedSenders (rx t))" using rl by (simp add: rx_list_def)
  show ?thesis
    using sched_removeAt_ok [OF sch k st] rx_taken [OF core rl k st] st unfolding i
    by (simp add: rx_removeAt_def)
qed

lemma rx_remove_ok:
  assumes core: "rx_core G t" and rl: "rx_list {} ss t" and st: "map_of (ipSendersMap (rx t)) s = Some st"
  shows "\<exists>i st' ss' t'. rx_remove s t = Inr (i, t') \<and> rx_out G s ss' t' \<and> rx_step t t' \<and>
     map_of (ipSendersMap (rx t')) s = Some st' \<and> ss_mesgsToGrant st' = ss_mesgsToGrant st \<and>
     ss_incompleteMesgs st' = ss_incompleteMesgs st \<and>
     waiting (ipSendersMap (rx t')) = waiting (ipSendersMap (rx t)) \<and>
     (\<forall>s'. s' \<noteq> s \<longrightarrow> map_of (ipSendersMap (rx t')) s' = map_of (ipSendersMap (rx t)) s') \<and>
     (if ss_mesgsToGrant st = [] then i = -1 else int (headIdx (schedSenders (rx t))) \<le> i)"
proof (cases "ss_mesgsToGrant st = []")
  case True
  have sch: "sched_ok ss (schedSenders (rx t))" and r: "ranked (ipSendersMap (rx t)) ss"
    and ss: "set ss = waiting (ipSendersMap (rx t))" using rl by (simp_all add: rx_list_def)
  from sched_remove_idle [OF sch st True] obtain l' where
    l': "sched_remove s (ipSendersMap (rx t)) (schedSenders (rx t)) = Inr (-1, ipSendersMap (rx t), l')"
      "sched_ok ss l'" "numToGrant l' = numToGrant (schedSenders (rx t))"
      "schedPrios l' = schedPrios (schedSenders (rx t))" by blast
  let ?t' = "t\<lparr>rx := (rx t)\<lparr>ipSendersMap := ipSendersMap (rx t), schedSenders := l'\<rparr>\<rparr>"
  have "s \<notin> waiting (ipSendersMap (rx t))" using st True by (auto simp: waiting_def)
  then have "rx_list {s} ss ?t'" using l'(2) r ss by (simp add: rx_list_def)
  moreover have "rx_core G ?t'" using rx_core_list [OF core l'(3,4)] by simp
  moreover have "rx_step t ?t'" by (rule rx_stepI [OF rx_same_list [OF l'(3,4)]]) simp
  ultimately have "rx_out G s ss ?t'" using st by (simp add: rx_out_def domI)
  moreover have "rx_remove s t = Inr (-1, ?t')" by (simp add: rx_remove_def l'(1))
  moreover have m: "ipSendersMap (rx ?t') = ipSendersMap (rx t)" by simp
  moreover have "rx_step t ?t'" by (rule rx_stepI [OF rx_same_list [OF l'(3,4)]]) simp
  ultimately show ?thesis unfolding if_P [OF True] using st by (metis m)
next
  case False
  have sch: "sched_ok ss (schedSenders (rx t))" and r: "ranked (ipSendersMap (rx t)) ss"
    and ss: "set ss = waiting (ipSendersMap (rx t))" using rl by (simp_all add: rx_list_def)
  have "s \<in> set ss" using st False unfolding ss by (auto simp: waiting_def)
  then obtain k where k: "k < length ss" "ss ! k = s" by (metis in_set_conv_nth)
  let ?i = "headIdx (schedSenders (rx t)) + k"
  let ?st' = "st\<lparr>ss_lastIdx := ?i\<rparr>"
  let ?t' = "t\<lparr>rx := (rx t)\<lparr>ipSendersMap := al_put s ?st' (ipSendersMap (rx t)),
      schedSenders := drop_entry ?i (schedSenders (rx t))\<rparr>\<rparr>"
  note taken = rx_taken [OF core rl k(1), unfolded k(2), OF st]
  have rem: "rx_remove s t = Inr (int ?i, ?t')"
    by (simp add: rx_remove_def sched_remove_ok [OF sch r k st])
  have m: "ipSendersMap (rx ?t') = al_put s ?st' (ipSendersMap (rx t))" by simp
  show ?thesis unfolding if_not_P [OF False]
  proof (intro exI conjI)
    show "rx_remove s t = Inr (int ?i, ?t')" by (rule rem)
    show "map_of (ipSendersMap (rx ?t')) s = Some ?st'" by (simp only: m map_of_al_put fun_upd_same)
    show "\<forall>s'. s' \<noteq> s \<longrightarrow> map_of (ipSendersMap (rx ?t')) s' = map_of (ipSendersMap (rx t)) s'"
      by (simp add: m)
    show "rx_out G s (take k ss @ drop (Suc k) ss) ?t'" using taken by blast
    show "rx_step t ?t'" using taken by blast
    show "waiting (ipSendersMap (rx ?t')) = waiting (ipSendersMap (rx t))" using taken by blast
  qed simp_all
qed


section \<open>Granting to a sender that is out of the list\<close>

text \<open>
  After the grant the sender ranks no worse, or one message less waits for grants.
\<close>

lemma place_mono:
  assumes "ranked m ss" and "sender_key m s' \<le> sender_key m s"
  shows "place m ss s' \<le> place m ss s"
  unfolding place_def
  by (rule sender_order.upper_bound_mono) (use assms in \<open>auto simp: ranked_def\<close>)

lemma length_takeWhile_mono:
  "(\<And>x. x \<in> set xs \<Longrightarrow> P x \<Longrightarrow> Q x) \<Longrightarrow> length (takeWhile P xs) \<le> length (takeWhile Q xs)"
  by (induction xs) auto

lemma place_put_mono:
  assumes r: "ranked m ss" and s: "s \<notin> set ss" and k: "sender_key (al_put s st m) s \<le> sender_key m s"
  shows "place (al_put s st m) ss s \<le> place m ss s"
proof -
  let ?m = "al_put s st m"
  have key: "y \<in> set ss \<Longrightarrow> sender_key ?m y = sender_key m y" for y
    using s by (auto simp: sender_key_def)
  have "takeWhile (\<lambda>y. \<not> sender_key ?m s < sender_key ?m y) ss =
      takeWhile (\<lambda>y. \<not> sender_key ?m s < sender_key m y) ss"
    by (intro takeWhile_cong refl) (simp only: key)
  moreover have "length (takeWhile (\<lambda>y. \<not> sender_key ?m s < sender_key m y) ss) \<le>
      length (takeWhile (\<lambda>y. \<not> sender_key m s < sender_key m y) ss)"
    by (rule length_takeWhile_mono) (use k in \<open>blast intro: order.strict_trans2 order.strict_trans1\<close>)
  ultimately show ?thesis by (simp only: place_def upper_bound_def)
qed

lemma grant_to_ok:
  assumes out: "rx_out G s ss t" and w: "s \<in> waiting (ipSendersMap (rx t))" and old: "st_s old = Some s"
  shows "\<exists>t'. grant_to old t = Inr (cur_state ss s t', t') \<and> rx_out G s ss t' \<and> rx_step t t' \<and>
     schedSenders (rx t') = schedSenders (rx t) \<and>
     ss_lastIdx (the (map_of (ipSendersMap (rx t')) s)) = ss_lastIdx (the (map_of (ipSendersMap (rx t)) s)) \<and>
     (s \<in> waiting (ipSendersMap (rx t')) \<and> total_mesgs t' = total_mesgs t \<and>
        place (ipSendersMap (rx t')) ss s \<le> place (ipSendersMap (rx t)) ss s \<or>
      total_mesgs t' < total_mesgs t)"
proof -
  let ?m = "ipSendersMap (rx t)"
  have core: "rx_core G t" and rl: "rx_list {s} ss t" using out by (simp_all add: rx_out_def)
  have so: "senders_ok (now t) G ?m" and b: "base_ok t" and c: "rx_cfg_ok (cfg t) (prioRes t)"
    using core by (simp_all add: rx_core_def)
  from w obtain st where st: "map_of ?m s = Some st" "ss_mesgsToGrant st \<noteq> []" by (auto simp: waiting_def)
  obtain v st' t' where
    g: "sendAndScheduleGrant s (ucast (getPrioForMesg (cfg t) old)) t = Inr (v, t')"
      "granted_step s (G s) st t st' t'"
    using sendAndScheduleGrant_ok [OF st(1) senders_okD [OF so st(1)] st(2) b c] by blast
  have m': "ipSendersMap (rx t') = al_put s st' ?m" and so': "sender_ok s (now t) (G s) st'"
    and b': "base_ok t'" and env: "same_env t t'" and keys: "mesg_keys st' \<subseteq> mesg_keys st"
    and idx: "ss_lastIdx st' = ss_lastIdx st"
    and cases: "ss_mesgsToGrant st' = ss_mesgsToGrant st \<and>
        ikey (ss_incompleteMesgs st') (hd (ss_mesgsToGrant st)) \<le>
          ikey (ss_incompleteMesgs st) (hd (ss_mesgsToGrant st)) \<or>
      ss_mesgsToGrant st' = tl (ss_mesgsToGrant st)"
    using g(2) unfolding granted_step_def by - (elim conjE, assumption)+
  have same: "cfg t' = cfg t" "prioRes t' = prioRes t" "now t' = now t" using env by (simp_all add: same_env_def)
  have l: "schedSenders (rx t') = schedSenders (rx t)"
    by (rule stats_free_fields(1)) (use env in \<open>simp add: same_env_def\<close>)
  have sok: "senders_ok (now t) G (al_put s st' ?m)" by (rule senders_ok_put_subset [OF so st(1) so' keys])
  have core': "rx_core G t'" using core sok b' by (simp add: rx_core_def same l m')
  have ss: "set ss = waiting ?m - {s}" and r: "ranked ?m ss" using rl by (simp_all add: rx_list_def)
  have ns: "s \<notin> set ss" by (simp add: ss)
  have "waiting (al_put s st' ?m) - {s} = waiting ?m - {s}" by (auto simp: waiting_put)
  then have "rx_list {s} ss t'" using rl by (simp add: rx_list_def l m' ranked_put [OF ns])
  then have out': "rx_out G s ss t'" using core' by (simp add: rx_out_def m')
  obtain i h n where ip: "rx_insPoint s t' = Inr (i, h, n)"
    "setVar (numToGrant (schedSenders (rx t'))) h n (Some s) i = cur_state ss s t'"
    using rx_insPoint_ok [OF out'] by blast
  have gt: "grant_to old t = Inr (cur_state ss s t', t')"
    unfolding grant_to_def old of_option_Some rbind_Inr g(1) prod.case ip by (rule refl)
  have "s \<in> waiting (ipSendersMap (rx t')) \<and> total_mesgs t' = total_mesgs t \<and>
        place (ipSendersMap (rx t')) ss s \<le> place ?m ss s \<or> total_mesgs t' < total_mesgs t"
    using cases
  proof
    assume a: "ss_mesgsToGrant st' = ss_mesgsToGrant st \<and>
        ikey (ss_incompleteMesgs st') (hd (ss_mesgsToGrant st)) \<le>
          ikey (ss_incompleteMesgs st) (hd (ss_mesgsToGrant st))"
    have ps: "map_of (al_put s st' ?m) s = Some st'" by simp
    have "ss_mesgsToGrant st' \<noteq> []" using a st(2) by simp
    from sender_key_ikey [OF ps this sok] conjunct1 [OF a]
    have k1: "sender_key (al_put s st' ?m) s = ikey (ss_incompleteMesgs st') (hd (ss_mesgsToGrant st))"
      by (simp only:)
    have "sender_key (al_put s st' ?m) s \<le> sender_key ?m s"
      unfolding k1 sender_key_ikey [OF st so] by (rule conjunct2 [OF a])
    from place_put_mono [OF r ns this] have "place (ipSendersMap (rx t')) ss s \<le> place ?m ss s"
      by (simp only: m')
    moreover have "total_mesgs t' = total_mesgs t"
      using al_sum_put [OF st(1), of "\<lambda>st. length (ss_mesgsToGrant st)" st'] a
      by (simp add: total_mesgs_def m')
    moreover have "s \<in> waiting (ipSendersMap (rx t'))" using a st(2) by (simp add: m' waiting_put)
    ultimately show ?thesis by blast
  next
    assume a: "ss_mesgsToGrant st' = tl (ss_mesgsToGrant st)"
    have "length (ss_mesgsToGrant st') < length (ss_mesgsToGrant st)" using a st(2) by simp
    then have "total_mesgs t' < total_mesgs t"
      using al_sum_put [OF st(1), of "\<lambda>st. length (ss_mesgsToGrant st)" st']
      by (simp add: total_mesgs_def m')
    then show ?thesis by blast
  qed
  moreover have "ss_lastIdx (the (map_of (ipSendersMap (rx t')) s)) = ss_lastIdx (the (map_of ?m s))"
    by (simp add: m' st(1) idx)
  moreover have "rx_step t t'"
    by (rule rx_stepI [OF same_env_rx_same [OF env]]) (use w in \<open>auto simp: m' waiting_put\<close>)
  ultimately show ?thesis using gt out' l by blast
qed


section \<open>After a grant\<close>

definition rx_ready :: "pendings \<Rightarrow> homa \<Rightarrow> bool" where
  "rx_ready G t \<longleftrightarrow> rx_core G t \<and> (\<exists>ss. rx_list {} ss t)"

text \<open>
  What \<open>handleGrantSentEvent\<close> is called with: the sender was among the granted ones, is still if it
  is at the same place, and if another one is to be granted instead, then a message is gone.
\<close>

definition grant_sent_pre :: "nat \<Rightarrow> sched_state \<Rightarrow> u32 \<Rightarrow> u32 list \<Rightarrow> homa \<Rightarrow> bool" where
  "grant_sent_pre fuel old s ss t \<longleftrightarrow>
     (let cur = cur_state ss s t; n = int (numToGrant (schedSenders (rx t)))
      in st_numToGrant old = n \<and> 0 \<le> st_headIdx old \<and> st_headIdx old \<le> st_sInd old \<and>
         st_sInd old < st_headIdx old + n \<and>
         (st_sInd old = st_sInd cur \<longrightarrow> st_sInd cur < st_headIdx cur + n) \<and> 0 < fuel \<and>
         (st_sInd cur < 0 \<or> st_headIdx cur + n \<le> st_sInd cur \<longrightarrow> Suc (Suc (total_mesgs t)) \<le> fuel))"

lemma cur_state_waiting:
  fixes ss :: "u32 list"
  assumes "s \<in> waiting (ipSendersMap (rx t))"
  defines "h \<equiv> new_head (ipSendersMap (rx t)) ss s (schedSenders (rx t))"
  shows "cur_state ss s t = setVar (numToGrant (schedSenders (rx t))) (int h) (int (length ss + 1)) (Some s)
    (int (h + place (ipSendersMap (rx t)) ss s))"
  using assms by (simp add: cur_state_def Let_def)

lemma cur_state_idle:
  assumes "s \<notin> waiting (ipSendersMap (rx t))"
  shows "cur_state ss s t = setVar (numToGrant (schedSenders (rx t))) (int (headIdx (schedSenders (rx t))))
    (int (length ss)) (Some s) (-1)"
  using assms by (simp add: cur_state_def Let_def)

lemma setVar_fields [simp]:
  "st_numToGrant (setVar a b c d e) = int a" "st_headIdx (setVar a b c d e) = b"
  "st_numSenders (setVar a b c d e) = c" "st_s (setVar a b c d e) = d" "st_sInd (setVar a b c d e) = e"
  by (simp_all add: setVar_def)

text \<open>The condition on the place carries over from the head before the grant.\<close>

lemma grant_sent_preI:
  assumes g: "s \<in> waiting (ipSendersMap (rx t')) \<and> total_mesgs t' = tm \<and>
        place (ipSendersMap (rx t')) ss s \<le> p \<or> total_mesgs t' < tm"
    and p: "p < numToGrant (schedSenders (rx t'))"
    and old: "st_numToGrant old = int (numToGrant (schedSenders (rx t')))"
      "st_headIdx old = int h" "st_sInd old = int (h + p)"
    and h: "place (ipSendersMap (rx t')) ss s \<noteq> 0 \<Longrightarrow>
        h \<le> new_head (ipSendersMap (rx t')) ss s (schedSenders (rx t'))"
    and f: "tm < fuel"
  shows "grant_sent_pre fuel old s ss t'"
proof (cases "s \<in> waiting (ipSendersMap (rx t'))")
  case True
  have "place (ipSendersMap (rx t')) ss s < numToGrant (schedSenders (rx t'))"
    if "int (h + p) = int (new_head (ipSendersMap (rx t')) ss s (schedSenders (rx t')) +
          place (ipSendersMap (rx t')) ss s)"
    using that h p by (cases "place (ipSendersMap (rx t')) ss s = 0") linarith+
  then show ?thesis unfolding grant_sent_pre_def Let_def cur_state_waiting [OF True] setVar_fields old
    using g f p by auto
next
  case False
  then show ?thesis unfolding grant_sent_pre_def Let_def cur_state_idle [OF False] setVar_fields old
    using g f p by auto
qed

lemma regrant_ok:
  assumes core: "rx_core G t" and rl: "rx_list {} ss t" and n: "numToGrant (schedSenders (rx t)) \<le> length ss"
    and c: "st_headIdx c = int (headIdx (schedSenders (rx t)))"
      "st_numToGrant c = int (numToGrant (schedSenders (rx t)))"
    and ind: "ind = st_headIdx c + st_numToGrant c - 1"
  shows "\<exists>s t2 ss3 t3. rx_removeAt ind t = Inr (Some s, t2) \<and>
     grant_to (c\<lparr>st_s := Some s, st_sInd := ind\<rparr>) t2 = Inr (cur_state ss3 s t3, t3) \<and>
     rx_out G s ss3 t3 \<and> rx_step t t3 \<and> total_mesgs t2 = total_mesgs t \<and>
     (\<forall>fuel > total_mesgs t. grant_sent_pre fuel (c\<lparr>st_s := Some s, st_sInd := ind\<rparr>) s ss3 t3)"
proof -
  let ?l = "schedSenders (rx t)"
  define k where "k = numToGrant ?l - 1"
  have sch: "sched_ok ss ?l" and r: "ranked (ipSendersMap (rx t)) ss" and ss: "set ss = waiting (ipSendersMap (rx t))"
    using rl by (simp_all add: rx_list_def)
  have N: "0 < numToGrant ?l" using sch by (simp add: sched_ok_def)
  have k: "k < length ss" using n N by (simp add: k_def)
  have i: "ind = int (headIdx ?l + k)" using N by (simp add: ind c k_def)
  let ?s = "ss ! k" and ?rest = "take k ss @ drop (Suc k) ss"
  obtain st t2 where
    t2: "rx_removeAt ind t = Inr (Some ?s, t2)" "map_of (ipSendersMap (rx t)) ?s = Some st"
      "rx_out G ?s ?rest t2" "rx_step t t2" "waiting (ipSendersMap (rx t2)) = waiting (ipSendersMap (rx t))"
      "total_mesgs t2 = total_mesgs t"
      "ipSendersMap (rx t2) = al_put ?s (st\<lparr>ss_lastIdx := headIdx ?l + k\<rparr>) (ipSendersMap (rx t))"
      "schedSenders (rx t2) = drop_entry (headIdx ?l + k) ?l"
    using rx_removeAt_ok [OF core rl k i] by blast
  have "?s \<in> set ss" using k by simp
  then have w: "?s \<in> waiting (ipSendersMap (rx t2))" unfolding t2(5) ss .
  define old where "old = c\<lparr>st_s := Some ?s, st_sInd := ind\<rparr>"
  have os: "st_s old = Some ?s" by (simp add: old_def)
  obtain t3 where
    t3: "grant_to old t2 = Inr (cur_state ?rest ?s t3, t3)" "rx_out G ?s ?rest t3" "rx_step t2 t3"
      "schedSenders (rx t3) = schedSenders (rx t2)"
      "?s \<in> waiting (ipSendersMap (rx t3)) \<and> total_mesgs t3 = total_mesgs t2 \<and>
         place (ipSendersMap (rx t3)) ?rest ?s \<le> place (ipSendersMap (rx t2)) ?rest ?s \<or>
       total_mesgs t3 < total_mesgs t2"
    using grant_to_ok [OF t2(3) w os] by blast
  have l3: "numToGrant (schedSenders (rx t3)) = numToGrant ?l" "schedPrios (schedSenders (rx t3)) = schedPrios ?l"
    "headIdx ?l \<le> headIdx (schedSenders (rx t3))"
    by (simp_all add: t3(4) t2(8) drop_entry_def Let_def)
  have d: "distinct ss" using r by (rule ranked_distinct)
  have ns: "?s \<notin> set ?rest" using t2(3) by (simp add: rx_out_def rx_list_def)
  have "place (ipSendersMap (rx t2)) ?rest ?s = place (ipSendersMap (rx t)) ?rest ?s"
    unfolding t2(7) by (rule place_put [OF ns]) (rule sender_key_lastIdx [OF t2(2)])
  also have "\<dots> = k" unfolding place_def
    by (rule sender_order.upper_bound_delete) (use r k in \<open>simp_all add: ranked_def\<close>)
  finally have p: "place (ipSendersMap (rx t2)) ?rest ?s = k" .
  have len: "Suc (length ?rest) = length ss" using k by simp
  have slots: "headIdx ?l + min (length ss) (min (numToGrant ?l) (schedPrios ?l)) \<le> schedPrios ?l"
    using sch by (simp add: sched_ok_def)
  have h: "headIdx ?l \<le> new_head (ipSendersMap (rx t3)) ?rest ?s (schedSenders (rx t3))"
    if "place (ipSendersMap (rx t3)) ?rest ?s \<noteq> 0"
    using slots l3(3) that unfolding new_head_def Let_def l3(1,2) Suc_eq_plus1 [symmetric] len
    by simp
  have "grant_sent_pre fuel old ?s ?rest t3" if "total_mesgs t < fuel" for fuel
  proof (rule grant_sent_preI [where tm = "total_mesgs t" and p = k and h = "headIdx ?l"])
    show "?s \<in> waiting (ipSendersMap (rx t3)) \<and> total_mesgs t3 = total_mesgs t \<and>
        place (ipSendersMap (rx t3)) ?rest ?s \<le> k \<or> total_mesgs t3 < total_mesgs t"
      using t3(5) unfolding p t2(6) .
    show "k < numToGrant (schedSenders (rx t3))" using N by (simp add: l3 k_def)
  qed (use that h i c l3 in \<open>simp_all add: old_def\<close>)
  then show ?thesis using t2(1,6) t3(1,2) rx_step_trans [OF t2(4) t3(3)] unfolding old_def by blast
qed

lemma handleGrantSentEvent_ok:
  assumes "rx_out G s ss t" and "grant_sent_pre fuel old s ss t"
  shows "\<exists>t'. handleGrantSentEvent fuel old (cur_state ss s t) t = Inr t' \<and> rx_ready G t' \<and> rx_step t t'"
  using assms
proof (induction fuel arbitrary: old s ss t)
  case 0
  then show ?case by (simp add: grant_sent_pre_def Let_def)
next
  case (Suc fuel)
  define cur where "cur = cur_state ss s t"
  let ?l = "schedSenders (rx t)"
  define N where "N = int (numToGrant ?l)"
  have out: "rx_out G s ss t" by (rule Suc.prems(1))
  have core: "rx_core G t" and rl: "rx_list {s} ss t" using out by (simp_all add: rx_out_def)
  have sch: "sched_ok ss ?l" using rl by (simp add: rx_list_def)
  have pre: "st_numToGrant old = N" "0 \<le> st_headIdx old" "st_headIdx old \<le> st_sInd old"
    "st_sInd old < st_headIdx old + N" "st_sInd old = st_sInd cur \<longrightarrow> st_sInd cur < st_headIdx cur + N"
    "st_sInd cur < 0 \<or> st_headIdx cur + N \<le> st_sInd cur \<longrightarrow> Suc (total_mesgs t) \<le> fuel"
    using Suc.prems(2) unfolding grant_sent_pre_def Let_def cur_def [symmetric] N_def [symmetric] by simp_all
  have cN: "st_numToGrant cur = N" by (simp add: cur_def cur_state_def Let_def N_def)
  have cs: "st_s cur = Some s" by (simp add: cur_def cur_state_def Let_def)
  have "\<exists>t1 ss1. (if 0 \<le> st_sInd cur then rx_insert (st_s cur) t else Inr t) = Inr t1 \<and> rx_core G t1 \<and>
      rx_list {} ss1 t1 \<and> rx_step t t1 \<and> ipSendersMap (rx t1) = ipSendersMap (rx t) \<and>
      st_headIdx cur = int (headIdx (schedSenders (rx t1))) \<and> st_numSenders cur = int (length ss1) \<and>
      (0 \<le> st_sInd cur \<longrightarrow> st_headIdx cur \<le> st_sInd cur)"
  proof (cases "s \<in> waiting (ipSendersMap (rx t))")
    case True
    from rx_insert_ok [OF out True] show ?thesis
      unfolding cs cur_def cur_state_waiting [OF True] setVar_fields by force
  next
    case False
    then have "rx_list {} ss t" using rl by (simp add: rx_list_def)
    then show ?thesis using core unfolding cur_def cur_state_idle [OF False] setVar_fields
      by (intro exI [of _ t] exI [of _ ss]) (use sch in \<open>simp add: sched_ok_def\<close>)
  qed
  then obtain t1 ss1 where
    t1: "(if 0 \<le> st_sInd cur then rx_insert (st_s cur) t else Inr t) = Inr t1" "rx_core G t1"
      "rx_list {} ss1 t1" "rx_step t t1" "ipSendersMap (rx t1) = ipSendersMap (rx t)"
      "st_headIdx cur = int (headIdx (schedSenders (rx t1)))" "st_numSenders cur = int (length ss1)"
      "0 \<le> st_sInd cur \<longrightarrow> st_headIdx cur \<le> st_sInd cur" by blast
  have ready1: "rx_ready G t1" using t1(2,3) by (auto simp: rx_ready_def)
  have a1: "assertion (st_sInd old \<ge> st_headIdx old \<and> st_sInd old < st_headIdx old + st_numToGrant old) = Inr ()"
    using pre by simp
  show ?case
  proof (cases "st_sInd old = st_sInd cur")
    case True
    have a2: "assertion (st_sInd cur < st_headIdx cur + st_numToGrant cur) = Inr ()" using pre True by (simp add: cN)
    have "0 \<le> st_sInd cur" using True pre by linarith
    then have "rx_insert (st_s cur) t = Inr t1" using t1(1) by simp
    then show ?thesis
      unfolding cur_def [symmetric] handleGrantSentEvent.simps a1 rbind_Inr if_P [OF True] a2
      using ready1 t1(4) by blast
  next
    case False
    have b: "\<not> (st_sInd cur \<ge> 0 \<and> st_sInd cur < st_headIdx cur)" using t1(8) by linarith
    have N1: "numToGrant (schedSenders (rx t1)) = numToGrant ?l" using t1(4) by (simp add: rx_step_def rx_same_def)
    show ?thesis
    proof (cases "(st_sInd cur < 0 \<or> st_sInd cur \<ge> st_numToGrant cur + st_headIdx cur) \<and>
        st_numSenders cur \<ge> st_numToGrant cur")
      case True
      define ind where "ind = st_headIdx cur + st_numToGrant cur - 1"
      have len: "numToGrant (schedSenders (rx t1)) \<le> length ss1" using True by (simp add: N1 cN N_def t1(7))
      have "total_mesgs t1 = total_mesgs t" by (simp add: total_mesgs_def t1(5))
      moreover have "Suc (total_mesgs t) \<le> fuel" using pre(6) True cN by linarith
      ultimately have fuel: "total_mesgs t1 < fuel" by simp
      have cN1: "st_numToGrant cur = int (numToGrant (schedSenders (rx t1)))" by (simp add: N1 cN N_def)
      obtain s2 t2 ss3 t3 where
        t3: "rx_removeAt ind t1 = Inr (Some s2, t2)"
          "grant_to (cur\<lparr>st_s := Some s2, st_sInd := ind\<rparr>) t2 = Inr (cur_state ss3 s2 t3, t3)"
          "rx_out G s2 ss3 t3" "rx_step t1 t3"
          "grant_sent_pre fuel (cur\<lparr>st_s := Some s2, st_sInd := ind\<rparr>) s2 ss3 t3"
        using regrant_ok [OF t1(2,3) len t1(6) cN1 ind_def] fuel by blast
      obtain t4 where
        t4: "handleGrantSentEvent fuel (cur\<lparr>st_s := Some s2, st_sInd := ind\<rparr>) (cur_state ss3 s2 t3) t3 = Inr t4"
          "rx_ready G t4" "rx_step t3 t4" using Suc.IH [OF t3(3,5)] by blast
      have "handleGrantSentEvent (Suc fuel) old cur t = Inr t4"
        unfolding handleGrantSentEvent.simps a1 rbind_Inr if_not_P [OF False] if_not_P [OF b] t1(1) if_P [OF True]
          Let_def ind_def [symmetric] t3(1) prod.case t3(2) by (rule t4(1))
      then show ?thesis
        using t4(2) rx_step_trans [OF t1(4) rx_step_trans [OF t3(4) t4(3)]] unfolding cur_def by blast
    next
      case c: False
      have "handleGrantSentEvent (Suc fuel) old cur t = Inr t1"
        unfolding handleGrantSentEvent.simps a1 rbind_Inr if_not_P [OF False] if_not_P [OF b] t1(1) if_not_P [OF c]
        by (rule refl)
      then show ?thesis using ready1 t1(4) unfolding cur_def by blast
    qed
  qed
qed


section \<open>The handlers\<close>

lemma grant_listed_ok:
  assumes out: "rx_out G s ss t" and w: "s \<in> waiting (ipSendersMap (rx t))"
    and p: "place (ipSendersMap (rx t)) ss s < numToGrant (schedSenders (rx t))"
  shows "\<exists>cur t' t''. grant_to (cur_state ss s t) t = Inr (cur, t') \<and>
     handleGrantSentEvent (grant_fuel t) (cur_state ss s t) cur t' = Inr t'' \<and>
     rx_ready G t'' \<and> rx_step t t'' \<and> st_numToGrant cur = st_numToGrant (cur_state ss s t)"
proof -
  let ?old = "cur_state ss s t"
  have os: "st_s ?old = Some s" by (simp add: cur_state_waiting [OF w])
  obtain t' where
    t': "grant_to ?old t = Inr (cur_state ss s t', t')" "rx_out G s ss t'" "rx_step t t'"
      "schedSenders (rx t') = schedSenders (rx t)"
      "ss_lastIdx (the (map_of (ipSendersMap (rx t')) s)) = ss_lastIdx (the (map_of (ipSendersMap (rx t)) s))"
      "s \<in> waiting (ipSendersMap (rx t')) \<and> total_mesgs t' = total_mesgs t \<and>
        place (ipSendersMap (rx t')) ss s \<le> place (ipSendersMap (rx t)) ss s \<or>
       total_mesgs t' < total_mesgs t"
    using grant_to_ok [OF out w os] by blast
  have h: "new_head (ipSendersMap (rx t)) ss s (schedSenders (rx t)) \<le>
      new_head (ipSendersMap (rx t')) ss s (schedSenders (rx t'))"
    if "place (ipSendersMap (rx t')) ss s \<noteq> 0"
    using that unfolding new_head_def Let_def t'(4) by (auto simp: min_le_iff_disj)
  have "grant_sent_pre (grant_fuel t) ?old s ss t'"
    by (rule grant_sent_preI [OF t'(6) _ _ _ _ h])
      (use p in \<open>simp_all add: cur_state_waiting [OF w] t'(4) grant_fuel_def total_mesgs_def\<close>)
  from handleGrantSentEvent_ok [OF t'(2) this] obtain t'' where
    t'': "handleGrantSentEvent (grant_fuel t) ?old (cur_state ss s t') t' = Inr t''"
      "rx_ready G t''" "rx_step t' t''" by blast
  have "st_numToGrant (cur_state ss s t') = st_numToGrant ?old" by (simp add: cur_state_def Let_def t'(4))
  then show ?thesis using t'(1) t'' rx_step_trans [OF t'(3) t''(3)] by blast
qed

lemma rx_insert_ready:
  assumes "rx_out G s ss t" and "s \<in> waiting (ipSendersMap (rx t))"
  shows "\<exists>t'. rx_insert (Some s) t = Inr t' \<and> rx_ready G t' \<and> rx_step t t'"
  using rx_insert_ok [OF assms] unfolding rx_ready_def by blast

lemma rx_out_idle: "rx_out G s ss t \<Longrightarrow> s \<notin> waiting (ipSendersMap (rx t)) \<Longrightarrow> rx_ready G t"
  unfolding rx_out_def rx_ready_def rx_list_def by auto

lemma handlePktArrivalEvent_ok:
  assumes out: "rx_out G s ss t"
    and n: "st_numToGrant old = int (numToGrant (schedSenders (rx t)))"
    and o: "if s \<in> waiting (ipSendersMap (rx t)) then st_sInd old < 0 \<or> st_headIdx old \<le> st_sInd old
      else st_sInd old < 0"
  shows "\<exists>t'. handlePktArrivalEvent old (cur_state ss s t) t = Inr t' \<and> rx_ready G t' \<and> rx_step t t'"
proof (cases "s \<in> waiting (ipSendersMap (rx t))")
  case False
  then have "st_sInd (cur_state ss s t) < 0" by (simp add: cur_state_idle)
  then have "handlePktArrivalEvent old (cur_state ss s t) t = Inr t"
    unfolding handlePktArrivalEvent_def using o False by simp
  then show ?thesis using rx_out_idle [OF out False] by simp
next
  case w: True
  let ?m = "ipSendersMap (rx t)" and ?l = "schedSenders (rx t)"
  define cur where "cur = cur_state ss s t"
  define h where "h = new_head ?m ss s ?l"
  have c: "cur = setVar (numToGrant ?l) (int h) (int (length ss + 1)) (Some s) (int (h + place ?m ss s))"
    unfolding cur_def h_def by (rule cur_state_waiting [OF w])
  have c1: "\<not> st_sInd cur < 0" and cs: "st_s cur = Some s" and ch: "st_headIdx cur = int h"
    and cn: "st_numToGrant cur = int (numToGrant ?l)" and ci: "st_sInd cur = int (h + place ?m ss s)"
    by (simp_all add: c)
  show ?thesis
  proof (cases "st_sInd cur \<ge> st_headIdx cur + st_numToGrant cur")
    case far: True
    obtain t1 where
      t1: "rx_insert (Some s) t = Inr t1" "rx_core G t1" "rx_list {} (insert_at (place ?m ss s) s ss) t1"
        "rx_step t t1" "ipSendersMap (rx t1) = ?m" "headIdx (schedSenders (rx t1)) = h"
      using rx_insert_ok [OF out w] unfolding h_def by blast
    show ?thesis
    proof (cases "st_sInd old < 0 \<or> st_sInd old \<ge> st_headIdx old + st_numToGrant old")
      case True
      have "handlePktArrivalEvent old cur t = Inr t1"
        unfolding handlePktArrivalEvent_def if_not_P [OF c1] if_P [OF far] if_P [OF True] cs by (rule t1(1))
      then show ?thesis using t1 unfolding cur_def rx_ready_def by blast
    next
      case False
      then have b: "st_sInd old \<ge> st_headIdx old \<and> st_sInd old < st_numToGrant old + st_headIdx old"
        using o w by auto
      have N1: "numToGrant (schedSenders (rx t1)) = numToGrant ?l" using t1(4) by (simp add: rx_step_def rx_same_def)
      have len: "numToGrant (schedSenders (rx t1)) \<le> length (insert_at (place ?m ss s) s ss)"
        using far place_le [of ?m ss s] by (simp add: N1 ch cn ci)
      define ind where "ind = st_headIdx cur + st_numToGrant cur - 1"
      have cc: "st_headIdx cur = int (headIdx (schedSenders (rx t1)))"
        "st_numToGrant cur = int (numToGrant (schedSenders (rx t1)))" by (simp_all add: ch cn N1 t1(6))
      obtain s2 t2 ss3 t3 where
        t3: "rx_removeAt ind t1 = Inr (Some s2, t2)"
          "grant_to (cur\<lparr>st_s := Some s2, st_sInd := ind\<rparr>) t2 = Inr (cur_state ss3 s2 t3, t3)"
          "rx_out G s2 ss3 t3" "rx_step t1 t3" "total_mesgs t2 = total_mesgs t1"
          "\<forall>fuel > total_mesgs t1. grant_sent_pre fuel (cur\<lparr>st_s := Some s2, st_sInd := ind\<rparr>) s2 ss3 t3"
        using regrant_ok [OF t1(2,3) len cc ind_def] by blast
      have "total_mesgs t1 < grant_fuel t2" using t3(5) by (simp add: grant_fuel_def total_mesgs_def)
      with t3(6) have "grant_sent_pre (grant_fuel t2) (cur\<lparr>st_s := Some s2, st_sInd := ind\<rparr>) s2 ss3 t3" by blast
      from handleGrantSentEvent_ok [OF t3(3) this] obtain t4 where
        t4: "handleGrantSentEvent (grant_fuel t2) (cur\<lparr>st_s := Some s2, st_sInd := ind\<rparr>)
            (cur_state ss3 s2 t3) t3 = Inr t4" "rx_ready G t4" "rx_step t3 t4" by blast
      have "handlePktArrivalEvent old cur t = Inr t4"
        unfolding handlePktArrivalEvent_def if_not_P [OF c1] if_P [OF far] if_not_P [OF False] if_P [OF b]
          cs t1(1) rbind_Inr Let_def ind_def [symmetric] t3(1) prod.case t3(2) by (rule t4(1))
      then show ?thesis
        using t4(2) rx_step_trans [OF t1(4) rx_step_trans [OF t3(4) t4(3)]] unfolding cur_def by blast
    qed
  next
    case near: False
    then have "place ?m ss s < numToGrant ?l" by (simp add: ch cn ci)
    from grant_listed_ok [OF out w this] obtain cur2 t' t'' where
      g: "grant_to cur t = Inr (cur2, t')" "handleGrantSentEvent (grant_fuel t) cur cur2 t' = Inr t''"
        "rx_ready G t''" "rx_step t t''" "st_numToGrant cur2 = st_numToGrant cur"
      unfolding cur_def by blast
    have same: "cur2\<lparr>st_numToGrant := st_numToGrant cur\<rparr> = cur2"
      unfolding g(5) [symmetric] by (cases cur2) simp
    have "handlePktArrivalEvent old cur t = Inr t''"
      unfolding handlePktArrivalEvent_def if_not_P [OF c1] if_not_P [OF near] Let_def g(1) rbind_Inr prod.case same
      by (rule g(2))
    then show ?thesis using g unfolding cur_def by blast
  qed
qed

lemma handleGrantTimerEvent_ok:
  assumes ready: "rx_ready G t" and st: "map_of (ipSendersMap (rx t)) s = Some st"
  shows "\<exists>t'. handleGrantTimerEvent s t = Inr t' \<and> rx_ready G t' \<and> rx_step t t'"
proof -
  from ready obtain ss where rl: "rx_list {} ss t" and core: "rx_core G t" by (auto simp: rx_ready_def)
  obtain i ss' t1 where t1: "rx_remove s t = Inr (i, t1)" "rx_out G s ss' t1" "rx_step t t1"
    using rx_remove_ok [OF core rl st] by blast
  obtain k h n where ip: "rx_insPoint s t1 = Inr (k, h, n)"
    "setVar (numToGrant (schedSenders (rx t1))) h n (Some s) k = cur_state ss' s t1"
    using rx_insPoint_ok [OF t1(2)] by blast
  have f: "k = st_sInd (cur_state ss' s t1)" "h = st_headIdx (cur_state ss' s t1)"
    by (simp_all add: ip(2) [symmetric])
  note eq = handleGrantTimerEvent_def t1(1) rbind_Inr prod.case ip(1) Let_def ip(2)
  show ?thesis
  proof (cases "s \<in> waiting (ipSendersMap (rx t1))")
    case False
    then have k: "k < 0" by (simp add: f cur_state_idle)
    show ?thesis unfolding eq if_P [OF k] using rx_out_idle [OF t1(2) False] t1(3) by blast
  next
    case w: True
    have k: "\<not> k < 0" by (simp add: f cur_state_waiting [OF w])
    show ?thesis
    proof (cases "k - h \<ge> int (numToGrant (schedSenders (rx t1)))")
      case True
      show ?thesis unfolding eq if_not_P [OF k] if_P [OF True]
        using rx_insert_ready [OF t1(2) w] rx_step_trans [OF t1(3)] by blast
    next
      case False
      then have "place (ipSendersMap (rx t1)) ss' s < numToGrant (schedSenders (rx t1))"
        by (simp add: f cur_state_waiting [OF w])
      from grant_listed_ok [OF t1(2) w this] show ?thesis
        unfolding eq if_not_P [OF k] if_not_P [OF False]
        using rx_step_trans [OF t1(3)] by fastforce
    qed
  qed
qed

end
