(* ===== verification/RxRun.thy ===== *)
theory RxRun
  imports RxSched InboundRun
begin

text \<open>
  The receiver as packets of data arrive and grant timers fire: it does not fault, its loops end
  and it is back in a consistent state after each of them.
\<close>

section \<open>A packet and its sender\<close>

definition sender_of :: "homa \<Rightarrow> u32 \<Rightarrow> sender_state" where
  "sender_of t s = (case map_of (ipSendersMap (rx t)) s of None \<Rightarrow> SenderState (cfg t) s | Some st \<Rightarrow> st)"

definition after_pkt :: "homa_pkt \<Rightarrow> nat multiset \<Rightarrow> pendings \<Rightarrow> pendings" where
  "after_pkt p P G = G(pkt_srcAddr p := (G (pkt_srcAddr p))(pkt_msgId p := pending_after p P))"

text \<open>
  A packet of a new message, which announces its unscheduled packets, or one that is due.  The
  messages of different senders have different sizes, times or numbers.
\<close>

definition pkt_expected :: "pendings \<Rightarrow> homa \<Rightarrow> homa_pkt \<Rightarrow> nat multiset \<Rightarrow> bool" where
  "pkt_expected G t p P \<longleftrightarrow>
     arrival_ok (unat (allPrio (cfg t))) (now t) (G (pkt_srcAddr p)) (sender_of t (pkt_srcAddr p)) p P \<and>
     (map_of (ss_incompleteMesgs (sender_of t (pkt_srcAddr p))) (pkt_msgId p) = None \<longrightarrow>
       (\<forall>s st. s \<noteq> pkt_srcAddr p \<longrightarrow> map_of (ipSendersMap (rx t)) s = Some st \<longrightarrow>
          pkt_key3 p \<notin> mesg_keys st))"

lemma SenderState_ok: "sender_ok s cur G (SenderState c s)"
  by (simp add: SenderState_def sender_ok_def al_wf_def in_ids_ok_def gq_sorted_def grantable_def)

lemma rx_ready_new_sender:
  assumes ready: "rx_ready G t" and new: "map_of (ipSendersMap (rx t)) s = None"
  shows "rx_ready G (set_sender s (SenderState (cfg t) s) t)"
proof -
  let ?st = "SenderState (cfg t) s" and ?m = "ipSendersMap (rx t)"
  from ready obtain ss where core: "rx_core G t" and rl: "rx_list {} ss t" by (auto simp: rx_ready_def)
  have so: "senders_ok (now t) G ?m" using core by (simp add: rx_core_def)
  have "senders_ok (now t) G (al_put s ?st ?m)"
    by (rule senders_ok_put [OF so SenderState_ok]) (simp_all add: SenderState_def mesg_keys_def)
  then have "rx_core G (set_sender s ?st t)"
    using core by (simp add: rx_core_def set_sender_def base_ok_def sx_inv_def)
  moreover have "s \<notin> waiting ?m" using new by (auto simp: waiting_def)
  then have "waiting (al_put s ?st ?m) = waiting ?m" and "s \<notin> set ss"
    using rl by (auto simp: waiting_put SenderState_def rx_list_def)
  then have "rx_list {} ss (set_sender s ?st t)" using rl by (simp add: rx_list_def set_sender_def ranked_put)
  ultimately show ?thesis by (auto simp: rx_ready_def)
qed

lemma handleMesgRecvCompletionEvent_none:
  assumes "st_numToGrant old = int (numToGrant l)" and "st_numToGrant cur = int (numToGrant l)"
    and "numToGrant l = unat (numSendersToKeepGranted c)"
  shows "handleMesgRecvCompletionEvent c h old cur l = Inr (cur, l)"
  using assms by (simp add: handleMesgRecvCompletionEvent_def Let_def)

lemma rx_same_set_sender: "rx_same t (set_sender s st t)"
  by (cases "rx t") (simp add: rx_same_def set_sender_def stats_free_def)

lemma handle_known_sender:
  assumes ready: "rx_ready G t" and st: "map_of (ipSendersMap (rx t)) (pkt_srcAddr p) = Some st"
    and exp: "pkt_expected G t p P"
  shows "\<exists>t'. handle_sender_pkt p t = Inr t' \<and> rx_ready (after_pkt p P G) t' \<and> rx_same t t'"
proof -
  let ?s = "pkt_srcAddr p" and ?G = "after_pkt p P G"
  from ready obtain ss0 where rl0: "rx_list {} ss0 t" and core0: "rx_core G t" by (auto simp: rx_ready_def)
  obtain i st1 ss t1 where
    t1: "rx_remove ?s t = Inr (i, t1)" "rx_out G ?s ss t1" "rx_same t t1"
      "map_of (ipSendersMap (rx t1)) ?s = Some st1" "ss_mesgsToGrant st1 = ss_mesgsToGrant st"
      "ss_incompleteMesgs st1 = ss_incompleteMesgs st"
      "\<forall>s'. s' \<noteq> ?s \<longrightarrow> map_of (ipSendersMap (rx t1)) s' = map_of (ipSendersMap (rx t)) s'"
      "if ss_mesgsToGrant st = [] then i = -1 else int (headIdx (schedSenders (rx t))) \<le> i"
    using rx_remove_ok [OF core0 rl0 st] rx_step_same by blast
  have core1: "rx_core G t1" and rl1: "rx_list {?s} ss t1" using t1(2) by (simp_all add: rx_out_def)
  have so1: "senders_ok (now t1) G (ipSendersMap (rx t1))" and b1: "base_ok t1"
    using core1 by (simp_all add: rx_core_def)
  have same1: "cfg t1 = cfg t" "now t1 = now t" "numToGrant (schedSenders (rx t1)) = numToGrant (schedSenders (rx t))"
    using t1(3) by (simp_all add: rx_same_def)
  have sof: "sender_of t ?s = st" by (simp add: sender_of_def st)
  have arr: "arrival_ok (unat (allPrio (cfg t1))) (now t1) (G ?s) st1 p P"
    using exp unfolding pkt_expected_def sof same1 arrival_ok_def t1(6) by blast
  obtain ret st2 t2 where
    t2: "handleInboundPkt ?s p t1 = Inr (ret, t2)"
      "ipSendersMap (rx t2) = al_put ?s st2 (ipSendersMap (rx t1))"
      "sender_ok ?s (now t1) ((G ?s)(pkt_msgId p := pending_after p P)) st2"
      "ss_mesgsToGrant st1 \<noteq> [] \<longrightarrow> ss_mesgsToGrant st2 \<noteq> []"
      "mesg_keys st2 \<subseteq> (case map_of (ss_incompleteMesgs st1) (pkt_msgId p) of
        None \<Rightarrow> insert (pkt_key3 p) (mesg_keys st1) | Some _ \<Rightarrow> mesg_keys st1)"
      "base_ok t2" "same_env t1 t2"
    using handleInboundPkt_ok [OF t1(4) senders_okD [OF so1 t1(4)] b1 refl arr] by blast
  have same2: "cfg t2 = cfg t1" "prioRes t2 = prioRes t1" "now t2 = now t1" using t2(7) by (simp_all add: same_env_def)
  have l2: "schedSenders (rx t2) = schedSenders (rx t1)"
    by (rule stats_free_fields(1)) (use t2(7) in \<open>simp add: same_env_def\<close>)
  have so2: "senders_ok (now t1) ?G (al_put ?s st2 (ipSendersMap (rx t1)))"
  proof (rule senders_ok_put [OF so1])
    show "sender_ok ?s (now t1) (?G ?s) st2" using t2(3) by (simp add: after_pkt_def)
    show "\<And>s'. s' \<noteq> ?s \<Longrightarrow> ?G s' = G s'" by (simp add: after_pkt_def)
    fix s' sb assume ne: "s' \<noteq> ?s" and sb: "map_of (ipSendersMap (rx t1)) s' = Some sb"
    have d: "mesg_keys st1 \<inter> mesg_keys sb = {}" using so1 ne t1(4) sb unfolding senders_ok_def by blast
    have "map_of (ss_incompleteMesgs st1) (pkt_msgId p) = None \<longrightarrow> pkt_key3 p \<notin> mesg_keys sb"
      using exp ne sb t1(7) unfolding pkt_expected_def sof t1(6) by fastforce
    with d t2(5) show "mesg_keys st2 \<inter> mesg_keys sb = {}" by (auto split: option.splits)
  qed
  have core2: "rx_core ?G t2" using core1 so2 t2(6) by (simp add: rx_core_def same2 l2 t2(2))
  have ns: "?s \<notin> set ss" using rl1 by (simp add: rx_list_def)
  have "waiting (al_put ?s st2 (ipSendersMap (rx t1))) - {?s} = waiting (ipSendersMap (rx t1)) - {?s}"
    by (auto simp: waiting_put)
  then have "rx_list {?s} ss t2" using rl1 by (simp add: rx_list_def l2 t2(2) ranked_put [OF ns])
  then have out2: "rx_out ?G ?s ss t2" using core2 by (simp add: rx_out_def t2(2))
  obtain k h n where ip: "rx_insPoint ?s t2 = Inr (k, h, n)"
    "setVar (numToGrant (schedSenders (rx t2))) h n (Some ?s) k = cur_state ss ?s t2"
    using rx_insPoint_ok [OF out2] by blast
  define l where "l = schedSenders (rx t)"
  define old where "old = (setVar (numToGrant l) (int (headIdx l)) (int (numSenders l)) (Some ?s) 0)\<lparr>st_sInd := i\<rparr>"
  have on: "st_numToGrant old = int (numToGrant (schedSenders (rx t2)))"
    by (simp add: old_def l_def l2 same1)
  have cn: "st_numToGrant (cur_state ss ?s t2) = int (numToGrant (schedSenders (rx t2)))"
    by (simp add: ip(2) [symmetric])
  have keep: "numToGrant (schedSenders (rx t2)) = unat (numSendersToKeepGranted (cfg t2))"
    using core2 by (simp add: rx_core_def)
  have same: "t2\<lparr>rx := (rx t2)\<lparr>schedSenders := schedSenders (rx t2)\<rparr>\<rparr> = t2" by simp
  have o: "if ?s \<in> waiting (ipSendersMap (rx t2)) then st_sInd old < 0 \<or> st_headIdx old \<le> st_sInd old
      else st_sInd old < 0"
  proof (cases "ss_mesgsToGrant st = []")
    case True
    then show ?thesis using t1(8) by (simp add: old_def)
  next
    case False
    then have "?s \<in> waiting (ipSendersMap (rx t2))" using t1(5) t2(4) by (simp add: t2(2) waiting_put)
    then show ?thesis using t1(8) False by (simp add: old_def l_def)
  qed
  obtain t' where t': "handlePktArrivalEvent old (cur_state ss ?s t2) t2 = Inr t'" "rx_ready ?G t'" "rx_same t2 t'"
    using handlePktArrivalEvent_ok [OF out2 on o] rx_step_same by blast
  have "handle_sender_pkt p t = Inr t'"
    unfolding handle_sender_pkt_def Let_def st option.case l_def [symmetric] t1(1) rbind_Inr prod.case
      old_def [symmetric] t2(1) ip handleMesgRecvCompletionEvent_none [OF on cn keep] same
    by (rule t'(1))
  then show ?thesis
    using t'(2) rx_same_trans [OF t1(3) rx_same_trans [OF same_env_rx_same [OF t2(7)] t'(3)]] by blast
qed

lemma handle_sender_pkt_ok:
  assumes ready: "rx_ready G t" and exp: "pkt_expected G t p P"
  shows "\<exists>t'. handle_sender_pkt p t = Inr t' \<and> rx_ready (after_pkt p P G) t' \<and> rx_same t t'"
proof (cases "map_of (ipSendersMap (rx t)) (pkt_srcAddr p)")
  case (Some st)
  with ready exp show ?thesis by (intro handle_known_sender)
next
  case None
  let ?s = "pkt_srcAddr p"
  let ?t = "set_sender ?s (SenderState (cfg t) ?s) t"
  have m: "map_of (ipSendersMap (rx ?t)) ?s = Some (SenderState (cfg t) ?s)" by (simp add: set_sender_def)
  have env: "cfg ?t = cfg t" "now ?t = now t" "schedSenders (rx ?t) = schedSenders (rx t)"
    by (simp_all add: set_sender_def)
  have "sender_of ?t ?s = sender_of t ?s" by (simp add: sender_of_def m None)
  moreover have "map_of (ipSendersMap (rx ?t)) s = map_of (ipSendersMap (rx t)) s" if "s \<noteq> ?s" for s
    using that by (simp add: set_sender_def)
  ultimately have "pkt_expected G ?t p P" using exp unfolding pkt_expected_def env by auto
  from handle_known_sender [OF rx_ready_new_sender [OF ready None] m this] obtain t' where
    t': "handle_sender_pkt p ?t = Inr t'" "rx_ready (after_pkt p P G) t'" "rx_same ?t t'" by blast
  have "handle_sender_pkt p t = handle_sender_pkt p ?t"
    unfolding handle_sender_pkt_def Let_def None m option.case env by (rule refl)
  then show ?thesis using t' rx_same_trans [OF rx_same_set_sender t'(3)] by auto
qed


section \<open>The bookkeeping around it\<close>

text \<open>
  Oversubscribed are the periods in which more senders wait than are granted.  The times of such a
  period are consistent with the number of senders.
\<close>

definition over_ok :: "homa \<Rightarrow> bool" where
  "over_ok t \<longleftrightarrow>
     (let r = rx t
      in if numSenders (schedSenders r) > numToGrant (schedSenders r)
         then inOversubPeriod r \<and> oversubPeriodStop r = None \<and>
           (\<exists>x. oversubPeriodStart r = Some x \<and> x + 2 \<le> lastRecvTime r)
         else \<not> inOversubPeriod r \<and>
           (case oversubPeriodStop r of
              None \<Rightarrow> rcvdBytesPerOversubPeriod r = 0 \<and> oversubPeriodStart r = None
            | Some y \<Rightarrow> y \<le> now t \<and> oversubPeriodStart r \<noteq> None))"

definition rx_inv :: "pendings \<Rightarrow> homa \<Rightarrow> bool" where
  "rx_inv G t \<longleftrightarrow> rx_ready G t \<and> over_ok t \<and> bwCheckInterval (rx t) = None"

text \<open>Data packets take time on the link and come one after the other.\<close>

definition pkt_on_time :: "homa \<Rightarrow> homa_pkt \<Rightarrow> bool" where
  "pkt_on_time t p \<longleftrightarrow>
     (let d = tx_time (nicLinkSpeed (cfg t)) (unat (getBytesOnWire (pkt_bytes p) (pkt_type p)))
      in 2 \<le> d \<and> lastRecvTime (rx t) - 1 \<le> now t - d)"

lemma max_earliest_grant_ok:
  assumes "\<forall>s \<in> set ss. has_top m s"
  shows "\<exists>x. max_earliest_grant m cur (replicate k None @ map Some ss) acc = Inr x"
proof -
  have gap: "max_earliest_grant m cur (replicate k None @ xs) acc = max_earliest_grant m cur xs acc" for xs
    by (induction k) simp_all
  have "\<exists>x. max_earliest_grant m cur (map Some ss) acc = Inr x" using assms
    by (induction ss arbitrary: acc) (auto simp: has_top_def split: list.split)
  then show ?thesis unfolding gap .
qed

text \<open>What only the statistics of the receiver see.\<close>

definition rx_noted :: "homa \<Rightarrow> homa \<Rightarrow> bool" where
  "rx_noted t t' \<longleftrightarrow> cfg t' = cfg t \<and> prioRes t' = prioRes t \<and> now t' = now t \<and>
     trackRTTs t' = trackRTTs t \<and> sx_inv t' = sx_inv t \<and>
     ipSendersMap (rx t') = ipSendersMap (rx t) \<and> schedSenders (rx t') = schedSenders (rx t) \<and>
     bwCheckInterval (rx t') = bwCheckInterval (rx t) \<and>
     (\<forall>n. vecs_ok n (rx t') = vecs_ok n (rx t))"

lemma rx_noted_trans: "rx_noted t u \<Longrightarrow> rx_noted u v \<Longrightarrow> rx_noted t v"
  by (simp add: rx_noted_def)

lemma rx_noted_ready: "rx_noted t t' \<Longrightarrow> rx_ready G t' = rx_ready G t"
  by (simp add: rx_noted_def rx_ready_def rx_core_def rx_list_def base_ok_def)

lemma rx_noted_expected:
  assumes "rx_noted t t'"
  shows "pkt_expected G t' p P = pkt_expected G t p P"
proof -
  have e: "cfg t' = cfg t" "now t' = now t" "ipSendersMap (rx t') = ipSendersMap (rx t)"
    using assms by (simp_all add: rx_noted_def)
  show ?thesis unfolding pkt_expected_def sender_of_def e by (rule refl)
qed

lemma self_waste_ok: "g \<le> gap \<Longrightarrow> \<exists>high low. self_waste rtt l x gap g = Inr (high, low)"
  by (simp add: self_waste_def Let_def split: prod.split)

lemma record_self_waste_ok:
  assumes ready: "rx_ready G t" and d: "lastRecvTime (rx t) - 1 \<le> now t - d"
  shows "\<exists>os. record_self_waste d t = Inr (t\<lparr>outs := outs t @ os, rx := (rx t)\<lparr>lastRecvTime := now t\<rparr>,
     sx := (sx t)\<lparr>sumGrantsInGap := 0\<rparr>\<rparr>)"
proof -
  let ?gap = "now t - lastRecvTime (rx t)"
  define g where "g = tx_time (nicLinkSpeed (cfg t)) (unat (sumGrantsInGap (sx t)))"
  have a: "assertion (-1 \<le> ?gap - d) = Inr ()" using d by (intro assertion_holds) linarith
  from ready obtain ss where rl: "rx_list {} ss t" by (auto simp: rx_ready_def)
  have "\<forall>s \<in> set ss. has_top (ipSendersMap (rx t)) s"
    and "senders (schedSenders (rx t)) = replicate (headIdx (schedSenders (rx t))) None @ map Some ss"
    using rl by (simp_all add: rx_list_def ranked_def sched_ok_def)
  then obtain x where x: "max_earliest_grant (ipSendersMap (rx t)) (now t) (senders (schedSenders (rx t))) 0 = Inr x"
    using max_earliest_grant_ok by metis
  show ?thesis
  proof (cases "d + g < ?gap \<and> numSenders (schedSenders (rx t)) \<noteq> 0")
    case True
    then have "g \<le> ?gap - d" by linarith
    then obtain high low where w: "self_waste (cfg_rtt (cfg t)) (lastRecvTime (rx t)) x (?gap - d) g = Inr (high, low)"
      using self_waste_ok by blast
    show ?thesis unfolding record_self_waste_def Let_def g_def [symmetric] a rbind_Inr if_P [OF True] x w prod.case
      by (intro exI [of _ "[Emit HigherRxSelfWaste [high], Emit LowerRxSelfWaste [low]]"]) (simp add: emit_def)
  next
    case False
    show ?thesis unfolding record_self_waste_def Let_def g_def [symmetric] a rbind_Inr if_not_P [OF False]
      by (intro exI [of _ "[]"]) simp
  qed
qed


definition over_mid :: "homa \<Rightarrow> bool" where
  "over_mid t \<longleftrightarrow> lastRecvTime (rx t) = now t \<and> oversubPeriodStop (rx t) = None \<and>
     (if inOversubPeriod (rx t) then \<exists>x. oversubPeriodStart (rx t) = Some x \<and> x + 2 \<le> now t
      else oversubPeriodStart (rx t) = None \<and> rcvdBytesPerOversubPeriod (rx t) = 0)"

lemma oversub_before_ok:
  assumes last: "lastRecvTime (rx t) = now t" and d: "2 \<le> d"
    and over: "if numSenders (schedSenders (rx t)) > numToGrant (schedSenders (rx t))
         then inOversubPeriod (rx t) \<and> oversubPeriodStop (rx t) = None \<and>
           (\<exists>x. oversubPeriodStart (rx t) = Some x \<and> x < now t - d)
         else \<not> inOversubPeriod (rx t) \<and>
           (case oversubPeriodStop (rx t) of
              None \<Rightarrow> rcvdBytesPerOversubPeriod (rx t) = 0 \<and> oversubPeriodStart (rx t) = None
            | Some y \<Rightarrow> y \<le> now t \<and> oversubPeriodStart (rx t) \<noteq> None)"
  shows "\<exists>t'. oversub_before n d t = Inr t' \<and> rx_noted t t' \<and> over_mid t'"
proof (cases "numSenders (schedSenders (rx t)) > numToGrant (schedSenders (rx t))")
  case True
  with over obtain x where o: "inOversubPeriod (rx t)" "oversubPeriodStop (rx t) = None"
    "oversubPeriodStart (rx t) = Some x" "x < now t - d" by auto
  then show ?thesis using True last d
    by (simp add: oversub_before_def Let_def rx_noted_def over_mid_def vecs_ok_def sx_inv_def)
next
  case False
  show ?thesis
  proof (cases "oversubPeriodStop (rx t)")
    case None
    then show ?thesis using False over last
      by (simp add: oversub_before_def Let_def rx_noted_def over_mid_def)
  next
    case (Some y)
    with False over obtain x where o: "\<not> inOversubPeriod (rx t)" "y \<le> now t" "oversubPeriodStart (rx t) = Some x"
      by auto
    then show ?thesis using False Some last
      by (simp add: oversub_before_def Let_def rx_noted_def over_mid_def vecs_ok_def sx_inv_def emit_def)
  qed
qed

lemma oversub_after_ok:
  assumes mid: "over_mid t" and d: "2 \<le> d"
  shows "\<exists>t'. oversub_after n d t = Inr t' \<and> rx_noted t t' \<and> over_ok t'"
proof (cases "numSenders (schedSenders (rx t)) \<le> numToGrant (schedSenders (rx t))")
  case True
  then show ?thesis using mid
    by (cases "inOversubPeriod (rx t)")
      (auto simp: oversub_after_def Let_def rx_noted_def over_mid_def over_ok_def vecs_ok_def sx_inv_def emit_def)
next
  case False
  then show ?thesis using mid d
    by (cases "inOversubPeriod (rx t)")
      (auto simp: oversub_after_def Let_def rx_noted_def over_mid_def over_ok_def vecs_ok_def sx_inv_def)
qed

lemma tryRecordActiveMesgStats_ok:
  assumes "rx_ready G t"
  shows "\<exists>t'. tryRecordActiveMesgStats cur t = Inr t' \<and> rx_noted t t' \<and> (over_ok t \<longrightarrow> over_ok t')"
proof -
  from assms obtain ss where "sched_ok ss (schedSenders (rx t))" by (auto simp: rx_ready_def rx_list_def)
  from numActiveSenders_ok [OF this] show ?thesis
    by (auto simp: tryRecordActiveMesgStats_def rx_noted_def over_ok_def Let_def vecs_ok_def sx_inv_def emit_def
        split: option.splits)
qed

lemma rx_same_fields:
  assumes "rx_same t t'"
  shows "cfg t' = cfg t" "now t' = now t" "bwCheckInterval (rx t') = bwCheckInterval (rx t)"
    "oversubPeriodStart (rx t') = oversubPeriodStart (rx t)" "oversubPeriodStop (rx t') = oversubPeriodStop (rx t)"
    "inOversubPeriod (rx t') = inOversubPeriod (rx t)" "lastRecvTime (rx t') = lastRecvTime (rx t)"
    "rcvdBytesPerOversubPeriod (rx t') = rcvdBytesPerOversubPeriod (rx t)"
    "numToGrant (schedSenders (rx t')) = numToGrant (schedSenders (rx t))"
proof -
  note s = assms [unfolded rx_same_def]
  show "cfg t' = cfg t" "now t' = now t" "numToGrant (schedSenders (rx t')) = numToGrant (schedSenders (rx t))"
    using s by simp_all
  have f: "stats_free ((rx t')\<lparr>schedSenders := schedSenders (rx t)\<rparr>) = stats_free (rx t)" using s by simp
  show "bwCheckInterval (rx t') = bwCheckInterval (rx t)" using stats_free_fields(2) [OF f] by simp
  show "oversubPeriodStart (rx t') = oversubPeriodStart (rx t)" using stats_free_fields(3) [OF f] by simp
  show "oversubPeriodStop (rx t') = oversubPeriodStop (rx t)" using stats_free_fields(4) [OF f] by simp
  show "inOversubPeriod (rx t') = inOversubPeriod (rx t)" using stats_free_fields(5) [OF f] by simp
  show "lastRecvTime (rx t') = lastRecvTime (rx t)" using stats_free_fields(6) [OF f] by simp
  show "rcvdBytesPerOversubPeriod (rx t') = rcvdBytesPerOversubPeriod (rx t)"
    using stats_free_fields(7) [OF f] by simp
qed

lemma processReceivedPkt_ok:
  assumes inv: "rx_inv G t" and exp: "pkt_expected G t p P" and time: "pkt_on_time t p"
  shows "\<exists>t'. processReceivedPkt p t = Inr t' \<and> rx_inv (after_pkt p P G) t' \<and> now t' = now t \<and> cfg t' = cfg t"
proof -
  have ready: "rx_ready G t" and over: "over_ok t" and bw: "bwCheckInterval (rx t) = None"
    using inv by (simp_all add: rx_inv_def)
  have "pkt_type p = REQUEST \<or> pkt_type p = UNSCHED_DATA \<or> pkt_type p = SCHED_DATA"
    using exp unfolding pkt_expected_def arrival_ok_def new_mesg_ok_def pkt_due_def by (auto split: option.splits)
  then have k: "getDataBytes p = Inr (pkt_bytes p)" by (auto simp: getDataBytes_def pkt_bytes_def)
  define len where "len = getBytesOnWire (pkt_bytes p) (pkt_type p)"
  define d where "d = tx_time (nicLinkSpeed (cfg t)) (unat len)"
  have d: "2 \<le> d" "lastRecvTime (rx t) - 1 \<le> now t - d"
    using time by (simp_all add: pkt_on_time_def Let_def d_def len_def)
  obtain os where w: "record_self_waste d t = Inr (t\<lparr>outs := outs t @ os,
      rx := (rx t)\<lparr>lastRecvTime := now t\<rparr>, sx := (sx t)\<lparr>sumGrantsInGap := 0\<rparr>\<rparr>)"
    using record_self_waste_ok [OF ready d(2)] by blast
  define t1 where "t1 = t\<lparr>outs := outs t @ os, rx := (rx t)\<lparr>lastRecvTime := now t\<rparr>,
      sx := (sx t)\<lparr>sumGrantsInGap := 0\<rparr>\<rparr>"
  have n1: "rx_noted t t1" by (simp add: t1_def rx_noted_def sx_inv_def vecs_ok_def sx_ok_def)
  obtain t2 where t2: "oversub_before len d t1 = Inr t2" "rx_noted t1 t2" "over_mid t2"
  proof -
    have "if numSenders (schedSenders (rx t1)) > numToGrant (schedSenders (rx t1))
         then inOversubPeriod (rx t1) \<and> oversubPeriodStop (rx t1) = None \<and>
           (\<exists>x. oversubPeriodStart (rx t1) = Some x \<and> x < now t1 - d)
         else \<not> inOversubPeriod (rx t1) \<and>
           (case oversubPeriodStop (rx t1) of
              None \<Rightarrow> rcvdBytesPerOversubPeriod (rx t1) = 0 \<and> oversubPeriodStart (rx t1) = None
            | Some y \<Rightarrow> y \<le> now t1 \<and> oversubPeriodStart (rx t1) \<noteq> None)"
      using over d unfolding over_ok_def Let_def by (auto simp: t1_def split: if_splits option.splits)
    from oversub_before_ok [OF _ d(1) this, of len] show ?thesis using that by (auto simp: t1_def)
  qed
  note n2 = rx_noted_trans [OF n1 t2(2)]
  have r2: "rx_ready G t2" using ready rx_noted_ready [OF n2] by simp
  have e2: "pkt_expected G t2 p P" using exp rx_noted_expected [OF n2] by simp
  obtain t3 where t3: "handle_sender_pkt p t2 = Inr t3" "rx_ready (after_pkt p P G) t3" "rx_same t2 t3"
    using handle_sender_pkt_ok [OF r2 e2] by blast
  note f3 = rx_same_fields [OF t3(3)]
  have "over_mid t3" using t2(3) unfolding over_mid_def f3 .
  from oversub_after_ok [OF this d(1), of len] obtain t4 where
    t4: "oversub_after len d t3 = Inr t4" "rx_noted t3 t4" "over_ok t4" by blast
  have r4: "rx_ready (after_pkt p P G) t4" using t3(2) rx_noted_ready [OF t4(2)] by simp
  obtain t5 where t5: "tryRecordActiveMesgStats (now t) t4 = Inr t5" "rx_noted t4 t5" "over_ok t5"
    using tryRecordActiveMesgStats_ok [OF r4] t4(3) by blast
  have r5: "rx_ready (after_pkt p P G) t5" using r4 rx_noted_ready [OF t5(2)] by simp
  have b5: "bwCheckInterval (rx t5) = None" "now t5 = now t" "cfg t5 = cfg t"
    using n2 t4(2) t5(2) bw f3 by (simp_all add: rx_noted_def)
  have "processReceivedPkt p t = Inr t5"
    unfolding processReceivedPkt_def k rbind_Inr Let_def len_def [symmetric] d_def [symmetric] w
      t1_def [symmetric] t2(1) t3(1) t4(1) t5(1) reset_bw_timer_def b5(1) option.case by (rule refl)
  then show ?thesis using r5 t5(3) b5 by (simp add: rx_inv_def)
qed


section \<open>A grant timer\<close>

lemma numSenders_card:
  assumes "rx_ready G t"
  shows "numSenders (schedSenders (rx t)) = card (waiting (ipSendersMap (rx t)))"
    and "finite (waiting (ipSendersMap (rx t)))"
proof -
  from assms obtain ss where rl: "rx_list {} ss t" by (auto simp: rx_ready_def)
  then have s: "set ss = waiting (ipSendersMap (rx t))" and n: "numSenders (schedSenders (rx t)) = length ss"
    and "distinct ss" using ranked_distinct by (auto simp: rx_list_def sched_ok_def)
  then show "numSenders (schedSenders (rx t)) = card (waiting (ipSendersMap (rx t)))"
    using distinct_card by fastforce
  show "finite (waiting (ipSendersMap (rx t)))" using finite_set [of ss] s by simp
qed

lemma top_mesg_timer [simp]: "top_mesg (st\<lparr>ss_grantTimer := x\<rparr>) = top_mesg st"
  by (simp add: top_mesg_def split: list.split)

lemma timer_off_ready:
  assumes ready: "rx_ready G t" and st: "map_of (ipSendersMap (rx t)) s = Some st"
  shows "rx_ready G (set_sender s (st\<lparr>ss_grantTimer := None\<rparr>) t)"
proof -
  let ?m = "ipSendersMap (rx t)" and ?st = "st\<lparr>ss_grantTimer := None\<rparr>"
  from ready obtain ss where core: "rx_core G t" and rl: "rx_list {} ss t" by (auto simp: rx_ready_def)
  have so: "senders_ok (now t) G ?m" using core by (simp add: rx_core_def)
  have sok: "sender_ok s (now t) (G s) ?st" using senders_okD [OF so st] by simp
  have "senders_ok (now t) G (al_put s ?st ?m)"
    by (rule senders_ok_put_subset [OF so st sok]) simp
  then have "rx_core G (set_sender s ?st t)"
    using core by (simp add: rx_core_def set_sender_def base_ok_def sx_inv_def)
  moreover have "ranked (al_put s ?st ?m) ss = ranked ?m ss"
    by (rule ranked_cong) (use st in \<open>auto simp: has_top_def sender_key_def\<close>)
  moreover have "waiting (al_put s ?st ?m) = waiting ?m" using st by (auto simp: waiting_put waiting_def)
  ultimately show ?thesis using rl by (auto simp: rx_ready_def rx_list_def set_sender_def)
qed

lemma processGrantTimers_ok:
  assumes inv: "rx_inv G t" and st: "map_of (ipSendersMap (rx t)) s = Some st"
  shows "\<exists>t'. handleMessage (GrantTimerMsg s) t = Inr t' \<and> rx_inv G t' \<and> now t' = now t \<and> cfg t' = cfg t"
proof -
  have ready: "rx_ready G t" and over: "over_ok t" and bw: "bwCheckInterval (rx t) = None"
    using inv by (simp_all add: rx_inv_def)
  define t0 where "t0 = set_sender s (st\<lparr>ss_grantTimer := None\<rparr>) t"
  have r0: "rx_ready G t0" unfolding t0_def by (rule timer_off_ready [OF ready st])
  have m0: "map_of (ipSendersMap (rx t0)) s = Some (st\<lparr>ss_grantTimer := None\<rparr>)"
    by (simp add: t0_def set_sender_def)
  obtain t1 where t1: "handleGrantTimerEvent s t0 = Inr t1" "rx_ready G t1" "rx_step t0 t1"
    using handleGrantTimerEvent_ok [OF r0 m0] by blast
  note f1 = rx_same_fields [OF rx_step_same [OF t1(3)]]
  have f0: "cfg t0 = cfg t" "now t0 = now t" "bwCheckInterval (rx t0) = None" "over_ok t0"
    using bw over by (auto simp: t0_def set_sender_def over_ok_def Let_def split: if_splits option.splits)
  have fewer: "numSenders (schedSenders (rx t1)) \<le> numSenders (schedSenders (rx t0))"
    unfolding numSenders_card [OF t1(2)] numSenders_card [OF r0]
    by (rule card_mono [OF numSenders_card(2) [OF r0]]) (use t1(3) in \<open>simp add: rx_step_def\<close>)
  define t2 where "t2 = (if inOversubPeriod (rx t1) \<and> numSenders (schedSenders (rx t1)) \<le>
      numToGrant (schedSenders (rx t1))
    then t1\<lparr>rx := (rx t1)\<lparr>inOversubPeriod := False, oversubPeriodStop := Some (now t1)\<rparr>\<rparr> else t1)"
  have n2: "rx_noted t1 t2" by (simp add: t2_def rx_noted_def vecs_ok_def sx_inv_def)
  have o2: "over_ok t2"
  proof (cases "inOversubPeriod (rx t1) \<and> numSenders (schedSenders (rx t1)) \<le> numToGrant (schedSenders (rx t1))")
    case True
    then show ?thesis using f0(4) unfolding over_ok_def Let_def
      by (auto simp: t2_def f1 split: if_splits)
  next
    case False
    then show ?thesis using f0(4) fewer unfolding over_ok_def Let_def
      by (auto simp: t2_def f1 split: if_splits option.splits)
  qed
  have r2: "rx_ready G t2" using t1(2) rx_noted_ready [OF n2] by simp
  obtain t3 where t3: "tryRecordActiveMesgStats (now t1) t2 = Inr t3" "rx_noted t2 t3" "over_ok t3"
    using tryRecordActiveMesgStats_ok [OF r2] o2 by blast
  have "rx_ready G t3" using r2 rx_noted_ready [OF t3(2)] by simp
  moreover have "bwCheckInterval (rx t3) = None" "now t3 = now t" "cfg t3 = cfg t"
    using n2 t3(2) f0 f1 by (simp_all add: rx_noted_def)
  moreover have "handleMessage (GrantTimerMsg s) t = Inr t3"
    unfolding handleMessage_def homa_msg.case st of_option_Some rbind_Inr t0_def [symmetric]
      processGrantTimers_def t1(1) Let_def t2_def [symmetric] by (rule t3(1))
  ultimately show ?thesis using t3(3) by (auto simp: rx_inv_def)
qed


section \<open>A host as a transition system\<close>

text \<open>
  What can happen to a host that has started: an event of its sending side, a packet of data with
  the sizes of the unscheduled packets that are still to come for its message, a grant timer.
\<close>

datatype host_event = SenderEvent sx_event | DataArrives homa_pkt "nat multiset" | GrantTimerFires u32

fun host_enabled :: "pendings \<Rightarrow> host_event \<Rightarrow> homa \<Rightarrow> bool" where
  "host_enabled G (SenderEvent e) t \<longleftrightarrow> sx_enabled e t \<and> (\<forall>p. e \<noteq> GrantToSend p)"
| "host_enabled G (DataArrives p P) t \<longleftrightarrow> pkt_expected G t p P \<and> pkt_on_time t p"
| "host_enabled G (GrantTimerFires s) t \<longleftrightarrow>
     (\<exists>st. map_of (ipSendersMap (rx t)) s = Some st \<and> ss_grantTimer st = Some (now t))"

fun host_handle :: "host_event \<Rightarrow> homa \<Rightarrow> homa res" where
  "host_handle (SenderEvent e) t = sx_handle e t"
| "host_handle (DataArrives p P) t = processReceivedPkt p t"
| "host_handle (GrantTimerFires s) t = handleMessage (GrantTimerMsg s) t"

fun host_pending :: "host_event \<Rightarrow> pendings \<Rightarrow> pendings" where
  "host_pending (DataArrives p P) G = after_pkt p P G"
| "host_pending e G = G"

inductive host_run :: "homa \<Rightarrow> pendings \<Rightarrow> homa \<Rightarrow> bool" for t0 where
  host_start: "host_run t0 (\<lambda>_ _. {#}) t0"
| host_step: "host_run t0 G t \<Longrightarrow> host_enabled G e t \<Longrightarrow> host_handle e t = Inr t' \<Longrightarrow>
    host_run t0 (host_pending e G) t'"

lemma im_inv_time: "sender_ok s cur G st \<Longrightarrow> cur \<le> cur' \<Longrightarrow> sender_ok s cur' G st"
  unfolding sender_ok_def mesg_ok_def by fastforce

lemma sx_handle_env:
  assumes inv: "sx_inv t" and en: "sx_enabled e t" and "\<forall>n. e \<noteq> TimePasses n"
  shows "\<exists>t'. sx_handle e t = Inr t' \<and> sx_inv t' \<and> sx_env t' = sx_env t"
proof (cases e)
  case SendTimerFires
  with handle_send_timer_ok [OF inv] show ?thesis by auto
next
  case (AppMessage m)
  with processSendMsgFromApp_ok [OF inv] en show ?thesis by auto
next
  case (GrantArrives p)
  with processReceivedGrant_ok [OF inv] en show ?thesis by auto
next
  case (GrantToSend p)
  with sendOrQueue_grant_ok [OF inv] en show ?thesis by auto
qed (use assms in simp)

lemma rx_inv_sender:
  assumes inv: "rx_inv G t" and en: "sx_enabled e t"
  shows "\<exists>t'. sx_handle e t = Inr t' \<and> rx_inv G t'"
proof (cases "\<exists>n. e = TimePasses n")
  case True
  then obtain n where n: "e = TimePasses n" by blast
  then have le: "now t \<le> n" using en by simp
  have ready: "rx_ready G t" using inv by (simp add: rx_inv_def)
  have so: "senders_ok (now t) G (ipSendersMap (rx t))" using ready by (auto simp: rx_ready_def rx_core_def)
  then have "senders_ok n G (ipSendersMap (rx t))"
    unfolding senders_ok_def using im_inv_time [OF _ le] by blast
  then have "rx_ready G (t\<lparr>now := n\<rparr>)"
    using ready by (auto simp: rx_ready_def rx_core_def rx_list_def base_ok_def sx_inv_def)
  moreover have "over_ok (t\<lparr>now := n\<rparr>)"
    using inv le by (auto simp: rx_inv_def over_ok_def Let_def split: if_splits option.splits)
  ultimately show ?thesis using n inv by (simp add: rx_inv_def)
next
  case False
  have b: "base_ok t" using inv by (auto simp: rx_inv_def rx_ready_def rx_core_def)
  then have "sx_inv t" by (simp add: base_ok_def)
  from sx_handle_env [OF this en] False obtain t' where
    t': "sx_handle e t = Inr t'" "sx_inv t'" "sx_env t' = sx_env t" by blast
  have "rx_noted t t'"
    using sx_env_fields [OF t'(3)] t'(2) b by (simp add: rx_noted_def base_ok_def)
  from rx_noted_ready [OF this] have "rx_ready G t'" using inv by (simp add: rx_inv_def)
  moreover have "over_ok t' = over_ok t" unfolding over_ok_def sx_env_fields [OF t'(3)] by (rule refl)
  ultimately show ?thesis using t'(1) inv sx_env_fields(4) [OF t'(3)] by (simp add: rx_inv_def)
qed

lemma host_handle_ok:
  assumes inv: "rx_inv G t" and en: "host_enabled G e t"
  shows "\<exists>t'. host_handle e t = Inr t' \<and> rx_inv (host_pending e G) t'"
proof (cases e)
  case (SenderEvent e')
  with rx_inv_sender [OF inv] en show ?thesis by auto
next
  case (DataArrives p P)
  with processReceivedPkt_ok [OF inv] en show ?thesis by auto
next
  case (GrantTimerFires s)
  then obtain st where "map_of (ipSendersMap (rx t)) s = Some st" using en by auto
  from processGrantTimers_ok [OF inv this] show ?thesis using GrantTimerFires by auto
qed

lemma host_run_inv: "host_run t0 G t \<Longrightarrow> rx_inv (\<lambda>_ _. {#}) t0 \<Longrightarrow> rx_inv G t"
proof (induction rule: host_run.induct)
  case (host_step G t e t')
  then have "rx_inv G t" by blast
  from host_handle_ok [OF this host_step.hyps(2)] host_step.hyps(3) show ?case by auto
qed

text \<open>A transport after \<open>initialize\<close> and the start timer; \<open>r\<close> is the scheduler it has.\<close>

definition host_started :: "homa_config \<Rightarrow> prio_resolver \<Rightarrow> u64 \<Rightarrow> recv_sched \<Rightarrow> homa" where
  "host_started c pr seed r = (sx_started c pr seed)\<lparr>rx := r\<rparr>"

lemma rx_inv_started:
  assumes c: "cfg_ok c" "rx_cfg_ok c pr" "resolver_ok pr" "linkCheckBytes c < 0"
    and r: "initReceiveScheduler c (ReceiveScheduler 0) = Inr r"
  shows "rx_inv G (host_started c pr seed r)"
proof -
  have le: "numSendersToKeepGranted c \<le> adaptiveSchedPrioLevels c" "0 < numSendersToKeepGranted c"
    using c(2) by (simp_all add: rx_cfg_ok_def)
  then have n: "unat (numSendersToKeepGranted c) \<le> unat (adaptiveSchedPrioLevels c)"
    "0 < unat (numSendersToKeepGranted c)"
    by (simp_all add: word_le_nat_alt word_less_nat_alt)
  define l where "l = \<lparr>senders = replicate (unat (adaptiveSchedPrioLevels c)) None,
      schedPrios = unat (adaptiveSchedPrioLevels c), numToGrant = unat (numSendersToKeepGranted c),
      headIdx = unat (adaptiveSchedPrioLevels c), numSenders = 0\<rparr>"
  have "SchedSenders c = Inr l" using n by (simp add: SchedSenders_def l_def Let_def)
  then have r': "schedSenders r = l" "ipSendersMap r = []" "vecs_ok (unat (allPrio c)) r"
    "bwCheckInterval r = None" "inOversubPeriod r = False" "oversubPeriodStop r = Some 0"
    "oversubPeriodStart r = Some 0"
    using r c(4) by (auto simp: initReceiveScheduler_def ReceiveScheduler_def vecs_ok_def Let_def)
  have env: "cfg (sx_started c pr seed) = c" "prioRes (sx_started c pr seed) = pr" "now (sx_started c pr seed) = 0"
    "trackRTTs (sx_started c pr seed) = TrackRTTs"
    by (simp_all add: sx_started_def HomaTransport_def)
  have "base_ok (host_started c pr seed r)"
    using sx_inv_started [OF c(1,3), of seed] r'(3)
    by (simp add: base_ok_def host_started_def env rtts_ok_init sx_inv_def)
  moreover have "senders_ok 0 G []" by (simp add: senders_ok_def al_wf_def)
  ultimately have core: "rx_core G (host_started c pr seed r)"
    using c(2) by (simp add: rx_core_def host_started_def env r' l_def)
  have "rx_list {} [] (host_started c pr seed r)"
    using n by (simp add: rx_list_def host_started_def r' l_def sched_ok_def ranked_def waiting_def)
  with core show ?thesis
    by (auto simp: rx_inv_def rx_ready_def over_ok_def host_started_def env r' l_def Let_def)
qed

section \<open>Properties\<close>


lemma sample_request_arrives:
  assumes r: "initReceiveScheduler sample_config (ReceiveScheduler 0) = Inr r"
  shows "host_enabled (\<lambda>_ _. {#}) (DataArrives sample_request {#1442, 100#})
     ((host_started sample_config sample_resolver 7 r)\<lparr>now := 9000000\<rparr>)"
proof -
  have p: "pkt_srcAddr sample_request = 7" "pkt_msgId sample_request = 1" "pkt_type sample_request = REQUEST"
    "pkt_priority sample_request = 1" "pkt_bytes sample_request = 1442"
    "uf_prioUnschedBytes (pkt_unsched sample_request) = []"
    by (simp_all add: sample_request_def new_pkt_def pkt_bytes_def empty_unsched_def)
  have r': "ipSendersMap r = []" "lastRecvTime r = 0"
    using r by (auto simp: initReceiveScheduler_def ReceiveScheduler_def Let_def SchedSenders_def
        assertion_def split: if_splits)
  have c: "allPrio sample_config = 8" "nicLinkSpeed sample_config = 10"
    by (simp_all add: sample_config_def ini_params_def)
  show ?thesis
    using sample_request_parts
    by (simp add: host_started_def sx_started_def HomaTransport_def pkt_expected_def sender_of_def r' p c
        SenderState_def arrival_ok_def new_mesg_ok_def pkt_on_time_def getBytesOnWire_def tx_time_def)
qed


end
