(* ===== verification/IPv4Addr.thy ===== *)
theory IPv4Addr
  imports Containers
begin

unbundle bit_operations_syntax

text \<open>
  \<open>IPv4Address\<close> of the INET library under \<open>third_party\<close>, as far as the routing table uses
  it: an address is a 32-bit word.  A valid netmask is a block of ones at the left, so netmasks are
  ordered as their lengths and a longer one refines a shorter one.
\<close>

section \<open>Operations\<close>

abbreviation ALLONES_ADDRESS :: u32 where "ALLONES_ADDRESS \<equiv> 0xFFFFFFFF"
abbreviation LOOPBACK_ADDRESS :: u32 where "LOOPBACK_ADDRESS \<equiv> 0x7F000001"
abbreviation LOOPBACK_NETMASK :: u32 where "LOOPBACK_NETMASK \<equiv> 0xFF000000"
abbreviation ALL_HOSTS_MCAST :: u32 where "ALL_HOSTS_MCAST \<equiv> 0xE0000001"
abbreviation ALL_ROUTERS_MCAST :: u32 where "ALL_ROUTERS_MCAST \<equiv> 0xE0000002"

definition isUnspecified :: "u32 \<Rightarrow> bool" where
  "isUnspecified a \<longleftrightarrow> a = 0"

definition isMulticast :: "u32 \<Rightarrow> bool" where
  "isMulticast a \<longleftrightarrow> a AND 0xF0000000 = 0xE0000000"

definition makeNetmask :: "nat \<Rightarrow> u32" where
  "makeNetmask len = (if len \<ge> 32 then 0xFFFFFFFF else NOT (drop_bit len 0xFFFFFFFF))"

text \<open>The loop over the bits from the right.\<close>

fun netmask_length_from :: "nat \<Rightarrow> nat \<Rightarrow> u32 \<Rightarrow> nat" where
  "netmask_length_from 0 i a = 0"
| "netmask_length_from (Suc n) i a = (if bit a i then 32 - i else netmask_length_from n (Suc i) a)"

definition getNetmaskLength :: "u32 \<Rightarrow> nat" where
  "getNetmaskLength a = netmask_length_from 32 0 a"

definition isValidNetmask :: "u32 \<Rightarrow> bool" where
  "isValidNetmask a \<longleftrightarrow> a = makeNetmask (getNetmaskLength a)"

definition maskedAddrAreEqual :: "u32 \<Rightarrow> u32 \<Rightarrow> u32 \<Rightarrow> bool" where
  "maskedAddrAreEqual addr1 addr2 netmask \<longleftrightarrow> (addr1 XOR addr2) AND netmask = 0"

definition makeBroadcastAddress :: "u32 \<Rightarrow> u32 \<Rightarrow> u32" where
  "makeBroadcastAddress a netmask = a OR NOT netmask"

section \<open>Netmasks\<close>

lemma bit_makeNetmask: "bit (makeNetmask len) i \<longleftrightarrow> i < 32 \<and> 32 \<le> i + len"
proof -
  have m: "(0xFFFFFFFF :: u32) = mask 32" by (simp add: mask_eq_exp_minus_1)
  show ?thesis unfolding makeNetmask_def m
    by (auto simp: bit_not_iff bit_drop_bit_eq bit_mask_iff possible_bit_def)
qed

lemma makeNetmask_zero [simp]: "makeNetmask 0 = 0"
  by (simp add: makeNetmask_def)

lemma netmask_length_from_bound: "netmask_length_from n i a \<le> 32 - i"
  by (induction n i a rule: netmask_length_from.induct) auto

lemma getNetmaskLength_le: "getNetmaskLength a \<le> 32"
  using netmask_length_from_bound [of 32 0 a] by (simp add: getNetmaskLength_def)

lemma netmask_length_makeNetmask:
  assumes "n + i = 32" and "len \<le> 32 - i" and "0 < i \<longrightarrow> len \<le> 32 - i"
  shows "netmask_length_from n i (makeNetmask len) = len"
  using assms
proof (induction n arbitrary: i)
  case 0
  then show ?case by simp
next
  case (Suc n)
  then show ?case by (cases "len = 32 - i") (auto simp: bit_makeNetmask)
qed

lemma getNetmaskLength_make: "len \<le> 32 \<Longrightarrow> getNetmaskLength (makeNetmask len) = len"
  unfolding getNetmaskLength_def by (rule netmask_length_makeNetmask) simp_all

lemma isValidNetmask_iff: "isValidNetmask m \<longleftrightarrow> (\<exists>len \<le> 32. m = makeNetmask len)"
  unfolding isValidNetmask_def using getNetmaskLength_le [of m] getNetmaskLength_make by auto

text \<open>A longer mask has all the bits of a shorter one.\<close>

lemma makeNetmask_and: "makeNetmask a AND makeNetmask b = makeNetmask (min a b)"
  by (rule bit_eqI) (auto simp: bit_and_iff bit_makeNetmask min_def)

lemma makeNetmask_mono: "a \<le> b \<Longrightarrow> makeNetmask a \<le> makeNetmask b"
proof -
  assume "a \<le> b"
  then have "makeNetmask b AND makeNetmask a = makeNetmask a" by (simp add: makeNetmask_and min_def)
  then show ?thesis using word_and_le1 [of "makeNetmask b" "makeNetmask a"] word_and_le2 by (metis)
qed

lemma makeNetmask_inj: "a \<le> 32 \<Longrightarrow> b \<le> 32 \<Longrightarrow> makeNetmask a = makeNetmask b \<longleftrightarrow> a = b"
  using getNetmaskLength_make by metis

lemma makeNetmask_less_iff: "a \<le> 32 \<Longrightarrow> b \<le> 32 \<Longrightarrow> makeNetmask a < makeNetmask b \<longleftrightarrow> a < b"
  using makeNetmask_mono [of a b] makeNetmask_mono [of b a] makeNetmask_inj [of a b]
  by (metis leD linorder_le_cases nat_less_le order_le_less)

lemma valid_masks_nested:
  assumes "isValidNetmask m" and "isValidNetmask m'" and "m \<le> m'"
  shows "m' AND m = m"
proof -
  obtain a b where ab: "a \<le> 32" "b \<le> 32" "m = makeNetmask a" "m' = makeNetmask b"
    using assms(1,2) by (auto simp: isValidNetmask_iff)
  then have "a \<le> b" using assms(3) makeNetmask_less_iff [of b a] by (meson not_le)
  then show ?thesis by (simp add: ab makeNetmask_and min_def)
qed

lemma masked_equal_iff: "maskedAddrAreEqual a b m \<longleftrightarrow> a AND m = b AND m"
proof -
  have "(a XOR b) AND m = (a AND m) XOR (b AND m)" by (rule bit_eqI) (auto simp: bit_and_iff bit_xor_iff)
  moreover have "x XOR y = 0 \<longleftrightarrow> x = y" for x y :: u32
    by (metis bit.xor_self xor.assoc xor.right_neutral xor.left_neutral)
  ultimately show ?thesis by (simp only: maskedAddrAreEqual_def)
qed

end
