(* ===== verification/FlowRouting.thy ===== *)
theory FlowRouting
  imports IPv4Addr
begin

text \<open>
  The routing table \<open>IFlowRoutingTable\<close> of the simulated hosts and switches: the vectors of
  unicast and multicast routes, kept sorted so that a better route comes first, the caches derived
  from them and the notifications about changes.  Routes are objects that the table and its caches
  point to: a store maps the pointers of the live objects to their fields, following a pointer to
  an object that was deleted is the fault \<open>NullPointer\<close>.  Sets of addresses are those of the
  standard library; the display string is not modelled.
\<close>

section \<open>State\<close>

datatype source_type = MANUAL | IFACENETMASK | RIP | OSPF | BGP | ZEBRA | MANET | MANET2 | DYMO | AODV

text \<open>\<open>rt_table\<close> tells that the route is in this table, \<open>rt_valid\<close> is \<open>isValid()\<close>.\<close>

record ipv4_route =
  rt_dest :: u32
  rt_netmask :: u32
  rt_gateway :: u32
  rt_interface :: "nat option"
  rt_sourceType :: source_type
  rt_source :: "nat option"
  rt_adminDist :: u32
  rt_metric :: int
  rt_table :: bool
  rt_valid :: bool

record mcast_route =
  mr_origin :: u32
  mr_originNetmask :: u32
  mr_group :: u32
  mr_in :: "nat option"
  mr_outs :: "nat list"
  mr_leaves :: "nat list"
  mr_metric :: int
  mr_table :: bool
  mr_valid :: bool

text \<open>
  An interface, with the data \<open>ipv4Data\<close> of the protocol if \<open>if_ipv4\<close> says it has them.  A MAC
  address is a number, unspecified if zero, and \<open>if_gate\<close> is the gate to the link layer.  The output
  interfaces of a multicast route in \<open>mr_leaves\<close> are leaves.
\<close>

record iface =
  if_id :: nat
  if_loopback :: bool
  if_multicast :: bool
  if_ipv4 :: bool
  if_addr :: u32
  if_netmask :: u32
  if_metric :: int
  if_groups :: "u32 list"
  if_broadcast :: bool
  if_mac :: u64
  if_mtu :: int
  if_gate :: int
  if_ttlThreshold :: int
  if_listeners :: "u32 list"

datatype rt_note = RouteAdded nat | RouteDeleted nat | RouteChanged nat
  | MRouteAdded nat | MRouteDeleted nat | MRouteChanged nat

record flow_table =
  ft_heap :: "(nat \<times> ipv4_route) list"
  ft_routes :: "nat list"
  ft_mheap :: "(nat \<times> mcast_route) list"
  ft_mroutes :: "nat list"
  ft_next :: nat
  ft_cache :: "(u8 list \<times> nat option) list"
  ft_localAddresses :: "u32 set"
  ft_localBroadcast :: "u32 set"
  ft_ift :: "iface list"
  ft_routerId :: u32
  ft_IPForward :: bool
  ft_notes :: "rt_note list"

section \<open>Pointers and notifications\<close>

definition live_route :: "nat \<Rightarrow> flow_table \<Rightarrow> ipv4_route res" where
  "live_route r t = of_option NullPointer (map_of (ft_heap t) r)"

definition live_mroute :: "nat \<Rightarrow> flow_table \<Rightarrow> mcast_route res" where
  "live_mroute r t = of_option NullPointer (map_of (ft_mheap t) r)"

definition fire :: "rt_note \<Rightarrow> flow_table \<Rightarrow> flow_table" where
  "fire n t = t\<lparr>ft_notes := ft_notes t @ [n]\<rparr>"

definition delete_route_object :: "nat \<Rightarrow> flow_table \<Rightarrow> flow_table" where
  "delete_route_object r t = t\<lparr>ft_heap := al_del r (ft_heap t)\<rparr>"

definition delete_mroute_object :: "nat \<Rightarrow> flow_table \<Rightarrow> flow_table" where
  "delete_mroute_object r t = t\<lparr>ft_mheap := al_del r (ft_mheap t)\<rparr>"

definition invalidateCache :: "flow_table \<Rightarrow> flow_table" where
  "invalidateCache t = t\<lparr>ft_cache := [], ft_localAddresses := {}, ft_localBroadcast := {}\<rparr>"

section \<open>Unicast routes\<close>

definition routeLessThan :: "ipv4_route \<Rightarrow> ipv4_route \<Rightarrow> bool" where
  "routeLessThan a b \<longleftrightarrow>
     (if rt_netmask a \<noteq> rt_netmask b then rt_netmask a > rt_netmask b
      else if rt_dest a \<noteq> rt_dest b then rt_dest a < rt_dest b
      else if rt_adminDist a \<noteq> rt_adminDist b then rt_adminDist a < rt_adminDist b
      else rt_metric a < rt_metric b)"

definition route_before :: "(nat \<times> ipv4_route) list \<Rightarrow> nat \<Rightarrow> nat \<Rightarrow> bool" where
  "route_before h a b =
     (case (map_of h a, map_of h b) of (Some x, Some y) \<Rightarrow> routeLessThan x y | _ \<Rightarrow> False)"

text \<open>The search from the back of the vector, as long as the netmask is unspecified.\<close>

fun default_scan :: "flow_table \<Rightarrow> nat list \<Rightarrow> nat option res" where
  "default_scan t [] = Inr None"
| "default_scan t (r # rs) =
     rbind (live_route r t) (\<lambda>e.
     if \<not> isUnspecified (rt_netmask e) then Inr None
     else if rt_valid e then Inr (Some r)
     else default_scan t rs)"

definition getDefaultRoute :: "flow_table \<Rightarrow> nat option res" where
  "getDefaultRoute t = default_scan t (rev (ft_routes t))"

definition getRoute :: "int \<Rightarrow> flow_table \<Rightarrow> nat option res" where
  "getRoute k t =
     (if k < int (length (ft_routes t)) then
        if k < 0 then Inl OutOfRange else Inr (Some (ft_routes t ! nat k))
      else Inr None)"

definition internalRemoveRoute :: "nat \<Rightarrow> flow_table \<Rightarrow> nat option \<times> flow_table" where
  "internalRemoveRoute r t =
     (if r \<in> set (ft_routes t) then (Some r, t\<lparr>ft_routes := remove1 r (ft_routes t)\<rparr>)
      else (None, t))"

definition removeRoute :: "nat \<Rightarrow> flow_table \<Rightarrow> (nat option \<times> flow_table) res" where
  "removeRoute r t =
     (case internalRemoveRoute r t of
        (None, t) \<Rightarrow> Inr (None, t)
      | (Some r, t) \<Rightarrow>
          let t = invalidateCache t
          in rbind (live_route r t) (\<lambda>e.
             rbind (assertion (rt_table e)) (\<lambda>_.
             let t = fire (RouteDeleted r) t
             in Inr (Some r, t\<lparr>ft_heap := al_put r (e\<lparr>rt_table := False\<rparr>) (ft_heap t)\<rparr>))))"

definition deleteRoute :: "nat \<Rightarrow> flow_table \<Rightarrow> (bool \<times> flow_table) res" where
  "deleteRoute r t =
     (case internalRemoveRoute r t of
        (None, t) \<Rightarrow> Inr (False, t)
      | (Some r, t) \<Rightarrow>
          let t = invalidateCache t
          in rbind (live_route r t) (\<lambda>e.
             rbind (assertion (rt_table e)) (\<lambda>_.
             Inr (True, delete_route_object r (fire (RouteDeleted r) t)))))"

text \<open>
  The insertion: \<open>std::upper_bound\<close> follows the pointers of the vector, so all of them must be
  live.
\<close>

definition insert_route :: "nat \<Rightarrow> flow_table \<Rightarrow> flow_table res" where
  "insert_route r t =
     rbind (live_route r t) (\<lambda>e.
     if \<not> list_all (\<lambda>x. map_of (ft_heap t) x \<noteq> None) (ft_routes t) then Inl NullPointer
     else
       let pos = upper_bound (route_before (ft_heap t)) (ft_routes t) r
       in Inr (t\<lparr>ft_routes := take pos (ft_routes t) @ r # drop pos (ft_routes t),
                ft_heap := al_put r (e\<lparr>rt_table := True\<rparr>) (ft_heap t)\<rparr>))"

definition internalAddRoute :: "nat \<Rightarrow> flow_table \<Rightarrow> flow_table res" where
  "internalAddRoute r t =
     rbind (live_route r t) (\<lambda>e.
     if \<not> isValidNetmask (rt_netmask e) then Inl RuntimeError
     else if rt_netmask e \<noteq> 0 \<and> rt_dest e AND rt_netmask e = 0 then Inl RuntimeError
     else if rt_dest e AND NOT (rt_netmask e) \<noteq> 0 then Inl RuntimeError
     else if rt_interface e = None then Inl RuntimeError
     else
       rbind (if isUnspecified (rt_netmask e) then
                rbind (getDefaultRoute t) (\<lambda>oldDefaultRoute.
                case oldDefaultRoute of
                  None \<Rightarrow> Inr t
                | Some d \<Rightarrow> rbind (deleteRoute d t) (\<lambda>(_, t). Inr t))
              else Inr t)
         (insert_route r))"

definition addRoute :: "nat \<Rightarrow> flow_table \<Rightarrow> flow_table res" where
  "addRoute r t =
     rbind (internalAddRoute r t) (\<lambda>t.
     Inr (fire (RouteAdded r) (invalidateCache t)))"

text \<open>
  Setting a field of a route: the setter of \<open>IPv4Route\<close> changes the field if the value differs
  and tells the table of the route.
\<close>

datatype route_field = F_DESTINATION u32 | F_NETMASK u32 | F_GATEWAY u32 | F_IFACE "nat option"
  | F_TYPE source_type | F_SOURCE "nat option" | F_ADMINDIST u32 | F_METRIC int

fun field_differs :: "route_field \<Rightarrow> ipv4_route \<Rightarrow> bool" where
  "field_differs (F_DESTINATION v) e \<longleftrightarrow> rt_dest e \<noteq> v"
| "field_differs (F_NETMASK v) e \<longleftrightarrow> rt_netmask e \<noteq> v"
| "field_differs (F_GATEWAY v) e \<longleftrightarrow> rt_gateway e \<noteq> v"
| "field_differs (F_IFACE v) e \<longleftrightarrow> rt_interface e \<noteq> v"
| "field_differs (F_TYPE v) e \<longleftrightarrow> rt_sourceType e \<noteq> v"
| "field_differs (F_SOURCE v) e \<longleftrightarrow> rt_source e \<noteq> v"
| "field_differs (F_ADMINDIST v) e \<longleftrightarrow> rt_adminDist e \<noteq> v"
| "field_differs (F_METRIC v) e \<longleftrightarrow> rt_metric e \<noteq> v"

fun put_field :: "route_field \<Rightarrow> ipv4_route \<Rightarrow> ipv4_route" where
  "put_field (F_DESTINATION v) e = e\<lparr>rt_dest := v\<rparr>"
| "put_field (F_NETMASK v) e = e\<lparr>rt_netmask := v\<rparr>"
| "put_field (F_GATEWAY v) e = e\<lparr>rt_gateway := v\<rparr>"
| "put_field (F_IFACE v) e = e\<lparr>rt_interface := v\<rparr>"
| "put_field (F_TYPE v) e = e\<lparr>rt_sourceType := v\<rparr>"
| "put_field (F_SOURCE v) e = e\<lparr>rt_source := v\<rparr>"
| "put_field (F_ADMINDIST v) e = e\<lparr>rt_adminDist := v\<rparr>"
| "put_field (F_METRIC v) e = e\<lparr>rt_metric := v\<rparr>"

text \<open>The fields the order of the vector depends on, according to \<open>routeChanged\<close>.\<close>

fun reorders :: "route_field \<Rightarrow> bool" where
  "reorders (F_DESTINATION v) \<longleftrightarrow> True"
| "reorders (F_NETMASK v) \<longleftrightarrow> True"
| "reorders (F_METRIC v) \<longleftrightarrow> True"
| "reorders f \<longleftrightarrow> False"

definition routeChanged :: "nat \<Rightarrow> route_field \<Rightarrow> flow_table \<Rightarrow> flow_table res" where
  "routeChanged r f t =
     rbind (if reorders f then
              case internalRemoveRoute r t of
                (None, t) \<Rightarrow> Inl AssertFailed
              | (Some r, t) \<Rightarrow> rbind (internalAddRoute r t) (\<lambda>t. Inr (invalidateCache t))
            else Inr t) (\<lambda>t.
     Inr (fire (RouteChanged r) t))"

definition set_route_field :: "nat \<Rightarrow> route_field \<Rightarrow> flow_table \<Rightarrow> flow_table res" where
  "set_route_field r f t =
     rbind (live_route r t) (\<lambda>e.
     if field_differs f e then
       let t = t\<lparr>ft_heap := al_put r (put_field f e) (ft_heap t)\<rparr>
       in if rt_table e then routeChanged r f t else Inr t
     else Inr t)"

text \<open>
  The loops that erase from the vector while they walk over it: the routes that satisfy \<open>P\<close> are
  taken out, reported and deleted.
\<close>

fun erase_loop :: "(ipv4_route \<Rightarrow> bool) \<Rightarrow> nat list \<Rightarrow> flow_table \<Rightarrow> (nat list \<times> bool \<times> flow_table) res" where
  "erase_loop P [] t = Inr ([], False, t)"
| "erase_loop P (r # rs) t =
     rbind (live_route r t) (\<lambda>e.
     if P e then
       rbind (assertion (rt_table e)) (\<lambda>_.
       rbind (erase_loop P rs (delete_route_object r (fire (RouteDeleted r) t))) (\<lambda>(kept, _, t).
       Inr (kept, True, t)))
     else
       rbind (erase_loop P rs t) (\<lambda>(kept, changed, t). Inr (r # kept, changed, t)))"

definition erase_routes :: "(ipv4_route \<Rightarrow> bool) \<Rightarrow> flow_table \<Rightarrow> (bool \<times> flow_table) res" where
  "erase_routes P t =
     rbind (erase_loop P (ft_routes t) t) (\<lambda>(kept, changed, t).
     Inr (changed, t\<lparr>ft_routes := kept\<rparr>))"

section \<open>Multicast routes\<close>

definition multicastRouteLessThan :: "mcast_route \<Rightarrow> mcast_route \<Rightarrow> bool" where
  "multicastRouteLessThan a b \<longleftrightarrow>
     (if mr_originNetmask a \<noteq> mr_originNetmask b then mr_originNetmask a > mr_originNetmask b
      else if mr_origin a \<noteq> mr_origin b then mr_origin a < mr_origin b
      else if mr_group a \<noteq> mr_group b then mr_group a > mr_group b
      else mr_metric a < mr_metric b)"

definition mroute_before :: "(nat \<times> mcast_route) list \<Rightarrow> nat \<Rightarrow> nat \<Rightarrow> bool" where
  "mroute_before h a b =
     (case (map_of h a, map_of h b) of (Some x, Some y) \<Rightarrow> multicastRouteLessThan x y | _ \<Rightarrow> False)"

definition interface_of :: "flow_table \<Rightarrow> nat \<Rightarrow> iface res" where
  "interface_of t i = of_option NullPointer (find (\<lambda>ie. if_id ie = i) (ft_ift t))"

fun check_outs :: "flow_table \<Rightarrow> nat option \<Rightarrow> nat list \<Rightarrow> unit res" where
  "check_outs t inp [] = Inr ()"
| "check_outs t inp (i # is) =
     rbind (interface_of t i) (\<lambda>ie.
     if \<not> if_multicast ie then Inl RuntimeError
     else if inp = Some i then Inl RuntimeError
     else check_outs t inp is)"

definition internalAddMulticastRoute :: "nat \<Rightarrow> flow_table \<Rightarrow> flow_table res" where
  "internalAddMulticastRoute r t =
     rbind (live_mroute r t) (\<lambda>e.
     if \<not> isValidNetmask (mr_originNetmask e) then Inl RuntimeError
     else if mr_origin e AND NOT (mr_originNetmask e) \<noteq> 0 then Inl RuntimeError
     else if \<not> isUnspecified (mr_group e) \<and> \<not> isMulticast (mr_group e) then Inl RuntimeError
     else
       rbind (case mr_in e of
                None \<Rightarrow> Inr ()
              | Some i \<Rightarrow> rbind (interface_of t i) (\<lambda>ie.
                  if \<not> if_multicast ie then Inl RuntimeError else Inr ())) (\<lambda>_.
       rbind (check_outs t (mr_in e) (mr_outs e)) (\<lambda>_.
       if \<not> list_all (\<lambda>x. map_of (ft_mheap t) x \<noteq> None) (ft_mroutes t) then Inl NullPointer
       else
         let pos = upper_bound (mroute_before (ft_mheap t)) (ft_mroutes t) r
         in Inr (t\<lparr>ft_mroutes := take pos (ft_mroutes t) @ r # drop pos (ft_mroutes t),
                  ft_mheap := al_put r (e\<lparr>mr_table := True\<rparr>) (ft_mheap t)\<rparr>))))"

definition addMulticastRoute :: "nat \<Rightarrow> flow_table \<Rightarrow> flow_table res" where
  "addMulticastRoute r t =
     rbind (internalAddMulticastRoute r t) (\<lambda>t.
     Inr (fire (MRouteAdded r) (invalidateCache t)))"

definition internalRemoveMulticastRoute :: "nat \<Rightarrow> flow_table \<Rightarrow> nat option \<times> flow_table" where
  "internalRemoveMulticastRoute r t =
     (if r \<in> set (ft_mroutes t) then (Some r, t\<lparr>ft_mroutes := remove1 r (ft_mroutes t)\<rparr>)
      else (None, t))"

definition removeMulticastRoute :: "nat \<Rightarrow> flow_table \<Rightarrow> (nat option \<times> flow_table) res" where
  "removeMulticastRoute r t =
     (case internalRemoveMulticastRoute r t of
        (None, t) \<Rightarrow> Inr (None, t)
      | (Some r, t) \<Rightarrow>
          let t = invalidateCache t
          in rbind (live_mroute r t) (\<lambda>e.
             rbind (assertion (mr_table e)) (\<lambda>_.
             let t = fire (MRouteDeleted r) t
             in Inr (Some r, t\<lparr>ft_mheap := al_put r (e\<lparr>mr_table := False\<rparr>) (ft_mheap t)\<rparr>))))"

definition deleteMulticastRoute :: "nat \<Rightarrow> flow_table \<Rightarrow> (bool \<times> flow_table) res" where
  "deleteMulticastRoute r t =
     (case internalRemoveMulticastRoute r t of
        (None, t) \<Rightarrow> Inr (False, t)
      | (Some r, t) \<Rightarrow>
          let t = invalidateCache t
          in rbind (live_mroute r t) (\<lambda>e.
             rbind (assertion (mr_table e)) (\<lambda>_.
             Inr (True, delete_mroute_object r (fire (MRouteDeleted r) t)))))"

datatype mroute_code = F_ORIGIN | F_ORIGINMASK | F_MULTICASTGROUP | F_IN | F_OUT | F_MSOURCE | F_MMETRIC

definition multicastRouteChanged :: "nat \<Rightarrow> mroute_code \<Rightarrow> flow_table \<Rightarrow> flow_table res" where
  "multicastRouteChanged r code t =
     rbind (if code = F_ORIGIN \<or> code = F_ORIGINMASK \<or> code = F_MULTICASTGROUP \<or> code = F_MMETRIC then
              case internalRemoveMulticastRoute r t of
                (None, t) \<Rightarrow> Inl AssertFailed
              | (Some r, t) \<Rightarrow> rbind (internalAddMulticastRoute r t) (\<lambda>t. Inr (invalidateCache t))
            else Inr t) (\<lambda>t.
     Inr (fire (MRouteChanged r) t))"

text \<open>The first output interface \<open>i\<close> of a route, if there is one, is dropped.\<close>

definition removeOutInterface :: "nat \<Rightarrow> nat \<Rightarrow> flow_table \<Rightarrow> (bool \<times> flow_table) res" where
  "removeOutInterface r i t =
     rbind (live_mroute r t) (\<lambda>e.
     if i \<in> set (mr_outs e) then
       let t = t\<lparr>ft_mheap := al_put r (e\<lparr>mr_outs := remove1 i (mr_outs e)\<rparr>) (ft_mheap t)\<rparr>
       in rbind (if mr_table e then multicastRouteChanged r F_OUT t else Inr t) (\<lambda>t. Inr (True, t))
     else Inr (False, t))"

fun find_mroute :: "flow_table \<Rightarrow> u32 \<Rightarrow> u32 \<Rightarrow> nat list \<Rightarrow> nat option res" where
  "find_mroute t origin grp [] = Inr None"
| "find_mroute t origin grp (r # rs) =
     rbind (live_mroute r t) (\<lambda>e.
     if mr_valid e \<and> (isUnspecified (mr_group e) \<or> mr_group e = grp) \<and>
        maskedAddrAreEqual origin (mr_origin e) (mr_originNetmask e) then Inr (Some r)
     else find_mroute t origin grp rs)"

definition findBestMatchingMulticastRoute :: "u32 \<Rightarrow> u32 \<Rightarrow> flow_table \<Rightarrow> nat option res" where
  "findBestMatchingMulticastRoute origin grp t = find_mroute t origin grp (ft_mroutes t)"

section \<open>Changes of the interfaces\<close>

fun erase_mloop :: "nat \<Rightarrow> nat list \<Rightarrow> flow_table \<Rightarrow> (nat list \<times> bool \<times> flow_table) res" where
  "erase_mloop i [] t = Inr ([], False, t)"
| "erase_mloop i (r # rs) t =
     rbind (live_mroute r t) (\<lambda>e.
     if mr_in e = Some i then
       rbind (assertion (mr_table e)) (\<lambda>_.
       rbind (erase_mloop i rs (delete_mroute_object r (fire (MRouteDeleted r) t))) (\<lambda>(kept, _, t).
       Inr (kept, True, t)))
     else
       rbind (removeOutInterface r i t) (\<lambda>(removed, t).
       let t = (if removed then fire (MRouteChanged r) t else t)
       in rbind (erase_mloop i rs t) (\<lambda>(kept, changed, t). Inr (r # kept, removed \<or> changed, t))))"

definition deleteInterfaceRoutes :: "nat \<Rightarrow> flow_table \<Rightarrow> flow_table res" where
  "deleteInterfaceRoutes i t =
     rbind (erase_routes (\<lambda>e. rt_interface e = Some i) t) (\<lambda>(changed, t).
     rbind (erase_mloop i (ft_mroutes t) t) (\<lambda>(kept, mchanged, t).
     let t = t\<lparr>ft_mroutes := kept\<rparr>
     in Inr (if changed \<or> mchanged then invalidateCache t else t)))"

fun purge_mloop :: "nat list \<Rightarrow> flow_table \<Rightarrow> (nat list \<times> bool \<times> flow_table) res" where
  "purge_mloop [] t = Inr ([], False, t)"
| "purge_mloop (r # rs) t =
     rbind (live_mroute r t) (\<lambda>e.
     if mr_valid e then
       rbind (purge_mloop rs t) (\<lambda>(kept, deleted, t). Inr (r # kept, deleted, t))
     else
       rbind (assertion (mr_table e)) (\<lambda>_.
       rbind (purge_mloop rs (delete_mroute_object r (fire (MRouteDeleted r) t))) (\<lambda>(kept, _, t).
       Inr (kept, True, t))))"

definition purge :: "flow_table \<Rightarrow> flow_table res" where
  "purge t =
     rbind (erase_routes (\<lambda>e. \<not> rt_valid e) t) (\<lambda>(deleted, t).
     rbind (purge_mloop (ft_mroutes t) t) (\<lambda>(kept, mdeleted, t).
     let t = t\<lparr>ft_mroutes := kept\<rparr>
     in Inr (if deleted \<or> mdeleted then invalidateCache t else t)))"

text \<open>The route of an interface to its own network; it is made anew, so its pointer is fresh.\<close>

definition netmask_route :: "iface \<Rightarrow> ipv4_route" where
  "netmask_route ie =
     \<lparr>rt_dest = if_addr ie AND if_netmask ie, rt_netmask = if_netmask ie, rt_gateway = 0,
      rt_interface = Some (if_id ie), rt_sourceType = IFACENETMASK, rt_source = Some (if_id ie),
      rt_adminDist = 0, rt_metric = if_metric ie, rt_table = True, rt_valid = True\<rparr>"

definition new_route :: "ipv4_route \<Rightarrow> flow_table \<Rightarrow> nat \<times> flow_table" where
  "new_route e t = (ft_next t, t\<lparr>ft_next := Suc (ft_next t), ft_heap := al_put (ft_next t) e (ft_heap t)\<rparr>)"

fun add_netmask_routes :: "iface list \<Rightarrow> flow_table \<Rightarrow> flow_table res" where
  "add_netmask_routes [] t = Inr t"
| "add_netmask_routes (ie # is) t =
     (if if_ipv4 ie \<and> if_netmask ie \<noteq> ALLONES_ADDRESS then
        case new_route (netmask_route ie) t of
          (r, t) \<Rightarrow> rbind (insert_route r t) (\<lambda>t. add_netmask_routes is (fire (RouteAdded r) t))
      else add_netmask_routes is t)"

definition updateNetmaskRoutes :: "flow_table \<Rightarrow> flow_table res" where
  "updateNetmaskRoutes t =
     rbind (erase_routes (\<lambda>e. rt_sourceType e = IFACENETMASK) t) (\<lambda>(_, t).
     rbind (add_netmask_routes (ft_ift t) t) (\<lambda>t.
     Inr (invalidateCache t)))"

datatype nf_category = NF_INTERFACE_CREATED | NF_INTERFACE_DELETED nat | NF_INTERFACE_STATE_CHANGED
  | NF_INTERFACE_CONFIG_CHANGED | NF_INTERFACE_IPv4CONFIG_CHANGED

fun receiveChangeNotification :: "nf_category \<Rightarrow> flow_table \<Rightarrow> flow_table res" where
  "receiveChangeNotification NF_INTERFACE_CREATED t = updateNetmaskRoutes t"
| "receiveChangeNotification (NF_INTERFACE_DELETED i) t = deleteInterfaceRoutes i t"
| "receiveChangeNotification NF_INTERFACE_STATE_CHANGED t = Inr (invalidateCache t)"
| "receiveChangeNotification NF_INTERFACE_CONFIG_CHANGED t = Inr (invalidateCache t)"
| "receiveChangeNotification NF_INTERFACE_IPv4CONFIG_CHANGED t = updateNetmaskRoutes t"

text \<open>When the node goes down the vector is emptied from the front.\<close>

lemma removeRoute_shorter:
  assumes "ft_routes t = r # rs" and "removeRoute r t = Inr (x, t')"
  shows "ft_routes t' = rs"
  using assms by (auto simp: removeRoute_def internalRemoveRoute_def invalidateCache_def fire_def Let_def res_simps)

function remove_all :: "flow_table \<Rightarrow> flow_table res" where
  "remove_all t =
     (case ft_routes t of
        [] \<Rightarrow> Inr t
      | r # _ \<Rightarrow> rbind (removeRoute r t) (\<lambda>x. remove_all (snd x)))"
  by auto
termination
proof (relation "measure (\<lambda>t. length (ft_routes t))", goal_cases)
  case 1
  then show ?case by simp
next
  case (2 t r rs x)
  then have "ft_routes (snd x) = rs" using removeRoute_shorter [of t r rs "fst x" "snd x"] by simp
  then show ?case using 2 by simp
qed

declare remove_all.simps [simp del]

datatype node_operation = NodeStartTransport bool | NodeShutdown | NodeCrash

section \<open>Addresses of the node\<close>

definition getInterfaceByAddress :: "u32 \<Rightarrow> flow_table \<Rightarrow> iface option" where
  "getInterfaceByAddress a t =
     (if isUnspecified a then None else find (\<lambda>ie. if_addr ie = a) (ft_ift t))"

definition gatherAddresses :: "flow_table \<Rightarrow> u32 list" where
  "gatherAddresses t = map if_addr (ft_ift t)"

definition isLocalAddress :: "u32 \<Rightarrow> flow_table \<Rightarrow> bool \<times> flow_table" where
  "isLocalAddress dest t =
     (let t = (if ft_localAddresses t = {}
               then t\<lparr>ft_localAddresses := set (map if_addr (ft_ift t))\<rparr> else t)
      in (dest \<in> ft_localAddresses t, t))"

definition isLocalBroadcastAddress :: "u32 \<Rightarrow> flow_table \<Rightarrow> bool \<times> flow_table" where
  "isLocalBroadcastAddress dest t =
     (let t = (if ft_localBroadcast t = {}
               then t\<lparr>ft_localBroadcast := set (filter (\<lambda>b. \<not> isUnspecified b)
                        (map (\<lambda>ie. makeBroadcastAddress (if_addr ie) (if_netmask ie)) (ft_ift t)))\<rparr>
               else t)
      in (dest \<in> ft_localBroadcast t, t))"

definition findInterfaceByLocalBroadcastAddress :: "u32 \<Rightarrow> flow_table \<Rightarrow> iface option" where
  "findInterfaceByLocalBroadcastAddress dest t =
     find (\<lambda>ie. makeBroadcastAddress (if_addr ie) (if_netmask ie) = dest) (ft_ift t)"

definition isLocalMulticastAddress :: "u32 \<Rightarrow> flow_table \<Rightarrow> bool" where
  "isLocalMulticastAddress dest t \<longleftrightarrow> list_ex (\<lambda>ie. dest \<in> set (if_groups ie)) (ft_ift t)"

text \<open>The router id: \<open>auto\<close> takes the highest interface address, a given one must be on an interface.\<close>

definition put_first_loopback :: "(iface \<Rightarrow> iface) \<Rightarrow> iface list \<Rightarrow> iface list res" where
  "put_first_loopback f is =
     (case dropWhile (\<lambda>ie. \<not> if_loopback ie) is of
        [] \<Rightarrow> Inl AssertFailed
      | ie # rest \<Rightarrow> Inr (takeWhile (\<lambda>ie. \<not> if_loopback ie) is @ f ie # rest))"

definition configureRouterId :: "bool \<Rightarrow> flow_table \<Rightarrow> flow_table res" where
  "configureRouterId auto_id t =
     (if isUnspecified (ft_routerId t) then
        Inr (if auto_id then
               t\<lparr>ft_routerId := fold (\<lambda>ie a. if \<not> if_loopback ie \<and> if_addr ie > a then if_addr ie else a)
                  (ft_ift t) (ft_routerId t)\<rparr>
             else t)
      else if getInterfaceByAddress (ft_routerId t) t = None then
        rbind (put_first_loopback (\<lambda>ie. ie\<lparr>if_addr := ft_routerId t, if_netmask := ALLONES_ADDRESS\<rparr>)
                 (ft_ift t)) (\<lambda>is. Inr (t\<lparr>ft_ift := is\<rparr>))
      else Inr t)"

definition configureLoopbackForIPv4 :: "flow_table \<Rightarrow> flow_table" where
  "configureLoopbackForIPv4 t =
     (case put_first_loopback (\<lambda>ie. ie\<lparr>if_ipv4 := True, if_addr := LOOPBACK_ADDRESS,
             if_netmask := LOOPBACK_NETMASK, if_metric := 1, if_groups := []\<rparr>) (ft_ift t) of
        Inl _ \<Rightarrow> t
      | Inr is \<Rightarrow> t\<lparr>ft_ift := is\<rparr>)"

text \<open>Reading the routing file in the network layer stage is left to the parser.\<close>

fun handleOperationStage :: "node_operation \<Rightarrow> flow_table \<Rightarrow> flow_table res" where
  "handleOperationStage (NodeStartTransport auto_id) t = rbind (configureRouterId auto_id t) updateNetmaskRoutes"
| "handleOperationStage NodeShutdown t = remove_all t"
| "handleOperationStage NodeCrash t = remove_all t"

end
