(* ===== verification/FlowTable.thy ===== *)
theory FlowTable
  imports FlowRouting "HOL-Library.Product_Lexorder"
begin

text \<open>
  The vectors of the routing table are sorted, point to live objects that know they are in the
  table, and every operation keeps this.  What unicast and multicast routes have in common is the
  locale \<open>pointer_vector\<close>.
\<close>

section \<open>Sorted vectors of pointers\<close>

text \<open>
  The objects of the vector are live and linked, the others are not linked, except those in \<open>X\<close>,
  which an operation is working on.
\<close>

definition keys_sorted :: "('r \<Rightarrow> 'k::linorder) \<Rightarrow> (nat \<times> 'r) list \<Rightarrow> nat list \<Rightarrow> bool" where
  "keys_sorted key h v \<longleftrightarrow> sorted (map (\<lambda>r. key (the (map_of h r))) v)"

definition vec_ok :: "('r \<Rightarrow> 'k::linorder) \<Rightarrow> ('r \<Rightarrow> bool) \<Rightarrow> nat set \<Rightarrow> (nat \<times> 'r) list \<Rightarrow> nat list \<Rightarrow> bool" where
  "vec_ok key linked X h v \<longleftrightarrow> distinct v \<and> set v \<subseteq> dom (map_of h) \<and>
     (\<forall>r e. map_of h r = Some e \<longrightarrow> r \<notin> X \<longrightarrow> (linked e \<longleftrightarrow> r \<in> set v)) \<and>
     keys_sorted key h v"

lemma keys_sorted_cong:
  "(\<And>r. r \<in> set v \<Longrightarrow> key (the (map_of h' r)) = key (the (map_of h r))) \<Longrightarrow>
   keys_sorted key h' v = keys_sorted key h v"
  unfolding keys_sorted_def by (metis (mono_tags, lifting) map_eq_conv)

definition ptr_before :: "('r \<Rightarrow> 'r \<Rightarrow> bool) \<Rightarrow> (nat \<times> 'r) list \<Rightarrow> nat \<Rightarrow> nat \<Rightarrow> bool" where
  "ptr_before lt h a b =
     (case (map_of h a, map_of h b) of (Some x, Some y) \<Rightarrow> lt x y | _ \<Rightarrow> False)"

definition ptr_insert :: "('r \<Rightarrow> 'r \<Rightarrow> bool) \<Rightarrow> (nat \<times> 'r) list \<Rightarrow> nat \<Rightarrow> nat list \<Rightarrow> nat list" where
  "ptr_insert lt h r v =
     (let pos = upper_bound (ptr_before lt h) v r in take pos v @ r # drop pos v)"

lemma set_ptr_insert [simp]: "set (ptr_insert lt h r v) = insert r (set v)"
proof -
  have "set (take k v) \<union> set (drop k v) = set v" for k
    by (metis append_take_drop_id set_append)
  then show ?thesis by (auto simp: ptr_insert_def Let_def)
qed

lemma distinct_ptr_insert: "distinct v \<Longrightarrow> r \<notin> set v \<Longrightarrow> distinct (ptr_insert lt h r v)"
proof -
  assume d: "distinct v" and r: "r \<notin> set v"
  let ?k = "upper_bound (ptr_before lt h) v r"
  have "mset (take ?k v) + mset (drop ?k v) = mset v" by (metis append_take_drop_id mset_append)
  then have "mset (ptr_insert lt h r v) = mset (r # v)" by (simp add: ptr_insert_def Let_def)
  then show ?thesis using d r mset_eq_imp_distinct_iff [of "ptr_insert lt h r v" "r # v"] by simp
qed

text \<open>The client fixes the order of the objects and the mark that they are in the table.\<close>

locale pointer_vector = keyed_order lt key
  for lt :: "'r \<Rightarrow> 'r \<Rightarrow> bool" and key :: "'r \<Rightarrow> 'k::linorder" +
  fixes linked :: "'r \<Rightarrow> bool" and link :: "bool \<Rightarrow> 'r \<Rightarrow> 'r"
  assumes linked_link: "linked (link b e) = b" and key_link: "key (link b e) = key e"
begin

lemma upper_bound_sorted_insert:
  assumes "sorted (map f v)" and "\<And>y. y \<in> set v \<Longrightarrow> p x y \<longleftrightarrow> f x < f y"
  shows "sorted (map f (take (upper_bound p v x) v @ x # drop (upper_bound p v x) v))"
  using assms
proof (induction v)
  case (Cons z v)
  show ?case
  proof (cases "p x z")
    case True
    then have "f x < f z" using Cons.prems(2) [of z] by simp
    moreover from Cons.prems(1) have "\<forall>y \<in> set v. f z \<le> f y" by simp
    ultimately show ?thesis using True Cons.prems(1) by (auto simp: upper_bound_def)
  next
    case False
    then have "f z \<le> f x" using Cons.prems(2) [of z] by simp
    let ?k = "upper_bound p v x"
    have s: "sorted (map f (take ?k v @ x # drop ?k v))" using Cons by simp
    have "\<forall>y \<in> set (take ?k v @ x # drop ?k v). f z \<le> f y"
      using Cons.prems(1) \<open>f z \<le> f x\<close> by (auto dest: in_set_takeD in_set_dropD)
    with s have "sorted (map f (z # take ?k v @ x # drop ?k v))" by auto
    then show ?thesis using False by (simp add: upper_bound_def)
  qed
qed simp

lemma vec_insert:
  assumes v: "vec_ok key linked X h v" and r: "map_of h r = Some e" and "r \<notin> set v"
  shows "vec_ok key linked (X - {r}) (al_put r (link True e) h) (ptr_insert lt h r v)"
proof -
  let ?f = "\<lambda>x. key (the (map_of h x))" and ?h = "al_put r (link True e) h"
  have live: "\<exists>o'. map_of h y = Some o'" if "y \<in> set v" for y
    using v that by (auto simp: vec_ok_def)
  have "keys_sorted key h (ptr_insert lt h r v)" unfolding ptr_insert_def Let_def keys_sorted_def
  proof (rule upper_bound_sorted_insert)
    show "sorted (map ?f v)" using v by (simp add: vec_ok_def keys_sorted_def)
    fix y assume "y \<in> set v"
    from live [OF this] obtain o' where "map_of h y = Some o'" by blast
    then show "ptr_before lt h r y \<longleftrightarrow> ?f r < ?f y" using r by (simp add: ptr_before_def lt_key)
  qed
  moreover have "keys_sorted key ?h (ptr_insert lt h r v) = keys_sorted key h (ptr_insert lt h r v)"
    by (rule keys_sorted_cong) (use r in \<open>simp add: key_link\<close>)
  moreover have "distinct (ptr_insert lt h r v)"
    using v assms(3) by (intro distinct_ptr_insert) (simp_all add: vec_ok_def)
  ultimately show ?thesis using v by (auto simp: vec_ok_def linked_link)
qed

lemma vec_out:
  assumes v: "vec_ok key linked X h v" and r: "r \<in> set v"
  shows "vec_ok key linked (insert r X) h (remove1 r v)"
proof -
  have "distinct v" using v by (simp add: vec_ok_def)
  then have "remove1 r v = filter (\<lambda>x. x \<noteq> r) v" by (induction v) (auto intro: filter_True [symmetric])
  moreover have "keys_sorted key h (filter (\<lambda>x. x \<noteq> r) v)"
    using v by (auto simp: vec_ok_def keys_sorted_def intro: sorted_filter)
  ultimately show ?thesis using v r by (auto simp: vec_ok_def)
qed

lemma vec_put:
  assumes v: "vec_ok key linked X h v" and "r \<notin> set v" and "linked e \<longrightarrow> r \<in> X"
  shows "vec_ok key linked X (al_put r e h) v"
proof -
  have "keys_sorted key (al_put r e h) v = keys_sorted key h v"
    by (rule keys_sorted_cong) (use assms(2) in auto)
  then show ?thesis using assms by (auto simp: vec_ok_def split: if_splits)
qed

lemma vec_unlink:
  assumes v: "vec_ok key linked (insert r X) h v" and "r \<notin> set v" and "\<not> linked e"
  shows "vec_ok key linked (X - {r}) (al_put r e h) v"
proof -
  have "vec_ok key linked (insert r X) (al_put r e h) v" by (rule vec_put [OF v assms(2)]) simp
  then show ?thesis using assms(2,3) by (auto simp: vec_ok_def split: if_splits)
qed

lemma vec_free:
  assumes v: "vec_ok key linked (insert r X) h v" and "r \<notin> set v"
  shows "vec_ok key linked (X - {r}) (al_del r h) v"
proof -
  have "keys_sorted key (al_del r h) v = keys_sorted key h v"
    by (rule keys_sorted_cong) (use assms(2) in auto)
  then show ?thesis using assms by (auto simp: vec_ok_def split: if_splits)
qed

lemma vec_same:
  assumes v: "vec_ok key linked X h v" and "map_of h r = Some e" and "key e' = key e"
    and "linked e' = linked e"
  shows "vec_ok key linked X (al_put r e' h) v"
proof -
  have "keys_sorted key (al_put r e' h) v = keys_sorted key h v"
    by (rule keys_sorted_cong) (use assms(2,3) in auto)
  then show ?thesis using assms by (auto simp: vec_ok_def split: if_splits)
qed

lemma vec_filter:
  assumes v: "vec_ok key linked {} h v"
    and h: "\<And>r. map_of h' r = (if r \<in> set v \<and> P r then None else map_of h r)"
  shows "vec_ok key linked {} h' (filter (\<lambda>r. \<not> P r) v)"
proof -
  have "keys_sorted key h' (filter (\<lambda>r. \<not> P r) v) = keys_sorted key h (filter (\<lambda>r. \<not> P r) v)"
    by (rule keys_sorted_cong) (auto simp: h)
  moreover have "keys_sorted key h (filter (\<lambda>r. \<not> P r) v)"
    using v by (auto simp: vec_ok_def keys_sorted_def intro: sorted_filter)
  ultimately show ?thesis using v by (auto simp: vec_ok_def h split: if_splits)
qed

end

section \<open>The two orders\<close>

definition route_key :: "ipv4_route \<Rightarrow> u32 \<times> u32 \<times> u32 \<times> int" where
  "route_key e = (NOT (rt_netmask e), rt_dest e, rt_adminDist e, rt_metric e)"

definition mroute_key :: "mcast_route \<Rightarrow> u32 \<times> u32 \<times> u32 \<times> int" where
  "mroute_key e = (NOT (mr_originNetmask e), mr_origin e, NOT (mr_group e), mr_metric e)"

lemma not_less_word [simp]: "NOT a < NOT b \<longleftrightarrow> b < (a :: 'a::len word)"
proof -
  have "unat (NOT x) = unat (- 1 :: 'a word) - unat x" and "unat x \<le> unat (- 1 :: 'a word)" for x :: "'a word"
  proof -
    have "NOT x = - 1 - x" by (simp add: not_eq_complement)
    moreover have "x \<le> - 1" by simp
    ultimately show "unat (NOT x) = unat (- 1 :: 'a word) - unat x" by (simp only: unat_sub)
    show "unat x \<le> unat (- 1 :: 'a word)" using \<open>x \<le> - 1\<close> by (simp only: word_le_nat_alt)
  qed
  from this(1) [of a] this(1) [of b] this(2) [of a] this(2) [of b] show ?thesis
    unfolding word_less_nat_alt by linarith
qed

lemma not_le_word [simp]: "NOT a \<le> NOT b \<longleftrightarrow> b \<le> (a :: 'a::len word)"
  by (metis not_less_word not_le)

lemma routeLessThan_key: "routeLessThan a b \<longleftrightarrow> route_key a < route_key b"
  unfolding routeLessThan_def route_key_def
  by (cases "rt_netmask a = rt_netmask b"; cases "rt_dest a = rt_dest b"; cases "rt_adminDist a = rt_adminDist b")
    (auto simp: less_prod_simp)

lemma multicastRouteLessThan_key: "multicastRouteLessThan a b \<longleftrightarrow> mroute_key a < mroute_key b"
  unfolding multicastRouteLessThan_def mroute_key_def
  by (cases "mr_originNetmask a = mr_originNetmask b"; cases "mr_origin a = mr_origin b"; cases "mr_group a = mr_group b")
    (auto simp: less_prod_simp)

interpretation unicast: pointer_vector routeLessThan route_key rt_table "\<lambda>b. rt_table_update (\<lambda>_. b)"
  by unfold_locales (simp_all add: routeLessThan_key route_key_def)

interpretation multicast: pointer_vector multicastRouteLessThan mroute_key mr_table "\<lambda>b. mr_table_update (\<lambda>_. b)"
  by unfold_locales (simp_all add: multicastRouteLessThan_key mroute_key_def)

end
