(* ===== verification/FlowInv.thy ===== *)
theory FlowInv
  imports FlowTable
begin

text \<open>
  The routing table as a whole: which operations it has, what they keep, and that they never follow
  a pointer to a deleted route and never fail an assertion.
\<close>

section \<open>The invariant\<close>

definition route_wf :: "ipv4_route \<Rightarrow> bool" where
  "route_wf e \<longleftrightarrow> isValidNetmask (rt_netmask e) \<and> rt_dest e AND NOT (rt_netmask e) = 0"

definition ifaces_ok :: "iface list \<Rightarrow> bool" where
  "ifaces_ok is \<longleftrightarrow> (\<forall>ie \<in> set is. isValidNetmask (if_netmask ie))"

definition vectors_ok :: "nat set \<Rightarrow> flow_table \<Rightarrow> bool" where
  "vectors_ok X t \<longleftrightarrow>
     vec_ok route_key rt_table X (ft_heap t) (ft_routes t) \<and>
     vec_ok mroute_key mr_table {} (ft_mheap t) (ft_mroutes t) \<and>
     (\<forall>r \<in> dom (map_of (ft_heap t)). r < ft_next t) \<and>
     (\<forall>r \<in> set (ft_routes t). \<exists>e. map_of (ft_heap t) r = Some e \<and> route_wf e) \<and>
     ifaces_ok (ft_ift t)"

definition cache_ok :: "flow_table \<Rightarrow> bool" where
  "cache_ok t \<longleftrightarrow> (\<forall>(bin, v) \<in> set (ft_cache t). \<exists>r \<in> set (ft_routes t). v = Some r)"

definition table_ok :: "flow_table \<Rightarrow> bool" where
  "table_ok t \<longleftrightarrow> vectors_ok {} t \<and> cache_ok t"

lemma cache_ok_empty [simp]: "ft_cache t = [] \<Longrightarrow> cache_ok t"
  by (simp add: cache_ok_def)

lemma invalidateCache_fields [simp]:
  "ft_heap (invalidateCache t) = ft_heap t" "ft_routes (invalidateCache t) = ft_routes t"
  "ft_mheap (invalidateCache t) = ft_mheap t" "ft_mroutes (invalidateCache t) = ft_mroutes t"
  "ft_next (invalidateCache t) = ft_next t" "ft_ift (invalidateCache t) = ft_ift t"
  "ft_cache (invalidateCache t) = []"
  by (simp_all add: invalidateCache_def)

lemma fire_fields [simp]:
  "ft_heap (fire n t) = ft_heap t" "ft_routes (fire n t) = ft_routes t"
  "ft_mheap (fire n t) = ft_mheap t" "ft_mroutes (fire n t) = ft_mroutes t"
  "ft_next (fire n t) = ft_next t" "ft_ift (fire n t) = ft_ift t" "ft_cache (fire n t) = ft_cache t"
  by (simp_all add: fire_def)

lemma vectors_ok_fields:
  assumes "ft_heap t' = ft_heap t" "ft_routes t' = ft_routes t" "ft_mheap t' = ft_mheap t"
    "ft_mroutes t' = ft_mroutes t" "ft_next t' = ft_next t" "ft_ift t' = ft_ift t"
  shows "vectors_ok X t' = vectors_ok X t"
  unfolding vectors_ok_def assms by (rule refl)

lemma vectors_ok_invalidate [simp]: "vectors_ok X (invalidateCache t) = vectors_ok X t"
  by (rule vectors_ok_fields) simp_all

lemma vectors_ok_fire [simp]: "vectors_ok X (fire n t) = vectors_ok X t"
  by (rule vectors_ok_fields) simp_all

lemma vectors_live:
  assumes "vectors_ok X t" and "r \<in> set (ft_routes t)"
  shows "\<exists>e. map_of (ft_heap t) r = Some e \<and> route_wf e \<and> (r \<notin> X \<longrightarrow> rt_table e)"
  using assms unfolding vectors_ok_def vec_ok_def by blast

lemma route_before_ptr: "route_before = ptr_before routeLessThan"
  by (intro ext) (simp add: route_before_def ptr_before_def)

lemma mroute_before_ptr: "mroute_before = ptr_before multicastRouteLessThan"
  by (intro ext) (simp add: mroute_before_def ptr_before_def)

section \<open>Taking a route out\<close>

text \<open>\<open>t'\<close> is \<open>t\<close> without the route \<open>r\<close>; the store keeps the other routes.\<close>

definition without :: "nat \<Rightarrow> flow_table \<Rightarrow> flow_table \<Rightarrow> bool" where
  "without r t t' \<longleftrightarrow> ft_routes t' = remove1 r (ft_routes t) \<and>
     (\<forall>q. q \<noteq> r \<longrightarrow> map_of (ft_heap t') q = map_of (ft_heap t) q) \<and>
     ft_mheap t' = ft_mheap t \<and> ft_mroutes t' = ft_mroutes t \<and> ft_next t' = ft_next t \<and>
     ft_ift t' = ft_ift t \<and> (r \<in> set (ft_routes t) \<longrightarrow> ft_cache t' = []) \<and>
     (r \<notin> set (ft_routes t) \<longrightarrow> t' = t)"

lemma distinct_routes: "vectors_ok X t \<Longrightarrow> distinct (ft_routes t)"
  by (simp add: vectors_ok_def vec_ok_def)

lemma without_vectors:
  assumes t: "vectors_ok X t" and w: "without r t t'" and r: "r \<in> set (ft_routes t)"
    and v: "vec_ok route_key rt_table X (ft_heap t') (ft_routes t')"
  shows "vectors_ok X t'"
proof -
  have d: "distinct (ft_routes t)" using t by (rule distinct_routes)
  have f: "ft_routes t' = remove1 r (ft_routes t)" "ft_mheap t' = ft_mheap t" "ft_mroutes t' = ft_mroutes t"
    "ft_next t' = ft_next t" "ft_ift t' = ft_ift t" "\<And>q. q \<noteq> r \<Longrightarrow> map_of (ft_heap t') q = map_of (ft_heap t) q"
    using w by (simp_all add: without_def)
  have b: "\<forall>q \<in> dom (map_of (ft_heap t)). q < ft_next t"
    and wf: "\<forall>q \<in> set (ft_routes t). \<exists>e. map_of (ft_heap t) q = Some e \<and> route_wf e"
    using t by (simp_all add: vectors_ok_def)
  have "q < ft_next t" if "q \<in> dom (map_of (ft_heap t'))" for q
  proof -
    have "q \<in> dom (map_of (ft_heap t))"
      using that f(6) [of q] vectors_live [OF t r] by (cases "q = r") (auto simp: dom_def)
    with b show ?thesis by blast
  qed
  moreover have "\<exists>e. map_of (ft_heap t') q = Some e \<and> route_wf e" if "q \<in> set (ft_routes t')" for q
    using that wf d f(6) [of q] by (cases "q = r") (auto simp: f(1))
  ultimately show ?thesis using t v by (simp add: vectors_ok_def f(2-5))
qed

lemma removeRoute_ok:
  assumes t: "vectors_ok X t" and r: "r \<notin> X"
  shows "\<exists>x t'. removeRoute r t = Inr (x, t') \<and> vectors_ok X t' \<and> without r t t'"
proof (cases "r \<in> set (ft_routes t)")
  case True
  obtain e where e: "map_of (ft_heap t) r = Some e" "rt_table e" using vectors_live [OF t True] r by blast
  let ?t1 = "fire (RouteDeleted r) (invalidateCache (t\<lparr>ft_routes := remove1 r (ft_routes t)\<rparr>))"
  let ?t' = "?t1\<lparr>ft_heap := al_put r (e\<lparr>rt_table := False\<rparr>) (ft_heap t)\<rparr>"
  have eq: "removeRoute r t = Inr (Some r, ?t')"
    using True e by (simp add: removeRoute_def internalRemoveRoute_def Let_def live_route_def)
  have w: "without r t ?t'" using True by (simp add: without_def)
  have v: "vec_ok route_key rt_table X (ft_heap t) (ft_routes t)" using t by (simp add: vectors_ok_def)
  have "r \<notin> set (remove1 r (ft_routes t))" using distinct_routes [OF t] by simp
  from unicast.vec_unlink [OF unicast.vec_out [OF v True] this, of "e\<lparr>rt_table := False\<rparr>"] r
  have "vec_ok route_key rt_table X (ft_heap ?t') (ft_routes ?t')" by simp
  from without_vectors [OF t w True this] eq w show ?thesis by blast
next
  case False
  then have "removeRoute r t = Inr (None, t)" by (simp add: removeRoute_def internalRemoveRoute_def)
  then show ?thesis using t False by (simp add: without_def remove1_idem)
qed

lemma deleteRoute_ok:
  assumes t: "vectors_ok X t" and r: "r \<notin> X"
  shows "\<exists>x t'. deleteRoute r t = Inr (x, t') \<and> vectors_ok X t' \<and> without r t t'"
proof (cases "r \<in> set (ft_routes t)")
  case True
  obtain e where e: "map_of (ft_heap t) r = Some e" "rt_table e" using vectors_live [OF t True] r by blast
  let ?t1 = "fire (RouteDeleted r) (invalidateCache (t\<lparr>ft_routes := remove1 r (ft_routes t)\<rparr>))"
  let ?t' = "delete_route_object r ?t1"
  have eq: "deleteRoute r t = Inr (True, ?t')"
    using True e by (simp add: deleteRoute_def internalRemoveRoute_def Let_def live_route_def)
  have w: "without r t ?t'" using True by (simp add: without_def delete_route_object_def)
  have v: "vec_ok route_key rt_table X (ft_heap t) (ft_routes t)" using t by (simp add: vectors_ok_def)
  have "r \<notin> set (remove1 r (ft_routes t))" using distinct_routes [OF t] by simp
  from unicast.vec_free [OF unicast.vec_out [OF v True] this] r
  have "vec_ok route_key rt_table X (ft_heap ?t') (ft_routes ?t')" by (simp add: delete_route_object_def)
  from without_vectors [OF t w True this] eq w show ?thesis by blast
next
  case False
  then have "deleteRoute r t = Inr (False, t)" by (simp add: deleteRoute_def internalRemoveRoute_def)
  moreover have "without r t t" using False by (simp add: without_def remove1_idem)
  ultimately show ?thesis using t by blast
qed

lemma without_cache: "without r t t' \<Longrightarrow> cache_ok t \<Longrightarrow> cache_ok t'"
  by (cases "r \<in> set (ft_routes t)") (auto simp: without_def)

section \<open>Putting a route in\<close>

lemma default_scan_ok:
  assumes "vectors_ok X t" and "set rs \<subseteq> set (ft_routes t)"
  shows "\<exists>d. default_scan t rs = Inr d \<and> (\<forall>r. d = Some r \<longrightarrow> r \<in> set rs)"
  using assms(2)
proof (induction rs)
  case (Cons r rs)
  obtain e where "map_of (ft_heap t) r = Some e" using vectors_live [OF assms(1), of r] Cons.prems by auto
  with Cons show ?case by (auto simp: live_route_def)
qed simp

lemma insert_route_ok:
  assumes t: "vectors_ok X t" and e: "map_of (ft_heap t) r = Some e" and r: "r \<notin> set (ft_routes t)"
    and wf: "route_wf e"
  shows "\<exists>t'. insert_route r t = Inr t' \<and> vectors_ok (X - {r}) t' \<and>
     set (ft_routes t') = insert r (set (ft_routes t)) \<and> ft_cache t' = ft_cache t"
proof -
  let ?h = "al_put r (e\<lparr>rt_table := True\<rparr>) (ft_heap t)"
  let ?t' = "t\<lparr>ft_routes := ptr_insert routeLessThan (ft_heap t) r (ft_routes t), ft_heap := ?h\<rparr>"
  have all: "list_all (\<lambda>x. map_of (ft_heap t) x \<noteq> None) (ft_routes t)"
    using t by (auto simp: vectors_ok_def vec_ok_def list_all_iff)
  have eq: "insert_route r t = Inr ?t'"
    using all by (simp add: insert_route_def live_route_def e route_before_ptr ptr_insert_def Let_def)
  have v: "vec_ok route_key rt_table X (ft_heap t) (ft_routes t)" using t by (simp add: vectors_ok_def)
  have "vec_ok route_key rt_table (X - {r}) ?h (ft_routes ?t')"
    using unicast.vec_insert [OF v e r] by simp
  moreover have "\<exists>e'. map_of ?h q = Some e' \<and> route_wf e'" if "q \<in> set (ft_routes ?t')" for q
    using that wf t by (cases "q = r") (auto simp: vectors_ok_def route_wf_def)
  moreover have "q < ft_next t" if "q \<in> dom (map_of ?h)" for q
    using that t e by (cases "q = r") (auto simp: vectors_ok_def)
  ultimately have "vectors_ok (X - {r}) ?t'" using t by (simp add: vectors_ok_def)
  then show ?thesis unfolding eq by simp
qed

lemma internalAddRoute_ok:
  assumes t: "vectors_ok {r} t" and e: "map_of (ft_heap t) r = Some e" and r: "r \<notin> set (ft_routes t)"
  shows "internalAddRoute r t = Inl RuntimeError \<or>
     (\<exists>t'. internalAddRoute r t = Inr t' \<and> vectors_ok {} t' \<and> r \<in> set (ft_routes t'))"
proof (cases "route_wf e \<and> \<not> (rt_netmask e \<noteq> 0 \<and> rt_dest e AND rt_netmask e = 0) \<and> rt_interface e \<noteq> None")
  case False
  then show ?thesis using e by (auto simp: internalAddRoute_def live_route_def route_wf_def)
next
  case True
  have "\<exists>t1. (if isUnspecified (rt_netmask e) then
         rbind (getDefaultRoute t) (\<lambda>oldDefaultRoute. case oldDefaultRoute of None \<Rightarrow> Inr t
           | Some d \<Rightarrow> rbind (deleteRoute d t) (\<lambda>(_, t). Inr t))
       else Inr t) = Inr t1 \<and> vectors_ok {r} t1 \<and> map_of (ft_heap t1) r = Some e \<and> r \<notin> set (ft_routes t1)"
  proof (cases "isUnspecified (rt_netmask e)")
    case True
    obtain d where d: "getDefaultRoute t = Inr d" "\<forall>q. d = Some q \<longrightarrow> q \<in> set (ft_routes t)"
      using default_scan_ok [OF t, of "rev (ft_routes t)"] by (auto simp: getDefaultRoute_def)
    show ?thesis
    proof (cases d)
      case None
      then show ?thesis using True d t e r by simp
    next
      case (Some q)
      then have q: "q \<noteq> r" using d(2) r by auto
      obtain x t1 where t1: "deleteRoute q t = Inr (x, t1)" "vectors_ok {r} t1" "without q t t1"
        using deleteRoute_ok [OF t, of q] q by auto
      then have "map_of (ft_heap t1) r = Some e" "r \<notin> set (ft_routes t1)"
        using q e r by (auto simp: without_def dest: notin_set_remove1)
      then show ?thesis using True d(1) Some t1 by simp
    qed
  qed (use t e r in simp)
  then obtain t1 where t1: "(if isUnspecified (rt_netmask e) then
         rbind (getDefaultRoute t) (\<lambda>oldDefaultRoute. case oldDefaultRoute of None \<Rightarrow> Inr t
           | Some d \<Rightarrow> rbind (deleteRoute d t) (\<lambda>(_, t). Inr t))
       else Inr t) = Inr t1" "vectors_ok {r} t1" "map_of (ft_heap t1) r = Some e" "r \<notin> set (ft_routes t1)"
    by blast
  obtain t' where t': "insert_route r t1 = Inr t'" "vectors_ok {} t'" "r \<in> set (ft_routes t')"
    using insert_route_ok [OF t1(2,3,4)] True by auto
  have "internalAddRoute r t = insert_route r t1"
  proof -
    have c: "\<not> \<not> isValidNetmask (rt_netmask e)" "\<not> (rt_netmask e \<noteq> 0 \<and> rt_dest e AND rt_netmask e = 0)"
      "\<not> rt_dest e AND NOT (rt_netmask e) \<noteq> 0" "rt_interface e \<noteq> None"
      using True by (simp_all add: route_wf_def)
    show ?thesis unfolding internalAddRoute_def live_route_def e of_option_Some rbind_Inr
        if_not_P [OF c(1)] if_not_P [OF c(2)] if_not_P [OF c(3)] if_not_P [OF c(4)] t1(1) by (rule refl)
  qed
  then show ?thesis using t' by simp
qed


lemma addRoute_ok:
  assumes t: "table_ok t" and e: "map_of (ft_heap t) r = Some e" and u: "\<not> rt_table e"
  shows "addRoute r t = Inl RuntimeError \<or> (\<exists>t'. addRoute r t = Inr t' \<and> table_ok t')"
proof -
  have v: "vectors_ok {} t" using t by (simp add: table_ok_def)
  then have r: "r \<notin> set (ft_routes t)" using e u by (auto simp: vectors_ok_def vec_ok_def)
  have "vectors_ok {r} t" using v by (simp add: vectors_ok_def vec_ok_def)
  from internalAddRoute_ok [OF this e r] show ?thesis by (auto simp: addRoute_def table_ok_def)
qed

text \<open>A field of a route changes; the route is put back where it belongs.\<close>

lemma put_field_table [simp]: "rt_table (put_field f e) = rt_table e"
  by (cases f) simp_all

lemma route_key_put_field: "\<not> reorders f \<Longrightarrow> \<forall>v. f \<noteq> F_ADMINDIST v \<Longrightarrow> route_key (put_field f e) = route_key e"
  by (cases f) (simp_all add: route_key_def)

lemma route_wf_put_field: "\<not> reorders f \<Longrightarrow> route_wf (put_field f e) = route_wf e"
  by (cases f) (simp_all add: route_wf_def)

lemma vectors_out:
  assumes t: "vectors_ok {} t" and r: "r \<in> set (ft_routes t)" and e: "map_of (ft_heap t) r = Some e"
  shows "vectors_ok {r} (t\<lparr>ft_routes := remove1 r (ft_routes t), ft_heap := al_put r e' (ft_heap t)\<rparr>)"
proof -
  have v: "vec_ok route_key rt_table {} (ft_heap t) (ft_routes t)" using t by (simp add: vectors_ok_def)
  have d: "r \<notin> set (remove1 r (ft_routes t))" using distinct_routes [OF t] by simp
  have "vec_ok route_key rt_table {r} (al_put r e' (ft_heap t)) (remove1 r (ft_routes t))"
    by (rule unicast.vec_put [OF unicast.vec_out [OF v r] d]) simp
  moreover have "\<exists>o'. map_of (al_put r e' (ft_heap t)) q = Some o' \<and> route_wf o'"
    if "q \<in> set (remove1 r (ft_routes t))" for q
    using that d t by (cases "q = r") (auto simp: vectors_ok_def dest: notin_set_remove1)
  moreover have "q < ft_next t" if "q \<in> dom (map_of (al_put r e' (ft_heap t)))" for q
    using that t e by (cases "q = r") (auto simp: vectors_ok_def)
  ultimately show ?thesis using t by (simp add: vectors_ok_def)
qed

lemma vectors_same:
  assumes t: "vectors_ok X t" and e: "map_of (ft_heap t) r = Some e" and k: "route_key e' = route_key e"
    and l: "rt_table e' = rt_table e" and w: "route_wf e' = route_wf e"
  shows "vectors_ok X (t\<lparr>ft_heap := al_put r e' (ft_heap t)\<rparr>)"
proof -
  have v: "vec_ok route_key rt_table X (ft_heap t) (ft_routes t)" using t by (simp add: vectors_ok_def)
  have "\<exists>o'. map_of (al_put r e' (ft_heap t)) q = Some o' \<and> route_wf o'" if "q \<in> set (ft_routes t)" for q
    using that t e w by (cases "q = r") (auto simp: vectors_ok_def)
  moreover have "q < ft_next t" if "q \<in> dom (map_of (al_put r e' (ft_heap t)))" for q
    using that t e by (cases "q = r") (auto simp: vectors_ok_def)
  ultimately show ?thesis using t unicast.vec_same [OF v e k l] by (simp add: vectors_ok_def)
qed

lemma vectors_unlisted:
  assumes t: "vectors_ok {} t" and e: "map_of (ft_heap t) r = Some e" and l: "\<not> rt_table e" "\<not> rt_table e'"
  shows "vectors_ok {} (t\<lparr>ft_heap := al_put r e' (ft_heap t)\<rparr>)"
proof -
  have v: "vec_ok route_key rt_table {} (ft_heap t) (ft_routes t)" using t by (simp add: vectors_ok_def)
  then have r: "r \<notin> set (ft_routes t)" using e l(1) by (auto simp: vec_ok_def)
  have "\<exists>o'. map_of (al_put r e' (ft_heap t)) q = Some o' \<and> route_wf o'" if "q \<in> set (ft_routes t)" for q
    using that t r by (cases "q = r") (auto simp: vectors_ok_def)
  moreover have "q < ft_next t" if "q \<in> dom (map_of (al_put r e' (ft_heap t)))" for q
    using that t e by (cases "q = r") (auto simp: vectors_ok_def)
  ultimately show ?thesis using t unicast.vec_put [OF v r, of e'] l(2) by (simp add: vectors_ok_def)
qed

lemma set_route_field_ok:
  assumes t: "table_ok t" and e: "map_of (ft_heap t) r = Some e" and a: "rt_table e \<longrightarrow> (\<forall>v. f \<noteq> F_ADMINDIST v)"
  shows "set_route_field r f t = Inl RuntimeError \<or> (\<exists>t'. set_route_field r f t = Inr t' \<and> table_ok t')"
proof -
  let ?t = "t\<lparr>ft_heap := al_put r (put_field f e) (ft_heap t)\<rparr>"
  have v: "vectors_ok {} t" and c: "cache_ok t" using t by (simp_all add: table_ok_def)
  have eq: "set_route_field r f t = (if field_differs f e then if rt_table e then routeChanged r f ?t else Inr ?t
      else Inr t)" by (simp add: set_route_field_def live_route_def e Let_def)
  have c': "cache_ok ?t" using c by (simp add: cache_ok_def)
  consider "\<not> field_differs f e" | "field_differs f e" "\<not> rt_table e"
    | "rt_table e" "field_differs f e" "\<not> reorders f" | "rt_table e" "field_differs f e" "reorders f" by blast
  then show ?thesis
  proof cases
    case 1
    then show ?thesis using t unfolding eq by simp
  next
    case 2
    then have "table_ok ?t" using vectors_unlisted [OF v e] c' by (simp add: table_ok_def)
    then show ?thesis using 2 unfolding eq by simp
  next
    case 3
    have "vectors_ok {} ?t"
      by (rule vectors_same [OF v e]) (use 3 a in \<open>simp_all add: route_key_put_field route_wf_put_field\<close>)
    then have "table_ok (fire (RouteChanged r) ?t)" using c' by (simp add: table_ok_def cache_ok_def)
    then show ?thesis using 3 unfolding eq by (simp add: routeChanged_def)
  next
    case 4
    have r: "r \<in> set (ft_routes t)" using v e 4(1) by (auto simp: vectors_ok_def vec_ok_def)
    let ?u = "t\<lparr>ft_routes := remove1 r (ft_routes t), ft_heap := al_put r (put_field f e) (ft_heap t)\<rparr>"
    have "vectors_ok {r} ?u" by (rule vectors_out [OF v r e])
    moreover have "map_of (ft_heap ?u) r = Some (put_field f e)" "r \<notin> set (ft_routes ?u)"
      using distinct_routes [OF v] by simp_all
    ultimately have "internalAddRoute r ?u = Inl RuntimeError \<or>
        (\<exists>t'. internalAddRoute r ?u = Inr t' \<and> vectors_ok {} t')"
      using internalAddRoute_ok by blast
    moreover have "internalRemoveRoute r ?t = (Some r, ?u)" using r by (simp add: internalRemoveRoute_def)
    ultimately show ?thesis using 4 unfolding eq by (auto simp: routeChanged_def table_ok_def)
  qed
qed

section \<open>The erasing loops\<close>

text \<open>The loop over a part \<open>rs\<close> of the vector deletes from the store what it drops.\<close>

lemma erase_loop_ok:
  assumes "distinct rs" and "\<forall>r \<in> set rs. \<exists>e. map_of (ft_heap t) r = Some e \<and> rt_table e"
  shows "\<exists>h ns. erase_loop P rs t =
       Inr (filter (\<lambda>r. \<not> P (the (map_of (ft_heap t) r))) rs,
            \<exists>r \<in> set rs. P (the (map_of (ft_heap t) r)), t\<lparr>ft_heap := h, ft_notes := ns\<rparr>) \<and>
     (\<forall>q. map_of h q = (if q \<in> set rs \<and> P (the (map_of (ft_heap t) q)) then None else map_of (ft_heap t) q))"
  using assms
proof (induction rs arbitrary: t)
  case Nil
  have "t = t\<lparr>ft_heap := ft_heap t, ft_notes := ft_notes t\<rparr>" by simp
  then show ?case by (intro exI [of _ "ft_heap t"] exI [of _ "ft_notes t"]) simp
next
  case (Cons r rs)
  obtain e where e: "map_of (ft_heap t) r = Some e" "rt_table e" using Cons.prems(2) by auto
  show ?case
  proof (cases "P e")
    case True
    let ?t = "delete_route_object r (fire (RouteDeleted r) t)"
    have ne: "\<And>q. q \<in> set rs \<Longrightarrow> q \<noteq> r" using Cons.prems(1) by auto
    have same: "\<And>q. q \<noteq> r \<Longrightarrow> map_of (ft_heap ?t) q = map_of (ft_heap t) q" by (simp add: delete_route_object_def)
    have "\<forall>q \<in> set rs. \<exists>e. map_of (ft_heap ?t) q = Some e \<and> rt_table e"
      using Cons.prems(2) ne same by auto
    from Cons.IH [OF _ this] Cons.prems(1) obtain h ns where
      h: "erase_loop P rs ?t = Inr (filter (\<lambda>r. \<not> P (the (map_of (ft_heap ?t) r))) rs,
            \<exists>r \<in> set rs. P (the (map_of (ft_heap ?t) r)), ?t\<lparr>ft_heap := h, ft_notes := ns\<rparr>)"
      "\<forall>q. map_of h q = (if q \<in> set rs \<and> P (the (map_of (ft_heap ?t) q)) then None else map_of (ft_heap ?t) q)"
      by auto
    have f: "filter (\<lambda>r. \<not> P (the (map_of (ft_heap ?t) r))) rs = filter (\<lambda>r. \<not> P (the (map_of (ft_heap t) r))) rs"
      by (rule filter_cong) (use ne same in auto)
    have "erase_loop P (r # rs) t = Inr (filter (\<lambda>r. \<not> P (the (map_of (ft_heap t) r))) (r # rs), True,
        t\<lparr>ft_heap := h, ft_notes := ns\<rparr>)"
      using e True h(1) f by (simp add: live_route_def delete_route_object_def fire_def)
    moreover have "map_of h q = (if q \<in> set (r # rs) \<and> P (the (map_of (ft_heap t) q)) then None else map_of (ft_heap t) q)" for q
      using h(2) e True ne same [of q] by (cases "q = r") (auto simp: delete_route_object_def)
    ultimately show ?thesis using e True by auto
  next
    case False
    have d: "distinct rs" "\<forall>r \<in> set rs. \<exists>e. map_of (ft_heap t) r = Some e \<and> rt_table e"
      using Cons.prems by auto
    from Cons.IH [OF d] obtain h ns where
      h: "erase_loop P rs t = Inr (filter (\<lambda>r. \<not> P (the (map_of (ft_heap t) r))) rs,
            \<exists>r \<in> set rs. P (the (map_of (ft_heap t) r)), t\<lparr>ft_heap := h, ft_notes := ns\<rparr>)"
      "\<forall>q. map_of h q = (if q \<in> set rs \<and> P (the (map_of (ft_heap t) q)) then None else map_of (ft_heap t) q)"
      by blast
    show ?thesis using e False h by (intro exI [of _ h] exI [of _ ns]) (auto simp: live_route_def)
  qed
qed

lemma erase_routes_ok:
  assumes t: "vectors_ok {} t"
  shows "\<exists>b t'. erase_routes P t = Inr (b, t') \<and> vectors_ok {} t' \<and> (\<not> b \<longrightarrow> ft_routes t' = ft_routes t) \<and>
     ft_mroutes t' = ft_mroutes t \<and> ft_mheap t' = ft_mheap t \<and> ft_cache t' = ft_cache t \<and>
     ft_ift t' = ft_ift t \<and>
     ft_routes t' = filter (\<lambda>r. \<not> P (the (map_of (ft_heap t) r))) (ft_routes t)"
proof -
  let ?Q = "\<lambda>r. P (the (map_of (ft_heap t) r))"
  have d: "distinct (ft_routes t)" using t by (rule distinct_routes)
  have l: "\<forall>r \<in> set (ft_routes t). \<exists>e. map_of (ft_heap t) r = Some e \<and> rt_table e"
    using vectors_live [OF t] by blast
  obtain h ns where
    h: "erase_loop P (ft_routes t) t = Inr (filter (\<lambda>r. \<not> ?Q r) (ft_routes t), \<exists>r \<in> set (ft_routes t). ?Q r,
        t\<lparr>ft_heap := h, ft_notes := ns\<rparr>)"
      "\<forall>q. map_of h q = (if q \<in> set (ft_routes t) \<and> ?Q q then None else map_of (ft_heap t) q)"
    using erase_loop_ok [OF d l, of P] by blast
  have v: "vec_ok route_key rt_table {} (ft_heap t) (ft_routes t)" using t by (simp add: vectors_ok_def)
  let ?t' = "t\<lparr>ft_heap := h, ft_notes := ns, ft_routes := filter (\<lambda>r. \<not> ?Q r) (ft_routes t)\<rparr>"
  have "vec_ok route_key rt_table {} h (filter (\<lambda>r. \<not> ?Q r) (ft_routes t))"
    by (rule unicast.vec_filter [OF v]) (use h(2) in blast)
  moreover have "q < ft_next t" if "q \<in> dom (map_of h)" for q
  proof -
    from that h(2) have "q \<in> dom (map_of (ft_heap t))" by (metis domIff)
    with t show ?thesis by (simp add: vectors_ok_def)
  qed
  moreover have "\<exists>e. map_of h q = Some e \<and> route_wf e" if "q \<in> set (filter (\<lambda>r. \<not> ?Q r) (ft_routes t))" for q
    using that t h(2) by (auto simp: vectors_ok_def)
  ultimately have "vectors_ok {} ?t'" using t by (simp add: vectors_ok_def)
  moreover have "erase_routes P t = Inr (\<exists>r \<in> set (ft_routes t). ?Q r, ?t')"
    by (simp add: erase_routes_def h(1))
  moreover have "filter (\<lambda>r. \<not> ?Q r) (ft_routes t) = ft_routes t" if "\<not> (\<exists>r \<in> set (ft_routes t). ?Q r)"
    using that by (simp add: filter_id_conv)
  ultimately show ?thesis
    by (intro exI [of _ "\<exists>r \<in> set (ft_routes t). ?Q r"] exI [of _ ?t']) simp
qed


lemma vec_drop:
  assumes "vec_ok mroute_key mr_table {} h (pre @ r # rs)"
  shows "vec_ok mroute_key mr_table {} (al_del r h) (pre @ rs)"
proof -
  have d: "distinct (pre @ r # rs)" using assms by (simp add: vec_ok_def)
  then have "remove1 r (pre @ r # rs) = pre @ rs" and "r \<notin> set (pre @ rs)"
    by (auto simp: remove1_append)
  with multicast.vec_out [OF assms, of r] multicast.vec_free [where X = "{}" and r = r and h = h and v = "pre @ rs"] show ?thesis by simp
qed

lemma vec_listed:
  "vec_ok mroute_key mr_table {} h v \<Longrightarrow> r \<in> set v \<Longrightarrow> \<exists>e. map_of h r = Some e \<and> mr_table e"
  unfolding vec_ok_def by blast

lemma removeOutInterface_ok:
  assumes v: "vec_ok mroute_key mr_table {} (ft_mheap t) v" and r: "r \<in> set v"
  shows "\<exists>b h ns. removeOutInterface r i t = Inr (b, t\<lparr>ft_mheap := h, ft_notes := ns\<rparr>) \<and>
     vec_ok mroute_key mr_table {} h v"
proof -
  obtain e where e: "map_of (ft_mheap t) r = Some e" "mr_table e" using vec_listed [OF v r] by blast
  have same: "t = t\<lparr>ft_mheap := ft_mheap t, ft_notes := ft_notes t\<rparr>" by simp
  show ?thesis
  proof (cases "i \<in> set (mr_outs e)")
    case True
    let ?h = "al_put r (e\<lparr>mr_outs := remove1 i (mr_outs e)\<rparr>) (ft_mheap t)"
    have "vec_ok mroute_key mr_table {} ?h v"
      by (rule multicast.vec_same [OF v e(1)]) (simp_all add: mroute_key_def)
    then show ?thesis using e True
      by (simp add: removeOutInterface_def live_mroute_def multicastRouteChanged_def fire_def Let_def) blast
  next
    case False
    then have "removeOutInterface r i t = Inr (False, t)"
      using e by (simp add: removeOutInterface_def live_mroute_def)
    then show ?thesis using v same by metis
  qed
qed

lemma erase_mloop_ok:
  assumes "vec_ok mroute_key mr_table {} (ft_mheap t) (pre @ rs)"
  shows "\<exists>kept b h ns. erase_mloop i rs t = Inr (kept, b, t\<lparr>ft_mheap := h, ft_notes := ns\<rparr>) \<and>
     vec_ok mroute_key mr_table {} h (pre @ kept)"
  using assms
proof (induction rs arbitrary: t pre)
  case Nil
  have same: "t = t\<lparr>ft_mheap := ft_mheap t, ft_notes := ft_notes t\<rparr>" by simp
  show ?case unfolding erase_mloop.simps using Nil same by (metis append_Nil2)
next
  case (Cons r rs)
  obtain e where e: "map_of (ft_mheap t) r = Some e" "mr_table e"
    using vec_listed [OF Cons.prems, of r] by auto
  show ?case
  proof (cases "mr_in e = Some i")
    case True
    let ?t = "delete_mroute_object r (fire (MRouteDeleted r) t)"
    have "vec_ok mroute_key mr_table {} (ft_mheap ?t) (pre @ rs)"
      using vec_drop [OF Cons.prems] by (simp add: delete_mroute_object_def)
    from Cons.IH [OF this] obtain kept b h ns where
      h: "erase_mloop i rs ?t = Inr (kept, b, ?t\<lparr>ft_mheap := h, ft_notes := ns\<rparr>)"
        "vec_ok mroute_key mr_table {} h (pre @ kept)" by blast
    have eq: "?t\<lparr>ft_mheap := h, ft_notes := ns\<rparr> = t\<lparr>ft_mheap := h, ft_notes := ns\<rparr>"
      by (simp add: delete_mroute_object_def fire_def)
    have "erase_mloop i (r # rs) t = Inr (kept, True, t\<lparr>ft_mheap := h, ft_notes := ns\<rparr>)"
      using e True h(1) by (simp add: live_mroute_def eq)
    then show ?thesis using h(2) by blast
  next
    case False
    obtain c h ns where c: "removeOutInterface r i t = Inr (c, t\<lparr>ft_mheap := h, ft_notes := ns\<rparr>)"
      "vec_ok mroute_key mr_table {} h (pre @ r # rs)"
      using removeOutInterface_ok [OF Cons.prems, of r i] by auto
    let ?t = "if c then fire (MRouteChanged r) (t\<lparr>ft_mheap := h, ft_notes := ns\<rparr>)
      else t\<lparr>ft_mheap := h, ft_notes := ns\<rparr>"
    have "vec_ok mroute_key mr_table {} (ft_mheap ?t) ((pre @ [r]) @ rs)" using c(2) by (simp add: fire_def)
    from Cons.IH [OF this] obtain kept b h' ns' where
      h': "erase_mloop i rs ?t = Inr (kept, b, ?t\<lparr>ft_mheap := h', ft_notes := ns'\<rparr>)"
        "vec_ok mroute_key mr_table {} h' ((pre @ [r]) @ kept)" by blast
    have eq: "?t\<lparr>ft_mheap := h', ft_notes := ns'\<rparr> = t\<lparr>ft_mheap := h', ft_notes := ns'\<rparr>" by (simp add: fire_def)
    have "erase_mloop i (r # rs) t = Inr (r # kept, c \<or> b, t\<lparr>ft_mheap := h', ft_notes := ns'\<rparr>)"
      unfolding erase_mloop.simps live_mroute_def e(1) of_option_Some rbind_Inr if_not_P [OF False] c(1)
        prod.case Let_def h'(1) eq by (rule refl)
    then show ?thesis using h'(2) by (simp only: append_assoc append_Cons append_Nil) blast
  qed
qed

lemma purge_mloop_ok:
  assumes "vec_ok mroute_key mr_table {} (ft_mheap t) (pre @ rs)"
  shows "\<exists>kept b h ns. purge_mloop rs t = Inr (kept, b, t\<lparr>ft_mheap := h, ft_notes := ns\<rparr>) \<and>
     vec_ok mroute_key mr_table {} h (pre @ kept)"
  using assms
proof (induction rs arbitrary: t pre)
  case Nil
  have same: "t = t\<lparr>ft_mheap := ft_mheap t, ft_notes := ft_notes t\<rparr>" by simp
  show ?case unfolding purge_mloop.simps using Nil same by (metis append_Nil2)
next
  case (Cons r rs)
  obtain e where e: "map_of (ft_mheap t) r = Some e" "mr_table e"
    using vec_listed [OF Cons.prems, of r] by auto
  show ?case
  proof (cases "mr_valid e")
    case False
    let ?t = "delete_mroute_object r (fire (MRouteDeleted r) t)"
    have "vec_ok mroute_key mr_table {} (ft_mheap ?t) (pre @ rs)"
      using vec_drop [OF Cons.prems] by (simp add: delete_mroute_object_def)
    from Cons.IH [OF this] obtain kept b h ns where
      h: "purge_mloop rs ?t = Inr (kept, b, ?t\<lparr>ft_mheap := h, ft_notes := ns\<rparr>)"
        "vec_ok mroute_key mr_table {} h (pre @ kept)" by blast
    have eq: "?t\<lparr>ft_mheap := h, ft_notes := ns\<rparr> = t\<lparr>ft_mheap := h, ft_notes := ns\<rparr>"
      by (simp add: delete_mroute_object_def fire_def)
    have "purge_mloop (r # rs) t = Inr (kept, True, t\<lparr>ft_mheap := h, ft_notes := ns\<rparr>)"
      using e False h(1) by (simp add: live_mroute_def eq)
    then show ?thesis using h(2) by blast
  next
    case True
    have "vec_ok mroute_key mr_table {} (ft_mheap t) ((pre @ [r]) @ rs)" using Cons.prems by simp
    from Cons.IH [OF this] obtain kept b h ns where
      h: "purge_mloop rs t = Inr (kept, b, t\<lparr>ft_mheap := h, ft_notes := ns\<rparr>)"
        "vec_ok mroute_key mr_table {} h ((pre @ [r]) @ kept)" by blast
    have "purge_mloop (r # rs) t = Inr (r # kept, b, t\<lparr>ft_mheap := h, ft_notes := ns\<rparr>)"
      using e True h(1) by (simp add: live_mroute_def)
    then show ?thesis using h(2) by (simp only: append_assoc append_Cons append_Nil) blast
  qed
qed


section \<open>The operations on interfaces and the node\<close>

text \<open>Unicast and multicast loops one after the other; the caches go if anything changed.\<close>

lemma both_loops_ok:
  assumes t: "table_ok t"
    and m: "\<And>u. vec_ok mroute_key mr_table {} (ft_mheap u) (ft_mroutes t) \<Longrightarrow>
      \<exists>kept b h ns. loop (ft_mroutes t) u = Inr (kept, b, u\<lparr>ft_mheap := h, ft_notes := ns\<rparr>) \<and>
        vec_ok mroute_key mr_table {} h kept"
  shows "\<exists>t'. rbind (erase_routes P t) (\<lambda>(b, t). rbind (loop (ft_mroutes t) t) (\<lambda>(kept, c, t).
       let t = t\<lparr>ft_mroutes := kept\<rparr> in Inr (if b \<or> c then invalidateCache t else t))) = Inr t' \<and> table_ok t'"
proof -
  have v: "vectors_ok {} t" and c: "cache_ok t" using t by (simp_all add: table_ok_def)
  obtain b t1 where
    t1: "erase_routes P t = Inr (b, t1)" "vectors_ok {} t1" "\<not> b \<longrightarrow> ft_routes t1 = ft_routes t"
      "ft_mroutes t1 = ft_mroutes t" "ft_cache t1 = ft_cache t"
    using erase_routes_ok [OF v] by blast
  have "vec_ok mroute_key mr_table {} (ft_mheap t1) (ft_mroutes t)" using t1(2,4) by (simp add: vectors_ok_def)
  from m [OF this] obtain kept d h ns where
    l: "loop (ft_mroutes t) t1 = Inr (kept, d, t1\<lparr>ft_mheap := h, ft_notes := ns\<rparr>)"
      "vec_ok mroute_key mr_table {} h kept" by blast
  let ?u = "t1\<lparr>ft_mheap := h, ft_notes := ns, ft_mroutes := kept\<rparr>"
  have "vectors_ok {} ?u" using t1(2) l(2) by (simp add: vectors_ok_def)
  moreover have "\<not> (b \<or> d) \<longrightarrow> cache_ok ?u" using c t1(3,5) by (simp add: cache_ok_def)
  ultimately show ?thesis using t1(1,4) l(1) by (simp add: table_ok_def Let_def)
qed

lemma deleteInterfaceRoutes_ok: "table_ok t \<Longrightarrow> \<exists>t'. deleteInterfaceRoutes i t = Inr t' \<and> table_ok t'"
  unfolding deleteInterfaceRoutes_def
  by (rule both_loops_ok) (use erase_mloop_ok [where pre = "[]"] in fastforce)+

lemma purge_ok: "table_ok t \<Longrightarrow> \<exists>t'. purge t = Inr t' \<and> table_ok t'"
  unfolding purge_def
  by (rule both_loops_ok) (use purge_mloop_ok [where pre = "[]"] in fastforce)+

lemma netmask_route_wf: "isValidNetmask (if_netmask ie) \<Longrightarrow> route_wf (netmask_route ie)"
proof -
  have "(a AND m) AND NOT m = 0" for a m :: u32 by (simp add: ac_simps)
  then show "isValidNetmask (if_netmask ie) \<Longrightarrow> route_wf (netmask_route ie)"
    by (simp add: route_wf_def netmask_route_def)
qed

lemma new_route_vectors:
  assumes t: "vectors_ok X t" and e: "rt_table e \<longrightarrow> ft_next t \<in> X"
  shows "vectors_ok X (snd (new_route e t)) \<and> map_of (ft_heap (snd (new_route e t))) (ft_next t) = Some e \<and>
     ft_next t \<notin> set (ft_routes (snd (new_route e t)))"
proof -
  let ?t = "snd (new_route e t)"
  have fresh: "map_of (ft_heap t) (ft_next t) = None" using t by (fastforce simp: vectors_ok_def)
  then have n: "ft_next t \<notin> set (ft_routes t)" using t by (auto simp: vectors_ok_def vec_ok_def)
  have v: "vec_ok route_key rt_table X (ft_heap t) (ft_routes t)" using t by (simp add: vectors_ok_def)
  have "vec_ok route_key rt_table X (ft_heap ?t) (ft_routes ?t)"
    using unicast.vec_put [OF v n e] by (simp add: new_route_def)
  moreover have "\<exists>o'. map_of (ft_heap ?t) q = Some o' \<and> route_wf o'" if "q \<in> set (ft_routes t)" for q
    using that t n by (cases "q = ft_next t") (auto simp: vectors_ok_def new_route_def)
  moreover have "q < Suc (ft_next t)" if "q \<in> dom (map_of (ft_heap ?t))" for q
  proof (cases "q = ft_next t")
    case False
    then have "q \<in> dom (map_of (ft_heap t))" using that by (simp add: new_route_def dom_def)
    then have "q < ft_next t" using t unfolding vectors_ok_def by blast
    then show ?thesis by simp
  qed simp
  ultimately show ?thesis using t n by (simp add: vectors_ok_def new_route_def)
qed

lemma vectors_ok_weaken: "vectors_ok X t \<Longrightarrow> X \<subseteq> Y \<Longrightarrow> vectors_ok Y t"
  unfolding vectors_ok_def vec_ok_def by blast

lemma add_netmask_routes_ok:
  assumes "vectors_ok {} t" and "ifaces_ok is"
  shows "\<exists>t'. add_netmask_routes is t = Inr t' \<and> vectors_ok {} t' \<and> set (ft_routes t) \<subseteq> set (ft_routes t')"
  using assms
proof (induction "is" arbitrary: t)
  case (Cons ie "is")
  have iso: "ifaces_ok is" using Cons.prems(2) by (simp add: ifaces_ok_def)
  show ?case
  proof (cases "if_ipv4 ie \<and> if_netmask ie \<noteq> ALLONES_ADDRESS")
    case True
    let ?e = "netmask_route ie" and ?r = "ft_next t"
    define u where "u = snd (new_route ?e t)"
    have wf: "route_wf ?e" using Cons.prems(2) by (intro netmask_route_wf) (simp add: ifaces_ok_def)
    have "vectors_ok {?r} t" using Cons.prems(1) by (rule vectors_ok_weaken) simp
    from new_route_vectors [OF this, of ?e, folded u_def] have n: "vectors_ok {?r} u" "map_of (ft_heap u) ?r = Some ?e"
      "?r \<notin> set (ft_routes u)" by simp_all
    from insert_route_ok [OF n wf] obtain t1 where
      "insert_route ?r u = Inr t1 \<and> vectors_ok ({?r} - {?r}) t1 \<and>
        set (ft_routes t1) = insert ?r (set (ft_routes u)) \<and> ft_cache t1 = ft_cache u" ..
    then have t1: "insert_route ?r u = Inr t1" "vectors_ok {} t1"
      "set (ft_routes t1) = insert ?r (set (ft_routes u))" by (simp_all only: Diff_cancel)
    have "vectors_ok {} (fire (RouteAdded ?r) t1)" using t1(2) by (simp only: vectors_ok_fire)
    from Cons.IH [OF this iso] obtain t' where
      "add_netmask_routes is (fire (RouteAdded ?r) t1) = Inr t' \<and> vectors_ok {} t' \<and>
        set (ft_routes (fire (RouteAdded ?r) t1)) \<subseteq> set (ft_routes t')" ..
    then have t': "add_netmask_routes is (fire (RouteAdded ?r) t1) = Inr t'" "vectors_ok {} t'"
        "set (ft_routes t1) \<subseteq> set (ft_routes t')" by (simp_all only: fire_fields)
    have p: "new_route ?e t = (?r, u)" by (simp add: u_def new_route_def)
    have eq: "add_netmask_routes (ie # is) t = Inr t'"
      using True p t1(1) t'(1) by (simp only: add_netmask_routes.simps if_True simp_thms prod.case rbind_Inr)
    have ru: "ft_routes u = ft_routes t" by (simp add: u_def new_route_def)
    have "set (ft_routes t) \<subseteq> set (ft_routes t')" using t'(3) unfolding t1(3) ru by simp
    then show ?thesis by (intro exI conjI) (rule eq, rule t'(2))
  next
    case False
    have "add_netmask_routes (ie # is) t = add_netmask_routes is t"
      unfolding add_netmask_routes.simps if_not_P [OF False] by (rule refl)
    then show ?thesis using Cons.IH [OF Cons.prems(1) iso] by (simp only:)
  qed
qed simp

lemma updateNetmaskRoutes_ok: "table_ok t \<Longrightarrow> \<exists>t'. updateNetmaskRoutes t = Inr t' \<and> table_ok t'"
proof -
  assume "table_ok t"
  then have v: "vectors_ok {} t" by (simp add: table_ok_def)
  obtain b t1 where t1: "erase_routes (\<lambda>e. rt_sourceType e = IFACENETMASK) t = Inr (b, t1)" "vectors_ok {} t1"
    using erase_routes_ok [OF v] by blast
  then have "ifaces_ok (ft_ift t1)" by (simp add: vectors_ok_def)
  from add_netmask_routes_ok [OF t1(2) this] t1(1) show ?thesis
    by (auto simp: updateNetmaskRoutes_def table_ok_def)
qed

lemma remove_all_ok: "table_ok t \<Longrightarrow> \<exists>t'. remove_all t = Inr t' \<and> table_ok t' \<and> ft_routes t' = []"
proof (induction t rule: remove_all.induct)
  case (1 t)
  show ?case
  proof (cases "ft_routes t")
    case Nil
    then show ?thesis using 1 by (simp add: remove_all.simps)
  next
    case (Cons r rs)
    have v: "vectors_ok {} t" using 1(2) by (simp add: table_ok_def)
    obtain x t1 where t1: "removeRoute r t = Inr (x, t1)" "vectors_ok {} t1" "without r t t1"
      using removeRoute_ok [OF v, of r] by auto
    have "table_ok t1" using t1 1(2) without_cache by (auto simp: table_ok_def)
    with 1(1) [OF Cons t1(1)] obtain t' where "remove_all t1 = Inr t'" "table_ok t'" "ft_routes t' = []"
      unfolding snd_conv by blast
    moreover have "remove_all t = remove_all t1"
      unfolding remove_all.simps [of t] Cons list.case t1(1) rbind_Inr snd_conv by (rule refl)
    ultimately show ?thesis by (simp only:) blast
  qed
qed

lemma put_first_loopback_ok:
  assumes "put_first_loopback f is = Inr is'" and "ifaces_ok is" and "\<And>ie. isValidNetmask (if_netmask (f ie))"
  shows "ifaces_ok is'"
proof -
  obtain ie rest where d: "dropWhile (\<lambda>ie. \<not> if_loopback ie) is = ie # rest"
    "is' = takeWhile (\<lambda>ie. \<not> if_loopback ie) is @ f ie # rest"
    using assms(1) by (auto simp: put_first_loopback_def split: list.splits)
  have "set rest \<subseteq> set is" using set_dropWhileD [of _ "\<lambda>ie. \<not> if_loopback ie" "is"] d(1) by auto
  then show ?thesis using assms(2,3) by (auto simp: ifaces_ok_def d(2) dest: set_takeWhileD)
qed

lemma allones_valid: "isValidNetmask ALLONES_ADDRESS"
  unfolding isValidNetmask_iff by (intro exI [of _ 32]) (simp add: makeNetmask_def)

lemma table_ok_ift:
  assumes "table_ok t" and "ifaces_ok is"
  shows "table_ok (t\<lparr>ft_ift := is\<rparr>)"
  using assms by (simp add: table_ok_def vectors_ok_def cache_ok_def)

lemma configureRouterId_ok:
  assumes t: "table_ok t" and l: "\<exists>ie \<in> set (ft_ift t). if_loopback ie"
  shows "\<exists>t'. configureRouterId a t = Inr t' \<and> table_ok t'"
proof -
  let ?f = "\<lambda>ie. ie\<lparr>if_addr := ft_routerId t, if_netmask := ALLONES_ADDRESS\<rparr>"
  have "dropWhile (\<lambda>ie. \<not> if_loopback ie) (ft_ift t) \<noteq> []" using l by (simp add: dropWhile_eq_Nil_conv)
  then obtain is' where is': "put_first_loopback ?f (ft_ift t) = Inr is'"
    by (cases "dropWhile (\<lambda>ie. \<not> if_loopback ie) (ft_ift t)") (simp_all add: put_first_loopback_def)
  have "ifaces_ok (ft_ift t)" using t by (simp add: table_ok_def vectors_ok_def)
  from put_first_loopback_ok [OF is' this] have "ifaces_ok is'" by (simp add: allones_valid)
  from table_ok_ift [OF t this] have 1: "table_ok (t\<lparr>ft_ift := is'\<rparr>)" .
  have 2: "table_ok (t\<lparr>ft_routerId := i\<rparr>)" for i using t by (simp add: table_ok_def vectors_ok_def cache_ok_def)
  show ?thesis using t 1 2 by (simp add: configureRouterId_def is')
qed


section \<open>Multicast routes\<close>

lemma vec_remove_mroute:
  assumes t: "table_ok t" and r: "r \<in> set (ft_mroutes t)"
  shows "\<exists>e. map_of (ft_mheap t) r = Some e \<and> mr_table e \<and>
     vec_ok mroute_key mr_table {} (al_put r (e\<lparr>mr_table := False\<rparr>) (ft_mheap t)) (remove1 r (ft_mroutes t)) \<and>
     vec_ok mroute_key mr_table {} (al_del r (ft_mheap t)) (remove1 r (ft_mroutes t))"
proof -
  have v: "vec_ok mroute_key mr_table {} (ft_mheap t) (ft_mroutes t)" using t by (simp add: table_ok_def vectors_ok_def)
  obtain e where e: "map_of (ft_mheap t) r = Some e" "mr_table e" using vec_listed [OF v r] by blast
  have n: "r \<notin> set (remove1 r (ft_mroutes t))" using v by (simp add: vec_ok_def)
  have o: "vec_ok mroute_key mr_table {r} (ft_mheap t) (remove1 r (ft_mroutes t))"
    by (rule multicast.vec_out [OF v r])
  have "vec_ok mroute_key mr_table ({} - {r}) (al_put r (e\<lparr>mr_table := False\<rparr>) (ft_mheap t)) (remove1 r (ft_mroutes t))"
    by (rule multicast.vec_unlink [OF o n]) simp
  moreover have "vec_ok mroute_key mr_table ({} - {r}) (al_del r (ft_mheap t)) (remove1 r (ft_mroutes t))"
    by (rule multicast.vec_free [OF o n])
  ultimately show ?thesis using e by simp
qed

lemma table_ok_mroutes:
  assumes "table_ok t" and "vec_ok mroute_key mr_table {} (ft_mheap u) (ft_mroutes u)"
    and "ft_heap u = ft_heap t" "ft_routes u = ft_routes t" "ft_next u = ft_next t" "ft_ift u = ft_ift t"
    and "ft_cache u = []"
  shows "table_ok u"
  using assms by (simp add: table_ok_def vectors_ok_def)

lemma removeMulticastRoute_ok:
  assumes t: "table_ok t"
  shows "\<exists>x t'. removeMulticastRoute r t = Inr (x, t') \<and> table_ok t'"
proof (cases "r \<in> set (ft_mroutes t)")
  case True
  from vec_remove_mroute [OF t True] obtain e where
    e: "map_of (ft_mheap t) r = Some e" "mr_table e"
      "vec_ok mroute_key mr_table {} (al_put r (e\<lparr>mr_table := False\<rparr>) (ft_mheap t)) (remove1 r (ft_mroutes t))"
    by blast
  then show ?thesis using e True
    by (auto simp: removeMulticastRoute_def internalRemoveMulticastRoute_def live_mroute_def Let_def
        intro!: table_ok_mroutes [OF t])
qed (use t in \<open>simp add: removeMulticastRoute_def internalRemoveMulticastRoute_def\<close>)

lemma deleteMulticastRoute_ok:
  assumes t: "table_ok t"
  shows "\<exists>x t'. deleteMulticastRoute r t = Inr (x, t') \<and> table_ok t'"
proof (cases "r \<in> set (ft_mroutes t)")
  case True
  from vec_remove_mroute [OF t True] obtain e where
    e: "map_of (ft_mheap t) r = Some e" "mr_table e"
      "vec_ok mroute_key mr_table {} (al_del r (ft_mheap t)) (remove1 r (ft_mroutes t))"
    by blast
  then show ?thesis using e True
    by (auto simp: deleteMulticastRoute_def internalRemoveMulticastRoute_def live_mroute_def Let_def
        delete_mroute_object_def intro!: table_ok_mroutes [OF t])
qed (use t in \<open>auto simp: deleteMulticastRoute_def internalRemoveMulticastRoute_def\<close>)

definition known_ifaces :: "flow_table \<Rightarrow> mcast_route \<Rightarrow> bool" where
  "known_ifaces t e \<longleftrightarrow> set (mr_outs e) \<union> set_option (mr_in e) \<subseteq> if_id ` set (ft_ift t)"

lemma interface_of_ok: "i \<in> if_id ` set (ft_ift t) \<Longrightarrow> \<exists>ie. interface_of t i = Inr ie"
  unfolding interface_of_def by (auto simp: of_option_def find_None_iff split: option.split)

lemma check_outs_ok:
  "set is \<subseteq> if_id ` set (ft_ift t) \<Longrightarrow> check_outs t inp is = Inr () \<or> check_outs t inp is = Inl RuntimeError"
proof (induction "is")
  case (Cons i "is")
  then obtain ie where "interface_of t i = Inr ie" using interface_of_ok [of i t] by auto
  with Cons show ?case by auto
qed simp

lemma addMulticastRoute_ok:
  assumes t: "table_ok t" and e: "map_of (ft_mheap t) r = Some e" and u: "\<not> mr_table e" and k: "known_ifaces t e"
  shows "addMulticastRoute r t = Inl RuntimeError \<or> (\<exists>t'. addMulticastRoute r t = Inr t' \<and> table_ok t')"
proof -
  let ?h = "al_put r (e\<lparr>mr_table := True\<rparr>) (ft_mheap t)"
  let ?v = "ptr_insert multicastRouteLessThan (ft_mheap t) r (ft_mroutes t)"
  let ?t = "t\<lparr>ft_mroutes := ?v, ft_mheap := ?h\<rparr>"
  have v: "vec_ok mroute_key mr_table {} (ft_mheap t) (ft_mroutes t)" using t by (simp add: table_ok_def vectors_ok_def)
  then have n: "r \<notin> set (ft_mroutes t)" using e u by (auto simp: vec_ok_def)
  have all: "list_all (\<lambda>x. map_of (ft_mheap t) x \<noteq> None) (ft_mroutes t)" using v by (auto simp: vec_ok_def list_all_iff)
  have "vec_ok mroute_key mr_table {} ?h ?v" using multicast.vec_insert [OF v e n] by simp
  then have ok: "table_ok (fire (MRouteAdded r) (invalidateCache ?t))"
    using t by (simp add: table_ok_def vectors_ok_def)
  define a where "a = (case mr_in e of None \<Rightarrow> Inr () | Some i \<Rightarrow>
      rbind (interface_of t i) (\<lambda>ie. if \<not> if_multicast ie then Inl RuntimeError else Inr ()))"
  have a: "a = Inr () \<or> a = Inl RuntimeError"
  proof (cases "mr_in e")
    case (Some i)
    then obtain ie where "interface_of t i = Inr ie" using k interface_of_ok [of i t] by (auto simp: known_ifaces_def)
    with Some show ?thesis by (simp add: a_def)
  qed (simp add: a_def)
  have b: "check_outs t (mr_in e) (mr_outs e) = Inr () \<or> check_outs t (mr_in e) (mr_outs e) = Inl RuntimeError"
    by (rule check_outs_ok) (use k in \<open>simp add: known_ifaces_def\<close>)
  have "internalAddMulticastRoute r t = Inl RuntimeError \<or> internalAddMulticastRoute r t = Inr ?t"
    using a b all unfolding internalAddMulticastRoute_def live_mroute_def e of_option_Some rbind_Inr a_def [symmetric]
    by (auto simp: mroute_before_ptr ptr_insert_def Let_def)
  then show ?thesis using ok unfolding addMulticastRoute_def by auto
qed

section \<open>The table as a transition system\<close>

text \<open>
  The public operations.  Routes are made and changed by their owners; a pointer handed to the
  table is that of a live route.
\<close>

datatype rt_op = NewRoute ipv4_route | AddRoute nat | RemoveRoute nat | DeleteRoute nat
  | SetField nat route_field | NewMRoute nat mcast_route | AddMRoute nat | RemoveMRoute nat
  | DeleteMRoute nat | Purge | Notify nf_category | NodeOp node_operation

fun rt_exec :: "rt_op \<Rightarrow> flow_table \<Rightarrow> flow_table res" where
  "rt_exec (NewRoute e) t = Inr (snd (new_route e t))"
| "rt_exec (AddRoute r) t = addRoute r t"
| "rt_exec (RemoveRoute r) t = rbind (removeRoute r t) (\<lambda>(_, t). Inr t)"
| "rt_exec (DeleteRoute r) t = rbind (deleteRoute r t) (\<lambda>(_, t). Inr t)"
| "rt_exec (SetField r f) t = set_route_field r f t"
| "rt_exec (NewMRoute r e) t = Inr (t\<lparr>ft_mheap := al_put r e (ft_mheap t)\<rparr>)"
| "rt_exec (AddMRoute r) t = addMulticastRoute r t"
| "rt_exec (RemoveMRoute r) t = rbind (removeMulticastRoute r t) (\<lambda>(_, t). Inr t)"
| "rt_exec (DeleteMRoute r) t = rbind (deleteMulticastRoute r t) (\<lambda>(_, t). Inr t)"
| "rt_exec Purge t = purge t"
| "rt_exec (Notify c) t = receiveChangeNotification c t"
| "rt_exec (NodeOp x) t = handleOperationStage x t"

fun rt_allowed :: "rt_op \<Rightarrow> flow_table \<Rightarrow> bool" where
  "rt_allowed (NewRoute e) t \<longleftrightarrow> \<not> rt_table e"
| "rt_allowed (AddRoute r) t \<longleftrightarrow> (\<exists>e. map_of (ft_heap t) r = Some e \<and> \<not> rt_table e)"
| "rt_allowed (SetField r f) t \<longleftrightarrow>
     (\<exists>e. map_of (ft_heap t) r = Some e \<and> (rt_table e \<longrightarrow> (\<forall>v. f \<noteq> F_ADMINDIST v)))"
| "rt_allowed (NewMRoute r e) t \<longleftrightarrow> map_of (ft_mheap t) r = None \<and> \<not> mr_table e"
| "rt_allowed (AddMRoute r) t \<longleftrightarrow>
     (\<exists>e. map_of (ft_mheap t) r = Some e \<and> \<not> mr_table e \<and> known_ifaces t e)"
| "rt_allowed (NodeOp (NodeStartTransport a)) t \<longleftrightarrow> (\<exists>ie \<in> set (ft_ift t). if_loopback ie)"
| "rt_allowed op t \<longleftrightarrow> True"

lemma rt_exec_ok:
  assumes t: "table_ok t" and a: "rt_allowed op t"
  shows "rt_exec op t = Inl RuntimeError \<or> (\<exists>t'. rt_exec op t = Inr t' \<and> table_ok t')"
proof -
  have v: "vectors_ok {} t" using t by (simp add: table_ok_def)
  show ?thesis
  proof (cases op)
    case (NewRoute e)
    then have "vectors_ok {} (snd (new_route e t))" using a new_route_vectors [OF v, of e] by simp
    moreover have "cache_ok (snd (new_route e t))" using t by (simp add: table_ok_def cache_ok_def new_route_def)
    ultimately show ?thesis using NewRoute by (simp add: table_ok_def)
  next
    case (AddRoute r)
    then show ?thesis using a addRoute_ok [OF t] by auto
  next
    case (RemoveRoute r)
    obtain x t' where "removeRoute r t = Inr (x, t')" "vectors_ok {} t'" "without r t t'"
      using removeRoute_ok [OF v, of r] by auto
    then show ?thesis using RemoveRoute t without_cache by (auto simp: table_ok_def)
  next
    case (DeleteRoute r)
    obtain x t' where "deleteRoute r t = Inr (x, t')" "vectors_ok {} t'" "without r t t'"
      using deleteRoute_ok [OF v, of r] by auto
    then show ?thesis using DeleteRoute t without_cache by (auto simp: table_ok_def)
  next
    case (SetField r f)
    then show ?thesis using a set_route_field_ok [OF t] by auto
  next
    case (NewMRoute r e)
    have m: "vec_ok mroute_key mr_table {} (ft_mheap t) (ft_mroutes t)" using v by (simp add: vectors_ok_def)
    have "r \<notin> set (ft_mroutes t)" using a NewMRoute m by (auto simp: vec_ok_def)
    from multicast.vec_put [OF m this, of e] have "table_ok (t\<lparr>ft_mheap := al_put r e (ft_mheap t)\<rparr>)"
      using t a NewMRoute by (simp add: table_ok_def vectors_ok_def cache_ok_def)
    then show ?thesis using NewMRoute by simp
  next
    case (AddMRoute r)
    then show ?thesis using a addMulticastRoute_ok [OF t] by auto
  next
    case (RemoveMRoute r)
    then show ?thesis using removeMulticastRoute_ok [OF t, of r] by auto
  next
    case (DeleteMRoute r)
    then show ?thesis using deleteMulticastRoute_ok [OF t, of r] by auto
  next
    case Purge
    then show ?thesis using purge_ok [OF t] by simp
  next
    case (Notify c)
    have "table_ok (invalidateCache t)" using v by (simp add: table_ok_def)
    then show ?thesis using Notify updateNetmaskRoutes_ok [OF t] deleteInterfaceRoutes_ok [OF t] by (cases c) auto
  next
    case (NodeOp x)
    show ?thesis
    proof (cases x)
      case (NodeStartTransport b)
      then obtain t1 where "configureRouterId b t = Inr t1" "table_ok t1"
        using a NodeOp configureRouterId_ok [OF t, of b] by auto
      then show ?thesis using NodeOp NodeStartTransport updateNetmaskRoutes_ok [of t1] by simp
    qed (use NodeOp remove_all_ok [OF t] in auto)
  qed
qed

text \<open>The table of a node that has the interfaces \<open>is\<close>.\<close>

definition new_table :: "iface list \<Rightarrow> bool \<Rightarrow> flow_table" where
  "new_table is fwd =
     \<lparr>ft_heap = [], ft_routes = [], ft_mheap = [], ft_mroutes = [], ft_next = 0, ft_cache = [],
      ft_localAddresses = {}, ft_localBroadcast = {}, ft_ift = is, ft_routerId = 0, ft_IPForward = fwd,
      ft_notes = []\<rparr>"

lemma new_table_ok: "ifaces_ok is \<Longrightarrow> table_ok (new_table is fwd)"
  by (simp add: new_table_def table_ok_def vectors_ok_def cache_ok_def vec_ok_def keys_sorted_def)

inductive rt_run :: "iface list \<Rightarrow> flow_table \<Rightarrow> bool" for "is" where
  rt_start: "rt_run is (new_table is fwd)"
| rt_step: "rt_run is t \<Longrightarrow> rt_allowed op t \<Longrightarrow> rt_exec op t = Inr t' \<Longrightarrow> rt_run is t'"

lemma rt_run_ok: "rt_run is t \<Longrightarrow> ifaces_ok is \<Longrightarrow> table_ok t"
proof (induction rule: rt_run.induct)
  case (rt_start fwd)
  then show ?case by (rule new_table_ok)
next
  case (rt_step t op t')
  then show ?case using rt_exec_ok [of t op] by auto
qed

end
