(* ===== verification/Murmur.thy ===== *)
theory Murmur
  imports Prelude "HOL-Library.Signed_Division"
begin

unbundle bit_operations_syntax

text \<open>
  The hash of a flow (\<open>murmur.cc\<close>): 32-bit MurmurHash3 over the bytes of the key, the blocks
  read in little-endian order, and the reduction of a hash to an index.  Every step of the hash is
  a bijection of the 32-bit words, which gives its injectivity in the seed and on keys of one
  block.
\<close>

section \<open>The hash\<close>

fun le_word :: "u8 list \<Rightarrow> u32" where
  "le_word [] = 0"
| "le_word (b # bs) = ucast b + 256 * le_word bs"

definition mix_key :: "u32 \<Rightarrow> u32" where
  "mix_key k =
     (let k = k * 0xcc9e2d51; k = push_bit 15 k OR drop_bit 17 k
      in k * 0x1b873593)"

definition mix_hash :: "u32 \<Rightarrow> u32" where
  "mix_hash h = (let h = push_bit 13 h OR drop_bit 19 h in h * 5 + 0xe6546b64)"

text \<open>The loop over the \<open>n\<close> whole blocks; it leaves the bytes behind them.\<close>

fun murmur_blocks :: "nat \<Rightarrow> u8 list \<Rightarrow> u32 \<Rightarrow> u32 \<times> u8 list" where
  "murmur_blocks 0 key h = (h, key)"
| "murmur_blocks (Suc n) key h =
     murmur_blocks n (drop 4 key) (mix_hash (h XOR mix_key (le_word (take 4 key))))"

text \<open>The loop over the last bytes, from the last to the first.\<close>

fun murmur_tail :: "u8 list \<Rightarrow> u32 \<Rightarrow> u32" where
  "murmur_tail [] k = k"
| "murmur_tail (b # bs) k = murmur_tail bs (push_bit 8 k OR ucast b)"

definition murmur_final :: "u32 \<Rightarrow> u32" where
  "murmur_final h =
     (let h = h XOR drop_bit 16 h; h = h * 0x85ebca6b; h = h XOR drop_bit 13 h;
          h = h * 0xc2b2ae35
      in h XOR drop_bit 16 h)"

definition murmur3_32 :: "u8 list \<Rightarrow> u32 \<Rightarrow> u32" where
  "murmur3_32 key seed =
     (let (h, rest) = (if length key > 3 then murmur_blocks (length key div 4) key seed else (seed, key));
          h = (if length key mod 4 \<noteq> 0 then h XOR mix_key (murmur_tail (rev rest) 0) else h)
      in murmur_final (h XOR of_nat (length key)))"

text \<open>C++ \<open>%\<close> truncates towards zero.\<close>

definition positiveMod :: "u32 \<Rightarrow> u32 \<Rightarrow> u32" where
  "positiveMod v m =
     (let r = word_of_int (sint v smod sint m) :: u32; s = r + m
      in word_of_int (sint s smod sint m))"

lemma murmur3_32_empty: "murmur3_32 [] 0 = 0 \<and> murmur3_32 [] 1 = 0x514E28B7"
  by (simp add: murmur3_32_def murmur_final_def Let_def)

lemma murmur3_32_test: "murmur3_32 [0x74, 0x65, 0x73, 0x74] 0 = 0xba6bd213"
  by code_simp

lemma murmur3_32_hello: "murmur3_32 [0x48,0x65,0x6c,0x6c,0x6f,0x2c,0x20,0x77,0x6f,0x72,0x6c,0x64,0x21] 0x9747b28c = 0x24884CBA"
  by code_simp

section \<open>The steps are injective\<close>

lemma inj_times_odd:
  assumes "c' * c = (1 :: u32)"
  shows "a * c = b * c \<longleftrightarrow> a = (b :: u32)"
proof
  assume "a * c = b * c"
  then have "c' * (a * c) = c' * (b * c)" by (rule arg_cong)
  then have "(c' * c) * a = (c' * c) * b" by (simp only: ac_simps)
  then show "a = b" by (simp add: assms)
qed simp

lemma rotate_inj:
  assumes "n < 32" and "push_bit n a OR drop_bit (32 - n) a = push_bit n b OR drop_bit (32 - n) (b :: u32)"
  shows "a = b"
proof (rule bit_word_eqI)
  fix i assume i: "i < LENGTH(32)"
  define j where "j = (if i + n < 32 then i + n else i + n - 32)"
  have "bit (push_bit n x OR drop_bit (32 - n) x) j \<longleftrightarrow> bit x i" for x :: u32
  proof (cases "i + n < 32")
    case True
    then have "\<not> bit x (32 - n + j)" using assms(1) by (auto simp: j_def dest: bit_imp_le_length)
    then show ?thesis using True i assms(1) by (simp add: j_def bit_or_iff bit_push_bit_iff bit_drop_bit_eq)
  next
    case False
    then have "32 - n + j = i" using i assms(1) by (simp add: j_def)
    moreover have "j < n" using False i by (simp add: j_def)
    ultimately show ?thesis using i by (simp add: bit_or_iff bit_push_bit_iff bit_drop_bit_eq)
  qed
  then show "bit a i \<longleftrightarrow> bit b i" using assms(2) by metis
qed

lemma xor_shift_inj:
  assumes "0 < n" and "a XOR drop_bit n a = b XOR drop_bit n (b :: u32)"
  shows "a = b"
proof (rule bit_word_eqI)
  fix i assume "i < LENGTH(32)"
  have "bit a (32 - k) \<longleftrightarrow> bit b (32 - k)" if "k \<le> 32" for k
    using that
  proof (induction k rule: less_induct)
    case (less k)
    show ?case
    proof (cases "k = 0")
      case True
      then show ?thesis using bit_imp_le_length [of a 32] bit_imp_le_length [of b 32] by auto
    next
      case False
      have "bit a (n + (32 - k)) \<longleftrightarrow> bit b (n + (32 - k))"
      proof (cases "n + (32 - k) < 32")
        case True
        then have "32 - (k - n) = n + (32 - k)" "k - n < k" "k - n \<le> 32"
          using less.prems assms(1) by simp_all
        then show ?thesis using less.IH [of "k - n"] by simp
      next
        case False
        then show ?thesis by (auto dest!: bit_imp_le_length)
      qed
      moreover have "bit (a XOR drop_bit n a) (32 - k) \<longleftrightarrow> bit (b XOR drop_bit n b) (32 - k)"
        using assms(2) by simp
      ultimately show ?thesis by (auto simp: bit_xor_iff bit_drop_bit_eq)
    qed
  qed
  from this [of "32 - i"] show "bit a i \<longleftrightarrow> bit b i" using \<open>i < LENGTH(32)\<close> by simp
qed

lemma xor_right_cancel: "a XOR c = b XOR c \<longleftrightarrow> a = (b :: 'a::len word)"
  by (metis xor.assoc xor.right_neutral bit.xor_self)

text \<open>The odd constants of the hash and their inverses.\<close>

lemma times_constants:
  "a * 0xcc9e2d51 = b * 0xcc9e2d51 \<longleftrightarrow> a = (b :: u32)"
  "a * 0x1b873593 = b * 0x1b873593 \<longleftrightarrow> a = (b :: u32)"
  "a * 5 = b * 5 \<longleftrightarrow> a = (b :: u32)"
  "a * 0x85ebca6b = b * 0x85ebca6b \<longleftrightarrow> a = (b :: u32)"
  "a * 0xc2b2ae35 = b * 0xc2b2ae35 \<longleftrightarrow> a = (b :: u32)"
  by (rule inj_times_odd [of "0xdee13bb1"] inj_times_odd [of "0x56ed309b"] inj_times_odd [of "0xcccccccd"]
        inj_times_odd [of "0xa5cb9243"] inj_times_odd [of "0x7ed1b41d"], simp)+

lemma rotate_iff:
  "push_bit 15 a OR drop_bit 17 a = push_bit 15 b OR drop_bit 17 b \<longleftrightarrow> a = (b :: u32)"
  "push_bit 13 a OR drop_bit 19 a = push_bit 13 b OR drop_bit 19 b \<longleftrightarrow> a = (b :: u32)"
  using rotate_inj [of 15 a b] rotate_inj [of 13 a b] by auto

lemma mix_key_inj: "mix_key a = mix_key b \<longleftrightarrow> a = b"
  unfolding mix_key_def Let_def times_constants rotate_iff by (rule refl)

lemma mix_hash_inj: "mix_hash a = mix_hash b \<longleftrightarrow> a = b"
  unfolding mix_hash_def Let_def add_right_cancel times_constants rotate_iff by (rule refl)

lemma xor_shift_iff:
  "a XOR drop_bit 16 a = b XOR drop_bit 16 b \<longleftrightarrow> a = (b :: u32)"
  "a XOR drop_bit 13 a = b XOR drop_bit 13 b \<longleftrightarrow> a = (b :: u32)"
  using xor_shift_inj [of 16 a b] xor_shift_inj [of 13 a b] by auto

lemma murmur_final_inj: "murmur_final a = murmur_final b \<longleftrightarrow> a = b"
  unfolding murmur_final_def Let_def xor_shift_iff times_constants by (rule refl)

lemmas murmur_steps_inj = mix_key_inj mix_hash_inj murmur_final_inj xor_right_cancel

section \<open>Bytes\<close>

definition le_bytes :: "nat \<Rightarrow> 'a::len word \<Rightarrow> u8 list" where
  "le_bytes n w = map (\<lambda>i. ucast (drop_bit (8 * i) w)) [0..<n]"

lemma length_le_bytes [simp]: "length (le_bytes n w) = n"
  by (simp add: le_bytes_def)

lemma le_bytes_inj:
  fixes v w :: "'a::len word"
  assumes "LENGTH('a) \<le> 8 * n" and "le_bytes n v = le_bytes n w"
  shows "v = w"
proof (rule bit_word_eqI)
  fix i assume i: "i < LENGTH('a)"
  then have k: "i div 8 < n" using assms(1) by linarith
  then have "(ucast (drop_bit (8 * (i div 8)) v) :: u8) = ucast (drop_bit (8 * (i div 8)) w)"
    using assms(2) arg_cong [of _ _ "\<lambda>l. l ! (i div 8)"] by (simp add: le_bytes_def)
  then have "bit (ucast (drop_bit (8 * (i div 8)) v) :: u8) (i mod 8)
      = bit (ucast (drop_bit (8 * (i div 8)) w) :: u8) (i mod 8)" by simp
  then show "bit v i \<longleftrightarrow> bit w i" using i by (simp add: bit_ucast_iff bit_drop_bit_eq)
qed

lemma le_word_bound: "length bs \<le> 4 \<Longrightarrow> unat (le_word bs) < 256 ^ length bs \<and>
   (bs \<noteq> [] \<longrightarrow> unat (le_word bs) = unat (hd bs) + 256 * unat (le_word (tl bs)))"
proof (induction bs)
  case (Cons b bs)
  then have ih: "unat (le_word bs) < 256 ^ length bs" by simp
  have "length bs \<le> 3" using Cons.prems by simp
  then have "(256 :: nat) ^ length bs \<le> 256 ^ 3" by (intro power_increasing) simp_all
  then have small: "256 * unat (le_word bs) + 256 \<le> 4294967296" using ih by simp
  have b: "unat b < 256" using unsigned_less [of b, where 'a = nat] by simp
  have "unat (ucast b :: u32) = unat b" using b by (simp add: unsigned_ucast_eq take_bit_nat_eq_self)
  then have "unat (le_word (b # bs)) = unat b + 256 * unat (le_word bs)"
    using b small by (simp add: unat_word_ariths)
  moreover have "unat b + 256 * unat (le_word bs) < 256 * 256 ^ length bs" using b ih by linarith
  ultimately show ?case by simp
qed simp

lemma digit_unique:
  "x < 256 \<Longrightarrow> y < 256 \<Longrightarrow> x + 256 * a = y + 256 * b \<Longrightarrow> a = b \<and> x = (y :: nat)"
  using mod_mult_self2 [of x 256 a] mod_mult_self2 [of y 256 b] by simp

lemma le_word_inj: "length xs = length ys \<Longrightarrow> length ys \<le> 4 \<Longrightarrow> le_word xs = le_word ys \<Longrightarrow> xs = ys"
proof (induction xs ys rule: list_induct2)
  case (Cons x xs y ys)
  have l: "length xs \<le> 3" "length ys \<le> 3" using Cons.prems(1) Cons.hyps by simp_all
  have "unat (le_word (x # xs)) = unat x + 256 * unat (le_word xs)" using le_word_bound [of "x # xs"] l by simp
  moreover have "unat (le_word (y # ys)) = unat y + 256 * unat (le_word ys)"
    using le_word_bound [of "y # ys"] l by simp
  ultimately have e: "unat x + 256 * unat (le_word xs) = unat y + 256 * unat (le_word ys)"
    using Cons.prems(2) by (simp only:)
  have "unat x < 256" "unat y < 256"
    using unsigned_less [of x, where 'a = nat] unsigned_less [of y, where 'a = nat] by simp_all
  from digit_unique [OF this e] have "le_word xs = le_word ys" "x = y" by (simp_all only: word_unat_eq_iff)
  then show ?case using Cons.IH l by simp
qed simp

section \<open>Injectivity of the hash\<close>

lemma murmur_blocks_inj:
  "fst (murmur_blocks n key h) = fst (murmur_blocks n key h') \<longleftrightarrow> h = h'"
  by (induction n arbitrary: key h h') (simp_all add: murmur_steps_inj)

lemma murmur_blocks_rest: "snd (murmur_blocks n key h) = drop (4 * n) key"
  by (induction n arbitrary: key h) (simp_all add: add.commute)

lemma murmur_one_block:
  "length key = 4 \<Longrightarrow> murmur3_32 key s = murmur_final (mix_hash (s XOR mix_key (le_word key)) XOR 4)"
  by (simp add: murmur3_32_def)

text \<open>
  C28: the hash never merges two seeds, whatever the key, and never merges two destination
  addresses, whatever the seed: over the 4-byte keys of the lookup by destination it is a
  permutation of the 32-bit words.
\<close>

theorem murmur_no_collisions:
  "(murmur3_32 key s = murmur3_32 key s' \<longleftrightarrow> s = s') \<and>
   (murmur3_32 (le_bytes 4 (a :: u32)) s = murmur3_32 (le_bytes 4 b) s \<longleftrightarrow> a = b)"
proof
  let ?t = "\<lambda>rest. mix_key (murmur_tail (rev rest) 0)"
  show "murmur3_32 key s = murmur3_32 key s' \<longleftrightarrow> s = s'"
  proof (cases "length key > 3")
    case True
    obtain h r where h: "murmur_blocks (length key div 4) key s = (h, r)" by fastforce
    obtain h' r' where h': "murmur_blocks (length key div 4) key s' = (h', r')" by fastforce
    have "r = r'" using murmur_blocks_rest [of "length key div 4" key] h h' by (metis snd_conv)
    moreover have "h = h' \<longleftrightarrow> s = s'"
      using murmur_blocks_inj [of "length key div 4" key s s'] by (simp add: h h')
    ultimately show ?thesis using True
      by (simp add: murmur3_32_def Let_def h h' murmur_steps_inj)
  qed (simp add: murmur3_32_def Let_def murmur_steps_inj)
  have "le_bytes 4 a = le_bytes 4 b \<longleftrightarrow> a = b" using le_bytes_inj [of 4 a b] by auto
  moreover have "le_word (le_bytes 4 a) = le_word (le_bytes 4 b) \<longleftrightarrow> le_bytes 4 a = le_bytes 4 b"
    using le_word_inj [of "le_bytes 4 a" "le_bytes 4 b"] by auto
  ultimately show "murmur3_32 (le_bytes 4 a) s = murmur3_32 (le_bytes 4 b) s \<longleftrightarrow> a = b"
    by (simp add: murmur_one_block murmur_steps_inj xor.commute [of s])
qed

lemma signed32: "- 2147483648 \<le> i \<Longrightarrow> i < 2147483648 \<Longrightarrow> sint (word_of_int i :: u32) = i"
  using signed_take_bit_int_eq_self [of 31 i] by (simp add: signed_of_int)

lemma sint_nonneg_unat: "0 \<le> sint (w :: u32) \<Longrightarrow> unat w = nat (sint w)"
proof -
  assume "0 \<le> sint w"
  moreover have "sint w < 2 ^ 31" using sint_lt [of w] by simp
  moreover have "uint w = take_bit 32 (sint w)" using uint_word_of_int_eq [of "sint w", where 'a = 32] by simp
  ultimately have "uint w = sint w" by (simp add: take_bit_int_eq_self)
  then show ?thesis by (simp add: unat_eq_nat_uint)
qed

lemma smod_mod: "(k smod l) mod l = k mod (l :: int)"
  by (cases "l = 0") (simp_all add: signed_modulo_int_eq_modulo_int of_bool_def)

lemma positive_mod_range:
  assumes "0 < sint m" and "sint m \<le> 2 ^ 30"
  shows "sint (positiveMod v m) = sint v mod sint m" and "0 \<le> sint (positiveMod v m)"
    and "sint (positiveMod v m) < sint m"
proof -
  let ?r = "sint v smod sint m"
  have r: "\<bar>?r\<bar> < sint m" using assms(1) by (simp add: signed_modulo_int_def abs_mult sgn_if)
  have m: "sint m \<le> 1073741824" using assms(2) by simp
  have "(word_of_int ?r :: u32) + m = word_of_int (?r + sint m)" by simp
  then have s: "sint (word_of_int ?r + m) = ?r + sint m" using r m by (simp only: signed32)
  have "0 < ?r + sint m" using r by simp
  then have "(?r + sint m) smod sint m = (?r + sint m) mod sint m"
    using assms(1) by (simp add: smod_int_alt_def)
  also have "\<dots> = sint v mod sint m" by (simp add: smod_mod)
  finally have e: "(?r + sint m) smod sint m = sint v mod sint m" .
  have b: "0 \<le> sint v mod sint m" "sint v mod sint m < sint m" using assms(1) by simp_all
  have "positiveMod v m = word_of_int (sint v mod sint m)"
    unfolding positiveMod_def Let_def s e by (rule refl)
  then have "sint (positiveMod v m) = sint v mod sint m" using b m by (simp add: signed32)
  then show "sint (positiveMod v m) = sint v mod sint m" "0 \<le> sint (positiveMod v m)"
    "sint (positiveMod v m) < sint m" using b by simp_all
qed

text \<open>
  C29: the reduction of a hash, which is negative for half of the values, is the mathematical
  remainder: an index of a vector of up to \<open>2\<^sup>3\<^sup>0\<close> elements, and no step overflows.
\<close>

theorem positiveMod_index:
  assumes "0 < sint m" and "sint m \<le> 2 ^ 30"
  shows "sint (positiveMod v m) = sint v mod sint m \<and> 0 \<le> sint (positiveMod v m) \<and>
     sint (positiveMod v m) < sint m"
  using positive_mod_range [OF assms] by blast

theorem positiveMod_index_witness: "sint (positiveMod 0xFFFFFFFE 3) = 1"
  using positiveMod_index [of 3 "0xFFFFFFFE"] by simp

end
