(* ===== verification/EcmpRouting.thy ===== *)
theory EcmpRouting
  imports FlowInv Murmur
begin

text \<open>
  The lookup of \<open>ECMPRoutingTable\<close>: the routes of the longest match, one per next hop, one of
  them picked by a hash of the flow, and the cache of the picks.  \<open>std::sort\<close> is a parameter
  \<open>srt\<close> of the model, since the standard does not say how it orders equal elements; \<open>sorts\<close>
  is what it does say.  The theory shows that a table that is only changed by its operations
  answers every lookup as the longest prefix match asks for, whether the cache is used or not.
\<close>

section \<open>The lookup\<close>

fun collect_best :: "u32 \<Rightarrow> flow_table \<Rightarrow> nat list \<Rightarrow> nat list \<Rightarrow> nat list res" where
  "collect_best dest t [] best = Inr best"
| "collect_best dest t (r # rs) best =
     rbind (live_route r t) (\<lambda>e.
     if rt_valid e then
       rbind (if best \<noteq> [] then
                rbind (live_route (last best) t) (\<lambda>b. Inr (rt_dest e \<noteq> rt_dest b))
              else Inr False) (\<lambda>stop.
       if stop then Inr best
       else if maskedAddrAreEqual dest (rt_dest e) (rt_netmask e)
       then collect_best dest t rs (best @ [r])
       else collect_best dest t rs best)
     else collect_best dest t rs best)"

text \<open>The routes in \<open>bestRoutes\<close> were followed by the loop, so their fields can be read.\<close>

definition gateway_of :: "flow_table \<Rightarrow> nat \<Rightarrow> u32" where
  "gateway_of t r = (case map_of (ft_heap t) r of None \<Rightarrow> 0 | Some e \<Rightarrow> rt_gateway e)"

fun unique_by :: "(nat \<Rightarrow> u32) \<Rightarrow> nat list \<Rightarrow> nat list" where
  "unique_by f [] = []"
| "unique_by f [x] = [x]"
| "unique_by f (x # y # xs) = (if f x = f y then unique_by f (x # xs) else x # unique_by f (y # xs))"

type_synonym sorter = "(nat \<Rightarrow> u32) \<Rightarrow> nat list \<Rightarrow> nat list"

definition pick_route :: "sorter \<Rightarrow> u32 \<Rightarrow> u8 list \<Rightarrow> flow_table \<Rightarrow> nat list \<Rightarrow> nat res" where
  "pick_route srt seed bin t best =
     (let best = unique_by (gateway_of t) (srt (gateway_of t) best);
          i = unat (positiveMod (murmur3_32 bin seed) (of_nat (length best)))
      in if i < length best then Inr (best ! i) else Inl OutOfRange)"

definition find_uncached :: "sorter \<Rightarrow> u32 \<Rightarrow> u32 \<Rightarrow> u8 list \<Rightarrow> flow_table \<Rightarrow> nat option res" where
  "find_uncached srt seed dest bin t =
     rbind (collect_best dest t (ft_routes t) []) (\<lambda>best.
     if length best = 0 then Inr None
     else rbind (pick_route srt seed bin t best) (\<lambda>r. Inr (Some r)))"

text \<open>The route in the cache, if there is one that may be used.\<close>

definition cached_route :: "u8 list \<Rightarrow> flow_table \<Rightarrow> nat option option res" where
  "cached_route bin t =
     (case map_of (ft_cache t) bin of
        None \<Rightarrow> Inr None
      | Some None \<Rightarrow> Inr (Some None)
      | Some (Some r) \<Rightarrow> rbind (live_route r t) (\<lambda>e. Inr (if rt_valid e then Some (Some r) else None)))"

definition findBestMatchingRoute ::
    "sorter \<Rightarrow> u32 \<Rightarrow> u32 \<Rightarrow> u8 list \<Rightarrow> flow_table \<Rightarrow> (nat option \<times> flow_table) res" where
  "findBestMatchingRoute srt seed dest bin t =
     rbind (cached_route bin t) (\<lambda>hit.
     case hit of
       Some v \<Rightarrow> Inr (v, t)
     | None \<Rightarrow>
         rbind (find_uncached srt seed dest bin t) (\<lambda>v.
         Inr (v, case v of None \<Rightarrow> t | Some r \<Rightarrow> t\<lparr>ft_cache := al_put bin v (ft_cache t)\<rparr>)))"

text \<open>The overloads, by what they know of the flow, and the key each makes of it.\<close>

datatype flow = ByDest u32 | BySrcDest u32 u32 | ByMsgId u32 u32 u64 | ByPorts u32 u16 u32 u16

fun flow_bin :: "flow \<Rightarrow> u8 list" where
  "flow_bin (ByDest dest) = le_bytes 4 dest"
| "flow_bin (BySrcDest src dest) = le_bytes 4 src @ le_bytes 4 dest"
| "flow_bin (ByMsgId src dest msgId) = le_bytes 4 src @ le_bytes 4 dest @ le_bytes 8 msgId"
| "flow_bin (ByPorts src srcPort dest destPort) =
     le_bytes 4 src @ le_bytes 2 srcPort @ le_bytes 4 dest @ le_bytes 2 destPort"

fun flow_dest :: "flow \<Rightarrow> u32" where
  "flow_dest (ByDest dest) = dest"
| "flow_dest (BySrcDest src dest) = dest"
| "flow_dest (ByMsgId src dest msgId) = dest"
| "flow_dest (ByPorts src srcPort dest destPort) = dest"

definition lookup :: "sorter \<Rightarrow> u32 \<Rightarrow> flow \<Rightarrow> flow_table \<Rightarrow> (nat option \<times> flow_table) res" where
  "lookup srt seed f t = findBestMatchingRoute srt seed (flow_dest f) (flow_bin f) t"

definition getInterfaceForDestAddr :: "sorter \<Rightarrow> u32 \<Rightarrow> u32 \<Rightarrow> flow_table \<Rightarrow> (nat option \<times> flow_table) res" where
  "getInterfaceForDestAddr srt seed dest t =
     rbind (lookup srt seed (ByDest dest) t) (\<lambda>(v, t).
     case v of None \<Rightarrow> Inr (None, t) | Some r \<Rightarrow> rbind (live_route r t) (\<lambda>e. Inr (rt_interface e, t)))"

definition getGatewayForDestAddr :: "sorter \<Rightarrow> u32 \<Rightarrow> u32 \<Rightarrow> flow_table \<Rightarrow> (u32 \<times> flow_table) res" where
  "getGatewayForDestAddr srt seed dest t =
     rbind (lookup srt seed (ByDest dest) t) (\<lambda>(v, t).
     case v of None \<Rightarrow> Inr (0, t) | Some r \<Rightarrow> rbind (live_route r t) (\<lambda>e. Inr (rt_gateway e, t)))"

section \<open>Keys of flows\<close>

lemma le_bytes_eq [simp]:
  "le_bytes 4 a = le_bytes 4 b \<longleftrightarrow> a = (b :: u32)" "le_bytes 2 c = le_bytes 2 d \<longleftrightarrow> c = (d :: u16)"
  "le_bytes 8 x = le_bytes 8 y \<longleftrightarrow> x = (y :: u64)"
  using le_bytes_inj [of 4 a b] le_bytes_inj [of 2 c d] le_bytes_inj [of 8 x y] by auto

lemma length_flow_bin:
  "length (flow_bin f) = (case f of ByDest _ \<Rightarrow> 4 | BySrcDest _ _ \<Rightarrow> 8 | ByMsgId _ _ _ \<Rightarrow> 16 | ByPorts _ _ _ _ \<Rightarrow> 12)"
  by (cases f) simp_all

lemma flow_bin_eq: "flow_bin f = flow_bin g \<longleftrightarrow> f = g"
proof
  assume e: "flow_bin f = flow_bin g"
  have "length (flow_bin f) = length (flow_bin g)" using e by simp
  then show "f = g" using e by (cases f; cases g) (simp_all add: length_flow_bin)
qed simp

section \<open>The longest match\<close>

definition route_at :: "flow_table \<Rightarrow> nat \<Rightarrow> ipv4_route" where
  "route_at t r = the (map_of (ft_heap t) r)"

definition matches :: "u32 \<Rightarrow> flow_table \<Rightarrow> nat \<Rightarrow> bool" where
  "matches dest t r \<longleftrightarrow> rt_valid (route_at t r) \<and>
     maskedAddrAreEqual dest (rt_dest (route_at t r)) (rt_netmask (route_at t r))"

text \<open>The routes of \<open>rs\<close> that match with the longest netmask.\<close>

definition longest_of :: "u32 \<Rightarrow> flow_table \<Rightarrow> nat list \<Rightarrow> nat list" where
  "longest_of dest t rs =
     filter (\<lambda>r. matches dest t r \<and>
        list_all (\<lambda>q. matches dest t q \<longrightarrow> rt_netmask (route_at t q) \<le> rt_netmask (route_at t r)) rs) rs"

definition longest_matches :: "u32 \<Rightarrow> flow_table \<Rightarrow> nat list" where
  "longest_matches dest t = longest_of dest t (ft_routes t)"

text \<open>No two valid routes to the same address with different netmasks.\<close>

definition unambiguous :: "flow_table \<Rightarrow> bool" where
  "unambiguous t \<longleftrightarrow>
     (\<forall>r \<in> set (ft_routes t). \<forall>q \<in> set (ft_routes t).
        rt_valid (route_at t r) \<longrightarrow> rt_valid (route_at t q) \<longrightarrow>
        rt_dest (route_at t r) = rt_dest (route_at t q) \<longrightarrow>
        rt_netmask (route_at t r) = rt_netmask (route_at t q))"

definition prefix_key :: "flow_table \<Rightarrow> nat \<Rightarrow> u32 \<times> u32" where
  "prefix_key t r = (NOT (rt_netmask (route_at t r)), rt_dest (route_at t r))"

lemma prefix_key_sorted: "table_ok t \<Longrightarrow> sorted (map (prefix_key t) (ft_routes t))"
proof -
  assume "table_ok t"
  then have "sorted (map (\<lambda>r. route_key (route_at t r)) (ft_routes t))"
    by (simp add: table_ok_def vectors_ok_def vec_ok_def keys_sorted_def route_at_def)
  then have "sorted_wrt (\<lambda>r q. route_key (route_at t r) \<le> route_key (route_at t q)) (ft_routes t)"
    by (simp add: sorted_map)
  then have "sorted_wrt (\<lambda>r q. prefix_key t r \<le> prefix_key t q) (ft_routes t)"
    by (rule sorted_wrt_mono_rel [rotated])
      (auto simp: prefix_key_def route_key_def less_eq_prod_def less_prod_def split: if_splits)
  then show ?thesis by (simp add: sorted_map)
qed

lemma route_at_live:
  assumes "table_ok t" and "r \<in> set (ft_routes t)"
  shows "live_route r t = Inr (route_at t r)" and "route_wf (route_at t r)"
  using vectors_live [of "{}" t r] assms by (auto simp: table_ok_def live_route_def route_at_def)

text \<open>Once a route was taken, the loop takes the others with the same prefix and then stops.\<close>

lemma collect_rest:
  assumes "\<And>r. r \<in> set rs \<Longrightarrow> live_route r t = Inr (route_at t r)"
    and "sorted (map (prefix_key t) (b # rs))" and "live_route b t = Inr (route_at t b)"
    and "\<And>r. r \<in> set rs \<Longrightarrow> rt_valid (route_at t r) \<Longrightarrow> rt_dest (route_at t r) = rt_dest (route_at t b) \<Longrightarrow>
      rt_netmask (route_at t r) = rt_netmask (route_at t b)"
    and "matches dest t b" and "best \<noteq> []" and "last best = b"
  shows "collect_best dest t rs best =
    Inr (best @ filter (\<lambda>r. rt_valid (route_at t r) \<and> prefix_key t r = prefix_key t b) rs)"
  using assms
proof (induction rs arbitrary: b best)
  case (Cons r rs)
  have live: "live_route r t = Inr (route_at t r)" using Cons.prems(1) by simp
  show ?case
  proof (cases "rt_valid (route_at t r)")
    case False
    then show ?thesis using Cons.prems live by (simp add: Cons.IH [of b best])
  next
    case valid: True
    show ?thesis
    proof (cases "rt_dest (route_at t r) = rt_dest (route_at t b)")
      case True
      then have k: "prefix_key t r = prefix_key t b" "matches dest t r"
        using Cons.prems(4) [of r] Cons.prems(5) valid by (simp_all add: prefix_key_def matches_def)
      have "collect_best dest t rs (best @ [r]) =
          Inr ((best @ [r]) @ filter (\<lambda>q. rt_valid (route_at t q) \<and> prefix_key t q = prefix_key t r) rs)"
        using Cons.prems True k live by (intro Cons.IH) (auto simp: prefix_key_def)
      then show ?thesis using valid live True Cons.prems(3,6,7) k by (simp add: matches_def)
    next
      case False
      then have "prefix_key t b < prefix_key t r"
        using Cons.prems(2) by (auto simp: prefix_key_def order_le_less)
      then have "\<forall>q \<in> set rs. prefix_key t b < prefix_key t q"
        using Cons.prems(2) by auto
      then have "filter (\<lambda>q. rt_valid (route_at t q) \<and> prefix_key t q = prefix_key t b) (r # rs) = []"
        using False by (auto simp: filter_empty_conv prefix_key_def)
      then show ?thesis using valid live False Cons.prems(3,6,7) by (simp only: collect_best.simps rbind_Inr) simp
    qed
  qed
qed simp

lemma masked_self: "d AND NOT m = 0 \<Longrightarrow> d AND m = (d :: 'a::len word)"
proof (rule bit_word_eqI)
  fix n assume "d AND NOT m = 0" and n: "n < LENGTH('a)"
  then have "\<not> bit (d AND NOT m) n" by simp
  then show "bit (d AND m) n \<longleftrightarrow> bit d n" using n by (auto simp: bit_and_iff bit_not_iff)
qed

lemma prefix_key_netmask: "prefix_key t b \<le> prefix_key t r \<Longrightarrow> rt_netmask (route_at t r) \<le> rt_netmask (route_at t b)"
  unfolding prefix_key_def less_eq_prod_def by (auto simp: order_less_imp_le)

lemma matches_dest:
  assumes "route_wf (route_at t r)" and "matches dest t r"
  shows "rt_dest (route_at t r) = dest AND rt_netmask (route_at t r)"
proof -
  have "rt_dest (route_at t r) AND rt_netmask (route_at t r) = rt_dest (route_at t r)"
    using assms(1) by (intro masked_self) (simp add: route_wf_def)
  then show ?thesis using assms(2) by (simp only: matches_def masked_equal_iff)
qed

lemma longest_of_skip: "\<not> matches dest t r \<Longrightarrow> longest_of dest t (r # rs) = longest_of dest t rs"
  by (simp add: longest_of_def)

lemma longest_of_first:
  assumes m: "matches dest t b" and s: "sorted (map (prefix_key t) (b # rs))"
    and wf: "\<And>r. r \<in> set (b # rs) \<Longrightarrow> route_wf (route_at t r)"
  shows "longest_of dest t (b # rs) = b # filter (\<lambda>r. rt_valid (route_at t r) \<and> prefix_key t r = prefix_key t b) rs"
proof -
  have le: "rt_netmask (route_at t r) \<le> rt_netmask (route_at t b)" if "r \<in> set (b # rs)" for r
  proof (cases "r = b")
    case False
    then have "prefix_key t b \<le> prefix_key t r" using that s by simp
    then show ?thesis by (rule prefix_key_netmask)
  qed simp
  have dst: "rt_dest (route_at t r) = dest AND rt_netmask (route_at t r)"
    if "r \<in> set (b # rs)" "matches dest t r" for r
    using wf [OF that(1)] that(2) by (rule matches_dest)
  let ?top = "\<lambda>r. list_all (\<lambda>q. matches dest t q \<longrightarrow> rt_netmask (route_at t q) \<le> rt_netmask (route_at t r)) (b # rs)"
  have mv: "rt_valid (route_at t b)" using m by (simp add: matches_def)
  have "matches dest t r \<and> ?top r \<longleftrightarrow> rt_valid (route_at t r) \<and> prefix_key t r = prefix_key t b"
    if r: "r \<in> set (b # rs)" for r
  proof
    assume a: "matches dest t r \<and> ?top r"
    then have "rt_netmask (route_at t b) \<le> rt_netmask (route_at t r)" using m by simp
    then have e: "rt_netmask (route_at t r) = rt_netmask (route_at t b)" using le [OF r] by simp
    have "rt_dest (route_at t r) = rt_dest (route_at t b)" using dst [OF r] dst [of b] m a by (simp add: e)
    then show "rt_valid (route_at t r) \<and> prefix_key t r = prefix_key t b"
      using a by (simp add: prefix_key_def e matches_def)
  next
    assume a: "rt_valid (route_at t r) \<and> prefix_key t r = prefix_key t b"
    then have e: "rt_netmask (route_at t r) = rt_netmask (route_at t b)" "rt_dest (route_at t r) = rt_dest (route_at t b)"
      by (simp_all add: prefix_key_def)
    have "?top r" unfolding list_all_iff e using le by blast
    moreover have "matches dest t r" using a m by (simp only: matches_def e)
    ultimately show "matches dest t r \<and> ?top r" by blast
  qed
  then have "longest_of dest t (b # rs) = filter (\<lambda>r. rt_valid (route_at t r) \<and> prefix_key t r = prefix_key t b) (b # rs)"
    unfolding longest_of_def by (intro filter_cong refl)
  then show ?thesis using m by (simp add: matches_def)
qed

lemma collect_best_longest:
  assumes "\<And>r. r \<in> set rs \<Longrightarrow> live_route r t = Inr (route_at t r)"
    and "\<And>r. r \<in> set rs \<Longrightarrow> route_wf (route_at t r)"
    and "sorted (map (prefix_key t) rs)"
    and "\<And>r q. r \<in> set rs \<Longrightarrow> q \<in> set rs \<Longrightarrow> rt_valid (route_at t r) \<Longrightarrow> rt_valid (route_at t q) \<Longrightarrow>
      rt_dest (route_at t r) = rt_dest (route_at t q) \<Longrightarrow> rt_netmask (route_at t r) = rt_netmask (route_at t q)"
  shows "collect_best dest t rs [] = Inr (longest_of dest t rs)"
  using assms
proof (induction rs)
  case (Cons r rs)
  have live: "live_route r t = Inr (route_at t r)" using Cons.prems(1) by simp
  show ?case
  proof (cases "matches dest t r")
    case True
    have "collect_best dest t rs [r] =
        Inr ([r] @ filter (\<lambda>q. rt_valid (route_at t q) \<and> prefix_key t q = prefix_key t r) rs)"
      by (rule collect_rest [where b = r]) (use Cons.prems True in \<open>auto simp: matches_def\<close>)
    moreover have "longest_of dest t (r # rs) =
        r # filter (\<lambda>q. rt_valid (route_at t q) \<and> prefix_key t q = prefix_key t r) rs"
      by (rule longest_of_first [OF True Cons.prems(3,2)])
    ultimately show ?thesis using live True by (simp add: matches_def)
  next
    case False
    have "collect_best dest t rs [] = Inr (longest_of dest t rs)" using Cons by simp
    then show ?thesis using live False by (auto simp: longest_of_skip matches_def)
  qed
qed (simp add: longest_of_def)

lemma collect_table:
  assumes t: "table_ok t" and u: "unambiguous t"
  shows "collect_best dest t (ft_routes t) [] = Inr (longest_matches dest t)"
  unfolding longest_matches_def
proof (rule collect_best_longest)
  show "sorted (map (prefix_key t) (ft_routes t))" using t by (rule prefix_key_sorted)
  show "live_route r t = Inr (route_at t r)" "route_wf (route_at t r)" if "r \<in> set (ft_routes t)" for r
    using route_at_live [OF t that] by simp_all
qed (use u in \<open>unfold unambiguous_def, blast\<close>)

end
