(* ===== verification/IpDatagram.thy ===== *)
theory IpDatagram
  imports EcmpRouting HomaPkt
begin

text \<open>
  The datagrams that \<open>IPv4Flow\<close> handles, their fragmentation, and the buffer that puts fragments
  together again (\<open>IPv4FragBuf\<close> and \<open>ReassemblyBuffer\<close> of the INET library under
  \<open>third_party\<close>).  A datagram carries its transport packet with the length of that packet;
  every fragment carries the whole packet and only the length fields are cut.
\<close>

section \<open>Datagrams\<close>

text \<open>Of the datagram inside an ICMP message only the protocol is kept.\<close>

datatype transport_pkt = TCPSegment u16 u16 nat | UDPPacket u16 u16 "cpacket option"
  | ICMPMessage int "int option" | OtherTransport nat

record datagram =
  dg_src :: u32
  dg_dest :: u32
  dg_proto :: int
  dg_ttl :: u16
  dg_ident :: u32
  dg_more :: bool
  dg_dont :: bool
  dg_offset :: int
  dg_tos :: u8
  dg_headerLen :: int
  dg_byteLen :: int
  dg_bitError :: bool
  dg_payload :: "(transport_pkt \<times> int) option"
  dg_arrival :: "nat option"
  dg_loop :: "bool option"

abbreviation IP_PROT_ICMP :: int where "IP_PROT_ICMP \<equiv> 1"
abbreviation IP_PROT_IGMP :: int where "IP_PROT_IGMP \<equiv> 2"
abbreviation IP_PROT_IP :: int where "IP_PROT_IP \<equiv> 4"
abbreviation IP_PROT_TCP :: int where "IP_PROT_TCP \<equiv> 6"
abbreviation IP_PROT_UDP :: int where "IP_PROT_UDP \<equiv> 17"

abbreviation IP_HEADER_BYTES :: int where "IP_HEADER_BYTES \<equiv> 20"

definition isLimitedBroadcastAddress :: "u32 \<Rightarrow> bool" where
  "isLimitedBroadcastAddress a \<longleftrightarrow> a = 0xFFFFFFFF"

definition isLinkLocalMulticast :: "u32 \<Rightarrow> bool" where
  "isLinkLocalMulticast a \<longleftrightarrow> a AND 0xFFFFFF00 = 0xE0000000"

abbreviation BROADCAST_MAC :: u64 where "BROADCAST_MAC \<equiv> 0xFFFFFFFFFFFF"

definition makeMulticastAddress :: "u32 \<Rightarrow> u64" where
  "makeMulticastAddress a = 0x01005E000000 OR ucast (a AND 0x007FFFFF)"

text \<open>The key of the flow a datagram belongs to; a packet of another class fails its cast.\<close>

definition datagram_flow :: "datagram \<Rightarrow> flow res" where
  "datagram_flow d =
     (if dg_proto d = IP_PROT_TCP then
        (case dg_payload d of
           Some (TCPSegment srcPort destPort _, _) \<Rightarrow> Inr (ByPorts (dg_src d) srcPort (dg_dest d) destPort)
         | _ \<Rightarrow> Inl RuntimeError)
      else if dg_proto d = IP_PROT_UDP then
        (case dg_payload d of
           Some (UDPPacket srcPort destPort inner, _) \<Rightarrow>
             (case searchEncapHomaPkt (OtherPacket (Some (OtherPacket inner))) of
                Some h \<Rightarrow> Inr (ByMsgId (dg_src d) (dg_dest d) (pkt_msgId h))
              | None \<Rightarrow> Inr (ByPorts (dg_src d) srcPort (dg_dest d) destPort))
         | _ \<Rightarrow> Inl RuntimeError)
      else Inr (BySrcDest (dg_src d) (dg_dest d)))"

section \<open>Fragmentation\<close>

text \<open>The loop over the offsets; \<open>len\<close> is the payload of a fragment, positive where it is called.\<close>

function fragment_list :: "datagram \<Rightarrow> int \<Rightarrow> int \<Rightarrow> int \<Rightarrow> datagram list" where
  "fragment_list d payload len offset =
     (if offset < payload \<and> 0 < len then
        let last_one = offset + len \<ge> payload;
            this_len = (if last_one then payload - offset else len)
        in d\<lparr>dg_more := (if last_one then dg_more d else True),
             dg_byteLen := dg_headerLen d + this_len,
             dg_offset := dg_offset d + offset\<rparr> # fragment_list d payload len (offset + len)
      else [])"
  by auto
termination by (relation "measure (\<lambda>(d, payload, len, offset). nat (payload - offset))") auto

declare fragment_list.simps [simp del]

definition fragment_len :: "int \<Rightarrow> datagram \<Rightarrow> int" where
  "fragment_len mtu d = ((mtu - dg_headerLen d) sdiv 8) * 8"

definition fragment_datagram :: "int \<Rightarrow> datagram \<Rightarrow> datagram list res" where
  "fragment_datagram mtu d =
     (if fragment_len mtu d \<le> 0 then Inl RuntimeError
      else Inr (fragment_list d (dg_byteLen d - dg_headerLen d) (fragment_len mtu d) 0))"

section \<open>Reassembly\<close>

record region =
  rg_beg :: u16
  rg_end :: u16
  rg_last :: bool

record reassembly =
  rb_main :: region
  rb_fragments :: "region list"

definition ReassemblyBuffer :: reassembly where
  "ReassemblyBuffer = \<lparr>rb_main = \<lparr>rg_beg = 0, rg_end = 0, rg_last = False\<rparr>, rb_fragments = []\<rparr>"

text \<open>One pass over the stored regions, and the passes until one changes nothing.\<close>

fun merge_pass :: "region \<Rightarrow> region list \<Rightarrow> region \<times> region list \<times> bool" where
  "merge_pass m [] = (m, [], False)"
| "merge_pass m (f # fs) =
     (if rg_end m = rg_beg f then
        case merge_pass (m\<lparr>rg_end := rg_end f, rg_last := rg_last m \<or> rg_last f\<rparr>) fs of
          (m, kept, _) \<Rightarrow> (m, kept, True)
      else if rg_beg m = rg_end f then
        case merge_pass (m\<lparr>rg_beg := rg_beg f\<rparr>) fs of (m, kept, _) \<Rightarrow> (m, kept, True)
      else if rg_beg m \<le> rg_beg f \<and> rg_end f \<le> rg_end m then
        case merge_pass m fs of (m, kept, _) \<Rightarrow> (m, kept, True)
      else case merge_pass m fs of (m, kept, again) \<Rightarrow> (m, f # kept, again))"

lemma merge_pass_length:
  "length (fst (snd (merge_pass m fs))) \<le> length fs \<and>
   (snd (snd (merge_pass m fs)) \<longrightarrow> length (fst (snd (merge_pass m fs))) < length fs)"
  by (induction m fs rule: merge_pass.induct) (auto split: prod.splits)

function mergeFragments :: "region \<Rightarrow> region list \<Rightarrow> region \<times> region list" where
  "mergeFragments m fs =
     (if snd (snd (merge_pass m fs))
      then mergeFragments (fst (merge_pass m fs)) (fst (snd (merge_pass m fs)))
      else (fst (merge_pass m fs), fst (snd (merge_pass m fs))))"
  by auto
termination
  by (relation "measure (\<lambda>(m, fs). length fs)") (use merge_pass_length in auto)

declare mergeFragments.simps [simp del]

definition merge_stored :: "region \<Rightarrow> region list \<Rightarrow> reassembly" where
  "merge_stored m fs = (case mergeFragments m fs of (m, fs) \<Rightarrow> \<lparr>rb_main = m, rb_fragments = fs\<rparr>)"

definition merge_region :: "u16 \<Rightarrow> u16 \<Rightarrow> bool \<Rightarrow> reassembly \<Rightarrow> reassembly" where
  "merge_region b e islast buf =
     (let m = rb_main buf
      in if rg_end m = b then
           merge_stored (m\<lparr>rg_end := e, rg_last := rg_last m \<or> islast\<rparr>) (rb_fragments buf)
         else if rg_beg m = e then merge_stored (m\<lparr>rg_beg := b\<rparr>) (rb_fragments buf)
         else if rg_end m < b \<or> rg_beg m > e then
           buf\<lparr>rb_fragments := rb_fragments buf @ [\<lparr>rg_beg = b, rg_end = e, rg_last = islast\<rparr>]\<rparr>
         else buf)"

definition add_region :: "u16 \<Rightarrow> u16 \<Rightarrow> bool \<Rightarrow> reassembly \<Rightarrow> bool \<times> reassembly" where
  "add_region b e islast buf =
     (let buf = merge_region b e islast buf
      in (rg_beg (rb_main buf) = 0 \<and> rg_last (rb_main buf), buf))"

type_synonym frag_key = "u16 \<times> u32 \<times> u32"

record datagram_buffer =
  db_buf :: reassembly
  db_datagram :: "datagram option"
  db_lastupdate :: simtime

definition frag_key :: "datagram \<Rightarrow> frag_key" where
  "frag_key d = (ucast (dg_ident d), dg_src d, dg_dest d)"

text \<open>
  A fragment is added to the buffer of its datagram.  A datagram that is complete with its first
  fragment would erase the end iterator.
\<close>

definition addFragment ::
    "datagram \<Rightarrow> simtime \<Rightarrow> (frag_key \<times> datagram_buffer) list \<Rightarrow>
     (datagram option \<times> (frag_key \<times> datagram_buffer) list) res" where
  "addFragment d now bufs =
     (let key = frag_key d;
          known = map_of bufs key;
          buf = (case known of
                   Some b \<Rightarrow> b
                 | None \<Rightarrow> \<lparr>db_buf = ReassemblyBuffer, db_datagram = None, db_lastupdate = 0\<rparr>);
          bytes = dg_byteLen d - dg_headerLen d;
          (complete, rb) = add_region (word_of_int (dg_offset d)) (word_of_int (dg_offset d + bytes))
             (\<not> dg_more d) (db_buf buf);
          stored = (case db_datagram buf of
                      None \<Rightarrow> d
                    | Some o' \<Rightarrow> if dg_payload o' = None \<and> dg_payload d \<noteq> None then d else o')
      in if complete then
           if known = None then Inl NullPointer
           else Inr (Some (stored\<lparr>dg_byteLen := dg_headerLen stored + uint (rg_end (rb_main rb)),
                                 dg_offset := 0, dg_more := False\<rparr>), al_del key bufs)
         else Inr (None, al_put key
                \<lparr>db_buf = rb, db_datagram = Some stored, db_lastupdate = now\<rparr> bufs))"

text \<open>The datagrams thrown out, in the order of their keys, and the buffers left.\<close>

definition purgeStaleFragments ::
    "simtime \<Rightarrow> (frag_key \<times> datagram_buffer) list \<Rightarrow> datagram list \<times> (frag_key \<times> datagram_buffer) list" where
  "purgeStaleFragments lastupdate bufs =
     (List.map_filter (\<lambda>(key, b). if db_lastupdate b < lastupdate then db_datagram b else None)
        (sort_key fst bufs),
      filter (\<lambda>(key, b). \<not> db_lastupdate b < lastupdate) bufs)"

end
