(* ===== verification/IpForward.thy ===== *)
theory IpForward
  imports IpDatagram Complex_Main
begin

text \<open>
  The network layer \<open>IPv4Flow\<close> of a host or switch: which datagrams it delivers, forwards,
  broadcasts or drops, how it sends them over an interface, and the packets that wait for an
  address resolution.  What leaves the module is a list of events.  Other modules that are asked
  (the ARP cache, hooks, the transport gates, listeners, the random number generator) are the
  argument \<open>env\<close> of a handler.
\<close>

section \<open>State\<close>

datatype hook_type = PREROUTING | LOCALIN | FORWARD | POSTROUTING | LOCALOUT
datatype hook_result = ACCEPT | DROP | QUEUE | STOLEN

text \<open>A hook may change the datagram, the output interface and the next hop.\<close>

record ip_env =
  env_now :: simtime
  env_random :: rat
  env_arp :: "u32 \<Rightarrow> u64"
  env_hook :: "hook_type \<Rightarrow> nat \<Rightarrow> datagram \<Rightarrow> nat option \<Rightarrow> nat option \<Rightarrow> u32 \<Rightarrow>
     hook_result \<times> datagram \<times> nat option \<times> u32"
  env_pathOK :: "int \<Rightarrow> bool"
  env_newMulticast :: "datagram \<Rightarrow> flow_table \<Rightarrow> flow_table"
  env_sort :: sorter
  env_seed :: u32

record ip_ctrl =
  ci_proto :: int
  ci_src :: u32
  ci_dest :: u32
  ci_tos :: u8
  ci_ifid :: "nat option"
  ci_ttl :: u16

datatype icmp_error = DEST_UNREACHABLE | PROTOCOL_UNREACHABLE | FRAGMENTATION_NEEDED | TIME_EXCEEDED
  | PARAMETER_PROBLEM

datatype net_packet = NetDatagram datagram | NetARP nat | NetOther

datatype ip_event = ToNIC net_packet nat "u64 option" | ToARP nat nat | StartResolution u32 nat
  | ToTransport int transport_pkt ip_ctrl | IcmpError datagram "nat option" icmp_error
  | Notify_NONRPF datagram | Notify_RPF datagram | Notify_REGISTER datagram

record queued_datagram =
  qd_datagram :: datagram
  qd_inIE :: "nat option"
  qd_outIE :: "nat option"
  qd_nextHop :: u32
  qd_hook :: hook_type

text \<open>What the service queue holds.\<close>

record hl_ctrl =
  hc_proto :: int
  hc_src :: u32
  hc_dest :: u32
  hc_tos :: u8
  hc_dont :: bool
  hc_ttl :: u16
  hc_ifid :: "nat option"
  hc_loop :: bool

datatype arrival_pkt = FromTransport "datagram + (transport_pkt \<times> int \<times> hl_ctrl)"
  | FromARP net_packet nat | FromNetwork net_packet int

record ip_flow =
  ip_rt :: flow_table
  ip_multicastForward :: bool
  ip_defaultTTL :: int
  ip_defaultMCTTL :: int
  ip_fragmentTimeout :: simtime
  ip_forceBroadcast :: bool
  ip_useProxyARP :: bool
  ip_delay :: simtime
  ip_up :: bool
  ip_curFragmentId :: u64
  ip_fragbuf :: "(frag_key \<times> datagram_buffer) list"
  ip_lastCheck :: simtime
  ip_mapping :: "(int \<times> int) list"
  ip_pending :: "(u32 \<times> datagram list) list"
  ip_numMulticast :: int
  ip_numLocalDeliver :: int
  ip_numDropped :: int
  ip_numUnroutable :: int
  ip_numForwarded :: int
  ip_hooks :: "(int \<times> nat) list"
  ip_queued :: "queued_datagram list"
  ip_queue :: "arrival_pkt list"
  ip_serviced :: "arrival_pkt option"
  ip_endService :: "simtime option"
  ip_events :: "ip_event list"

text \<open>
  \<open>initialize\<close>; the parameters of the module are arguments, and so is whether the node is up.
\<close>

definition IPv4Flow ::
    "flow_table \<Rightarrow> bool \<Rightarrow> int \<Rightarrow> int \<Rightarrow> simtime \<Rightarrow> bool \<Rightarrow> bool \<Rightarrow> simtime \<Rightarrow> bool \<Rightarrow> ip_flow" where
  "IPv4Flow rt multicastForward timeToLive multicastTimeToLive fragmentTimeout forceBroadcast useProxyARP
       procDelay isNodeUp =
     \<lparr>ip_rt = rt, ip_multicastForward = multicastForward, ip_defaultTTL = timeToLive,
      ip_defaultMCTTL = multicastTimeToLive, ip_fragmentTimeout = fragmentTimeout,
      ip_forceBroadcast = forceBroadcast, ip_useProxyARP = useProxyARP, ip_delay = procDelay,
      ip_up = isNodeUp, ip_curFragmentId = 0, ip_fragbuf = [], ip_lastCheck = 0, ip_mapping = [],
      ip_pending = [], ip_numMulticast = 0, ip_numLocalDeliver = 0, ip_numDropped = 0,
      ip_numUnroutable = 0, ip_numForwarded = 0, ip_hooks = [], ip_queued = [], ip_queue = [],
      ip_serviced = None, ip_endService = None, ip_events = []\<rparr>"

definition ip_emit :: "ip_event \<Rightarrow> ip_flow \<Rightarrow> ip_flow" where
  "ip_emit e t = t\<lparr>ip_events := ip_events t @ [e]\<rparr>"

text \<open>Counters are \<open>int\<close> in the code; they do not reach their bound.\<close>

definition ip_dropped :: "ip_flow \<Rightarrow> ip_flow" where
  "ip_dropped t = t\<lparr>ip_numDropped := ip_numDropped t + 1\<rparr>"

definition ip_iface :: "nat \<Rightarrow> ip_flow \<Rightarrow> iface res" where
  "ip_iface i t = interface_of (ip_rt t) i"

text \<open>Following \<open>ipv4Data()\<close> of an interface.\<close>

definition ipv4Data :: "iface \<Rightarrow> iface res" where
  "ipv4Data ie = (if if_ipv4 ie then Inr ie else Inl NullPointer)"

definition first_loopback :: "ip_flow \<Rightarrow> iface option" where
  "first_loopback t = find if_loopback (ft_ift (ip_rt t))"

definition first_multicast :: "ip_flow \<Rightarrow> iface option" where
  "first_multicast t = find (\<lambda>ie. if_multicast ie \<and> \<not> if_loopback ie) (ft_ift (ip_rt t))"

section \<open>Sending over an interface\<close>

definition sendPacketToNIC :: "net_packet \<Rightarrow> nat \<Rightarrow> ip_flow \<Rightarrow> ip_flow" where
  "sendPacketToNIC p i t = ip_emit (ToNIC p i None) t"

definition sendPacketToIeee802NIC :: "net_packet \<Rightarrow> nat \<Rightarrow> u64 \<Rightarrow> ip_flow \<Rightarrow> ip_flow" where
  "sendPacketToIeee802NIC p i mac t = ip_emit (ToNIC p i (Some mac)) t"

definition resolveNextHopMacAddress :: "ip_env \<Rightarrow> u32 \<Rightarrow> iface \<Rightarrow> u64 res" where
  "resolveNextHopMacAddress env nextHop ie =
     rbind (if isLimitedBroadcastAddress nextHop then Inr True
            else rbind (ipv4Data ie) (\<lambda>ie. Inr (nextHop = makeBroadcastAddress (if_addr ie) (if_netmask ie))))
       (\<lambda>broadcast.
     if broadcast then Inr BROADCAST_MAC
     else if isMulticast nextHop then Inr (makeMulticastAddress nextHop)
     else Inr (env_arp env nextHop))"

definition pending_insert :: "u32 \<Rightarrow> datagram \<Rightarrow> ip_flow \<Rightarrow> ip_flow" where
  "pending_insert a d t =
     t\<lparr>ip_pending := al_put a ((case map_of (ip_pending t) a of None \<Rightarrow> [] | Some q \<Rightarrow> q) @ [d]) (ip_pending t)\<rparr>"

definition sendDatagramToOutput :: "ip_env \<Rightarrow> datagram \<Rightarrow> nat \<Rightarrow> u32 \<Rightarrow> ip_flow \<Rightarrow> ip_flow res" where
  "sendDatagramToOutput env d i nextHop t =
     rbind (ip_iface i t) (\<lambda>ie.
     if \<not> (if_broadcast ie \<and> if_mac ie \<noteq> 0) then Inr (sendPacketToNIC (NetDatagram d) i t)
     else
       rbind (if isUnspecified nextHop then
                if ip_useProxyARP t then Inr (dg_dest d) else Inl RuntimeError
              else Inr nextHop) (\<lambda>nextHop.
       rbind (resolveNextHopMacAddress env nextHop ie) (\<lambda>mac.
       if mac = 0 then Inr (ip_emit (StartResolution nextHop i) (pending_insert nextHop d t))
       else
         rbind (assertion (map_of (ip_pending t) nextHop = None)) (\<lambda>_.
         Inr (sendPacketToIeee802NIC (NetDatagram d) i mac t)))))"

fun send_all :: "ip_env \<Rightarrow> datagram list \<Rightarrow> nat \<Rightarrow> u32 \<Rightarrow> ip_flow \<Rightarrow> ip_flow res" where
  "send_all env [] i nextHop t = Inr t"
| "send_all env (d # ds) i nextHop t =
     rbind (sendDatagramToOutput env d i nextHop t) (send_all env ds i nextHop)"

definition fragmentAndSend :: "ip_env \<Rightarrow> datagram \<Rightarrow> nat \<Rightarrow> u32 \<Rightarrow> ip_flow \<Rightarrow> ip_flow res" where
  "fragmentAndSend env d i nextHop t =
     rbind (ip_iface i t) (\<lambda>ie.
     rbind (if isUnspecified (dg_src d) then rbind (ipv4Data ie) (\<lambda>ie. Inr (d\<lparr>dg_src := if_addr ie\<rparr>))
            else Inr d) (\<lambda>d.
     let d = (if \<not> if_loopback ie then d\<lparr>dg_ttl := dg_ttl d - 1\<rparr> else d)
     in if sint (dg_ttl d) < 0 then Inr (ip_dropped (ip_emit (IcmpError d None TIME_EXCEEDED) t))
        else if if_mtu ie = 0 \<or> dg_byteLen d \<le> if_mtu ie then sendDatagramToOutput env d i nextHop t
        else if dg_dont d then Inr (ip_dropped (ip_emit (IcmpError d None FRAGMENTATION_NEEDED) t))
        else rbind (fragment_datagram (if_mtu ie) d) (\<lambda>ds. send_all env ds i nextHop t)))"

section \<open>Hooks\<close>

definition register_hook :: "int \<Rightarrow> nat \<Rightarrow> ip_flow \<Rightarrow> ip_flow" where
  "register_hook priority h t =
     t\<lparr>ip_hooks := takeWhile (\<lambda>x. fst x \<le> priority) (ip_hooks t) @ (priority, h) #
        dropWhile (\<lambda>x. fst x \<le> priority) (ip_hooks t)\<rparr>"

definition unregister_hook :: "int \<Rightarrow> nat \<Rightarrow> ip_flow \<Rightarrow> ip_flow" where
  "unregister_hook priority h t = t\<lparr>ip_hooks := remove1 (priority, h) (ip_hooks t)\<rparr>"

text \<open>
  The hooks are asked in order until one does not accept; the result is what goes on, or nothing
  when the datagram was dropped, queued or taken over.
\<close>

fun ask_hooks ::
    "ip_env \<Rightarrow> hook_type \<Rightarrow> (int \<times> nat) list \<Rightarrow> datagram \<Rightarrow> nat option \<Rightarrow> nat option \<Rightarrow> u32 \<Rightarrow> ip_flow \<Rightarrow>
     (datagram \<times> nat option \<times> u32) option \<times> ip_flow" where
  "ask_hooks env ty [] d inIE outIE nextHop t = (Some (d, outIE, nextHop), t)"
| "ask_hooks env ty ((priority, h) # hs) d inIE outIE nextHop t =
     (case env_hook env ty h d inIE outIE nextHop of
        (r, d, outIE, nextHop) \<Rightarrow>
          (case r of
             ACCEPT \<Rightarrow> ask_hooks env ty hs d inIE outIE nextHop t
           | DROP \<Rightarrow> (None, t)
           | QUEUE \<Rightarrow> (None, t\<lparr>ip_queued := ip_queued t @ [\<lparr>qd_datagram = d, qd_inIE = inIE,
                         qd_outIE = (if ty = LOCALIN then None else outIE),
                         qd_nextHop = (if ty = LOCALIN then 0 else nextHop), qd_hook = ty\<rparr>]\<rparr>)
           | STOLEN \<Rightarrow> (None, t)))"

definition datagramHook ::
    "ip_env \<Rightarrow> hook_type \<Rightarrow> datagram \<Rightarrow> nat option \<Rightarrow> nat option \<Rightarrow> u32 \<Rightarrow> ip_flow \<Rightarrow>
     (datagram \<Rightarrow> nat option \<Rightarrow> u32 \<Rightarrow> ip_flow \<Rightarrow> ip_flow res) \<Rightarrow> ip_flow res" where
  "datagramHook env ty d inIE outIE nextHop t continue =
     (case ask_hooks env ty (ip_hooks t) d inIE outIE nextHop t of
        (None, t) \<Rightarrow> Inr t
      | (Some (d, outIE, nextHop), t) \<Rightarrow> continue d outIE nextHop t)"

definition fragmentPostRouting :: "ip_env \<Rightarrow> datagram \<Rightarrow> nat \<Rightarrow> u32 \<Rightarrow> ip_flow \<Rightarrow> ip_flow res" where
  "fragmentPostRouting env d i nextHop t =
     datagramHook env POSTROUTING d (dg_arrival d) (Some i) nextHop t (\<lambda>d out nextHop t.
       rbind (of_option NullPointer out) (\<lambda>i. fragmentAndSend env d i nextHop t))"

section \<open>Local delivery\<close>

definition findOutputGateForProtocol :: "int \<Rightarrow> (int \<times> int) list \<Rightarrow> int" where
  "findOutputGateForProtocol proto m = (case map_of m proto of None \<Rightarrow> -2 | Some g \<Rightarrow> g)"

definition getOutputGateForProtocol :: "int \<Rightarrow> (int \<times> int) list \<Rightarrow> int res" where
  "getOutputGateForProtocol proto m =
     (let ret = findOutputGateForProtocol proto m in if ret \<ge> -1 then Inr ret else Inl RuntimeError)"

definition addProtocolMapping :: "int \<Rightarrow> int \<Rightarrow> (int \<times> int) list \<Rightarrow> (int \<times> int) list res" where
  "addProtocolMapping proto gate m =
     (let registered = findOutputGateForProtocol proto m
      in if registered = -2 then Inr (m @ [(proto, gate)])
         else if registered = gate then Inr m
         else Inl RuntimeError)"

text \<open>The packet inside; OMNeT++ refuses to make the length of the datagram negative.\<close>

definition decapsulate :: "datagram \<Rightarrow> ip_flow \<Rightarrow> (transport_pkt \<times> ip_ctrl) res" where
  "decapsulate d t =
     (case dg_payload d of
        None \<Rightarrow> Inl NullPointer
      | Some (p, len) \<Rightarrow>
          if dg_byteLen d > 0 \<and> dg_byteLen d < len then Inl RuntimeError
          else Inr (p, \<lparr>ci_proto = dg_proto d, ci_src = dg_src d, ci_dest = dg_dest d, ci_tos = dg_tos d,
                        ci_ifid = dg_arrival d, ci_ttl = dg_ttl d\<rparr>))"

definition handleIncomingICMP :: "transport_pkt \<times> ip_ctrl \<Rightarrow> ip_flow \<Rightarrow> ip_flow res" where
  "handleIncomingICMP pc t =
     (case pc of
        (ICMPMessage ty inner, ctrl) \<Rightarrow>
          rbind (if ty \<in> {5, 11, 12, 13} then of_option RuntimeError inner else Inr IP_PROT_ICMP) (\<lambda>proto.
          rbind (getOutputGateForProtocol proto (ip_mapping t)) (\<lambda>gateindex.
          Inr (ip_emit (ToTransport gateindex (ICMPMessage ty inner) ctrl) t)))
      | _ \<Rightarrow> Inl RuntimeError)"

definition reassembleAndDeliverFinish :: "ip_env \<Rightarrow> datagram \<Rightarrow> ip_flow \<Rightarrow> ip_flow res" where
  "reassembleAndDeliverFinish env d t =
     (let proto = dg_proto d
      in if proto = IP_PROT_ICMP then
           rbind (decapsulate d t) (\<lambda>pc.
           rbind (handleIncomingICMP pc t) (\<lambda>t. Inr (t\<lparr>ip_numLocalDeliver := ip_numLocalDeliver t + 1\<rparr>)))
         else if proto = IP_PROT_IP then rbind (decapsulate d t) (\<lambda>_. Inl RuntimeError)
         else
           let gateindex = findOutputGateForProtocol proto (ip_mapping t)
           in if gateindex \<ge> 0 \<and> env_pathOK env gateindex then
                rbind (decapsulate d t) (\<lambda>(p, ctrl).
                let t = ip_emit (ToTransport gateindex p ctrl) t
                in Inr (t\<lparr>ip_numLocalDeliver := ip_numLocalDeliver t + 1\<rparr>))
              else
                rbind (of_option NullPointer (dg_arrival d)) (\<lambda>i.
                Inr (ip_emit (IcmpError d (Some i) PROTOCOL_UNREACHABLE) t)))"

text \<open>One second is \<open>10\<^sup>1\<^sup>2\<close> ticks.\<close>

definition reassembleAndDeliver :: "ip_env \<Rightarrow> datagram \<Rightarrow> ip_flow \<Rightarrow> ip_flow res" where
  "reassembleAndDeliver env d t =
     rbind (if dg_offset d \<noteq> 0 \<or> dg_more d then
              let t = (if env_now env \<ge> ip_lastCheck t + 10 * 10 ^ 12 then
                         case purgeStaleFragments (env_now env - ip_fragmentTimeout t) (ip_fragbuf t) of
                           (stale, bufs) \<Rightarrow>
                             t\<lparr>ip_lastCheck := env_now env, ip_fragbuf := bufs,
                               ip_events := ip_events t @ map (\<lambda>d. IcmpError d None TIME_EXCEEDED) stale\<rparr>
                       else t)
              in rbind (addFragment d (env_now env) (ip_fragbuf t)) (\<lambda>(whole, bufs).
                 Inr (whole, t\<lparr>ip_fragbuf := bufs\<rparr>))
            else Inr (Some d, t)) (\<lambda>(whole, t).
     case whole of
       None \<Rightarrow> Inr t
     | Some d \<Rightarrow>
         datagramHook env LOCALIN d (dg_arrival d) None 0 t (\<lambda>d _ _ t. reassembleAndDeliverFinish env d t))"

section \<open>Routing\<close>

definition ip_lookup :: "ip_env \<Rightarrow> flow \<Rightarrow> ip_flow \<Rightarrow> (ipv4_route option \<times> ip_flow) res" where
  "ip_lookup env f t =
     rbind (lookup (env_sort env) (env_seed env) f (ip_rt t)) (\<lambda>(v, rt).
     rbind (case v of None \<Rightarrow> Inr None | Some r \<Rightarrow> rbind (live_route r rt) (\<lambda>e. Inr (Some e))) (\<lambda>e.
     Inr (e, t\<lparr>ip_rt := rt\<rparr>)))"

definition routeUnicastPacketFinish :: "ip_env \<Rightarrow> datagram \<Rightarrow> nat \<Rightarrow> u32 \<Rightarrow> ip_flow \<Rightarrow> ip_flow res" where
  "routeUnicastPacketFinish env d i nextHop t =
     fragmentPostRouting env d i nextHop (t\<lparr>ip_numForwarded := ip_numForwarded t + 1\<rparr>)"

text \<open>The output interface and the next hop of a datagram.\<close>

definition choose_route ::
    "ip_env \<Rightarrow> datagram \<Rightarrow> nat option \<Rightarrow> u32 \<Rightarrow> ip_flow \<Rightarrow> (nat option \<times> u32 \<times> ip_flow) res" where
  "choose_route env d destIE requestedNextHop t =
     rbind (datagram_flow d) (\<lambda>f.
     case destIE of
       Some i \<Rightarrow>
         if \<not> isUnspecified requestedNextHop then Inr (Some i, requestedNextHop, t)
         else
           rbind (ip_iface i t) (\<lambda>ie.
           if if_broadcast ie then
             rbind (ip_lookup env f t) (\<lambda>(re, t).
             Inr (Some i, case re of Some e \<Rightarrow> if rt_interface e = Some i then rt_gateway e else 0 | None \<Rightarrow> 0, t))
           else Inr (Some i, 0, t))
     | None \<Rightarrow>
         rbind (ip_lookup env f t) (\<lambda>(re, t).
         case re of Some e \<Rightarrow> Inr (rt_interface e, rt_gateway e, t) | None \<Rightarrow> Inr (None, 0, t)))"

definition routeUnicastPacket ::
    "ip_env \<Rightarrow> datagram \<Rightarrow> nat option \<Rightarrow> nat option \<Rightarrow> u32 \<Rightarrow> ip_flow \<Rightarrow> ip_flow res" where
  "routeUnicastPacket env d fromIE destIE requestedNextHop t =
     rbind (choose_route env d destIE requestedNextHop t) (\<lambda>(destIE, nextHop, t).
     case destIE of
       None \<Rightarrow> Inr (ip_emit (IcmpError d fromIE DEST_UNREACHABLE) (t\<lparr>ip_numUnroutable := ip_numUnroutable t + 1\<rparr>))
     | Some i \<Rightarrow>
         if fromIE \<noteq> None then
           datagramHook env FORWARD d fromIE (Some i) nextHop t (\<lambda>d out nextHop t.
             rbind (of_option NullPointer out) (\<lambda>i. routeUnicastPacketFinish env d i nextHop t))
         else routeUnicastPacketFinish env d i nextHop t)"

fun broadcast_all :: "ip_env \<Rightarrow> datagram \<Rightarrow> iface list \<Rightarrow> ip_flow \<Rightarrow> ip_flow res" where
  "broadcast_all env d [] t = Inr t"
| "broadcast_all env d (ie # ies) t =
     rbind (fragmentPostRouting env d (if_id ie) ALLONES_ADDRESS t) (broadcast_all env d ies)"

definition routeLocalBroadcastPacket :: "ip_env \<Rightarrow> datagram \<Rightarrow> nat option \<Rightarrow> ip_flow \<Rightarrow> ip_flow res" where
  "routeLocalBroadcastPacket env d destIE t =
     (case destIE of
        Some i \<Rightarrow> fragmentPostRouting env d i ALLONES_ADDRESS t
      | None \<Rightarrow>
          if ip_forceBroadcast t then broadcast_all env d (ft_ift (ip_rt t)) t else Inr (ip_dropped t))"

definition getShortestPathInterfaceToSource :: "ip_env \<Rightarrow> datagram \<Rightarrow> ip_flow \<Rightarrow> (nat option \<times> ip_flow) res" where
  "getShortestPathInterfaceToSource env d t =
     rbind (getInterfaceForDestAddr (env_sort env) (env_seed env) (dg_src d) (ip_rt t)) (\<lambda>(i, rt).
     Inr (i, t\<lparr>ip_rt := rt\<rparr>))"

text \<open>The copies for the output interfaces of a multicast route.\<close>

fun forward_copies :: "ip_env \<Rightarrow> datagram \<Rightarrow> nat \<Rightarrow> nat list \<Rightarrow> nat list \<Rightarrow> ip_flow \<Rightarrow> ip_flow res" where
  "forward_copies env d fromIE leaves [] t = Inr t"
| "forward_copies env d fromIE leaves (i # outs) t =
     rbind (if i \<noteq> fromIE then
              rbind (ip_iface i t) (\<lambda>ie.
              rbind (ipv4Data ie) (\<lambda>ie.
              if sint (dg_ttl d) \<le> if_ttlThreshold ie then Inr t
              else if i \<in> set leaves \<and> dg_dest d \<notin> set (if_listeners ie) then Inr t
              else fragmentPostRouting env d i (dg_dest d) t))
            else Inr t)
       (forward_copies env d fromIE leaves outs)"

definition multicast_route :: "ip_env \<Rightarrow> datagram \<Rightarrow> ip_flow \<Rightarrow> (nat option \<times> ip_flow) res" where
  "multicast_route env d t =
     rbind (findBestMatchingMulticastRoute (dg_src d) (dg_dest d) (ip_rt t)) (\<lambda>r.
     case r of
       Some r \<Rightarrow> Inr (Some r, t)
     | None \<Rightarrow>
         let t = t\<lparr>ip_rt := env_newMulticast env d (ip_rt t)\<rparr>
         in rbind (findBestMatchingMulticastRoute (dg_src d) (dg_dest d) (ip_rt t)) (\<lambda>r. Inr (r, t)))"

definition forwardMulticastPacket :: "ip_env \<Rightarrow> datagram \<Rightarrow> nat \<Rightarrow> ip_flow \<Rightarrow> ip_flow res" where
  "forwardMulticastPacket env d fromIE t =
     rbind (assertion (isMulticast (dg_dest d) \<and> \<not> isLinkLocalMulticast (dg_dest d))) (\<lambda>_.
     let t = t\<lparr>ip_numMulticast := ip_numMulticast t + 1\<rparr>
     in rbind (multicast_route env d t) (\<lambda>(r, t).
        case r of
          None \<Rightarrow> Inr (t\<lparr>ip_numUnroutable := ip_numUnroutable t + 1\<rparr>)
        | Some r \<Rightarrow>
            rbind (live_mroute r (ip_rt t)) (\<lambda>e.
            if mr_in e \<noteq> None \<and> mr_in e \<noteq> Some fromIE then Inr (ip_dropped (ip_emit (Notify_NONRPF d) t))
            else
              rbind (if mr_in e = None then
                       rbind (getShortestPathInterfaceToSource env d t) (\<lambda>(i, t). Inr (i \<noteq> Some fromIE, t))
                     else Inr (False, t)) (\<lambda>(off_path, t).
              if off_path then Inr (ip_dropped t)
              else
                let t = ip_emit (Notify_RPF d) t; t = t\<lparr>ip_numForwarded := ip_numForwarded t + 1\<rparr>
                in rbind (forward_copies env d fromIE (mr_leaves e) (mr_outs e) t) (\<lambda>t.
                   Inr (ip_emit (Notify_REGISTER d) t))))))"

section \<open>Datagrams from the network\<close>

definition preroutingFinish :: "ip_env \<Rightarrow> datagram \<Rightarrow> nat \<Rightarrow> nat option \<Rightarrow> u32 \<Rightarrow> ip_flow \<Rightarrow> ip_flow res" where
  "preroutingFinish env d fromIE destIE nextHop t =
     (let d = d\<lparr>dg_loop := None\<rparr>; dest = dg_dest d
      in rbind (ip_iface fromIE t) (\<lambda>from.
         if if_loopback from then reassembleAndDeliver env d t
         else if isMulticast dest then
           rbind (ipv4Data from) (\<lambda>from.
           rbind (if dest \<in> set (if_groups from) \<or> ip_multicastForward t \<and> dg_proto d = IP_PROT_IGMP
                  then reassembleAndDeliver env d t else Inr t) (\<lambda>t.
           if \<not> ft_IPForward (ip_rt t) \<or> isLinkLocalMulticast dest then Inr t
           else if dg_ttl d = 0 then Inr t
           else forwardMulticastPacket env d fromIE t))
         else
           case isLocalAddress dest (ip_rt t) of
             (is_local, rt) \<Rightarrow>
               let t = t\<lparr>ip_rt := rt\<rparr>
               in rbind (if is_local then Inr True
                         else rbind (ipv4Data from) (\<lambda>from. Inr (isUnspecified (if_addr from)))) (\<lambda>deliver.
                  if deliver then reassembleAndDeliver env d t
                  else
                    let bcast = (if isLimitedBroadcastAddress dest then None
                                 else findInterfaceByLocalBroadcastAddress dest rt)
                    in if isLimitedBroadcastAddress dest \<or> bcast \<noteq> None then
                         rbind (case bcast of
                                  Some b \<Rightarrow>
                                    if if_id b \<noteq> fromIE \<and> ft_IPForward rt
                                    then fragmentPostRouting env d (if_id b) ALLONES_ADDRESS t else Inr t
                                | None \<Rightarrow> Inr t)
                           (reassembleAndDeliver env d)
                       else if \<not> ft_IPForward rt then Inr (ip_dropped t)
                       else routeUnicastPacket env d (Some fromIE) destIE nextHop t)))"

definition handleIncomingDatagram :: "ip_env \<Rightarrow> datagram \<Rightarrow> nat option \<Rightarrow> ip_flow \<Rightarrow> ip_flow res" where
  "handleIncomingDatagram env d fromIE t =
     (case fromIE of
        None \<Rightarrow> Inl AssertFailed
      | Some i \<Rightarrow>
          if dg_bitError d \<and> env_random env \<le> rat_of_int (dg_headerLen d) / rat_of_int (dg_byteLen d)
          then Inr (ip_emit (IcmpError d (Some i) PARAMETER_PROBLEM) t)
          else
            datagramHook env PREROUTING d (Some i) None 0 t (\<lambda>d destIE nextHop t.
              preroutingFinish env d i destIE nextHop t))"

definition handleIncomingARPPacket :: "nat \<Rightarrow> nat option \<Rightarrow> ip_flow \<Rightarrow> ip_flow res" where
  "handleIncomingARPPacket p fromIE t =
     rbind (of_option NullPointer fromIE) (\<lambda>i. Inr (ip_emit (ToARP p i) t))"

section \<open>Datagrams of the node\<close>

definition determineOutgoingInterfaceForMulticastDatagram ::
    "ip_env \<Rightarrow> datagram \<Rightarrow> nat option \<Rightarrow> ip_flow \<Rightarrow> (nat option \<times> ip_flow) res" where
  "determineOutgoingInterfaceForMulticastDatagram env d multicastIFOption t =
     (case multicastIFOption of
        Some i \<Rightarrow> Inr (Some i, t)
      | None \<Rightarrow>
          rbind (datagram_flow d) (\<lambda>f.
          rbind (ip_lookup env f t) (\<lambda>(re, t).
          case (case re of Some e \<Rightarrow> rt_interface e | None \<Rightarrow> None) of
            Some i \<Rightarrow> Inr (Some i, t)
          | None \<Rightarrow>
              (case getInterfaceByAddress (dg_src d) (ip_rt t) of
                 Some ie \<Rightarrow> Inr (Some (if_id ie), t)
               | None \<Rightarrow> Inr (map_option if_id (first_multicast t), t)))))"

definition datagramLocalOut :: "ip_env \<Rightarrow> datagram \<Rightarrow> nat option \<Rightarrow> u32 \<Rightarrow> ip_flow \<Rightarrow> ip_flow res" where
  "datagramLocalOut env d destIE requestedNextHop t =
     (let multicastLoop = (case dg_loop d of None \<Rightarrow> True | Some b \<Rightarrow> b);
          d = d\<lparr>dg_loop := None\<rparr>; dest = dg_dest d
      in if isMulticast dest then
           rbind (determineOutgoingInterfaceForMulticastDatagram env d destIE t) (\<lambda>(destIE, t).
           rbind (case destIE of None \<Rightarrow> Inr False | Some i \<Rightarrow> rbind (ip_iface i t) (\<lambda>ie. Inr (if_loopback ie)))
             (\<lambda>to_loopback.
           rbind (case first_loopback t of
                    Some lo \<Rightarrow>
                      if multicastLoop \<and> \<not> to_loopback then fragmentPostRouting env d (if_id lo) dest t
                      else Inr t
                  | None \<Rightarrow> Inr t) (\<lambda>t.
           case destIE of
             Some i \<Rightarrow> fragmentPostRouting env d i dest (t\<lparr>ip_numMulticast := ip_numMulticast t + 1\<rparr>)
           | None \<Rightarrow> Inr (t\<lparr>ip_numUnroutable := ip_numUnroutable t + 1\<rparr>))))
         else
           case isLocalAddress dest (ip_rt t) of
             (is_local, rt) \<Rightarrow>
               let t = t\<lparr>ip_rt := rt\<rparr>
               in if is_local then
                    rbind (case destIE of
                             None \<Rightarrow> Inr None
                           | Some i \<Rightarrow> rbind (ip_iface i t) (\<lambda>ie. Inr (if if_loopback ie then Some i else None)))
                      (\<lambda>destIE.
                    let destIE = (case destIE of None \<Rightarrow> map_option if_id (first_loopback t) | Some i \<Rightarrow> Some i)
                    in rbind (assertion (destIE \<noteq> None)) (\<lambda>_.
                       routeUnicastPacket env d None destIE dest t))
                  else
                    case (if isLimitedBroadcastAddress dest then (True, rt) else isLocalBroadcastAddress dest rt) of
                      (broadcast, rt) \<Rightarrow>
                        let t = t\<lparr>ip_rt := rt\<rparr>
                        in if broadcast then routeLocalBroadcastPacket env d destIE t
                           else routeUnicastPacket env d None destIE requestedNextHop t)"

text \<open>Time to live is a \<open>short\<close>, the identification an \<open>int\<close>.\<close>

definition encapsulate :: "transport_pkt \<Rightarrow> int \<Rightarrow> hl_ctrl \<Rightarrow> ip_flow \<Rightarrow> (datagram \<times> ip_flow) res" where
  "encapsulate p len c t =
     (if \<not> isUnspecified (hc_src c) \<and> getInterfaceByAddress (hc_src c) (ip_rt t) = None then Inl RuntimeError
      else
        let ttl = (if 0 < sint (hc_ttl c) then hc_ttl c
                   else if isLinkLocalMulticast (hc_dest c) then 1
                   else if isMulticast (hc_dest c) then word_of_int (ip_defaultMCTTL t)
                   else word_of_int (ip_defaultTTL t))
        in Inr (\<lparr>dg_src = hc_src c, dg_dest = hc_dest c, dg_proto = hc_proto c, dg_ttl = ttl,
                 dg_ident = ucast (ip_curFragmentId t), dg_more = False, dg_dont = hc_dont c,
                 dg_offset = 0, dg_tos = hc_tos c, dg_headerLen = IP_HEADER_BYTES,
                 dg_byteLen = IP_HEADER_BYTES + len, dg_bitError = False, dg_payload = Some (p, len),
                 dg_arrival = None, dg_loop = None\<rparr>,
                t\<lparr>ip_curFragmentId := ip_curFragmentId t + 1\<rparr>))"

definition handlePacketFromHL ::
    "ip_env \<Rightarrow> datagram + (transport_pkt \<times> int \<times> hl_ctrl) \<Rightarrow> ip_flow \<Rightarrow> ip_flow res" where
  "handlePacketFromHL env pkt t =
     (if length (ft_ift (ip_rt t)) = 0 then Inr (ip_dropped t)
      else
        rbind (case pkt of
                 Inl d \<Rightarrow> Inr (d, None, t)
               | Inr (p, len, c) \<Rightarrow>
                   rbind (encapsulate p len c t) (\<lambda>(d, t).
                   Inr (d\<lparr>dg_loop := Some (hc_loop c)\<rparr>,
                        case hc_ifid c of None \<Rightarrow> None
                        | Some i \<Rightarrow> map_option if_id (find (\<lambda>ie. if_id ie = i) (ft_ift (ip_rt t))), t)))
          (\<lambda>(d, destIE, t).
        datagramHook env LOCALOUT d None destIE 0 t (datagramLocalOut env)))"

definition handlePacketFromARP :: "net_packet \<Rightarrow> nat \<Rightarrow> ip_flow \<Rightarrow> ip_flow res" where
  "handlePacketFromARP p i t = rbind (ip_iface i t) (\<lambda>ie. Inr (sendPacketToNIC p (if_id ie) t))"

section \<open>Address resolution\<close>

fun send_pending :: "datagram list \<Rightarrow> nat \<Rightarrow> u64 \<Rightarrow> ip_flow \<Rightarrow> ip_flow" where
  "send_pending [] i mac t = t"
| "send_pending (d # ds) i mac t = send_pending ds i mac (sendPacketToIeee802NIC (NetDatagram d) i mac t)"

definition arpResolutionCompleted :: "u32 \<Rightarrow> nat \<Rightarrow> u64 \<Rightarrow> ip_flow \<Rightarrow> ip_flow" where
  "arpResolutionCompleted a i mac t =
     (case map_of (ip_pending t) a of
        None \<Rightarrow> t
      | Some ds \<Rightarrow>
          let t = send_pending ds i mac t in t\<lparr>ip_pending := al_del a (ip_pending t)\<rparr>)"

definition arpResolutionTimedOut :: "u32 \<Rightarrow> ip_flow \<Rightarrow> ip_flow" where
  "arpResolutionTimedOut a t =
     (case map_of (ip_pending t) a of None \<Rightarrow> t | Some ds \<Rightarrow> t\<lparr>ip_pending := al_del a (ip_pending t)\<rparr>)"

datatype arp_signal = ArpCompleted u32 nat u64 | ArpFailed u32

fun receiveSignal :: "arp_signal \<Rightarrow> ip_flow \<Rightarrow> ip_flow" where
  "receiveSignal (ArpCompleted a i mac) t = arpResolutionCompleted a i mac t"
| "receiveSignal (ArpFailed a) t = arpResolutionTimedOut a t"

section \<open>Queued datagrams\<close>

text \<open>The code looks a queued datagram up by its pointer; here \<open>k\<close> is its position.\<close>

definition dropQueuedDatagram :: "nat \<Rightarrow> ip_flow \<Rightarrow> ip_flow" where
  "dropQueuedDatagram k t = t\<lparr>ip_queued := take k (ip_queued t) @ drop (Suc k) (ip_queued t)\<rparr>"

definition reinject :: "ip_env \<Rightarrow> queued_datagram \<Rightarrow> ip_flow \<Rightarrow> ip_flow res" where
  "reinject env q t =
     (let d = qd_datagram q
      in case qd_hook q of
           LOCALOUT \<Rightarrow> datagramLocalOut env d (qd_outIE q) (qd_nextHop q) t
         | PREROUTING \<Rightarrow>
             rbind (of_option NullPointer (qd_inIE q)) (\<lambda>i.
             preroutingFinish env d i (qd_outIE q) (qd_nextHop q) t)
         | POSTROUTING \<Rightarrow>
             rbind (of_option NullPointer (qd_outIE q)) (\<lambda>i. fragmentAndSend env d i (qd_nextHop q) t)
         | LOCALIN \<Rightarrow> reassembleAndDeliverFinish env d t
         | FORWARD \<Rightarrow>
             rbind (of_option NullPointer (qd_outIE q)) (\<lambda>i.
             routeUnicastPacketFinish env d i (qd_nextHop q) t))"

definition reinjectQueuedDatagram :: "ip_env \<Rightarrow> nat \<Rightarrow> ip_flow \<Rightarrow> ip_flow res" where
  "reinjectQueuedDatagram env k t =
     (if k < length (ip_queued t) then
        rbind (reinject env (ip_queued t ! k) t) (\<lambda>t. Inr (dropQueuedDatagram k t))
      else Inr t)"

section \<open>The service queue and the life cycle\<close>

definition interface_by_gate :: "int \<Rightarrow> ip_flow \<Rightarrow> nat option" where
  "interface_by_gate g t = map_option if_id (find (\<lambda>ie. if_gate ie = g) (ft_ift (ip_rt t)))"

definition endService :: "ip_env \<Rightarrow> arrival_pkt \<Rightarrow> ip_flow \<Rightarrow> ip_flow res" where
  "endService env pkt t =
     (if \<not> ip_up t then Inr t
      else
        case pkt of
          FromTransport p \<Rightarrow> handlePacketFromHL env p t
        | FromARP p i \<Rightarrow> handlePacketFromARP p i t
        | FromNetwork p g \<Rightarrow>
            let fromIE = interface_by_gate g t
            in case p of
                 NetARP a \<Rightarrow> handleIncomingARPPacket a fromIE t
               | NetDatagram d \<Rightarrow> handleIncomingDatagram env (d\<lparr>dg_arrival := fromIE\<rparr>) fromIE t
               | NetOther \<Rightarrow> Inl RuntimeError)"

text \<open>
  \<open>AbstractQueue\<close>: a packet is served after the processing delay, at once if the delay is zero;
  \<open>ip_endService\<close> is the time the end of the service is scheduled for.
\<close>

fun serve :: "ip_env \<Rightarrow> arrival_pkt \<Rightarrow> arrival_pkt list \<Rightarrow> ip_flow \<Rightarrow> ip_flow res" where
  "serve env pkt [] t =
     rbind (endService env pkt (t\<lparr>ip_queue := []\<rparr>)) (\<lambda>t. Inr (t\<lparr>ip_serviced := None, ip_endService := None\<rparr>))"
| "serve env pkt (next # rest) t =
     rbind (endService env pkt (t\<lparr>ip_queue := next # rest\<rparr>)) (\<lambda>t.
     if ip_delay t \<noteq> 0 then
       Inr (t\<lparr>ip_serviced := Some next, ip_queue := rest, ip_endService := Some (env_now env + ip_delay t)\<rparr>)
     else serve env next rest t)"

definition doEndService :: "ip_env \<Rightarrow> ip_flow \<Rightarrow> ip_flow res" where
  "doEndService env t =
     rbind (of_option NullPointer (ip_serviced t)) (\<lambda>pkt. serve env pkt (ip_queue t) t)"

definition queue_arrival :: "ip_env \<Rightarrow> arrival_pkt \<Rightarrow> ip_flow \<Rightarrow> ip_flow res" where
  "queue_arrival env pkt t =
     (if ip_serviced t = None then
        let t = t\<lparr>ip_serviced := Some pkt\<rparr>
        in if ip_delay t \<noteq> 0 then Inr (t\<lparr>ip_endService := Some (env_now env + ip_delay t)\<rparr>)
           else doEndService env t
      else Inr (t\<lparr>ip_queue := ip_queue t @ [pkt]\<rparr>))"

datatype ip_msg = RegisterProtocol int int | EndService | Packet arrival_pkt

fun ip_handleMessage :: "ip_env \<Rightarrow> ip_msg \<Rightarrow> ip_flow \<Rightarrow> ip_flow res" where
  "ip_handleMessage env (RegisterProtocol proto gate) t =
     rbind (addProtocolMapping proto gate (ip_mapping t)) (\<lambda>m. Inr (t\<lparr>ip_mapping := m\<rparr>))"
| "ip_handleMessage env (Packet (FromARP p i)) t = endService env (FromARP p i) t"
| "ip_handleMessage env EndService t = doEndService env t"
| "ip_handleMessage env (Packet pkt) t = queue_arrival env pkt t"

definition ip_start :: "ip_flow \<Rightarrow> ip_flow res" where
  "ip_start t = rbind (assertion (ip_queue t = [])) (\<lambda>_. Inr (t\<lparr>ip_up := True\<rparr>))"

definition ip_flush :: "ip_flow \<Rightarrow> ip_flow" where
  "ip_flush t = t\<lparr>ip_serviced := None, ip_endService := None, ip_queue := [], ip_pending := []\<rparr>"

definition ip_stop :: "ip_flow \<Rightarrow> ip_flow" where
  "ip_stop t = ip_flush (t\<lparr>ip_up := False\<rparr>)"

datatype ip_lifecycle = IpStart | IpShutdown | IpCrash

fun ip_handleOperationStage :: "ip_lifecycle \<Rightarrow> ip_flow \<Rightarrow> ip_flow res" where
  "ip_handleOperationStage IpStart t = ip_start t"
| "ip_handleOperationStage IpShutdown t = Inr (ip_stop t)"
| "ip_handleOperationStage IpCrash t = Inr (ip_stop t)"

end
