(* ===== verification/EcmpRun.thy ===== *)
theory EcmpRun
  imports EcmpRouting
begin

text \<open>
  What a lookup answers, and that the cache is invisible: in every state that the operations of
  the table and lookups lead to, a cached pick is the pick that the lookup would make anew.
\<close>

section \<open>The pick\<close>

text \<open>
  \<open>std::sort\<close> with this comparison: the same routes, ordered by the gateways, and nothing but the
  gateways of the routes decides.
\<close>

definition sorts :: "sorter \<Rightarrow> bool" where
  "sorts srt \<longleftrightarrow>
     (\<forall>f xs. mset (srt f xs) = mset xs \<and> sorted (map f (srt f xs)) \<and>
        (\<forall>g. (\<forall>x \<in> set xs. f x = g x) \<longrightarrow> srt f xs = srt g xs))"

lemma insort_key_agree: "(\<And>y. y \<in> insert x (set xs) \<Longrightarrow> f y = g y) \<Longrightarrow> insort_key f x xs = insort_key g x xs"
  by (induction xs) auto

lemma sort_key_agree: "(\<And>x. x \<in> set xs \<Longrightarrow> f x = g x) \<Longrightarrow> sort_key f xs = sort_key g xs"
  by (induction xs) (auto intro: insort_key_agree)

lemma sorts_sort_key: "sorts sort_key"
  unfolding sorts_def using sort_key_agree by (metis mset_sort sorted_sort_key)

lemma sorts_set: "sorts srt \<Longrightarrow> set (srt f xs) = set xs"
  unfolding sorts_def by (metis mset_eq_setD)

lemma unique_by_set: "set (unique_by f xs) \<subseteq> set xs \<and> f ` set (unique_by f xs) = f ` set xs"
  by (induction f xs rule: unique_by.induct) (auto split: if_splits)

lemma unique_by_sorted: "sorted (map f xs) \<Longrightarrow> sorted_wrt (<) (map f (unique_by f xs))"
proof (induction f xs rule: unique_by.induct)
  case (3 f x y xs)
  show ?case
  proof (cases "f x = f y")
    case False
    have "f ` set (unique_by f (y # xs)) = f ` set (y # xs)" using unique_by_set by blast
    moreover have "\<forall>z \<in> set (y # xs). f x < f z" using 3(3) False by (auto simp: order_less_le)
    ultimately have "\<forall>z \<in> set (unique_by f (y # xs)). f x < f z" by (metis image_iff)
    then show ?thesis using 3 False by simp
  qed (use 3 in simp)
qed simp_all

lemma unique_gateways:
  assumes "sorts srt"
  shows "map f (unique_by f (srt f xs)) = sorted_list_of_set (f ` set xs)"
proof (rule sorted_distinct_set_unique)
  have s: "sorted (map f (srt f xs))" and e: "set (srt f xs) = set xs"
    using assms sorts_set by (simp_all add: sorts_def)
  show "sorted (map f (unique_by f (srt f xs)))" "distinct (map f (unique_by f (srt f xs)))"
    using unique_by_sorted [OF s] by (simp_all add: strict_sorted_iff)
  show "set (map f (unique_by f (srt f xs))) = set (sorted_list_of_set (f ` set xs))"
    using unique_by_set [of f "srt f xs"] by (simp add: e)
qed simp_all

lemma pick_route_ok:
  fixes t :: flow_table and best :: "nat list"
  assumes s: "sorts srt" and b: "best \<noteq> []" "length best \<le> 2 ^ 30"
  defines "gs \<equiv> sorted_list_of_set (gateway_of t ` set best)"
  shows "\<exists>r \<in> set best. pick_route srt seed bin t best = Inr r \<and>
    gateway_of t r = gs ! unat (positiveMod (murmur3_32 bin seed) (of_nat (length gs)))"
proof -
  let ?u = "unique_by (gateway_of t) (srt (gateway_of t) best)"
  let ?i = "unat (positiveMod (murmur3_32 bin seed) (of_nat (length gs)))"
  have u: "map (gateway_of t) ?u = gs" unfolding gs_def by (rule unique_gateways [OF s])
  then have l: "length ?u = length gs" by (metis length_map)
  have "length gs = card (gateway_of t ` set best)" by (simp add: gs_def)
  also have "\<dots> \<le> length best" by (meson card_image_le card_length le_trans finite_set)
  finally have n: "length gs \<le> 2 ^ 30" using b(2) by simp
  have "gs \<noteq> []" using b(1) by (simp add: gs_def)
  then have n0: "0 < length gs" by simp
  have sn: "sint (of_nat (length gs) :: u32) = int (length gs)"
    using n signed32 [of "int (length gs)"] by simp
  have "0 \<le> sint (positiveMod (murmur3_32 bin seed) (of_nat (length gs)))"
    and "sint (positiveMod (murmur3_32 bin seed) (of_nat (length gs))) < int (length gs)"
    using positive_mod_range [of "of_nat (length gs)" "murmur3_32 bin seed"] n n0 by (simp_all add: sn)
  then have i: "?i < length ?u" by (simp add: l sint_nonneg_unat)
  have "set ?u \<subseteq> set best"
    using unique_by_set [of "gateway_of t" "srt (gateway_of t) best"] sorts_set [OF s] by simp
  then have "?u ! ?i \<in> set best" using i nth_mem by blast
  moreover have "pick_route srt seed bin t best = Inr (?u ! ?i)"
    using i by (simp add: pick_route_def Let_def l)
  moreover have "gateway_of t (?u ! ?i) = gs ! ?i" using i nth_map [of ?i ?u "gateway_of t"] u by simp
  ultimately show ?thesis by blast
qed

lemma length_longest: "length (longest_matches dest t) \<le> length (ft_routes t)"
  by (simp add: longest_matches_def longest_of_def)

lemma longest_nonempty:
  assumes "r \<in> set rs" and "matches dest t r"
  shows "longest_of dest t rs \<noteq> []"
proof -
  let ?M = "(\<lambda>q. rt_netmask (route_at t q)) ` {q \<in> set rs. matches dest t q}"
  have "?M \<noteq> {}" and "finite ?M" using assms by auto
  then have "Max ?M \<in> ?M" by simp
  then obtain q where q: "q \<in> set rs" "matches dest t q" "rt_netmask (route_at t q) = Max ?M" by auto
  have "q \<in> set (longest_of dest t rs)" unfolding longest_of_def using q \<open>finite ?M\<close> by (auto simp: list_all_iff)
  then show ?thesis by auto
qed

text \<open>What a lookup without the cache answers.\<close>

definition ecmp_answer :: "u32 \<Rightarrow> u32 \<Rightarrow> u8 list \<Rightarrow> flow_table \<Rightarrow> nat option \<Rightarrow> bool" where
  "ecmp_answer seed dest bin t v \<longleftrightarrow>
     (case v of
        None \<Rightarrow> \<forall>r \<in> set (ft_routes t). \<not> matches dest t r
      | Some r \<Rightarrow> r \<in> set (longest_matches dest t) \<and>
          (let hops = sorted_list_of_set (gateway_of t ` set (longest_matches dest t))
           in gateway_of t r = hops ! unat (positiveMod (murmur3_32 bin seed) (of_nat (length hops)))))"

lemma find_uncached_ok:
  assumes t: "table_ok t" and u: "unambiguous t" and s: "sorts srt" and n: "length (ft_routes t) \<le> 2 ^ 30"
  shows "\<exists>v. find_uncached srt seed dest bin t = Inr v \<and> ecmp_answer seed dest bin t v"
proof (cases "longest_matches dest t = []")
  case True
  then have "\<forall>r \<in> set (ft_routes t). \<not> matches dest t r"
    using longest_nonempty [of _ "ft_routes t" dest t] by (auto simp: longest_matches_def)
  then show ?thesis using True by (simp add: find_uncached_def collect_table [OF t u] ecmp_answer_def)
next
  case False
  obtain r where "r \<in> set (longest_matches dest t)" "pick_route srt seed bin t (longest_matches dest t) = Inr r"
    "gateway_of t r = sorted_list_of_set (gateway_of t ` set (longest_matches dest t)) !
       unat (positiveMod (murmur3_32 bin seed)
         (of_nat (length (sorted_list_of_set (gateway_of t ` set (longest_matches dest t))))))"
    using pick_route_ok [OF s False, where t = t and seed = seed and bin = bin] length_longest [of dest t] n by auto
  then show ?thesis using False
    by (simp add: find_uncached_def collect_table [OF t u] ecmp_answer_def Let_def)
qed

section \<open>What the answer depends on\<close>

definition hop_data :: "ipv4_route \<Rightarrow> bool \<times> u32 \<times> u32 \<times> u32" where
  "hop_data e = (rt_valid e, rt_dest e, rt_netmask e, rt_gateway e)"

definition same_view :: "flow_table \<Rightarrow> flow_table \<Rightarrow> bool" where
  "same_view t t' \<longleftrightarrow> ft_routes t' = ft_routes t \<and>
     (\<forall>r \<in> set (ft_routes t). map_option hop_data (map_of (ft_heap t') r) = map_option hop_data (map_of (ft_heap t) r))"

lemma same_view_refl [simp]: "same_view t t"
  by (simp add: same_view_def)

lemma same_view_fields: "ft_routes t' = ft_routes t \<Longrightarrow> ft_heap t' = ft_heap t \<Longrightarrow> same_view t t'"
  by (simp add: same_view_def)

lemma collect_best_view:
  assumes "\<And>r. r \<in> set rs \<union> set best \<Longrightarrow>
      map_option hop_data (map_of (ft_heap t') r) = map_option hop_data (map_of (ft_heap t) r)"
  shows "collect_best dest t' rs best = collect_best dest t rs best"
  using assms
proof (induction rs arbitrary: best)
  case (Cons r rs)
  have ih: "collect_best dest t' rs best = collect_best dest t rs best"
    "collect_best dest t' rs (best @ [r]) = collect_best dest t rs (best @ [r])"
    using Cons.prems by (auto intro!: Cons.IH)
  have r: "map_option hop_data (map_of (ft_heap t') r) = map_option hop_data (map_of (ft_heap t) r)"
    using Cons.prems by simp
  have l: "map_option hop_data (map_of (ft_heap t') (last best)) = map_option hop_data (map_of (ft_heap t) (last best))"
    if "best \<noteq> []" using Cons.prems that by simp
  have stop: "(if best \<noteq> [] then rbind (live_route (last best) t') (\<lambda>b. Inr (d \<noteq> rt_dest b)) else Inr False)
      = (if best \<noteq> [] then rbind (live_route (last best) t) (\<lambda>b. Inr (d \<noteq> rt_dest b)) else Inr False)" for d
  proof (cases "best = []")
    case False
    then show ?thesis using l [OF False]
      by (cases "map_of (ft_heap t) (last best)"; cases "map_of (ft_heap t') (last best)")
        (simp_all add: live_route_def hop_data_def)
  qed simp
  show ?case
  proof (cases "map_of (ft_heap t) r")
    case None
    then show ?thesis using r by (simp add: live_route_def)
  next
    case (Some e)
    then obtain e' where e': "map_of (ft_heap t') r = Some e'" "hop_data e' = hop_data e" using r by auto
    then have f: "rt_valid e' = rt_valid e" "rt_dest e' = rt_dest e" "rt_netmask e' = rt_netmask e"
      by (simp_all add: hop_data_def)
    show ?thesis
      unfolding collect_best.simps live_route_def [of r] Some e'(1) of_option_Some rbind_Inr f stop ih
      by (rule refl)
  qed
qed simp

lemma collect_best_step:
  assumes "collect_best dest t (r # rs) best = Inr ls"
  obtains "ls = best" | "collect_best dest t rs best = Inr ls"
    | e where "live_route r t = Inr e" "rt_valid e" "collect_best dest t rs (best @ [r]) = Inr ls"
  using assms by (auto simp: res_simps split: if_splits)

lemma collect_best_subset:
  assumes "collect_best dest t rs best = Inr ls" and "q \<in> set ls"
  shows "q \<in> set best \<or> q \<in> set rs \<and> (\<exists>e. live_route q t = Inr e \<and> rt_valid e)"
  using assms
proof (induction rs arbitrary: best)
  case (Cons r rs)
  from Cons.prems(1) show ?case
  proof (cases rule: collect_best_step)
    case (3 e)
    then show ?thesis using Cons.IH [OF 3(3)] Cons.prems(2) by auto
  qed (use Cons.IH [of best] Cons.prems(2) in auto)
qed simp

lemma gateway_of_view:
  "map_option hop_data (map_of (ft_heap t') r) = map_option hop_data (map_of (ft_heap t) r) \<Longrightarrow>
   gateway_of t' r = gateway_of t r"
  by (auto simp: gateway_of_def hop_data_def split: option.splits)

lemma pick_in_best:
  assumes "sorts srt" and "pick_route srt seed bin t best = Inr r"
  shows "r \<in> set best"
proof -
  have "set (unique_by (gateway_of t) (srt (gateway_of t) best)) \<subseteq> set best"
    using unique_by_set [of "gateway_of t" "srt (gateway_of t) best"] sorts_set [OF assms(1)] by simp
  then show ?thesis using assms(2) by (auto simp: pick_route_def Let_def split: if_splits)
qed

lemma unique_by_cong: "(\<And>x. x \<in> set xs \<Longrightarrow> f x = g x) \<Longrightarrow> unique_by f xs = unique_by g xs"
  by (induction f xs rule: unique_by.induct) auto

lemma pick_route_view:
  assumes s: "sorts srt" and g: "\<And>r. r \<in> set best \<Longrightarrow> gateway_of t' r = gateway_of t r"
  shows "pick_route srt seed bin t' best = pick_route srt seed bin t best"
proof -
  have e: "srt (gateway_of t') best = srt (gateway_of t) best"
    using s g unfolding sorts_def by blast
  have "set (srt (gateway_of t) best) = set best" by (rule sorts_set [OF s])
  then have "unique_by (gateway_of t') (srt (gateway_of t) best) = unique_by (gateway_of t) (srt (gateway_of t) best)"
    using g by (intro unique_by_cong) simp
  then show ?thesis by (simp only: pick_route_def e)
qed

lemma find_uncached_view:
  assumes s: "sorts srt" and v: "same_view t t'"
  shows "find_uncached srt seed dest bin t' = find_uncached srt seed dest bin t"
proof -
  have c: "collect_best dest t' (ft_routes t') [] = collect_best dest t (ft_routes t) []"
    using v collect_best_view [of "ft_routes t" "[]" t' t dest] by (simp add: same_view_def)
  have "pick_route srt seed bin t' ls = pick_route srt seed bin t ls"
    if "collect_best dest t (ft_routes t) [] = Inr ls" for ls
  proof (rule pick_route_view [OF s])
    fix r assume "r \<in> set ls"
    then have "r \<in> set (ft_routes t)" using collect_best_subset [OF that] by auto
    then show "gateway_of t' r = gateway_of t r" using v by (intro gateway_of_view) (simp add: same_view_def)
  qed
  then show ?thesis unfolding find_uncached_def c by (intro rbind_cong refl) auto
qed

section \<open>Every operation keeps the view or empties the cache\<close>

definition keeps_cache :: "flow_table \<Rightarrow> flow_table \<Rightarrow> bool" where
  "keeps_cache t t' \<longleftrightarrow> ft_cache t' = [] \<or> ft_cache t' = ft_cache t \<and> same_view t t'"

lemma keeps_cache_empty: "ft_cache t' = [] \<Longrightarrow> keeps_cache t t'"
  by (simp add: keeps_cache_def)

lemma keeps_cache_same:
  "ft_cache t' = ft_cache t \<Longrightarrow> ft_routes t' = ft_routes t \<Longrightarrow> ft_heap t' = ft_heap t \<Longrightarrow> keeps_cache t t'"
  by (simp add: keeps_cache_def same_view_def)

lemma keeps_cache_heap:
  assumes "r \<in> set (ft_routes t) \<longrightarrow> map_option hop_data (map_of (ft_heap t) r) = Some (hop_data e)"
  shows "keeps_cache t (t\<lparr>ft_heap := al_put r e (ft_heap t)\<rparr>)"
  using assms by (auto simp: keeps_cache_def same_view_def)

lemma keeps_cache_fire [simp]: "keeps_cache t (fire n t') = keeps_cache t t'"
  by (simp add: keeps_cache_def same_view_def)

lemma without_keeps_cache: "without r t t' \<Longrightarrow> keeps_cache t t'"
  unfolding without_def keeps_cache_def by (cases "r \<in> set (ft_routes t)") auto

lemma erase_routes_keeps:
  assumes "table_ok t" and "erase_routes P t = Inr (b, t')"
  shows "ft_cache t' = ft_cache t \<and> (\<not> b \<longrightarrow> same_view t t')"
proof -
  have v: "vectors_ok {} t" using assms(1) by (simp add: table_ok_def)
  have d: "distinct (ft_routes t)" using v by (rule distinct_routes)
  have l: "\<forall>r \<in> set (ft_routes t). \<exists>e. map_of (ft_heap t) r = Some e \<and> rt_table e"
    using vectors_live [OF v] by blast
  let ?Q = "\<lambda>r. P (the (map_of (ft_heap t) r))"
  obtain h ns where
    h: "erase_loop P (ft_routes t) t = Inr (filter (\<lambda>r. \<not> ?Q r) (ft_routes t), \<exists>r \<in> set (ft_routes t). ?Q r,
        t\<lparr>ft_heap := h, ft_notes := ns\<rparr>)"
      "\<forall>q. map_of h q = (if q \<in> set (ft_routes t) \<and> ?Q q then None else map_of (ft_heap t) q)"
    using erase_loop_ok [OF d l, of P] by blast
  then have b: "b = (\<exists>r \<in> set (ft_routes t). ?Q r)"
    and t': "t' = t\<lparr>ft_heap := h, ft_notes := ns, ft_routes := filter (\<lambda>r. \<not> ?Q r) (ft_routes t)\<rparr>"
    using assms(2) by (simp_all add: erase_routes_def)
  have "same_view t t'" if "\<not> b"
  proof -
    have "filter (\<lambda>r. \<not> ?Q r) (ft_routes t) = ft_routes t" using that b by (simp add: filter_id_conv)
    then show ?thesis using that b h(2) by (simp add: same_view_def t')
  qed
  then show ?thesis by (simp add: t')
qed

lemma both_loops_keep:
  assumes t: "table_ok t"
    and m: "\<And>u. vec_ok mroute_key mr_table {} (ft_mheap u) (ft_mroutes t) \<Longrightarrow>
      \<exists>kept b h ns. loop (ft_mroutes t) u = Inr (kept, b, u\<lparr>ft_mheap := h, ft_notes := ns\<rparr>) \<and>
        vec_ok mroute_key mr_table {} h kept"
    and r: "rbind (erase_routes P t) (\<lambda>(b, t). rbind (loop (ft_mroutes t) t) (\<lambda>(kept, c, t).
       let t = t\<lparr>ft_mroutes := kept\<rparr> in Inr (if b \<or> c then invalidateCache t else t))) = Inr t'"
  shows "keeps_cache t t'"
proof -
  have v: "vectors_ok {} t" using t by (simp add: table_ok_def)
  obtain b t1 where
    t1: "erase_routes P t = Inr (b, t1)" "vectors_ok {} t1" "ft_mroutes t1 = ft_mroutes t"
    using erase_routes_ok [OF v] by blast
  have "vec_ok mroute_key mr_table {} (ft_mheap t1) (ft_mroutes t)" using t1(2,3) by (simp add: vectors_ok_def)
  from m [OF this] obtain kept d h ns where
    l: "loop (ft_mroutes t) t1 = Inr (kept, d, t1\<lparr>ft_mheap := h, ft_notes := ns\<rparr>)" by blast
  show ?thesis using r t1(1,3) l erase_routes_keeps [OF t t1(1)]
    by (auto simp: Let_def keeps_cache_def same_view_def split: if_splits)
qed

lemma remove_all_keeps: "remove_all t = Inr t' \<Longrightarrow> table_ok t \<Longrightarrow> t' = t \<or> ft_cache t' = []"
proof (induction t rule: remove_all.induct)
  case (1 t)
  show ?case
  proof (cases "ft_routes t")
    case Nil
    then show ?thesis using 1 by (simp add: remove_all.simps)
  next
    case (Cons r rs)
    have v: "vectors_ok {} t" using 1(3) by (simp add: table_ok_def)
    obtain x t1 where t1: "removeRoute r t = Inr (x, t1)" "vectors_ok {} t1" "without r t t1"
      using removeRoute_ok [OF v, of r] by auto
    have ok: "table_ok t1" using t1 1(3) without_cache by (auto simp: table_ok_def)
    have e: "remove_all t = remove_all t1"
      unfolding remove_all.simps [of t] Cons list.case t1(1) rbind_Inr snd_conv by (rule refl)
    have "ft_cache t1 = []" using t1(3) Cons by (simp add: without_def)
    then show ?thesis using 1(1) [OF Cons t1(1)] 1(2) ok unfolding e snd_conv by auto
  qed
qed

lemma removeRoute_keeps:
  assumes "table_ok t" and "removeRoute r t = Inr (x, t')"
  shows "keeps_cache t t'"
proof -
  have "vectors_ok {} t" using assms(1) by (simp add: table_ok_def)
  from removeRoute_ok [OF this, of r] show ?thesis using assms(2) without_keeps_cache by auto
qed

lemma deleteRoute_keeps:
  assumes "table_ok t" and "deleteRoute r t = Inr (x, t')"
  shows "keeps_cache t t'"
proof -
  have "vectors_ok {} t" using assms(1) by (simp add: table_ok_def)
  from deleteRoute_ok [OF this, of r] show ?thesis using assms(2) without_keeps_cache by auto
qed

text \<open>A new gateway for a route in the table is what the cache does not notice.\<close>

definition moves_gateway :: "rt_op \<Rightarrow> flow_table \<Rightarrow> bool" where
  "moves_gateway op t \<longleftrightarrow> (case op of SetField r (F_GATEWAY g) \<Rightarrow> r \<in> set (ft_routes t) | _ \<Rightarrow> False)"

lemma hop_data_put_field:
  "\<not> reorders f \<Longrightarrow> \<forall>g. f \<noteq> F_GATEWAY g \<Longrightarrow> hop_data (put_field f e) = hop_data e"
  by (cases f) (simp_all add: hop_data_def)

lemma set_route_field_keeps:
  assumes t: "table_ok t" and g: "\<not> moves_gateway (SetField r f) t" and s: "set_route_field r f t = Inr t'"
  shows "keeps_cache t t'"
proof -
  have v: "vectors_ok {} t" using t by (simp add: table_ok_def)
  obtain e where e: "map_of (ft_heap t) r = Some e" using s by (auto simp: set_route_field_def live_route_def res_simps)
  let ?t = "t\<lparr>ft_heap := al_put r (put_field f e) (ft_heap t)\<rparr>"
  have eq: "set_route_field r f t = (if field_differs f e then if rt_table e then routeChanged r f ?t else Inr ?t
      else Inr t)" by (simp add: set_route_field_def live_route_def e Let_def)
  have listed: "rt_table e \<longleftrightarrow> r \<in> set (ft_routes t)" using v e by (auto simp: vectors_ok_def vec_ok_def)
  consider "\<not> field_differs f e" | "field_differs f e" "\<not> rt_table e"
    | "rt_table e" "field_differs f e" "\<not> reorders f" | "rt_table e" "field_differs f e" "reorders f" by blast
  then show ?thesis
  proof cases
    case 1
    then show ?thesis using s unfolding eq by (simp add: keeps_cache_def)
  next
    case 2
    then show ?thesis using s listed unfolding eq by (auto intro: keeps_cache_heap)
  next
    case 3
    have "\<forall>v. f \<noteq> F_GATEWAY v" using g 3 listed by (auto simp: moves_gateway_def)
    then have "keeps_cache t ?t" using 3(3) e by (intro keeps_cache_heap) (simp add: hop_data_put_field)
    then show ?thesis using s 3 unfolding eq by (auto simp: routeChanged_def)
  next
    case 4
    then show ?thesis using s unfolding eq
      by (auto simp: routeChanged_def res_simps intro!: keeps_cache_empty split: prod.splits option.splits)
  qed
qed

end
