(* ===== verification/EcmpProps.thy ===== *)
theory EcmpProps
  imports EcmpRun
begin

text \<open>
  The routing table of a node with its lookups as a transition system, and its properties: no
  operation follows a pointer to a deleted route, the vectors stay sorted, the cache never changes
  an answer, and an answer is the longest prefix match, spread over the next hops by the hash.
\<close>

section \<open>Operations and lookups\<close>

lemma updateNetmaskRoutes_cache: "updateNetmaskRoutes t = Inr t' \<Longrightarrow> ft_cache t' = []"
  by (auto simp: updateNetmaskRoutes_def res_simps)

lemma new_route_keeps:
  assumes "table_ok t"
  shows "keeps_cache t (snd (new_route e t))"
proof -
  have b: "q < ft_next t" if "q \<in> set (ft_routes t)" for q
    using assms that by (auto simp: table_ok_def vectors_ok_def vec_ok_def)
  have "same_view t (snd (new_route e t))"
    unfolding same_view_def new_route_def using b by fastforce
  then show ?thesis by (simp add: keeps_cache_def new_route_def)
qed

lemma mroute_ops_keep:
  "addMulticastRoute r t = Inr t' \<Longrightarrow> keeps_cache t t'"
  "removeMulticastRoute r t = Inr (x, t') \<Longrightarrow> keeps_cache t t'"
  "deleteMulticastRoute r t = Inr (y, t') \<Longrightarrow> keeps_cache t t'"
  by (auto simp: addMulticastRoute_def removeMulticastRoute_def deleteMulticastRoute_def Let_def
      internalRemoveMulticastRoute_def keeps_cache_def res_simps delete_mroute_object_def split: if_splits)

lemma rt_exec_keeps:
  assumes t: "table_ok t" and g: "\<not> moves_gateway op t" and e: "rt_exec op t = Inr t'"
  shows "keeps_cache t t'"
proof (cases op)
  case (NewRoute x)
  then show ?thesis using new_route_keeps [OF t, of x] e by simp
next
  case (AddRoute r)
  then show ?thesis using e by (auto simp: addRoute_def res_simps intro: keeps_cache_empty)
next
  case (RemoveRoute r)
  then show ?thesis using e removeRoute_keeps [OF t] by (auto simp: res_simps)
next
  case (DeleteRoute r)
  then show ?thesis using e deleteRoute_keeps [OF t] by (auto simp: res_simps)
next
  case (SetField r f)
  then show ?thesis using e g set_route_field_keeps [OF t] by simp
next
  case (NewMRoute r x)
  then show ?thesis using e by (auto intro: keeps_cache_same)
next
  case (AddMRoute r)
  then show ?thesis using e mroute_ops_keep(1) by simp
next
  case (RemoveMRoute r)
  then show ?thesis using e mroute_ops_keep(2) by (auto simp: res_simps)
next
  case (DeleteMRoute r)
  then show ?thesis using e mroute_ops_keep(3) by (auto simp: res_simps)
next
  case Purge
  show ?thesis
    by (rule both_loops_keep [where loop = purge_mloop, OF t _ e [unfolded Purge rt_exec.simps purge_def]])
      (use purge_mloop_ok [where pre = "[]"] in fastforce)
next
  case (Notify c)
  show ?thesis
  proof (cases c)
    case (NF_INTERFACE_DELETED i)
    have d: "deleteInterfaceRoutes i t = Inr t'" using e Notify NF_INTERFACE_DELETED by simp
    show ?thesis
      by (rule both_loops_keep [where loop = "erase_mloop i", OF t _ d [unfolded deleteInterfaceRoutes_def]])
        (use erase_mloop_ok [where pre = "[]"] in fastforce)
  qed (use e Notify updateNetmaskRoutes_cache in \<open>auto intro!: keeps_cache_empty\<close>)
next
  case (NodeOp x)
  have "t' = t \<or> ft_cache t' = []"
    using e NodeOp remove_all_keeps [OF _ t] updateNetmaskRoutes_cache by (cases x) (auto simp: res_simps)
  then show ?thesis by (auto simp: keeps_cache_def)
qed

section \<open>Coherence of the cache\<close>

definition coherent :: "sorter \<Rightarrow> u32 \<Rightarrow> flow_table \<Rightarrow> bool" where
  "coherent srt seed t \<longleftrightarrow>
     (\<forall>bin v. map_of (ft_cache t) bin = Some v \<longrightarrow>
        (\<exists>f r. bin = flow_bin f \<and> v = Some r \<and> find_uncached srt seed (flow_dest f) bin t = Inr (Some r)))"

lemma coherent_keeps:
  assumes "coherent srt seed t" and "keeps_cache t t'" and "sorts srt"
  shows "coherent srt seed t'"
proof (cases "ft_cache t' = []")
  case False
  then have "ft_cache t' = ft_cache t" "same_view t t'" using assms(2) by (auto simp: keeps_cache_def)
  then show ?thesis using assms(1) find_uncached_view [OF assms(3)] by (simp add: coherent_def)
qed (simp add: coherent_def)

lemma uncached_valid:
  assumes "sorts srt" and "find_uncached srt seed dest bin t = Inr (Some r)"
  shows "r \<in> set (ft_routes t) \<and> (\<exists>e. live_route r t = Inr e \<and> rt_valid e)"
proof -
  obtain ls where c: "collect_best dest t (ft_routes t) [] = Inr ls" and "pick_route srt seed bin t ls = Inr r"
    using assms(2) by (auto simp: find_uncached_def res_simps split: if_splits)
  then have "r \<in> set ls" using pick_in_best [OF assms(1)] by blast
  then show ?thesis using collect_best_subset [OF c] by auto
qed

text \<open>A lookup answers what \<open>find_uncached\<close> answers, and remembers a route it found.\<close>

lemma lookup_eq:
  assumes s: "sorts srt" and c: "coherent srt seed t"
  shows "lookup srt seed f t =
    rbind (find_uncached srt seed (flow_dest f) (flow_bin f) t) (\<lambda>v. Inr (v,
      if v = None \<or> map_of (ft_cache t) (flow_bin f) \<noteq> None then t
      else t\<lparr>ft_cache := al_put (flow_bin f) v (ft_cache t)\<rparr>))"
proof (cases "map_of (ft_cache t) (flow_bin f)")
  case None
  show ?thesis
    unfolding lookup_def findBestMatchingRoute_def cached_route_def None option.case rbind_Inr
    by (intro rbind_cong refl) (auto split: option.split)
next
  case (Some v)
  obtain g r where g: "flow_bin f = flow_bin g" "v = Some r"
    "find_uncached srt seed (flow_dest g) (flow_bin f) t = Inr (Some r)"
    using c Some unfolding coherent_def by blast
  then have u: "find_uncached srt seed (flow_dest f) (flow_bin f) t = Inr (Some r)" by (simp add: flow_bin_eq)
  from uncached_valid [OF s this] obtain e where "live_route r t = Inr e" "rt_valid e" by blast
  then show ?thesis using Some g(2) u by (simp add: lookup_def findBestMatchingRoute_def cached_route_def)
qed

lemma lookup_keeps:
  assumes s: "sorts srt" and c: "coherent srt seed t" and t: "table_ok t" and l: "lookup srt seed f t = Inr (v, t')"
  shows "coherent srt seed t' \<and> table_ok t'"
proof -
  let ?u = "find_uncached srt seed (flow_dest f) (flow_bin f) t"
  let ?t = "t\<lparr>ft_cache := al_put (flow_bin f) v (ft_cache t)\<rparr>"
  have u: "?u = Inr v" and t': "t' = t \<or> v \<noteq> None \<and> t' = ?t"
    using l unfolding lookup_eq [OF s c] by (auto simp: res_simps split: if_splits)
  from t' show ?thesis
  proof
    assume "v \<noteq> None \<and> t' = ?t"
    then obtain r where v: "v = Some r" "t' = ?t" by auto
    have r: "r \<in> set (ft_routes t)" using uncached_valid [OF s] u v(1) by blast
    have same: "find_uncached srt seed d b ?t = find_uncached srt seed d b t" for d b
      by (rule find_uncached_view [OF s]) (simp add: same_view_def)
    have "coherent srt seed ?t"
      using c u v(1) unfolding coherent_def same by (auto split: if_splits)
    moreover have "cache_ok ?t"
    proof -
      have "(b, w) \<in> set (al_put k x m) \<Longrightarrow> (b, w) \<in> set m \<or> (b, w) = (k, x)" for b w k x and m :: "(u8 list \<times> nat option) list"
        by (induction k x m rule: al_put.induct) (auto split: if_splits)
      then show ?thesis using t r v(1) unfolding table_ok_def cache_ok_def by fastforce
    qed
    ultimately show ?thesis using t v(2) by (simp add: table_ok_def vectors_ok_def)
  qed (use c t in simp)
qed

section \<open>Runs\<close>

inductive ecmp_run :: "sorter \<Rightarrow> u32 \<Rightarrow> iface list \<Rightarrow> flow_table \<Rightarrow> bool" for srt seed "is" where
  er_start: "ecmp_run srt seed is (new_table is fwd)"
| er_op: "ecmp_run srt seed is t \<Longrightarrow> rt_allowed op t \<Longrightarrow> \<not> moves_gateway op t \<Longrightarrow> rt_exec op t = Inr t' \<Longrightarrow>
    ecmp_run srt seed is t'"
| er_lookup: "ecmp_run srt seed is t \<Longrightarrow> lookup srt seed f t = Inr (v, t') \<Longrightarrow> ecmp_run srt seed is t'"
| er_local: "ecmp_run srt seed is t \<Longrightarrow> isLocalAddress a t = (b, t') \<Longrightarrow> ecmp_run srt seed is t'"
| er_broadcast: "ecmp_run srt seed is t \<Longrightarrow> isLocalBroadcastAddress a t = (b, t') \<Longrightarrow> ecmp_run srt seed is t'"

lemma address_caches:
  assumes "isLocalAddress a t = (b, t') \<or> isLocalBroadcastAddress a t = (b, t')"
  shows "table_ok t' = table_ok t" and "keeps_cache t t'"
proof -
  have "\<exists>x y. t' = t\<lparr>ft_localAddresses := x, ft_localBroadcast := y\<rparr>"
    using assms
  proof
    assume "isLocalAddress a t = (b, t')"
    then show ?thesis
      by (intro exI [of _ "ft_localAddresses t'"] exI [of _ "ft_localBroadcast t"])
        (auto simp: isLocalAddress_def Let_def)
  next
    assume "isLocalBroadcastAddress a t = (b, t')"
    then show ?thesis
      by (intro exI [of _ "ft_localAddresses t"] exI [of _ "ft_localBroadcast t'"])
        (auto simp: isLocalBroadcastAddress_def Let_def)
  qed
  then show "table_ok t' = table_ok t" "keeps_cache t t'"
    by (auto simp: table_ok_def vectors_ok_def cache_ok_def intro: keeps_cache_same)
qed

lemma ecmp_run_ok:
  "ecmp_run srt seed is t \<Longrightarrow> sorts srt \<Longrightarrow> ifaces_ok is \<Longrightarrow> table_ok t \<and> coherent srt seed t"
proof (induction rule: ecmp_run.induct)
  case (er_start fwd)
  then show ?case by (simp add: new_table_ok) (simp add: coherent_def new_table_def)
next
  case (er_op t op t')
  then have "table_ok t" "coherent srt seed t" by simp_all
  then show ?case
    using er_op rt_exec_ok [of t op] rt_exec_keeps [of t op t'] coherent_keeps [of srt seed t t'] by auto
next
  case (er_lookup t f v t')
  then show ?case using lookup_keeps [of srt seed t f v t'] by blast
next
  case (er_local t a b t')
  then show ?case using address_caches [of a t b t'] coherent_keeps [of srt seed t t'] by blast
next
  case (er_broadcast t a b t')
  then show ?case using address_caches [of a t b t'] coherent_keeps [of srt seed t t'] by blast
qed

section \<open>An example\<close>

text \<open>A router with two routes to 10.0.0.0, the first with a netmask of 16 bits.\<close>

definition hop :: "u32 \<Rightarrow> u32 \<Rightarrow> ipv4_route" where
  "hop netmask gateway =
     \<lparr>rt_dest = 0x0A000000, rt_netmask = netmask, rt_gateway = gateway, rt_interface = Some 0,
      rt_sourceType = MANUAL, rt_source = None, rt_adminDist = 0, rt_metric = 0, rt_table = False, rt_valid = True\<rparr>"

definition one_hop :: flow_table where
  "one_hop = (new_table [] False)\<lparr>ft_heap := [(0, hop 0xFFFF0000 0x0A000101\<lparr>rt_table := True\<rparr>)],
     ft_routes := [0], ft_next := 1, ft_notes := [RouteAdded 0]\<rparr>"

definition two_hops :: "u32 \<Rightarrow> flow_table" where
  "two_hops netmask = one_hop\<lparr>ft_heap := ft_heap one_hop @ [(1, hop netmask 0x0A000102\<lparr>rt_table := True\<rparr>)],
     ft_routes := [0, 1], ft_next := 2, ft_notes := [RouteAdded 0, RouteAdded 1]\<rparr>"

lemma masks_valid: "isValidNetmask 0xFFFF0000" "isValidNetmask 0xFF000000"
  by code_simp+

lemma add_first:
  "rt_exec (AddRoute 0) (snd (new_route (hop 0xFFFF0000 0x0A000101) (new_table [] False))) = Inr one_hop"
  by (simp add: addRoute_def internalAddRoute_def live_route_def masks_valid hop_def new_route_def new_table_def
      isUnspecified_def insert_route_def Let_def one_hop_def upper_bound_def fire_def invalidateCache_def)

lemma add_second:
  assumes "netmask \<in> {0xFFFF0000, 0xFF000000}"
  shows "rt_exec (AddRoute 1) (snd (new_route (hop netmask 0x0A000102) one_hop)) = Inr (two_hops netmask)"
  using assms
  by (auto simp add: addRoute_def internalAddRoute_def live_route_def masks_valid hop_def new_route_def new_table_def
      isUnspecified_def insert_route_def Let_def one_hop_def two_hops_def upper_bound_def fire_def
      invalidateCache_def route_before_def routeLessThan_def)

lemma one_hop_run:
  "ecmp_run srt seed [] one_hop" "ecmp_run srt seed [] (snd (new_route (hop netmask 0x0A000102) one_hop))"
proof -
  let ?t0 = "new_table [] False" and ?e = "hop 0xFFFF0000 0x0A000101" and ?e' = "hop netmask 0x0A000102"
  have "ecmp_run srt seed [] ?t0" by (rule er_start)
  then have "ecmp_run srt seed [] (snd (new_route ?e ?t0))"
    by (rule er_op [where op = "NewRoute ?e"]) (simp_all add: moves_gateway_def hop_def)
  then show "ecmp_run srt seed [] one_hop"
    by (rule er_op [OF _ _ _ add_first]) (simp_all add: moves_gateway_def hop_def new_route_def new_table_def)
  then show "ecmp_run srt seed [] (snd (new_route ?e' one_hop))"
    by (rule er_op [where op = "NewRoute ?e'"]) (simp_all add: moves_gateway_def hop_def)
qed

lemma two_hops_run:
  assumes "netmask \<in> {0xFFFF0000, 0xFF000000}"
  shows "ecmp_run srt seed [] (two_hops netmask)"
proof -
  show ?thesis
    by (rule er_op [OF one_hop_run(2) _ _ add_second [OF assms]])
      (simp_all add: moves_gateway_def hop_def new_route_def new_table_def one_hop_def)
qed

lemma two_hops_pick:
  "find_uncached sort_key 2 0x0A000304 (flow_bin (ByDest 0x0A000304)) (two_hops 0xFFFF0000) = Inr (Some 1)"
  "find_uncached sort_key 2 0x0A000304 (flow_bin (ByDest 0x0A000304)) (two_hops 0xFF000000) = Inr (Some 1)"
  by code_simp+

section \<open>Properties\<close>

lemma sorted_by_routeLessThan:
  assumes "table_ok t"
  shows "sorted_wrt (\<lambda>a b. \<not> routeLessThan (route_at t b) (route_at t a)) (ft_routes t)"
proof -
  have "sorted (map (\<lambda>r. route_key (route_at t r)) (ft_routes t))"
    using assms by (simp add: table_ok_def vectors_ok_def vec_ok_def keys_sorted_def route_at_def)
  then show ?thesis by (simp add: sorted_map routeLessThan_key not_less)
qed

lemma in_table_iff:
  assumes "table_ok t" and "map_of (ft_heap t) r = Some e"
  shows "rt_table e \<longleftrightarrow> r \<in> set (ft_routes t)"
  using assms by (auto simp: table_ok_def vectors_ok_def vec_ok_def)







text \<open>C27: two flows never share an entry of the cache, across all the overloads.\<close>

theorem flow_bin_injective: "flow_bin f = flow_bin g \<longleftrightarrow> f = g"
  by (rule flow_bin_eq)

text \<open>What the checks of \<open>internalAddRoute\<close> reject.\<close>

definition bad_route :: "ipv4_route \<Rightarrow> bool" where
  "bad_route e \<longleftrightarrow> \<not> isValidNetmask (rt_netmask e) \<or> rt_netmask e \<noteq> 0 \<and> rt_dest e AND rt_netmask e = 0 \<or>
     rt_dest e AND NOT (rt_netmask e) \<noteq> 0 \<or> rt_interface e = None"

lemma internalAddRoute_good:
  assumes "\<not> bad_route e" and "map_of (ft_heap t) r = Some e"
  shows "internalAddRoute r t =
    rbind (if isUnspecified (rt_netmask e) then
             rbind (getDefaultRoute t) (\<lambda>d. case d of None \<Rightarrow> Inr t | Some d \<Rightarrow> rbind (deleteRoute d t) (\<lambda>(_, t). Inr t))
           else Inr t) (insert_route r)"
proof -
  have c: "\<not> \<not> isValidNetmask (rt_netmask e)" "\<not> (rt_netmask e \<noteq> 0 \<and> rt_dest e AND rt_netmask e = 0)"
    "\<not> rt_dest e AND NOT (rt_netmask e) \<noteq> 0" "rt_interface e \<noteq> None"
    using assms(1) by (auto simp: bad_route_def)
  show ?thesis unfolding internalAddRoute_def live_route_def assms(2) of_option_Some rbind_Inr
      if_not_P [OF c(1)] if_not_P [OF c(2)] if_not_P [OF c(3)] if_not_P [OF c(4)] by (rule refl)
qed

text \<open>
  C23: adding a route throws exactly when its netmask is not a prefix, its address is unspecified or
  has bits outside the netmask, or it has no interface.  Otherwise the route is listed afterwards,
  together with all routes listed before, except that a default route replaces the old one.
\<close>

theorem addRoute_rejects_bad_routes:
  assumes "ecmp_run srt seed is t" and "sorts srt" and "ifaces_ok is"
    and e: "map_of (ft_heap t) r = Some e" and nt: "\<not> rt_table e"
  shows "if bad_route e then addRoute r t = Inl RuntimeError
    else \<exists>t'. addRoute r t = Inr t' \<and> ft_cache t' = [] \<and>
      set (ft_routes t') = insert r (set (ft_routes t) - {d. rt_netmask e = 0 \<and> getDefaultRoute t = Inr (Some d)})"
proof (cases "bad_route e")
  case True
  then show ?thesis using e by (auto simp: bad_route_def addRoute_def internalAddRoute_def live_route_def)
next
  case False
  have t: "table_ok t" using ecmp_run_ok [OF assms(1-3)] by simp
  then have r: "r \<notin> set (ft_routes t)" using e nt by (auto simp: table_ok_def vectors_ok_def vec_ok_def)
  have v: "vectors_ok {r} t" using t by (simp add: table_ok_def vectors_ok_def vec_ok_def)
  have wf: "route_wf e" using False by (simp add: bad_route_def route_wf_def)
  let ?old = "if isUnspecified (rt_netmask e) then
      rbind (getDefaultRoute t) (\<lambda>d. case d of None \<Rightarrow> Inr t | Some d \<Rightarrow> rbind (deleteRoute d t) (\<lambda>(_, t). Inr t))
    else Inr t"
  obtain d where d: "getDefaultRoute t = Inr d" "\<forall>q. d = Some q \<longrightarrow> q \<in> set (ft_routes t)"
    using default_scan_ok [OF v, of "rev (ft_routes t)"] by (auto simp: getDefaultRoute_def)
  obtain t1 where t1: "?old = Inr t1" "vectors_ok {r} t1" "map_of (ft_heap t1) r = Some e"
    "set (ft_routes t1) = set (ft_routes t) - {d. rt_netmask e = 0 \<and> getDefaultRoute t = Inr (Some d)}"
  proof (cases "rt_netmask e = 0 \<and> d \<noteq> None")
    case True
    then obtain q where q: "d = Some q" "q \<noteq> r" using d(2) r by auto
    obtain x u where u: "deleteRoute q t = Inr (x, u)" "vectors_ok {r} u" "without q t u"
      using deleteRoute_ok [OF v, of q] q by auto
    show ?thesis
      by (rule that [of u])
        (use True u d q e distinct_routes [OF v] in \<open>auto simp: isUnspecified_def without_def\<close>)
  qed (use that [of t] d v e in \<open>auto simp: isUnspecified_def\<close>)
  have "r \<notin> set (ft_routes t1)" using r t1(4) by simp
  from insert_route_ok [OF t1(2,3) this wf] obtain t' where
    "insert_route r t1 = Inr t'" "set (ft_routes t') = insert r (set (ft_routes t1))" by auto
  then show ?thesis using False t1(1,4)
    by (simp add: addRoute_def internalAddRoute_good [OF False e] invalidateCache_def fire_def)
qed

theorem addRoute_rejects_bad_routes_witness:
  "\<exists>t'. addRoute 1 (snd (new_route (hop 0xFF000000 0x0A000102) one_hop)) = Inr t' \<and> set (ft_routes t') = {0, 1} \<and>
     addRoute 1 (snd (new_route (hop 0xFF00FF00 0x0A000102) one_hop)) = Inl RuntimeError"
proof -
  let ?u = "\<lambda>netmask. snd (new_route (hop netmask 0x0A000102) one_hop)"
  have u: "map_of (ft_heap (?u netmask)) 1 = Some (hop netmask 0x0A000102)" "ft_routes (?u netmask) = [0]" for netmask
    by (simp_all add: new_route_def one_hop_def hop_def)
  have n: "\<not> rt_table (hop netmask 0x0A000102)" "rt_netmask (hop netmask 0x0A000102) = netmask" "ifaces_ok []" for netmask
    by (simp_all add: hop_def ifaces_ok_def)
  have b: "\<not> bad_route (hop 0xFF000000 0x0A000102)" "bad_route (hop 0xFF00FF00 0x0A000102)"
    by code_simp+
  note added = addRoute_rejects_bad_routes [OF one_hop_run(2) sorts_sort_key n(3) u(1) n(1)]
  have "addRoute 1 (?u 0xFF00FF00) = Inl RuntimeError" using added [of "0xFF00FF00"] b(2) by (rule if_P [THEN iffD1, rotated])
  moreover have "\<exists>t'. addRoute 1 (?u 0xFF000000) = Inr t' \<and> set (ft_routes t') = {0, 1}"
    using added [of "0xFF000000"] unfolding if_not_P [OF b(1)] u(2) n(2) by auto
  ultimately show ?thesis by blast
qed

section \<open>What the lookup does not guarantee\<close>

text \<open>
  The loop that collects the routes compares destination addresses only, so a route to the same
  address with a shorter netmask is collected too, and the hash can pick it.
\<close>

theorem lookup_mixes_netmasks:
  "find_uncached sort_key 2 0x0A000304 (flow_bin (ByDest 0x0A000304)) (two_hops 0xFF000000) = Inr (Some 1) \<and>
   1 \<notin> set (longest_matches 0x0A000304 (two_hops 0xFF000000))"
  by (rule conjI [OF two_hops_pick(2)])
    (simp add: longest_matches_def longest_of_def matches_def two_hops_def one_hop_def hop_def
      route_at_def maskedAddrAreEqual_def)

text \<open>
  \<open>routeChanged\<close> does not put a route back in its place when its administrative distance
  changes, although \<open>routeLessThan\<close> compares it.
\<close>

theorem adminDist_leaves_unsorted:
  "\<exists>t'. set_route_field 0 (F_ADMINDIST 5) (two_hops 0xFFFF0000) = Inr t' \<and> ft_routes t' = [0, 1] \<and>
     routeLessThan (route_at t' 1) (route_at t' 0)"
  by (simp add: set_route_field_def live_route_def two_hops_def one_hop_def hop_def new_table_def Let_def
      routeChanged_def fire_def route_at_def routeLessThan_def)

end
