(* ===== verification/Reassembly.thy ===== *)
theory Reassembly
  imports IpDatagram
begin

text \<open>
  Fragments of a datagram tile its payload, and the reassembly buffer, fed with them in any order
  and with duplicates, gives the datagram back exactly when the last missing one arrives.
\<close>

section \<open>Tiles\<close>

text \<open>\<open>b\<close> are the \<open>n + 1\<close> boundaries of the tiles of a payload of at most 65535 bytes.\<close>

definition boundaries :: "(nat \<Rightarrow> nat) \<Rightarrow> nat \<Rightarrow> bool" where
  "boundaries b n \<longleftrightarrow> b 0 = 0 \<and> (\<forall>i j. i < j \<longrightarrow> j \<le> n \<longrightarrow> b i < b j) \<and> b n \<le> 65535 \<and> 0 < n"

definition tile :: "(nat \<Rightarrow> nat) \<Rightarrow> nat \<Rightarrow> nat \<Rightarrow> region" where
  "tile b n i = \<lparr>rg_beg = of_nat (b i), rg_end = of_nat (b (Suc i)), rg_last = (Suc i = n)\<rparr>"

definition upto_tile :: "(nat \<Rightarrow> nat) \<Rightarrow> nat \<Rightarrow> nat \<Rightarrow> region" where
  "upto_tile b n k = \<lparr>rg_beg = 0, rg_end = of_nat (b k), rg_last = (k = n)\<rparr>"

lemma boundary_less: "boundaries b n \<Longrightarrow> i \<le> n \<Longrightarrow> j \<le> n \<Longrightarrow> b i < b j \<longleftrightarrow> i < j"
  unfolding boundaries_def by (metis linorder_neqE_nat not_less_iff_gr_or_eq)

lemma boundary_word:
  assumes b: "boundaries b n" and i: "i \<le> n" and j: "j \<le> n"
  shows "(of_nat (b i) :: u16) = of_nat (b j) \<longleftrightarrow> i = j" and "(of_nat (b i) :: u16) < of_nat (b j) \<longleftrightarrow> i < j"
    and "(of_nat (b i) :: u16) \<le> of_nat (b j) \<longleftrightarrow> i \<le> j"
proof -
  have le: "b k \<le> 65535" if "k \<le> n" for k
  proof (cases "k = n")
    case False
    then have "b k < b n" using boundary_less [OF b that, of n] that by simp
    then show ?thesis using b by (simp add: boundaries_def)
  qed (use b in \<open>simp add: boundaries_def\<close>)
  have u: "unat (of_nat (b k) :: u16) = b k" if "k \<le> n" for k
    using le [OF that] by (simp add: unsigned_of_nat take_bit_nat_eq_self)
  have l: "b i < b j \<longleftrightarrow> i < j" "b j < b i \<longleftrightarrow> j < i" using boundary_less [OF b] i j by simp_all
  show "(of_nat (b i) :: u16) < of_nat (b j) \<longleftrightarrow> i < j" using l u i j by (simp add: word_less_nat_alt)
  show "(of_nat (b i) :: u16) \<le> of_nat (b j) \<longleftrightarrow> i \<le> j" using l u i j by (simp add: word_le_nat_alt not_less [symmetric])
  show "(of_nat (b i) :: u16) = of_nat (b j) \<longleftrightarrow> i = j" using l u i j by (metis less_irrefl linorder_neqE_nat)
qed

text \<open>The pass on the indices of the tiles.\<close>

fun index_pass :: "nat \<Rightarrow> nat list \<Rightarrow> nat \<times> nat list \<times> bool" where
  "index_pass k [] = (k, [], False)"
| "index_pass k (i # is) =
     (if i = k then (case index_pass (Suc k) is of (k', kept, _) \<Rightarrow> (k', kept, True))
      else if i < k then (case index_pass k is of (k', kept, _) \<Rightarrow> (k', kept, True))
      else (case index_pass k is of (k', kept, again) \<Rightarrow> (k', i # kept, again)))"

lemma merge_tile:
  assumes b: "boundaries b n" and "k \<le> n" and "i < n" and "0 < k"
  shows "merge_pass (upto_tile b n k) (tile b n i # fs) =
    (if i = k then (case merge_pass (upto_tile b n (Suc k)) fs of (m, kept, _) \<Rightarrow> (m, kept, True))
     else if i < k then (case merge_pass (upto_tile b n k) fs of (m, kept, _) \<Rightarrow> (m, kept, True))
     else (case merge_pass (upto_tile b n k) fs of (m, kept, again) \<Rightarrow> (m, tile b n i # kept, again)))"
proof -
  note w = boundary_word [OF b]
  have z: "(of_nat (b (Suc i)) :: u16) \<noteq> 0"
    using w(1) [of "Suc i" 0] b assms(3) by (simp add: boundaries_def)
  have 1: "rg_end (upto_tile b n k) = rg_beg (tile b n i) \<longleftrightarrow> i = k"
    using w(1) [of k i] assms(2,3) by (auto simp: upto_tile_def tile_def)
  have 2: "rg_beg (upto_tile b n k) \<noteq> rg_end (tile b n i)" using z by (simp add: upto_tile_def tile_def)
  have 3: "rg_beg (upto_tile b n k) \<le> rg_beg (tile b n i) \<and> rg_end (tile b n i) \<le> rg_end (upto_tile b n k) \<longleftrightarrow> i < k"
    using w(3) [of "Suc i" k] assms(2,3) by (simp add: upto_tile_def tile_def Suc_le_eq)
  have u: "(upto_tile b n k)\<lparr>rg_end := rg_end (tile b n i), rg_last := rg_last (upto_tile b n k) \<or> rg_last (tile b n i)\<rparr>
      = upto_tile b n (Suc k)" if "i = k" using that assms(3) by (auto simp: upto_tile_def tile_def)
  show ?thesis using u by (simp only: merge_pass.simps 1 2 3 if_False) simp
qed

lemma merge_pass_index:
  assumes b: "boundaries b n" and "k \<le> n" and "set is \<subseteq> {..<n}" and "0 < k"
  shows "merge_pass (upto_tile b n k) (map (tile b n) is) =
    (case index_pass k is of (k', kept, again) \<Rightarrow> (upto_tile b n k', map (tile b n) kept, again))"
  using assms(2-4)
proof (induction "is" arbitrary: k)
  case (Cons i "is")
  have ih: "merge_pass (upto_tile b n k) (map (tile b n) is) =
      (case index_pass k is of (k', kept, again) \<Rightarrow> (upto_tile b n k', map (tile b n) kept, again))"
    using Cons by simp
  have ih': "merge_pass (upto_tile b n (Suc k)) (map (tile b n) is) =
      (case index_pass (Suc k) is of (k', kept, again) \<Rightarrow> (upto_tile b n k', map (tile b n) kept, again))" if "i = k"
    using Cons that by simp
  have i: "i < n" using Cons.prems by simp
  show ?case unfolding list.map merge_tile [OF b Cons.prems(1) i Cons.prems(3)] ih
    using ih' by (auto split: prod.split)
qed simp

lemma index_pass_props:
  assumes "index_pass k is = (k', kept, again)" and "set is \<subseteq> {..<n}" and "k \<le> n"
  shows "k \<le> k' \<and> k' \<le> n \<and> {k..<k'} \<subseteq> set is \<and> set kept \<subseteq> set is \<and> set is \<subseteq> set kept \<union> {..<k'} \<and>
    (\<not> again \<longrightarrow> kept = is \<and> k' = k \<and> (\<forall>i \<in> set is. k < i))"
  using assms
proof (induction "is" arbitrary: k kept again)
  case (Cons i "is")
  consider "i = k" | "i < k" | "k < i" by linarith
  then show ?case
  proof cases
    case 1
    obtain kept' a where p: "index_pass (Suc k) is = (k', kept', a)" "kept = kept'" "again"
      using Cons.prems(1) 1 by (auto split: prod.splits)
    have "Suc k \<le> n" using 1 Cons.prems(2) by auto
    from Cons.IH [OF p(1) _ this] Cons.prems(2) have ih: "Suc k \<le> k'" "k' \<le> n" "{Suc k..<k'} \<subseteq> set is"
      "set kept' \<subseteq> set is" "set is \<subseteq> set kept' \<union> {..<k'}" by auto
    have "{k..<k'} = insert k {Suc k..<k'}" using ih(1) by auto
    then show ?thesis using ih p(2,3) 1 by auto
  next
    case 2
    obtain kept' a where p: "index_pass k is = (k', kept', a)" "kept = kept'" "again"
      using Cons.prems(1) 2 by (auto split: prod.splits)
    from Cons.IH [OF p(1)] Cons.prems(2,3) have "k \<le> k'" "k' \<le> n" "{k..<k'} \<subseteq> set is"
      "set kept' \<subseteq> set is" "set is \<subseteq> set kept' \<union> {..<k'}" by auto
    then show ?thesis using p(2,3) 2 by auto
  next
    case 3
    obtain kept' where p: "index_pass k is = (k', kept', again)" "kept = i # kept'"
      using Cons.prems(1) 3 by (auto split: prod.splits)
    from Cons.IH [OF p(1)] Cons.prems(2,3) have "k \<le> k'" "k' \<le> n" "{k..<k'} \<subseteq> set is"
      "set kept' \<subseteq> set is" "set is \<subseteq> set kept' \<union> {..<k'}"
      "\<not> again \<longrightarrow> kept' = is \<and> k' = k \<and> (\<forall>i \<in> set is. k < i)" by auto
    then show ?thesis using p(2) 3 by auto
  qed
qed auto

lemma merge_pass_tiles:
  assumes b: "boundaries b n" and "k \<le> n" and "set is \<subseteq> {..<n}" and "0 < k"
  shows "\<exists>k' is' again. merge_pass (upto_tile b n k) (map (tile b n) is) = (upto_tile b n k', map (tile b n) is', again) \<and>
    k \<le> k' \<and> k' \<le> n \<and> {k..<k'} \<subseteq> set is \<and> set is' \<subseteq> set is \<and> set is \<subseteq> set is' \<union> {..<k'} \<and>
    (\<not> again \<longrightarrow> is' = is \<and> k' = k \<and> (\<forall>i \<in> set is. k < i))"
proof -
  obtain k' is' again where p: "index_pass k is = (k', is', again)" by (cases "index_pass k is") auto
  from index_pass_props [OF p assms(3,2)] merge_pass_index [OF assms] show ?thesis unfolding p prod.case by blast
qed

lemma mergeFragments_tiles:
  assumes b: "boundaries b n" and "k \<le> n" and "set is \<subseteq> {..<n}" and "0 < k"
  shows "\<exists>k' is'. mergeFragments (upto_tile b n k) (map (tile b n) is) = (upto_tile b n k', map (tile b n) is') \<and>
    k \<le> k' \<and> k' \<le> n \<and> {k..<k'} \<subseteq> set is \<and> set is' \<subseteq> set is \<and> set is \<subseteq> set is' \<union> {..<k'} \<and>
    (\<forall>i \<in> set is'. k' < i)"
  using assms(2-4)
proof (induction "length is" arbitrary: k "is" rule: less_induct)
  case less
  from merge_pass_tiles [OF b less.prems] obtain k1 is1 again where
    p: "merge_pass (upto_tile b n k) (map (tile b n) is) = (upto_tile b n k1, map (tile b n) is1, again)"
      "k \<le> k1" "k1 \<le> n" "{k..<k1} \<subseteq> set is" "set is1 \<subseteq> set is" "set is \<subseteq> set is1 \<union> {..<k1}"
      "\<not> again \<longrightarrow> is1 = is \<and> k1 = k \<and> (\<forall>i \<in> set is. k < i)" by blast
  show ?case
  proof (cases again)
    case True
    have "length is1 < length is" using merge_pass_length [of "upto_tile b n k" "map (tile b n) is"] p(1) True by simp
    moreover have "set is1 \<subseteq> {..<n}" "0 < k1" using p(2,5) less.prems by auto
    ultimately obtain k' is' where
      q: "mergeFragments (upto_tile b n k1) (map (tile b n) is1) = (upto_tile b n k', map (tile b n) is')"
      "k1 \<le> k'" "k' \<le> n" "{k1..<k'} \<subseteq> set is1" "set is' \<subseteq> set is1" "set is1 \<subseteq> set is' \<union> {..<k'}"
      "\<forall>i \<in> set is'. k' < i" using less.hyps [of is1 k1] p(3) by blast
    have "mergeFragments (upto_tile b n k) (map (tile b n) is) = (upto_tile b n k', map (tile b n) is')"
      using True q(1) by (subst mergeFragments.simps) (simp add: p(1))
    moreover have "{k..<k'} \<subseteq> set is" using p(4,5) q(4) by (auto simp: subset_iff) (metis not_less)
    moreover have "set is \<subseteq> set is' \<union> {..<k'}" using p(6) q(2,6) by fastforce
    ultimately show ?thesis using p(2,5) q(2,3,5,7) by (intro exI conjI) (assumption | auto)+
  next
    case False
    then have "mergeFragments (upto_tile b n k) (map (tile b n) is) = (upto_tile b n k, map (tile b n) is)"
      using p by (subst mergeFragments.simps) simp
    then show ?thesis using p False less.prems by (intro exI [of _ k] exI [of _ "is"]) auto
  qed
qed

section \<open>The buffer\<close>

text \<open>The buffer after the tiles in \<open>R\<close> arrived: the front without gaps, and the others behind it.\<close>

definition holds_tiles :: "(nat \<Rightarrow> nat) \<Rightarrow> nat \<Rightarrow> nat set \<Rightarrow> reassembly \<Rightarrow> bool" where
  "holds_tiles b n R buf \<longleftrightarrow>
     (\<exists>k is. buf = \<lparr>rb_main = upto_tile b n k, rb_fragments = map (tile b n) is\<rparr> \<and> k \<le> n \<and>
        R = {..<k} \<union> set is \<and> (\<forall>i \<in> set is. k < i \<and> i < n))"

lemma holds_tiles_new: "boundaries b n \<Longrightarrow> holds_tiles b n {} ReassemblyBuffer"
  unfolding holds_tiles_def
  by (intro exI [of _ 0] exI [of _ "[]"]) (simp add: ReassemblyBuffer_def upto_tile_def boundaries_def)

lemma merge_region_tile:
  assumes b: "boundaries b n" and h: "holds_tiles b n R buf" and i: "i < n"
  shows "holds_tiles b n (insert i R) (merge_region (of_nat (b i)) (of_nat (b (Suc i))) (Suc i = n) buf)"
proof -
  obtain k "is" where buf: "buf = \<lparr>rb_main = upto_tile b n k, rb_fragments = map (tile b n) is\<rparr>" and k: "k \<le> n"
    and R: "R = {..<k} \<union> set is" and idx: "\<forall>i \<in> set is. k < i \<and> i < n"
    using h unfolding holds_tiles_def by blast
  note w = boundary_word [OF b]
  have z: "(of_nat (b (Suc i)) :: u16) \<noteq> 0" using w(1) [of "Suc i" 0] b i by (simp add: boundaries_def)
  have beg: "rg_beg (upto_tile b n k) \<noteq> of_nat (b (Suc i))" using z by (simp add: upto_tile_def)
  have e: "rg_end (upto_tile b n k) = of_nat (b i) \<longleftrightarrow> i = k" "rg_end (upto_tile b n k) < of_nat (b i) \<longleftrightarrow> k < i"
    using w(1) [of k i] w(2) [of k i] k i by (auto simp: upto_tile_def)
  have gt: "\<not> rg_beg (upto_tile b n k) > of_nat (b (Suc i))" by (simp add: upto_tile_def)
  consider "i = k" | "k < i" | "i < k" by linarith
  then show ?thesis
  proof cases
    case 1
    have u: "(upto_tile b n k)\<lparr>rg_end := of_nat (b (Suc i)), rg_last := rg_last (upto_tile b n k) \<or> Suc i = n\<rparr>
        = upto_tile b n (Suc k)" using 1 i by (auto simp: upto_tile_def)
    have "Suc k \<le> n" "set is \<subseteq> {..<n}" "0 < Suc k" using 1 i idx by auto
    from mergeFragments_tiles [OF b this] obtain k' is' where
      m: "mergeFragments (upto_tile b n (Suc k)) (map (tile b n) is) = (upto_tile b n k', map (tile b n) is')"
      "Suc k \<le> k'" "k' \<le> n" "{Suc k..<k'} \<subseteq> set is" "set is' \<subseteq> set is" "set is \<subseteq> set is' \<union> {..<k'}"
      "\<forall>i \<in> set is'. k' < i" by blast
    have "merge_region (of_nat (b i)) (of_nat (b (Suc i))) (Suc i = n) buf =
        \<lparr>rb_main = upto_tile b n k', rb_fragments = map (tile b n) is'\<rparr>"
      using e(1) 1 u m(1) by (simp add: merge_region_def buf Let_def merge_stored_def)
    moreover have "insert i R = {..<k'} \<union> set is'"
    proof -
      have "{..<k'} = insert k {..<k} \<union> {Suc k..<k'}" using m(2) by auto
      then show ?thesis using m(4-6) R 1 by auto
    qed
    ultimately show ?thesis unfolding holds_tiles_def using m(3,5,7) idx by blast
  next
    case 2
    have "merge_region (of_nat (b i)) (of_nat (b (Suc i))) (Suc i = n) buf =
        \<lparr>rb_main = upto_tile b n k, rb_fragments = map (tile b n) (is @ [i])\<rparr>"
      using 2 e beg by (simp add: merge_region_def buf Let_def tile_def)
    moreover have "insert i R = {..<k} \<union> set (is @ [i])" using R by auto
    ultimately show ?thesis unfolding holds_tiles_def using k idx 2 i by (metis Un_iff in_set_conv_decomp set_append set_ConsD list.set_intros(1) empty_iff list.set(1))
  next
    case 3
    have "merge_region (of_nat (b i)) (of_nat (b (Suc i))) (Suc i = n) buf = buf"
      using 3 e beg gt by (simp add: merge_region_def buf Let_def)
    moreover have "insert i R = R" using R 3 by auto
    ultimately show ?thesis using h by simp
  qed
qed

lemma holds_tiles_complete:
  assumes "boundaries b n" and "holds_tiles b n R buf"
  shows "rg_beg (rb_main buf) = 0 \<and> rg_last (rb_main buf) \<longleftrightarrow> R = {..<n}"
    and "R = {..<n} \<Longrightarrow> unat (rg_end (rb_main buf)) = b n"
proof -
  obtain k "is" where buf: "buf = \<lparr>rb_main = upto_tile b n k, rb_fragments = map (tile b n) is\<rparr>" and k: "k \<le> n"
    and R: "R = {..<k} \<union> set is" and idx: "\<forall>i \<in> set is. k < i \<and> i < n"
    using assms(2) unfolding holds_tiles_def by blast
  have eq: "R = {..<n} \<longleftrightarrow> k = n"
  proof
    assume "R = {..<n}"
    then show "k = n" using R idx k by (metis Un_iff lessThan_iff less_irrefl order_le_less)
  next
    assume "k = n"
    then show "R = {..<n}" using R idx by fastforce
  qed
  then show "rg_beg (rb_main buf) = 0 \<and> rg_last (rb_main buf) \<longleftrightarrow> R = {..<n}" by (simp add: buf upto_tile_def)
  have "b n < 65536" using assms(1) by (simp add: boundaries_def)
  then show "unat (rg_end (rb_main buf)) = b n" if "R = {..<n}"
    using that eq by (simp add: buf upto_tile_def unsigned_of_nat take_bit_nat_eq_self)
qed

lemma add_region_tile:
  assumes "boundaries b n" and "holds_tiles b n R buf" and "i < n"
  obtains buf' where "add_region (of_nat (b i)) (of_nat (b (Suc i))) (Suc i = n) buf = (insert i R = {..<n}, buf')"
    and "holds_tiles b n (insert i R) buf'" and "insert i R = {..<n} \<Longrightarrow> unat (rg_end (rb_main buf')) = b n"
  using merge_region_tile [OF assms] holds_tiles_complete [OF assms(1) merge_region_tile [OF assms]]
  by (simp add: add_region_def Let_def)

section \<open>Fragments as tiles\<close>

definition frag_count :: "nat \<Rightarrow> nat \<Rightarrow> nat" where
  "frag_count P L = (P + L - 1) div L"

definition frag_bound :: "nat \<Rightarrow> nat \<Rightarrow> nat \<Rightarrow> nat" where
  "frag_bound P L i = min (i * L) P"

definition fragment_at :: "datagram \<Rightarrow> nat \<Rightarrow> nat \<Rightarrow> nat \<Rightarrow> datagram" where
  "fragment_at d P L i =
     d\<lparr>dg_more := (if Suc i = frag_count P L then dg_more d else True),
       dg_byteLen := dg_headerLen d + (int (frag_bound P L (Suc i)) - int (frag_bound P L i)),
       dg_offset := dg_offset d + int (frag_bound P L i)\<rparr>"

lemma frag_count_iff: "0 < L \<Longrightarrow> i < frag_count P L \<longleftrightarrow> i * L < P"
proof -
  assume L: "0 < L"
  have "i < frag_count P L \<longleftrightarrow> Suc i \<le> (P + L - 1) div L" by (auto simp: frag_count_def)
  also have "\<dots> \<longleftrightarrow> Suc i * L \<le> P + L - 1" using L by (simp add: less_eq_div_iff_mult_less_eq)
  also have "\<dots> \<longleftrightarrow> i * L < P" using L by (simp, linarith)
  finally show ?thesis .
qed

lemma frag_bound_end: "0 < L \<Longrightarrow> frag_bound P L (frag_count P L) = P"
  using frag_count_iff [of L "frag_count P L" P] by (simp add: frag_bound_def)

lemma frag_bound_inner: "0 < L \<Longrightarrow> i < frag_count P L \<Longrightarrow> frag_bound P L i = i * L"
  using frag_count_iff [of L i P] by (simp add: frag_bound_def)

lemma frag_boundaries:
  assumes L: "0 < L" and P: "0 < P" "P \<le> 65535"
  shows "boundaries (frag_bound P L) (frag_count P L)"
  unfolding boundaries_def
proof (intro conjI allI impI)
  show "0 < frag_count P L" using frag_count_iff [OF L, of 0 P] P by simp
  show "frag_bound P L (frag_count P L) \<le> 65535" using frag_bound_end [OF L] P by simp
  show "frag_bound P L 0 = 0" by (simp add: frag_bound_def)
  fix i j assume ij: "i < j" "j \<le> frag_count P L"
  then have "i * L < P" using frag_count_iff [OF L, of i P] by simp
  moreover have "i * L < j * L" using ij(1) L by simp
  ultimately show "frag_bound P L i < frag_bound P L j" by (simp add: frag_bound_def)
qed

lemma fragment_list_at:
  assumes L: "0 < L" and "k \<le> frag_count P L"
  shows "fragment_list d (int P) (int L) (int (k * L)) = map (fragment_at d P L) [k..<frag_count P L]"
  using assms(2)
proof (induction "frag_count P L - k" arbitrary: k)
  case 0
  then have "\<not> k * L < P" using frag_count_iff [OF L, of k P] by simp
  then have "\<not> int (k * L) < int P" by linarith
  then show ?case using 0 by (subst fragment_list.simps) (simp del: of_nat_mult)
next
  case (Suc m)
  then have k: "k < frag_count P L" by simp
  then have kL: "k * L < P" using frag_count_iff [OF L] by blast
  have last: "int (k * L) + int L \<ge> int P \<longleftrightarrow> Suc k = frag_count P L"
  proof -
    have "Suc k = frag_count P L \<longleftrightarrow> \<not> Suc k < frag_count P L" using k by auto
    also have "\<dots> \<longleftrightarrow> \<not> Suc k * L < P" using frag_count_iff [OF L, of "Suc k" P] by simp
    also have "\<dots> \<longleftrightarrow> int (k * L) + int L \<ge> int P" by (simp add: not_less del: of_nat_mult, linarith)
    finally show ?thesis by simp
  qed
  have "frag_bound P L k = k * L" by (rule frag_bound_inner [OF L k])
  moreover have "frag_bound P L (Suc k) = (if Suc k = frag_count P L then P else Suc k * L)"
    using frag_bound_end [OF L, of P] frag_bound_inner [OF L, of "Suc k" P] k by auto
  ultimately have hd: "d\<lparr>dg_more := (if int (k * L) + int L \<ge> int P then dg_more d else True),
      dg_byteLen := dg_headerLen d + (if int (k * L) + int L \<ge> int P then int P - int (k * L) else int L),
      dg_offset := dg_offset d + int (k * L)\<rparr> = fragment_at d P L k"
    unfolding last fragment_at_def using kL by (simp add: algebra_simps)
  have step: "int (k * L) + int L = int (Suc k * L)" by simp
  have ih: "fragment_list d (int P) (int L) (int (Suc k * L)) = map (fragment_at d P L) [Suc k..<frag_count P L]"
    using Suc k by (intro Suc.hyps(1)) simp_all
  have "int (k * L) < int P \<and> 0 < int L" using kL L by linarith
  then have "fragment_list d (int P) (int L) (int (k * L)) =
      fragment_at d P L k # fragment_list d (int P) (int L) (int (k * L) + int L)"
    by (subst fragment_list.simps) (simp only: simp_thms if_True Let_def hd)
  then show ?case unfolding step ih using k by (simp add: upt_conv_Cons)
qed

lemma fragment_datagram_at:
  assumes "fragment_datagram mtu d = Inr ds" and "dg_byteLen d - dg_headerLen d = int P"
  obtains L where "fragment_len mtu d = int L" and "0 < L" and "ds = map (fragment_at d P L) [0..<frag_count P L]"
proof -
  have l: "0 < fragment_len mtu d" and ds: "ds = fragment_list d (int P) (fragment_len mtu d) 0"
    using assms by (auto simp: fragment_datagram_def split: if_splits)
  define L where "L = nat (fragment_len mtu d)"
  have L: "fragment_len mtu d = int L" "0 < L" using l by (simp_all add: L_def)
  show ?thesis using that [OF L] ds fragment_list_at [OF L(2), of 0 P d] by (simp add: L(1))
qed

section \<open>Reassembly of a datagram\<close>

text \<open>The fragments that arrive one after the other, each with its time.\<close>

fun feed_fragments ::
    "(datagram \<times> simtime) list \<Rightarrow> (frag_key \<times> datagram_buffer) list \<Rightarrow>
     (datagram list \<times> (frag_key \<times> datagram_buffer) list) res" where
  "feed_fragments [] bufs = Inr ([], bufs)"
| "feed_fragments ((d, now) # xs) bufs =
     rbind (addFragment d now bufs) (\<lambda>(whole, bufs).
     rbind (feed_fragments xs bufs) (\<lambda>(out, bufs).
     Inr ((case whole of None \<Rightarrow> out | Some w \<Rightarrow> w # out), bufs)))"

definition collects :: "datagram \<Rightarrow> nat \<Rightarrow> nat \<Rightarrow> (frag_key \<times> datagram_buffer) list \<Rightarrow> nat set \<Rightarrow>
    (frag_key \<times> datagram_buffer) list \<Rightarrow> bool" where
  "collects d P L bufs0 R bufs \<longleftrightarrow>
     (\<forall>key. key \<noteq> frag_key d \<longrightarrow> map_of bufs key = map_of bufs0 key) \<and>
     (if R = {} then map_of bufs (frag_key d) = None
      else \<exists>buf j. map_of bufs (frag_key d) = Some buf \<and> db_datagram buf = Some (fragment_at d P L j) \<and>
        holds_tiles (frag_bound P L) (frag_count P L) R (db_buf buf))"

lemma fragment_at_fields [simp]:
  "frag_key (fragment_at d P L i) = frag_key d" "dg_payload (fragment_at d P L i) = dg_payload d"
  "dg_headerLen (fragment_at d P L i) = dg_headerLen d"
  by (simp_all add: fragment_at_def frag_key_def)

lemma fragment_whole:
  assumes "dg_offset d = 0" and "\<not> dg_more d" and "dg_byteLen d = dg_headerLen d + int P"
  shows "(fragment_at d P L j)\<lparr>dg_byteLen := dg_headerLen d + int P, dg_offset := 0, dg_more := False\<rparr> = d"
  using assms by (simp add: fragment_at_def)

lemma add_fragment_step:
  assumes c: "collects d P L bufs0 R bufs" and R: "R \<noteq> {..<frag_count P L}" and i: "i < frag_count P L"
    and L: "0 < L" and P: "0 < P" "P \<le> 65535" and d: "dg_offset d = 0" "\<not> dg_more d"
      "dg_byteLen d = dg_headerLen d + int P" and n: "1 < frag_count P L"
  obtains bufs' where
    "addFragment (fragment_at d P L i) now bufs = Inr (if insert i R = {..<frag_count P L} then Some d else None, bufs')"
    and "insert i R \<noteq> {..<frag_count P L} \<Longrightarrow> collects d P L bufs0 (insert i R) bufs'"
    and "insert i R = {..<frag_count P L} \<Longrightarrow>
      (\<forall>key. map_of bufs' key = (if key = frag_key d then None else map_of bufs0 key))"
proof -
  let ?n = "frag_count P L" and ?b = "frag_bound P L" and ?f = "fragment_at d P L i"
  define buf where "buf = (case map_of bufs (frag_key d) of Some b \<Rightarrow> b
      | None \<Rightarrow> \<lparr>db_buf = ReassemblyBuffer, db_datagram = None, db_lastupdate = 0\<rparr>)"
  have b: "boundaries ?b ?n" by (rule frag_boundaries [OF L P])
  have h: "holds_tiles ?b ?n R (db_buf buf)"
    using c holds_tiles_new [OF b] unfolding collects_def buf_def by (cases "R = {}") auto
  from add_region_tile [OF b h i] obtain rb where
    rb: "add_region (of_nat (?b i)) (of_nat (?b (Suc i))) (Suc i = ?n) (db_buf buf) = (insert i R = {..<?n}, rb)"
      "holds_tiles ?b ?n (insert i R) rb" "insert i R = {..<?n} \<Longrightarrow> unat (rg_end (rb_main rb)) = ?b ?n" by blast
  have "?b i < ?b (Suc i)" using b i by (simp add: boundaries_def)
  then have off: "dg_offset ?f = int (?b i)" "dg_offset ?f + (dg_byteLen ?f - dg_headerLen ?f) = int (?b (Suc i))"
    "(\<not> dg_more ?f) = (Suc i = ?n)" using d by (simp_all add: fragment_at_def)
  obtain j where j: "(case db_datagram buf of None \<Rightarrow> ?f
      | Some o' \<Rightarrow> if dg_payload o' = None \<and> dg_payload ?f \<noteq> None then ?f else o') = fragment_at d P L j"
  proof (cases "R = {}")
    case True
    then have "db_datagram buf = None" using c by (simp add: collects_def buf_def)
    then show ?thesis using that by simp
  next
    case False
    then obtain b' j where "map_of bufs (frag_key d) = Some b'" "db_datagram b' = Some (fragment_at d P L j)"
      using c unfolding collects_def by auto
    then show ?thesis using that [of j] by (cases "dg_payload d") (simp_all add: buf_def)
  qed
  have w: "(word_of_int (dg_offset ?f) :: u16) = of_nat (?b i)"
    "(word_of_int (dg_offset ?f + (dg_byteLen ?f - dg_headerLen ?f)) :: u16) = of_nat (?b (Suc i))"
    using off(1,2) by (simp_all only: fragment_at_fields of_int_of_nat_eq)
  have eq: "addFragment ?f now bufs =
      (if insert i R = {..<?n} then
         if map_of bufs (frag_key d) = None then Inl NullPointer
         else Inr (Some ((fragment_at d P L j)\<lparr>dg_byteLen := dg_headerLen d + uint (rg_end (rb_main rb)),
                 dg_offset := 0, dg_more := False\<rparr>), al_del (frag_key d) bufs)
       else Inr (None, al_put (frag_key d)
              \<lparr>db_buf = rb, db_datagram = Some (fragment_at d P L j), db_lastupdate = now\<rparr> bufs))"
    unfolding addFragment_def Let_def fragment_at_fields(1) buf_def [symmetric] w j off(3) rb(1) prod.case
    unfolding fragment_at_fields by (rule refl)
  show ?thesis
  proof (cases "insert i R = {..<?n}")
    case True
    have "R \<noteq> {}"
    proof
      assume "R = {}"
      then have "{..<?n} = {i}" using True by simp
      moreover have "0 \<in> {..<?n}" "1 \<in> {..<?n}" using n by simp_all
      ultimately show False by simp
    qed
    then have k: "map_of bufs (frag_key d) \<noteq> None" using c unfolding collects_def by auto
    have "uint (rg_end (rb_main rb)) = int P" using rb(3) [OF True] frag_bound_end [OF L, of P] by (metis uint_nat)
    then have "(fragment_at d P L j)\<lparr>dg_byteLen := dg_headerLen d + uint (rg_end (rb_main rb)),
        dg_offset := 0, dg_more := False\<rparr> = d" using fragment_whole [OF d] by simp
    then have e: "addFragment ?f now bufs = Inr (if insert i R = {..<?n} then Some d else None, al_del (frag_key d) bufs)"
      unfolding eq using True k by simp
    show ?thesis
      by (rule that [OF e]) (use c True in \<open>simp_all add: collects_def\<close>)
  next
    case False
    let ?bufs = "al_put (frag_key d) \<lparr>db_buf = rb, db_datagram = Some (fragment_at d P L j), db_lastupdate = now\<rparr> bufs"
    have e: "addFragment ?f now bufs = Inr (if insert i R = {..<?n} then Some d else None, ?bufs)"
      unfolding eq using False by simp
    show ?thesis
      by (rule that [OF e]) (use c False rb(2) in \<open>auto simp: collects_def\<close>)
  qed
qed

lemma feed_all:
  assumes "collects d P L bufs0 R bufs" and "set (map fst xs) \<subseteq> {..<frag_count P L}"
    and "R \<union> set (butlast (map fst xs)) \<noteq> {..<frag_count P L}" and "R \<union> set (map fst xs) = {..<frag_count P L}"
    and "xs \<noteq> []"
    and hyps: "0 < L" "0 < P" "P \<le> 65535" "dg_offset d = 0" "\<not> dg_more d"
      "dg_byteLen d = dg_headerLen d + int P" "1 < frag_count P L"
  shows "\<exists>bufs'. feed_fragments (map (\<lambda>(i, now). (fragment_at d P L i, now)) xs) bufs = Inr ([d], bufs') \<and>
    (\<forall>key. map_of bufs' key = (if key = frag_key d then None else map_of bufs0 key))"
  using assms(1-5)
proof (induction xs arbitrary: R bufs)
  case (Cons x xs)
  obtain i now where x: "x = (i, now)" by fastforce
  have "set (butlast (map fst (x # xs))) \<subseteq> {..<frag_count P L}"
    using Cons.prems(2) in_set_butlastD by (metis subset_iff)
  then have R: "R \<noteq> {..<frag_count P L}" using Cons.prems(3) by (metis Un_absorb2)
  have i: "i < frag_count P L" using Cons.prems(2) x by simp
  from add_fragment_step [OF Cons.prems(1) R i hyps(1-3) hyps(4-7), of now] obtain bufs' where
    s: "addFragment (fragment_at d P L i) now bufs = Inr (if insert i R = {..<frag_count P L} then Some d else None, bufs')"
      "insert i R \<noteq> {..<frag_count P L} \<Longrightarrow> collects d P L bufs0 (insert i R) bufs'"
      "insert i R = {..<frag_count P L} \<Longrightarrow>
        (\<forall>key. map_of bufs' key = (if key = frag_key d then None else map_of bufs0 key))" by blast
  show ?case
  proof (cases "xs = []")
    case True
    then have "insert i R = {..<frag_count P L}" using Cons.prems(4) x by simp
    then show ?thesis using s True x by simp
  next
    case False
    then have bl: "butlast (map fst (x # xs)) = i # butlast (map fst xs)" using x by simp
    have "insert i R \<union> set (butlast (map fst xs)) \<noteq> {..<frag_count P L}" using Cons.prems(3) unfolding bl by simp
    moreover from this have ni: "insert i R \<noteq> {..<frag_count P L}"
      using Cons.prems(2) in_set_butlastD [of _ "map fst xs"] by auto
    moreover have "insert i R \<union> set (map fst xs) = {..<frag_count P L}" using Cons.prems(4) x by simp
    ultimately obtain bufs'' where
      "feed_fragments (map (\<lambda>(i, now). (fragment_at d P L i, now)) xs) bufs' = Inr ([d], bufs'')"
      "\<forall>key. map_of bufs'' key = (if key = frag_key d then None else map_of bufs0 key)"
      using Cons.IH [OF s(2)] Cons.prems(2) False by auto
    then show ?thesis using s(1) ni x by simp
  qed
qed simp

section \<open>Properties\<close>

lemma fragment_positions:
  assumes "fragment_datagram mtu d = Inr ds" and "dg_byteLen d = dg_headerLen d + int P" and "0 < P"
  obtains L where "fragment_len mtu d = int L" "0 < L" "8 dvd L" "L \<le> nat (mtu - dg_headerLen d)"
    and "ds = map (fragment_at d P L) [0..<frag_count P L]"
proof -
  have "dg_byteLen d - dg_headerLen d = int P" using assms(2) by simp
  from fragment_datagram_at [OF assms(1) this] obtain L where
    L: "fragment_len mtu d = int L" "0 < L" "ds = map (fragment_at d P L) [0..<frag_count P L]" by blast
  have q: "(mtu - dg_headerLen d) sdiv 8 * 8 = int L" using L(1) by (simp add: fragment_len_def)
  have "8 dvd int L" by (metis q dvd_triv_right)
  then have d: "8 dvd L" by presburger
  have pos: "0 < (mtu - dg_headerLen d) sdiv 8" using q L(2) by (metis of_nat_0_less_iff zero_less_mult_pos2 zero_less_numeral)
  have "0 < mtu - dg_headerLen d"
  proof (rule ccontr)
    assume "\<not> 0 < mtu - dg_headerLen d"
    then have "(mtu - dg_headerLen d) sdiv 8 \<le> 0" by (auto simp: signed_divide_int_def sgn_if)
    then show False using pos by simp
  qed
  then have "(mtu - dg_headerLen d) sdiv 8 = (mtu - dg_headerLen d) div 8" by (simp add: signed_divide_int_def)
  then have "int L \<le> mtu - dg_headerLen d" using q by linarith
  then have "L \<le> nat (mtu - dg_headerLen d)" by linarith
  then show ?thesis using that [OF L(1,2) d] L(3) by blast
qed

text \<open>What every fragment keeps, and that no payload is lost.\<close>

lemma fragment_lengths:
  assumes "0 < L" and "k \<le> frag_count P L"
  shows "(\<Sum>f\<leftarrow>map (fragment_at d P L) [0..<k]. dg_byteLen f - dg_headerLen d) = int (frag_bound P L k)"
  using assms(2)
proof (induction k)
  case (Suc k)
  then have "(\<Sum>f\<leftarrow>map (fragment_at d P L) [0..<k]. dg_byteLen f - dg_headerLen d) = int (frag_bound P L k)" by simp
  moreover have "dg_byteLen (fragment_at d P L k) - dg_headerLen d = int (frag_bound P L (Suc k)) - int (frag_bound P L k)"
    by (simp add: fragment_at_def)
  ultimately show ?case by simp
qed (simp add: frag_bound_def)

lemma fragment_pieces:
  assumes "fragment_datagram mtu d = Inr ds" and "dg_headerLen d < dg_byteLen d" and "8 dvd dg_offset d"
  shows "ds \<noteq> []"
    and "\<forall>f \<in> set ds. dg_byteLen f \<le> mtu \<and> 8 dvd dg_offset f \<and> dg_headerLen d < dg_byteLen f \<and>
      dg_payload f = dg_payload d \<and> dg_headerLen f = dg_headerLen d \<and> dg_ttl f = dg_ttl d \<and> dg_src f = dg_src d \<and>
      dg_dest f = dg_dest d"
    and "(\<Sum>f\<leftarrow>ds. dg_byteLen f - dg_headerLen d) = dg_byteLen d - dg_headerLen d"
proof -
  define P where "P = nat (dg_byteLen d - dg_headerLen d)"
  have P: "dg_byteLen d = dg_headerLen d + int P" "0 < P" using assms(2) by (simp_all add: P_def)
  from fragment_positions [OF assms(1) P] obtain L where
    L: "0 < L" "8 dvd L" "L \<le> nat (mtu - dg_headerLen d)" and ds: "ds = map (fragment_at d P L) [0..<frag_count P L]" by metis
  let ?n = "frag_count P L"
  have n: "0 < ?n" using frag_count_iff [OF L(1), of 0 P] P(2) by simp
  then show "ds \<noteq> []" by (simp add: ds)
  have "dg_byteLen (fragment_at d P L i) \<le> mtu \<and> 8 dvd dg_offset (fragment_at d P L i) \<and>
      dg_headerLen d < dg_byteLen (fragment_at d P L i)" if "i < ?n" for i
  proof -
    have in1: "frag_bound P L i = i * L" "i * L < P"
      using frag_bound_inner [OF L(1) that] frag_count_iff [OF L(1), of i P] that by blast+
    have "frag_bound P L (Suc i) \<le> i * L + L" "i * L < frag_bound P L (Suc i)" using in1(2) L(1)
      by (simp_all add: frag_bound_def)
    moreover have "8 dvd int (i * L)" using L(2) by (simp add: dvd_mult int_dvd_int_iff [of 8, simplified])
    moreover have "int L \<le> mtu - dg_headerLen d" using L(1,3) by linarith
    ultimately have "int (frag_bound P L (Suc i)) - int (i * L) \<le> mtu - dg_headerLen d"
      "0 < int (frag_bound P L (Suc i)) - int (i * L)" "8 dvd int (i * L)" by linarith+
    then show ?thesis using in1(1) assms(3) by (simp add: fragment_at_def del: of_nat_mult)
  qed
  then show "\<forall>f \<in> set ds. dg_byteLen f \<le> mtu \<and> 8 dvd dg_offset f \<and> dg_headerLen d < dg_byteLen f \<and>
      dg_payload f = dg_payload d \<and> dg_headerLen f = dg_headerLen d \<and> dg_ttl f = dg_ttl d \<and> dg_src f = dg_src d \<and>
      dg_dest f = dg_dest d"
    by (auto simp: ds) (simp_all add: fragment_at_def)
  show "(\<Sum>f\<leftarrow>ds. dg_byteLen f - dg_headerLen d) = dg_byteLen d - dg_headerLen d"
    unfolding ds fragment_lengths [OF L(1) order_refl] frag_bound_end [OF L(1)] using P(1) by simp
qed

text \<open>
  C22: the fragments of a datagram that does not fit are no longer than the MTU, start at
  multiples of eight bytes, follow each other without gaps from the offset of the datagram to its
  end, and all but the last say that more follow; the last says what the datagram said.
\<close>

theorem fragments_tile_payload:
  assumes "fragment_datagram mtu d = Inr ds" and "dg_headerLen d < dg_byteLen d" and "8 dvd dg_offset d"
  shows "ds \<noteq> [] \<and>
    (\<forall>f \<in> set ds. dg_byteLen f \<le> mtu \<and> 8 dvd dg_offset f \<and> dg_headerLen f < dg_byteLen f \<and> dg_payload f = dg_payload d) \<and>
    dg_offset (hd ds) = dg_offset d \<and>
    (\<forall>i. Suc i < length ds \<longrightarrow> dg_more (ds ! i) \<and>
       dg_offset (ds ! Suc i) = dg_offset (ds ! i) + (dg_byteLen (ds ! i) - dg_headerLen d)) \<and>
    dg_more (last ds) = dg_more d \<and>
    dg_offset (last ds) + (dg_byteLen (last ds) - dg_headerLen d) = dg_offset d + (dg_byteLen d - dg_headerLen d)"
proof -
  define P where "P = nat (dg_byteLen d - dg_headerLen d)"
  have P: "dg_byteLen d = dg_headerLen d + int P" "0 < P" using assms(2) by (simp_all add: P_def)
  from fragment_positions [OF assms(1) P] obtain L where
    L: "0 < L" and ds: "ds = map (fragment_at d P L) [0..<frag_count P L]" by metis
  let ?n = "frag_count P L"
  have n: "0 < ?n" using frag_count_iff [OF L(1), of 0 P] P(2) by simp
  have last: "last ds = fragment_at d P L (?n - 1)" using n by (simp add: ds last_map)
  have "dg_offset (hd ds) = dg_offset d" using n by (simp add: ds hd_map fragment_at_def frag_bound_def)
  moreover have "dg_more (ds ! i) \<and>
      dg_offset (ds ! Suc i) = dg_offset (ds ! i) + (dg_byteLen (ds ! i) - dg_headerLen d)" if "Suc i < length ds" for i
    using that by (simp add: ds fragment_at_def)
  moreover have "dg_more (last ds) = dg_more d" using n by (simp add: last fragment_at_def)
  moreover have "dg_offset (last ds) + (dg_byteLen (last ds) - dg_headerLen d) = dg_offset d + (dg_byteLen d - dg_headerLen d)"
    using n frag_bound_end [OF L(1), of P] P(1) by (simp add: last fragment_at_def)
  ultimately show ?thesis using fragment_pieces [OF assms] by simp
qed

text \<open>
  C17: the buffer gives back exactly the datagram that was fragmented: whatever the order in which
  the fragments arrive and however often one is duplicated, nothing comes out before the last
  missing one arrives, then the datagram comes out once, and its buffer is gone.
\<close>

theorem reassembly_roundtrip:
  assumes "fragment_datagram mtu d = Inr ds" and "mtu < dg_byteLen d"
    and "dg_byteLen d - dg_headerLen d \<le> 65535" and "dg_offset d = 0" and "\<not> dg_more d"
    and "map_of bufs (frag_key d) = None"
    and "set (map fst xs) = set ds" and "set (butlast (map fst xs)) \<noteq> set ds"
  shows "\<exists>bufs'. feed_fragments xs bufs = Inr ([d], bufs') \<and> map_of bufs' = map_of bufs"
proof -
  have l: "0 < fragment_len mtu d" using assms(1) by (auto simp: fragment_datagram_def split: if_splits)
  have "dg_headerLen d < mtu"
  proof (rule ccontr)
    assume "\<not> dg_headerLen d < mtu"
    then have "(mtu - dg_headerLen d) sdiv 8 \<le> 0" by (auto simp: signed_divide_int_def sgn_if)
    then show False using l by (simp add: fragment_len_def)
  qed
  then have h: "dg_headerLen d < dg_byteLen d" using assms(2) by simp
  define P where "P = nat (dg_byteLen d - dg_headerLen d)"
  have P: "dg_byteLen d = dg_headerLen d + int P" "0 < P" "P \<le> 65535" using h assms(3) by (simp_all add: P_def)
  from fragment_positions [OF assms(1) P(1,2)] obtain L where
    L: "0 < L" "L \<le> nat (mtu - dg_headerLen d)" and ds: "ds = map (fragment_at d P L) [0..<frag_count P L]" by metis
  let ?n = "frag_count P L"
  have b: "boundaries (frag_bound P L) ?n" by (rule frag_boundaries [OF L(1) P(2,3)])
  have "1 * L < P" using L(2) assms(2) P(1) \<open>dg_headerLen d < mtu\<close> by simp
  then have n: "1 < ?n" using frag_count_iff [OF L(1), of 1 P] by blast
  have inj: "inj_on (fragment_at d P L) {..<?n}"
  proof (rule inj_onI)
    fix i j assume ij: "i \<in> {..<?n}" "j \<in> {..<?n}" "fragment_at d P L i = fragment_at d P L j"
    have "frag_bound P L i = frag_bound P L j"
      using arg_cong [OF ij(3), of dg_offset] by (simp add: fragment_at_def)
    then show "i = j" using ij(1,2) frag_bound_inner [OF L(1)] L(1) by simp
  qed
  define g where "g = the_inv_into {..<?n} (fragment_at d P L)"
  let ?ys = "map (\<lambda>(f, now). (g f, now)) xs"
  have ds_set: "set ds = fragment_at d P L ` {..<?n}" by (auto simp: ds)
  have fg: "fragment_at d P L (g f) = f" "g f < ?n" if "f \<in> set ds" for f
    using that inj the_inv_into_into [OF inj, of f "{..<?n}"] by (auto simp: g_def ds_set f_the_inv_into_f)
  have fst_ys: "map fst ?ys = map g (map fst xs)" by (simp add: case_prod_unfold)
  have xs_ds: "fst x \<in> set ds" if "x \<in> set xs" for x using assms(7) that by auto
  have restored: "map (\<lambda>(i, now). (fragment_at d P L i, now)) ?ys = xs"
    using xs_ds fg(1) by (auto simp: map_idI case_prod_unfold o_def intro!: map_idI)
  have gd: "g ` set ds = {..<?n}"
    unfolding ds_set g_def using inj by (simp add: image_image the_inv_into_f_f [OF inj])
  have "collects d P L bufs {} bufs" using assms(6) by (simp add: collects_def)
  moreover have "set (map fst ?ys) \<subseteq> {..<?n}" using assms(7) gd unfolding fst_ys by (metis list.set_map order_refl)
  moreover have "{} \<union> set (map fst ?ys) = {..<?n}" using assms(7) gd unfolding fst_ys by (metis Un_empty_left list.set_map)
  moreover have "{} \<union> set (butlast (map fst ?ys)) \<noteq> {..<?n}"
  proof
    assume "{} \<union> set (butlast (map fst ?ys)) = {..<?n}"
    then have e: "g ` set (butlast (map fst xs)) = {..<?n}" unfolding fst_ys map_butlast [symmetric] by (simp add: image_image)
    have sub: "set (butlast (map fst xs)) \<subseteq> set ds" using assms(7) by (metis in_set_butlastD subsetI)
    have "fragment_at d P L ` g ` set (butlast (map fst xs)) = set (butlast (map fst xs))"
      using sub fg(1) by (force simp: image_iff)
    then show False using assms(8) unfolding e ds_set by simp
  qed
  moreover have "?ys \<noteq> []" using assms(7) n by (auto simp: ds)
  ultimately obtain bufs' where
    f: "feed_fragments (map (\<lambda>(i, now). (fragment_at d P L i, now)) ?ys) bufs = Inr ([d], bufs')"
    and m: "\<forall>key. map_of bufs' key = (if key = frag_key d then None else map_of bufs key)"
    using feed_all [of d P L bufs "{}" bufs ?ys] L(1) P assms(4,5) n by blast
  have "map_of bufs' key = map_of bufs key" for key
    using assms(6) by (cases "key = frag_key d") (simp_all only: m if_True if_False refl)
  then show ?thesis using f unfolding restored by (intro exI [of _ bufs'] conjI ext)
qed

text \<open>A datagram of 100 bytes over a link that takes 60: two fragments of 40 bytes of payload.\<close>

definition example_datagram :: datagram where
  "example_datagram =
     \<lparr>dg_src = 1, dg_dest = 2, dg_proto = IP_PROT_UDP, dg_ttl = 3, dg_ident = 4, dg_more = False,
      dg_dont = False, dg_offset = 0, dg_tos = 0, dg_headerLen = 20, dg_byteLen = 100, dg_bitError = False,
      dg_payload = Some (UDPPacket 5 6 None, 80), dg_arrival = None, dg_loop = None\<rparr>"

lemma example_fragments:
  "fragment_datagram 60 example_datagram = Inr
     [example_datagram\<lparr>dg_more := True, dg_byteLen := 60\<rparr>, example_datagram\<lparr>dg_byteLen := 60, dg_offset := 40\<rparr>]"
  by (simp add: fragment_datagram_def fragment_len_def example_datagram_def signed_divide_int_def
      fragment_list.simps Let_def)

theorem fragments_tile_payload_witness:
  "dg_more (example_datagram\<lparr>dg_more := True, dg_byteLen := 60\<rparr>) \<and>
   dg_offset (example_datagram\<lparr>dg_byteLen := 60, dg_offset := 40\<rparr>) = 40"
  using fragments_tile_payload [OF example_fragments] by (simp add: example_datagram_def)

theorem reassembly_roundtrip_witness:
  "\<exists>bufs'. feed_fragments
       [(example_datagram\<lparr>dg_byteLen := 60, dg_offset := 40\<rparr>, 7), (example_datagram\<lparr>dg_byteLen := 60, dg_offset := 40\<rparr>, 8),
        (example_datagram\<lparr>dg_more := True, dg_byteLen := 60\<rparr>, 9)] [] = Inr ([example_datagram], bufs') \<and>
     map_of bufs' = map_of []"
  by (rule reassembly_roundtrip [OF example_fragments]) (auto simp: example_datagram_def)

end
