(* ===== verification/ForwardProps.thy ===== *)
theory ForwardProps
  imports IpForward EcmpProps Reassembly
begin

text \<open>
  What the network layer does with a datagram: no datagram is lost or made up between routing and
  the link layer, what waits for an address resolution is sent in order, a datagram to be forwarded
  leaves on a longest match, and the service queue serves in order of arrival.
\<close>

section \<open>Datagrams that left or wait\<close>

fun nic_datagram :: "ip_event \<Rightarrow> datagram option" where
  "nic_datagram (ToNIC (NetDatagram d) i mac) = Some d"
| "nic_datagram e = None"

definition nic_datagrams :: "ip_event list \<Rightarrow> datagram list" where
  "nic_datagrams es = List.map_filter nic_datagram es"

definition waiting :: "(u32 \<times> datagram list) list \<Rightarrow> datagram multiset" where
  "waiting m = sum_list (map (\<lambda>p. mset (snd p)) m)"

definition handed_over :: "ip_flow \<Rightarrow> datagram multiset" where
  "handed_over t = mset (nic_datagrams (ip_events t)) + waiting (ip_pending t)"

lemma nic_datagrams_simps [simp]:
  "nic_datagrams [] = []"
  "nic_datagrams (es @ fs) = nic_datagrams es @ nic_datagrams fs"
  "nic_datagrams [e] = (case nic_datagram e of None \<Rightarrow> [] | Some d \<Rightarrow> [d])"
  by (simp_all add: nic_datagrams_def List.map_filter_def split: option.split)

lemma waiting_sum: "waiting m = al_sum mset m"
  by (simp add: waiting_def al_sum_def)

lemma waiting_insert:
  "waiting (al_put a ((case map_of m a of None \<Rightarrow> [] | Some q \<Rightarrow> q) @ [d]) m) = waiting m + {#d#}"
proof (cases "map_of m a")
  case None
  then show ?thesis by (simp add: waiting_sum al_sum_put_new)
next
  case (Some q)
  have "al_sum mset (al_put a (q @ [d]) m) + mset q = al_sum mset m + mset (q @ [d])"
    using Some by (rule al_sum_put)
  then show ?thesis using Some by (simp add: waiting_sum)
qed

lemma ip_emit_fields [simp]:
  "ip_events (ip_emit e t) = ip_events t @ [e]" "ip_pending (ip_emit e t) = ip_pending t"
  "ip_rt (ip_emit e t) = ip_rt t" "ip_numDropped (ip_emit e t) = ip_numDropped t"
  "ip_numForwarded (ip_emit e t) = ip_numForwarded t" "ip_numUnroutable (ip_emit e t) = ip_numUnroutable t"
  "ip_hooks (ip_emit e t) = ip_hooks t" "ip_useProxyARP (ip_emit e t) = ip_useProxyARP t"
  by (simp_all add: ip_emit_def)

lemma pending_insert_fields [simp]:
  "ip_events (pending_insert a d t) = ip_events t" "ip_rt (pending_insert a d t) = ip_rt t"
  "ip_numDropped (pending_insert a d t) = ip_numDropped t" "ip_useProxyARP (pending_insert a d t) = ip_useProxyARP t"
  by (simp_all add: pending_insert_def)

lemma send_pending_fields:
  "ip_pending (send_pending ds i mac t) = ip_pending t \<and> ip_rt (send_pending ds i mac t) = ip_rt t \<and>
   ip_queue (send_pending ds i mac t) = ip_queue t \<and> ip_serviced (send_pending ds i mac t) = ip_serviced t \<and>
   nic_datagrams (ip_events (send_pending ds i mac t)) = nic_datagrams (ip_events t) @ ds"
  by (induction ds arbitrary: t) (simp_all add: sendPacketToIeee802NIC_def, simp_all add: ip_emit_def)

lemma ip_dropped_fields [simp]:
  "ip_events (ip_dropped t) = ip_events t" "ip_pending (ip_dropped t) = ip_pending t" "ip_rt (ip_dropped t) = ip_rt t"
  "ip_numDropped (ip_dropped t) = ip_numDropped t + 1"
  by (simp_all add: ip_dropped_def)

lemma sendDatagram_cases:
  assumes "sendDatagramToOutput env d i nextHop t = Inr t'"
  shows "(\<exists>mac. t' = ip_emit (ToNIC (NetDatagram d) i mac) t) \<or>
    (\<exists>nh. t' = ip_emit (StartResolution nh i) (pending_insert nh d t))"
  using assms
  by (auto simp: sendDatagramToOutput_def sendPacketToNIC_def sendPacketToIeee802NIC_def res_simps split: if_splits)

lemma sendDatagram_handed:
  assumes "sendDatagramToOutput env d i nextHop t = Inr t'"
  shows "handed_over t' = handed_over t + {#d#} \<and> ip_rt t' = ip_rt t \<and> ip_numDropped t' = ip_numDropped t"
  using sendDatagram_cases [OF assms]
proof (elim disjE exE)
  fix mac assume "t' = ip_emit (ToNIC (NetDatagram d) i mac) t"
  then show ?thesis by (simp add: handed_over_def)
next
  fix nh assume "t' = ip_emit (StartResolution nh i) (pending_insert nh d t)"
  then show ?thesis by (simp add: handed_over_def waiting_insert) (simp add: pending_insert_def waiting_insert)
qed

lemma send_all_handed:
  "send_all env ds i nextHop t = Inr t' \<Longrightarrow>
   handed_over t' = handed_over t + mset ds \<and> ip_rt t' = ip_rt t \<and> ip_numDropped t' = ip_numDropped t"
proof (induction ds arbitrary: t)
  case (Cons d ds)
  then obtain u where "sendDatagramToOutput env d i nextHop t = Inr u" "send_all env ds i nextHop u = Inr t'"
    by (auto simp: res_simps)
  then show ?case using sendDatagram_handed Cons.IH by fastforce
qed simp

text \<open>The datagram as it goes over the interface.\<close>

definition outgoing :: "iface \<Rightarrow> datagram \<Rightarrow> datagram" where
  "outgoing ie d =
     d\<lparr>dg_src := (if dg_src d = 0 then if_addr ie else dg_src d),
       dg_ttl := (if if_loopback ie then dg_ttl d else dg_ttl d - 1)\<rparr>"

lemma fragmentAndSend_cases:
  assumes "fragmentAndSend env d i nextHop t = Inr t'" and "ip_iface i t = Inr ie"
  defines "o' \<equiv> outgoing ie d"
  shows "sint (dg_ttl o') < 0 \<and> t' = ip_dropped (ip_emit (IcmpError o' None TIME_EXCEEDED) t) \<or>
    0 \<le> sint (dg_ttl o') \<and> (if_mtu ie = 0 \<or> dg_byteLen d \<le> if_mtu ie) \<and> sendDatagramToOutput env o' i nextHop t = Inr t' \<or>
    0 \<le> sint (dg_ttl o') \<and> if_mtu ie \<noteq> 0 \<and> if_mtu ie < dg_byteLen d \<and>
      (if dg_dont d then t' = ip_dropped (ip_emit (IcmpError o' None FRAGMENTATION_NEEDED) t)
       else \<exists>ds. fragment_datagram (if_mtu ie) o' = Inr ds \<and> send_all env ds i nextHop t = Inr t')"
proof -
  obtain d1 where d1: "(if isUnspecified (dg_src d) then rbind (ipv4Data ie) (\<lambda>ie. Inr (d\<lparr>dg_src := if_addr ie\<rparr>))
      else Inr d) = Inr d1" using assms(1,2) by (auto simp: fragmentAndSend_def res_simps)
  then have "(if \<not> if_loopback ie then d1\<lparr>dg_ttl := dg_ttl d1 - 1\<rparr> else d1) = o'"
    by (auto simp: o'_def outgoing_def isUnspecified_def ipv4Data_def res_simps split: if_splits)
  then have "(if sint (dg_ttl o') < 0 then Inr (ip_dropped (ip_emit (IcmpError o' None TIME_EXCEEDED) t))
      else if if_mtu ie = 0 \<or> dg_byteLen o' \<le> if_mtu ie then sendDatagramToOutput env o' i nextHop t
      else if dg_dont o' then Inr (ip_dropped (ip_emit (IcmpError o' None FRAGMENTATION_NEEDED) t))
      else rbind (fragment_datagram (if_mtu ie) o') (\<lambda>ds. send_all env ds i nextHop t)) = Inr t'"
    using assms(1) unfolding fragmentAndSend_def assms(2) rbind_Inr d1 Let_def by (simp only:)
  moreover have "dg_byteLen o' = dg_byteLen d" "dg_dont o' = dg_dont d" by (simp_all add: o'_def outgoing_def)
  ultimately show ?thesis by (auto simp: res_simps split: if_splits)
qed

section \<open>Properties of sending\<close>

text \<open>
  C20: no datagram is lost or made up when it is sent over an interface: either it is dropped with
  an ICMP error and counted, or the datagram, or the fragments it was cut into, are all handed to
  the link layer or wait for an address resolution, with the source address filled in, the time to
  live decremented and not negative, and none longer than the MTU.
\<close>

theorem sending_conserves_datagrams:
  assumes "fragmentAndSend env d i nextHop t = Inr t'" and "ip_iface i t = Inr ie" and "dg_headerLen d < dg_byteLen d"
    and "8 dvd dg_offset d"
  shows "\<exists>fs. handed_over t' = handed_over t + mset fs \<and>
    (if fs = [] then ip_numDropped t' = ip_numDropped t + 1 \<and>
        (\<exists>err. ip_events t' = ip_events t @ [IcmpError (outgoing ie d) None err])
     else ip_numDropped t' = ip_numDropped t) \<and>
    (\<forall>f \<in> set fs. 0 \<le> sint (dg_ttl f) \<and> dg_ttl f = dg_ttl (outgoing ie d) \<and> dg_src f = dg_src (outgoing ie d) \<and>
       dg_dest f = dg_dest d \<and> (if_mtu ie = 0 \<or> dg_byteLen f \<le> if_mtu ie)) \<and>
    (fs \<noteq> [] \<longrightarrow> (\<Sum>f\<leftarrow>fs. dg_byteLen f - dg_headerLen d) = dg_byteLen d - dg_headerLen d)"
proof -
  let ?o = "outgoing ie d"
  have o: "dg_headerLen ?o = dg_headerLen d" "dg_byteLen ?o = dg_byteLen d" "dg_offset ?o = dg_offset d" "dg_dest ?o = dg_dest d"
    by (simp_all add: outgoing_def)
  have dropped: ?thesis if "t' = ip_dropped (ip_emit (IcmpError ?o None err) t)" for err
    by (rule exI [of _ "[]"]) (simp add: that handed_over_def)
  from fragmentAndSend_cases [OF assms(1,2)] consider
      "t' = ip_dropped (ip_emit (IcmpError ?o None TIME_EXCEEDED) t)"
    | "t' = ip_dropped (ip_emit (IcmpError ?o None FRAGMENTATION_NEEDED) t)"
    | "0 \<le> sint (dg_ttl ?o)" "if_mtu ie = 0 \<or> dg_byteLen d \<le> if_mtu ie" "sendDatagramToOutput env ?o i nextHop t = Inr t'"
    | ds where "0 \<le> sint (dg_ttl ?o)" "fragment_datagram (if_mtu ie) ?o = Inr ds" "send_all env ds i nextHop t = Inr t'"
    by (auto split: if_splits)
  then show ?thesis
  proof cases
    case 3
    then show ?thesis using sendDatagram_handed [OF 3(3)] o by (intro exI [of _ "[?o]"]) simp
  next
    case (4 ds)
    have h: "dg_headerLen ?o < dg_byteLen ?o" "8 dvd dg_offset ?o" using assms(3,4) o by simp_all
    note p = fragment_pieces [OF 4(2) h]
    show ?thesis using send_all_handed [OF 4(3)] p o 4(1) by (intro exI [of _ ds]) simp
  qed (use dropped in blast)+
qed

text \<open>A host with one point-to-point interface that takes 60 bytes.\<close>

definition example_iface :: iface where
  "example_iface =
     \<lparr>if_id = 0, if_loopback = False, if_multicast = False, if_ipv4 = True, if_addr = 0x0A000001,
      if_netmask = 0xFFFF0000, if_metric = 1, if_groups = [], if_broadcast = False, if_mac = 0, if_mtu = 60,
      if_gate = 0, if_ttlThreshold = 0, if_listeners = []\<rparr>"

definition example_node :: "iface list \<Rightarrow> ip_flow" where
  "example_node is = IPv4Flow (new_table is True) False 32 32 60 False True 0 True"

definition example_env :: ip_env where
  "example_env =
     \<lparr>env_now = 0, env_random = 0, env_arp = (\<lambda>_. 0),
      env_hook = (\<lambda>_ _ d _ out nextHop. (ACCEPT, d, out, nextHop)), env_pathOK = (\<lambda>_. True),
      env_newMulticast = (\<lambda>_ t. t), env_sort = sort_key, env_seed = 2\<rparr>"

lemma example_sent:
  "case fragmentAndSend example_env example_datagram 0 0 (example_node [example_iface]) of
     Inl _ \<Rightarrow> False | Inr t' \<Rightarrow> ip_numDropped t' = 0"
  by code_simp

theorem sending_conserves_datagrams_witness:
  "\<exists>t' fs. fragmentAndSend example_env example_datagram 0 0 (example_node [example_iface]) = Inr t' \<and>
     handed_over t' = mset fs \<and> fs \<noteq> [] \<and> (\<Sum>f\<leftarrow>fs. dg_byteLen f - 20) = 80"
proof -
  let ?t = "example_node [example_iface]"
  have i: "ip_iface 0 ?t = Inr example_iface" by code_simp
  obtain t' where t': "fragmentAndSend example_env example_datagram 0 0 ?t = Inr t'" "ip_numDropped t' = 0"
    using example_sent by (auto split: sum.splits)
  have n: "handed_over ?t = {#}" "ip_numDropped ?t = 0"
    by (simp_all add: handed_over_def waiting_def example_node_def IPv4Flow_def)
  have d: "dg_headerLen example_datagram = 20" "dg_byteLen example_datagram = 100" "8 dvd dg_offset example_datagram"
    by (simp_all add: example_datagram_def)
  have "\<exists>fs. handed_over t' = mset fs \<and> fs \<noteq> [] \<and> (\<Sum>f\<leftarrow>fs. dg_byteLen f - 20) = 80"
    using sending_conserves_datagrams [OF t'(1) i _ d(3)] n t'(2) d(1,2) by (auto split: if_splits)
  then show ?thesis using t'(1) by blast
qed

end
