(* ===== verification/IpRun.thy ===== *)
theory IpRun
  imports ForwardProps
begin

text \<open>
  What all handlers of the network layer have in common.  They read and change the state only
  through a few primitive steps, so a relation between two states that the primitive steps keep is
  kept by every handler; a state invariant is the special case of one state.  Three relations are
  used: the service queue does not matter to a handler, the routing table stays one that its
  operations and lookups lead to, and what is handed to the link layer has a time to live.
\<close>

section \<open>Relations kept by the primitive steps\<close>

fun link_datagram :: "ip_event \<Rightarrow> bool" where
  "link_datagram (ToNIC (NetDatagram d) i mac) \<longleftrightarrow> True"
| "link_datagram e \<longleftrightarrow> False"

definition same_reads :: "ip_flow \<Rightarrow> ip_flow \<Rightarrow> bool" where
  "same_reads t u \<longleftrightarrow>
     ip_rt t = ip_rt u \<and> ip_multicastForward t = ip_multicastForward u \<and> ip_defaultTTL t = ip_defaultTTL u \<and>
     ip_defaultMCTTL t = ip_defaultMCTTL u \<and> ip_fragmentTimeout t = ip_fragmentTimeout u \<and>
     ip_forceBroadcast t = ip_forceBroadcast u \<and> ip_up t = ip_up u \<and>
     ip_curFragmentId t = ip_curFragmentId u \<and> ip_fragbuf t = ip_fragbuf u \<and>
     ip_lastCheck t = ip_lastCheck u \<and> ip_mapping t = ip_mapping u \<and> ip_hooks t = ip_hooks u"

definition rel_res :: "('a \<Rightarrow> 'b \<Rightarrow> bool) \<Rightarrow> 'a res \<Rightarrow> 'b res \<Rightarrow> bool" where
  "rel_res S = rel_sum (=) S"

named_theorems ip_rel \<open>steps that keep a relation between states\<close>

lemma rel_res_simps [simp]:
  "rel_res S (Inl e) (Inl f) \<longleftrightarrow> e = f" "rel_res S (Inr x) (Inr y) \<longleftrightarrow> S x y"
  "\<not> rel_res S (Inr x) (Inl e)" "\<not> rel_res S (Inl e) (Inr y)"
  by (simp_all add: rel_res_def)

lemma rel_bind:
  "rel_res S a b \<Longrightarrow> (\<And>x y. S x y \<Longrightarrow> rel_res T (f x) (g y)) \<Longrightarrow> rel_res T (rbind a f) (rbind b g)"
  by (cases a; cases b) (simp_all add: rel_res_def)

lemma rel_bind_same:
  "(\<And>x. rel_res T (f x) (g x)) \<Longrightarrow> rel_res T (rbind a f) (rbind a g)"
  by (cases a) simp_all

lemma rel_bind_state:
  "rel_res (rel_prod (=) R) a b \<Longrightarrow> (\<And>x t u. R t u \<Longrightarrow> rel_res T (f (x, t)) (g (x, u))) \<Longrightarrow>
   rel_res T (rbind a f) (rbind b g)"
  by (erule rel_bind [where S = "rel_prod (=) R"]) auto

lemma rel_if:
  "(b \<Longrightarrow> rel_res T x x') \<Longrightarrow> (\<not> b \<Longrightarrow> rel_res T y y') \<Longrightarrow> rel_res T (if b then x else y) (if b then x' else y')"
  by simp

locale ip_relation =
  fixes R :: "ip_flow \<Rightarrow> ip_flow \<Rightarrow> bool" and env :: ip_env
  assumes reads: "R t u \<Longrightarrow> same_reads t u"
    and emit: "R t u \<Longrightarrow> \<not> link_datagram e \<Longrightarrow> R (ip_emit e t) (ip_emit e u)"
    and emits: "R t u \<Longrightarrow> R (t\<lparr>ip_lastCheck := c, ip_events := ip_events t @ map (\<lambda>d. IcmpError d None TIME_EXCEEDED) ds\<rparr>)
        (u\<lparr>ip_lastCheck := c, ip_events := ip_events u @ map (\<lambda>d. IcmpError d None TIME_EXCEEDED) ds\<rparr>)"
    and fragbuf: "R t u \<Longrightarrow> R (t\<lparr>ip_fragbuf := b\<rparr>) (u\<lparr>ip_fragbuf := b\<rparr>)"
    and counters: "R t u \<Longrightarrow> R (t\<lparr>ip_numDropped := ip_numDropped t + 1\<rparr>) (u\<lparr>ip_numDropped := ip_numDropped u + 1\<rparr>)"
      "R t u \<Longrightarrow> R (t\<lparr>ip_numForwarded := ip_numForwarded t + 1\<rparr>) (u\<lparr>ip_numForwarded := ip_numForwarded u + 1\<rparr>)"
      "R t u \<Longrightarrow> R (t\<lparr>ip_numUnroutable := ip_numUnroutable t + 1\<rparr>) (u\<lparr>ip_numUnroutable := ip_numUnroutable u + 1\<rparr>)"
      "R t u \<Longrightarrow> R (t\<lparr>ip_numMulticast := ip_numMulticast t + 1\<rparr>) (u\<lparr>ip_numMulticast := ip_numMulticast u + 1\<rparr>)"
      "R t u \<Longrightarrow> R (t\<lparr>ip_numLocalDeliver := ip_numLocalDeliver t + 1\<rparr>) (u\<lparr>ip_numLocalDeliver := ip_numLocalDeliver u + 1\<rparr>)"
    and queued: "R t u \<Longrightarrow> R (t\<lparr>ip_queued := ip_queued t @ [q]\<rparr>) (u\<lparr>ip_queued := ip_queued u @ [q]\<rparr>)"
    and fragmentId: "R t u \<Longrightarrow> R (t\<lparr>ip_curFragmentId := n\<rparr>) (u\<lparr>ip_curFragmentId := n\<rparr>)"
    and lookups: "R t u \<Longrightarrow> lookup (env_sort env) (env_seed env) f (ip_rt u) = Inr (v, rt) \<Longrightarrow>
        R (t\<lparr>ip_rt := rt\<rparr>) (u\<lparr>ip_rt := rt\<rparr>)"
    and addresses: "R t u \<Longrightarrow> isLocalAddress a (ip_rt u) = (own, rt) \<Longrightarrow> R (t\<lparr>ip_rt := rt\<rparr>) (u\<lparr>ip_rt := rt\<rparr>)"
      "R t u \<Longrightarrow> isLocalBroadcastAddress a (ip_rt u) = (own, rt) \<Longrightarrow> R (t\<lparr>ip_rt := rt\<rparr>) (u\<lparr>ip_rt := rt\<rparr>)"
    and multicasts: "R t u \<Longrightarrow> R (t\<lparr>ip_rt := env_newMulticast env d (ip_rt u)\<rparr>) (u\<lparr>ip_rt := env_newMulticast env d (ip_rt u)\<rparr>)"
    and send: "R t u \<Longrightarrow> rel_res R (fragmentAndSend env d i nextHop t) (fragmentAndSend env d i nextHop u)"
begin

lemma read:
  "R t u \<Longrightarrow> ip_rt t = ip_rt u \<and> ip_defaultTTL t = ip_defaultTTL u \<and> ip_defaultMCTTL t = ip_defaultMCTTL u \<and>
     ip_fragmentTimeout t = ip_fragmentTimeout u \<and> ip_curFragmentId t = ip_curFragmentId u \<and>
     ip_fragbuf t = ip_fragbuf u \<and> ip_lastCheck t = ip_lastCheck u \<and> ip_mapping t = ip_mapping u \<and>
     ip_hooks t = ip_hooks u"
  by (drule reads) (simp add: same_reads_def)

lemma flags:
  "R t u \<Longrightarrow> ip_multicastForward t = ip_multicastForward u"
  "R t u \<Longrightarrow> ip_forceBroadcast t = ip_forceBroadcast u" "R t u \<Longrightarrow> ip_up t = ip_up u"
  by (drule reads, simp add: same_reads_def)+

lemma dropped: "R t u \<Longrightarrow> R (ip_dropped t) (ip_dropped u)"
  unfolding ip_dropped_def by (rule counters)

lemma ask: "R t u \<Longrightarrow> rel_prod (=) R (ask_hooks env ty hs d inIE outIE nextHop t) (ask_hooks env ty hs d inIE outIE nextHop u)"
  by (induction hs arbitrary: d outIE nextHop) (auto split: prod.split hook_result.split intro: queued)

lemma hook:
  assumes "R t u" and "\<And>d out nextHop t u. R t u \<Longrightarrow> rel_res R (k d out nextHop t) (k d out nextHop u)"
  shows "rel_res R (datagramHook env ty d inIE outIE nextHop t k) (datagramHook env ty d inIE outIE nextHop u k)"
  using ask [OF assms(1), of ty "ip_hooks u" d inIE outIE nextHop] assms(2) read [OF assms(1)]
  by (auto simp: datagramHook_def rel_prod_conv split: prod.splits option.splits)

lemma posted: "R t u \<Longrightarrow> rel_res R (fragmentPostRouting env d i nextHop t) (fragmentPostRouting env d i nextHop u)"
  unfolding fragmentPostRouting_def by (intro hook rel_bind_same send)

lemma icmp: "R t u \<Longrightarrow> rel_res R (handleIncomingICMP pc t) (handleIncomingICMP pc u)"
  using read [of t u]
  by (auto simp: handleIncomingICMP_def intro!: rel_bind_same emit split: prod.split transport_pkt.split)

lemma delivered: "R t u \<Longrightarrow> rel_res R (reassembleAndDeliverFinish env d t) (reassembleAndDeliverFinish env d u)"
  using read [of t u] unfolding reassembleAndDeliverFinish_def decapsulate_def Let_def
  by (auto intro!: rel_bind_same rel_bind [OF icmp] emit counters)

lemma reassembled:
  assumes "R t u"
  shows "rel_res R (reassembleAndDeliver env d t) (reassembleAndDeliver env d u)"
  unfolding reassembleAndDeliver_def Let_def
proof (rule rel_bind_state [where R = R])
  fix x t u assume "R t u"
  then show "rel_res R (case (x, t) of (whole, t) \<Rightarrow> case whole of None \<Rightarrow> Inr t | Some d \<Rightarrow>
        datagramHook env LOCALIN d (dg_arrival d) None 0 t (\<lambda>d _ _. reassembleAndDeliverFinish env d))
      (case (x, u) of (whole, t) \<Rightarrow> case whole of None \<Rightarrow> Inr t | Some d \<Rightarrow>
        datagramHook env LOCALIN d (dg_arrival d) None 0 t (\<lambda>d _ _. reassembleAndDeliverFinish env d))"
    by (auto intro!: hook delivered split: option.split)
qed (use read [OF assms] assms in \<open>auto intro!: rel_bind_same emits fragbuf split: prod.split\<close>)

lemma looked_up: "R t u \<Longrightarrow> rel_res (rel_prod (=) R) (ip_lookup env f t) (ip_lookup env f u)"
proof -
  assume a: "R t u"
  then have e: "ip_rt t = ip_rt u" using read by blast
  show ?thesis
  proof (cases "lookup (env_sort env) (env_seed env) f (ip_rt u)")
    case (Inr p)
    then show ?thesis using lookups [OF a] by (cases p) (auto simp: ip_lookup_def e intro!: rel_bind_same)
  qed (simp add: ip_lookup_def e)
qed

lemma finished: "R t u \<Longrightarrow> rel_res R (routeUnicastPacketFinish env d i nextHop t) (routeUnicastPacketFinish env d i nextHop u)"
  unfolding routeUnicastPacketFinish_def by (intro posted counters)

lemma chosen:
  assumes "R t u"
  shows "rel_res (rel_prod (=) (rel_prod (=) R)) (choose_route env d out nextHop t) (choose_route env d out nextHop u)"
  unfolding choose_route_def ip_iface_def
  using read [OF assms] assms
  by (auto intro!: rel_bind_same rel_bind_state [OF looked_up] split: option.split)

lemma routed: "R t u \<Longrightarrow> rel_res R (routeUnicastPacket env d from out nextHop t) (routeUnicastPacket env d from out nextHop u)"
  unfolding routeUnicastPacket_def
  by (rule rel_bind [OF chosen], assumption)
    (auto intro!: finished hook rel_bind_same emit counters split: option.split)

lemma broadcasts: "R t u \<Longrightarrow> rel_res R (broadcast_all env d is t) (broadcast_all env d is u)"
  by (induction "is" arbitrary: t u) (auto intro!: rel_bind [OF posted])

lemma local_broadcast: "R t u \<Longrightarrow> rel_res R (routeLocalBroadcastPacket env d out t) (routeLocalBroadcastPacket env d out u)"
  using read [of t u] flags(2) [of t u] by (auto simp: routeLocalBroadcastPacket_def intro!: posted broadcasts dropped split: option.split)

lemma to_source:
  assumes a: "R t u"
  shows "rel_res (rel_prod (=) R) (getShortestPathInterfaceToSource env d t) (getShortestPathInterfaceToSource env d u)"
proof (cases "lookup (env_sort env) (env_seed env) (ByDest (dg_src d)) (ip_rt u)")
  case (Inr p)
  then show ?thesis using lookups [OF a] read [OF a]
    by (cases p) (auto simp: getShortestPathInterfaceToSource_def getInterfaceForDestAddr_def rbind_assoc
        intro!: rel_bind_same split: option.split)
qed (use read [OF a] in \<open>simp add: getShortestPathInterfaceToSource_def getInterfaceForDestAddr_def\<close>)

lemma copies:
  "R t u \<Longrightarrow> rel_res R (forward_copies env d from leaves outs t) (forward_copies env d from leaves outs u)"
proof (induction outs arbitrary: t u)
  case (Cons i outs)
  then show ?case using read [OF Cons.prems]
    by (auto simp: ip_iface_def intro!: rel_bind [where S = R] rel_bind_same posted)
qed simp

lemma multicast_found:
  assumes "R t u"
  shows "rel_res (rel_prod (=) R) (multicast_route env d t) (multicast_route env d u)"
  unfolding multicast_route_def Let_def
  using read [OF assms] assms multicasts [OF assms] by (auto intro!: rel_bind_same split: option.split)

lemma same_mroute:
  "R t u \<Longrightarrow> (\<And>e. rel_res T (f e) (g e)) \<Longrightarrow> rel_res T (rbind (live_mroute r (ip_rt t)) f) (rbind (live_mroute r (ip_rt u)) g)"
  using read [of t u] by (auto intro: rel_bind_same)

lemma same_iface:
  "R t u \<Longrightarrow> (\<And>e. rel_res T (f e) (g e)) \<Longrightarrow> rel_res T (rbind (ip_iface i t) f) (rbind (ip_iface i u) g)"
  using read [of t u] by (auto simp: ip_iface_def intro: rel_bind_same)

lemma forwarded:
  "R t u \<Longrightarrow> \<not> link_datagram e \<Longrightarrow>
   R (ip_emit e t\<lparr>ip_numForwarded := ip_numForwarded t + 1\<rparr>) (ip_emit e u\<lparr>ip_numForwarded := ip_numForwarded u + 1\<rparr>)"
  using counters(2) [OF emit] by simp

lemma multicast_forwarded:
  assumes "R t u"
  shows "rel_res R (forwardMulticastPacket env d from t) (forwardMulticastPacket env d from u)"
  unfolding forwardMulticastPacket_def Let_def
  by (intro rel_bind_same rel_bind_state [OF multicast_found [OF counters(4) [OF assms]]])
    (auto simp: rbind_assoc intro!: same_mroute rel_bind_state [OF to_source] rel_bind [OF copies] emit forwarded
      counters dropped split: option.split)

lemma preroute_multicast:
  assumes "R t u"
  shows "rel_res R
    (rbind (if b then reassembleAndDeliver env d t else Inr t) (\<lambda>t.
       if \<not> ft_IPForward (ip_rt t) \<or> isLinkLocalMulticast (dg_dest d) then Inr t
       else if dg_ttl d = 0 then Inr t else forwardMulticastPacket env d from t))
    (rbind (if b then reassembleAndDeliver env d u else Inr u) (\<lambda>t.
       if \<not> ft_IPForward (ip_rt t) \<or> isLinkLocalMulticast (dg_dest d) then Inr t
       else if dg_ttl d = 0 then Inr t else forwardMulticastPacket env d from t))"
proof (rule rel_bind [where S = R])
  fix t u assume a: "R t u"
  then have "ip_rt t = ip_rt u" using read by blast
  then show "rel_res R (if \<not> ft_IPForward (ip_rt t) \<or> isLinkLocalMulticast (dg_dest d) then Inr t
       else if dg_ttl d = 0 then Inr t else forwardMulticastPacket env d from t)
     (if \<not> ft_IPForward (ip_rt u) \<or> isLinkLocalMulticast (dg_dest d) then Inr u
       else if dg_ttl d = 0 then Inr u else forwardMulticastPacket env d from u)"
    using a multicast_forwarded by simp
qed (use assms reassembled in simp)

lemma preroute_broadcast:
  assumes "R t u"
  shows "rel_res R
    (rbind (case b of Some b \<Rightarrow> if P b then fragmentPostRouting env d (if_id b) ALLONES_ADDRESS t else Inr t | None \<Rightarrow> Inr t)
       (reassembleAndDeliver env d))
    (rbind (case b of Some b \<Rightarrow> if P b then fragmentPostRouting env d (if_id b) ALLONES_ADDRESS u else Inr u | None \<Rightarrow> Inr u)
       (reassembleAndDeliver env d))"
  by (rule rel_bind [where S = R]) (use assms posted reassembled in \<open>auto split: option.split\<close>)

lemma preroute:
  assumes "R t u"
  shows "rel_res R (preroutingFinish env d from out nextHop t) (preroutingFinish env d from out nextHop u)"
proof -
  let ?d = "d\<lparr>dg_loop := None\<rparr>"
  have rt: "ip_rt t = ip_rt u" and m: "ip_multicastForward t = ip_multicastForward u"
    using read flags assms by blast+
  obtain own rt' where a: "isLocalAddress (dg_dest ?d) (ip_rt u) = (own, rt')" by fastforce
  have R': "R (t\<lparr>ip_rt := rt'\<rparr>) (u\<lparr>ip_rt := rt'\<rparr>)" using addresses(1) [OF assms a] .
  show ?thesis
    unfolding preroutingFinish_def Let_def rt m a prod.case
    by (intro same_iface assms rel_if rel_bind_same preroute_multicast preroute_broadcast reassembled routed R')
      (simp add: dropped R')
qed

lemma incoming:
  "R t u \<Longrightarrow> rel_res R (handleIncomingDatagram env d from t) (handleIncomingDatagram env d from u)"
  unfolding handleIncomingDatagram_def by (auto intro!: rel_if emit hook preroute split: option.split)

lemma multicast_out:
  assumes "R t u"
  shows "rel_res (rel_prod (=) R) (determineOutgoingInterfaceForMulticastDatagram env d out t)
    (determineOutgoingInterfaceForMulticastDatagram env d out u)"
proof (cases out)
  case None
  have *: "rel_res (rel_prod (=) R)
      (case x of Some i \<Rightarrow> Inr (Some i, t) | None \<Rightarrow> (case getInterfaceByAddress (dg_src d) (ip_rt t) of
         Some ie \<Rightarrow> Inr (Some (if_id ie), t) | None \<Rightarrow> Inr (map_option if_id (first_multicast t), t)))
      (case x of Some i \<Rightarrow> Inr (Some i, u) | None \<Rightarrow> (case getInterfaceByAddress (dg_src d) (ip_rt u) of
         Some ie \<Rightarrow> Inr (Some (if_id ie), u) | None \<Rightarrow> Inr (map_option if_id (first_multicast u), u)))"
    if a: "R t u" for x :: "nat option" and t u
    using read [OF a] a by (auto simp: first_multicast_def split: option.split)
  show ?thesis
    unfolding determineOutgoingInterfaceForMulticastDatagram_def None option.case
    by (intro rel_bind_same rel_bind_state [OF looked_up [OF assms]]) (unfold prod.case, rule *)
qed (use assms in \<open>simp add: determineOutgoingInterfaceForMulticastDatagram_def\<close>)

lemma encapsulated:
  assumes "R t u"
  shows "rel_res (rel_prod (=) R) (encapsulate p len c t) (encapsulate p len c u)"
  using read [OF assms] assms by (simp add: encapsulate_def Let_def fragmentId)

lemma loop_copy:
  assumes "R t u"
  shows "rel_res R
    (case first_loopback t of Some lo \<Rightarrow> if b then fragmentPostRouting env d (if_id lo) a t else Inr t | None \<Rightarrow> Inr t)
    (case first_loopback u of Some lo \<Rightarrow> if b then fragmentPostRouting env d (if_id lo) a u else Inr u | None \<Rightarrow> Inr u)"
  using read [OF assms] assms by (auto simp: first_loopback_def intro: posted split: option.split)

lemma to_loopback:
  assumes "R t u" and "\<And>b. rel_res T (f b) (g b)"
  shows "rel_res T
    (rbind (case out of None \<Rightarrow> Inr False | Some i \<Rightarrow> rbind (ip_iface i t) (\<lambda>ie. Inr (if_loopback ie))) f)
    (rbind (case out of None \<Rightarrow> Inr False | Some i \<Rightarrow> rbind (ip_iface i u) (\<lambda>ie. Inr (if_loopback ie))) g)"
proof -
  have "ip_iface i t = ip_iface i u" for i using read [OF assms(1)] by (simp add: ip_iface_def)
  then show ?thesis using assms(2) by (simp add: rel_bind_same split: option.split)
qed

lemma local_out_multicast:
  assumes "R t u"
  shows "rel_res R
    (rbind (determineOutgoingInterfaceForMulticastDatagram env d out t) (\<lambda>(out, t).
       rbind (case out of None \<Rightarrow> Inr False | Some i \<Rightarrow> rbind (ip_iface i t) (\<lambda>ie. Inr (if_loopback ie))) (\<lambda>to_loopback.
       rbind (case first_loopback t of Some lo \<Rightarrow> if lp \<and> \<not> to_loopback then fragmentPostRouting env d (if_id lo) a t else Inr t
          | None \<Rightarrow> Inr t) (\<lambda>t.
       case out of Some i \<Rightarrow> fragmentPostRouting env d i a (t\<lparr>ip_numMulticast := ip_numMulticast t + 1\<rparr>)
          | None \<Rightarrow> Inr (t\<lparr>ip_numUnroutable := ip_numUnroutable t + 1\<rparr>)))))
    (rbind (determineOutgoingInterfaceForMulticastDatagram env d out u) (\<lambda>(out, t).
       rbind (case out of None \<Rightarrow> Inr False | Some i \<Rightarrow> rbind (ip_iface i t) (\<lambda>ie. Inr (if_loopback ie))) (\<lambda>to_loopback.
       rbind (case first_loopback t of Some lo \<Rightarrow> if lp \<and> \<not> to_loopback then fragmentPostRouting env d (if_id lo) a t else Inr t
          | None \<Rightarrow> Inr t) (\<lambda>t.
       case out of Some i \<Rightarrow> fragmentPostRouting env d i a (t\<lparr>ip_numMulticast := ip_numMulticast t + 1\<rparr>)
          | None \<Rightarrow> Inr (t\<lparr>ip_numUnroutable := ip_numUnroutable t + 1\<rparr>)))))"
  by (rule rel_bind_state [OF multicast_out [OF assms]], unfold prod.case)
    (intro to_loopback rel_bind [OF loop_copy], assumption+, auto intro: posted counters split: option.split)

lemma local_out_destination:
  assumes "R t u"
  shows "rel_res R
    (rbind (case out of None \<Rightarrow> Inr None | Some i \<Rightarrow> rbind (ip_iface i t) (\<lambda>ie. Inr (if if_loopback ie then Some i else None)))
       (\<lambda>out. rbind (assertion ((case out of None \<Rightarrow> map_option if_id (first_loopback t) | Some i \<Rightarrow> Some i) \<noteq> None))
         (\<lambda>_. routeUnicastPacket env d None (case out of None \<Rightarrow> map_option if_id (first_loopback t) | Some i \<Rightarrow> Some i) a t)))
    (rbind (case out of None \<Rightarrow> Inr None | Some i \<Rightarrow> rbind (ip_iface i u) (\<lambda>ie. Inr (if if_loopback ie then Some i else None)))
       (\<lambda>out. rbind (assertion ((case out of None \<Rightarrow> map_option if_id (first_loopback u) | Some i \<Rightarrow> Some i) \<noteq> None))
         (\<lambda>_. routeUnicastPacket env d None (case out of None \<Rightarrow> map_option if_id (first_loopback u) | Some i \<Rightarrow> Some i) a u)))"
proof -
  have e: "ip_iface i t = ip_iface i u" "first_loopback t = first_loopback u" for i
    using read [OF assms] by (simp_all add: ip_iface_def first_loopback_def)
  show ?thesis unfolding e by (intro rel_bind_same routed assms)
qed

lemma local_out:
  assumes "R t u"
  shows "rel_res R (datagramLocalOut env d out nextHop t) (datagramLocalOut env d out nextHop u)"
proof -
  have rt: "ip_rt t = ip_rt u" using read [OF assms] by simp
  obtain own rt' where a: "isLocalAddress (dg_dest d) (ip_rt u) = (own, rt')" by fastforce
  obtain broadcast rt'' where b: "isLocalBroadcastAddress (dg_dest d) rt' = (broadcast, rt'')" by fastforce
  have 1: "R (t\<lparr>ip_rt := rt'\<rparr>) (u\<lparr>ip_rt := rt'\<rparr>)" using addresses(1) [OF assms a] .
  have 2: "R (t\<lparr>ip_rt := rt''\<rparr>) (u\<lparr>ip_rt := rt''\<rparr>)" using addresses(2) [OF 1, of "dg_dest d" broadcast rt''] b by simp
  have d: "dg_dest (d\<lparr>dg_loop := None\<rparr>) = dg_dest d" by simp
  show ?thesis
  proof (cases "isLimitedBroadcastAddress (dg_dest d)")
    case True
    show ?thesis
      unfolding datagramLocalOut_def Let_def rt a prod.case d if_P [OF True]
      by (intro rel_if local_out_multicast local_out_destination local_broadcast routed assms)
        (use 1 in simp_all)
  next
    case False
    show ?thesis
      unfolding datagramLocalOut_def Let_def rt a prod.case d if_not_P [OF False] b
      by (intro rel_if local_out_multicast local_out_destination local_broadcast routed assms 1)
        (use 2 in simp_all)
  qed
qed

lemma from_above:
  assumes "R t u"
  shows "rel_res R (handlePacketFromHL env pkt t) (handlePacketFromHL env pkt u)"
proof -
  have rt: "ip_rt t = ip_rt u" using read [OF assms] by simp
  show ?thesis
  proof (cases pkt)
    case (Inl d)
    then show ?thesis using assms
      by (auto simp: handlePacketFromHL_def rt intro: dropped hook local_out)
  next
    case (Inr q)
    obtain p len c where q: "q = (p, len, c)" by (cases q)
    show ?thesis
      unfolding handlePacketFromHL_def Inr q rt sum.case prod.case rbind_assoc
      by (intro rel_if rel_bind_state [OF encapsulated [OF assms]])
        (use assms dropped read in \<open>auto intro!: hook local_out split: option.split\<close>)
  qed
qed

lemma from_arp:
  assumes "R t u" and "\<nexists>d. p = NetDatagram d"
  shows "rel_res R (handlePacketFromARP p i t) (handlePacketFromARP p i u)"
proof -
  have "\<not> link_datagram (ToNIC p j None)" for j using assms(2) by (cases p) auto
  then show ?thesis unfolding handlePacketFromARP_def using assms(1)
    by (auto intro!: same_iface emit simp: sendPacketToNIC_def)
qed

lemma arp_packet: "R t u \<Longrightarrow> rel_res R (handleIncomingARPPacket a from t) (handleIncomingARPPacket a from u)"
  unfolding handleIncomingARPPacket_def by (auto intro!: rel_bind_same emit)

text \<open>The ARP module sends its own packets, not datagrams.\<close>

lemma served:
  assumes "R t u" and "\<And>p i. pkt = FromARP p i \<Longrightarrow> \<nexists>d. p = NetDatagram d"
  shows "rel_res R (endService env pkt t) (endService env pkt u)"
proof -
  have e: "ip_up t = ip_up u" "ip_rt t = ip_rt u" using read flags assms(1) by blast+
  show ?thesis
    unfolding endService_def e(1)
    by (rule rel_if) (use assms from_above from_arp arp_packet incoming e(2) in
      \<open>auto simp: Let_def interface_by_gate_def split: arrival_pkt.split net_packet.split\<close>)
qed

lemma reinjected: "R t u \<Longrightarrow> rel_res R (reinject env q t) (reinject env q u)"
  unfolding reinject_def Let_def
  by (auto intro!: rel_bind_same local_out preroute send delivered finished split: hook_type.split)

end

text \<open>An invariant is a relation of a state with itself.\<close>

locale ip_invariant =
  fixes I :: "ip_flow \<Rightarrow> bool" and env :: ip_env
  assumes self: "ip_relation (\<lambda>t u. t = u \<and> I t) env"

sublocale ip_invariant \<subseteq> ip_relation "\<lambda>t u. t = u \<and> I t" env
  by (rule self)

context ip_invariant
begin

lemma rel_res_self: "rel_res (\<lambda>t u. t = u \<and> I t) r r \<longleftrightarrow> (\<forall>t. r = Inr t \<longrightarrow> I t)"
  by (cases r) simp_all

lemma serve_keeps:
  assumes "I t" and "\<And>p i. pkt = FromARP p i \<Longrightarrow> \<nexists>d. p = NetDatagram d" and "endService env pkt t = Inr t'"
  shows "I t'"
  using served [of t t pkt] assms by (simp add: rel_res_self)

lemma reinject_keeps: "I t \<Longrightarrow> reinject env q t = Inr t' \<Longrightarrow> I t'"
  using reinjected [of t t q] by (simp add: rel_res_self)

end

section \<open>The service queue does not matter to a handler\<close>

definition unserved :: "ip_flow \<Rightarrow> ip_flow" where
  "unserved t = t\<lparr>ip_queue := [], ip_serviced := None, ip_endService := None\<rparr>"

abbreviation same_but_queue :: "ip_flow \<Rightarrow> ip_flow \<Rightarrow> bool" where
  "same_but_queue t u \<equiv> unserved t = unserved u"

lemma same_but_queueD:
  assumes a: "same_but_queue t u"
  shows "\<exists>q s e. t = u\<lparr>ip_queue := q, ip_serviced := s, ip_endService := e\<rparr>"
proof -
  have "t = unserved t\<lparr>ip_queue := ip_queue t, ip_serviced := ip_serviced t, ip_endService := ip_endService t\<rparr>"
    by (simp add: unserved_def)
  also have "\<dots> = u\<lparr>ip_queue := ip_queue t, ip_serviced := ip_serviced t, ip_endService := ip_endService t\<rparr>"
    unfolding a by (simp add: unserved_def)
  finally show "\<exists>q s e. t = u\<lparr>ip_queue := q, ip_serviced := s, ip_endService := e\<rparr>" by blast
qed

lemma sent_but_queue:
  assumes "same_but_queue t u"
  shows "rel_res same_but_queue (sendDatagramToOutput env d i nextHop t) (sendDatagramToOutput env d i nextHop u)"
  using same_but_queueD [OF assms]
  by (auto simp: sendDatagramToOutput_def sendPacketToNIC_def sendPacketToIeee802NIC_def ip_iface_def ip_emit_def
      pending_insert_def unserved_def intro!: rel_bind_same)

lemma all_sent_but_queue:
  "same_but_queue t u \<Longrightarrow> rel_res same_but_queue (send_all env ds i nextHop t) (send_all env ds i nextHop u)"
  by (induction ds arbitrary: t u) (auto intro!: rel_bind [OF sent_but_queue])

lemma fragmented_but_queue:
  assumes "same_but_queue t u"
  shows "rel_res same_but_queue (fragmentAndSend env d i nextHop t) (fragmentAndSend env d i nextHop u)"
proof -
  have e: "ip_iface i t = ip_iface i u" using same_but_queueD [OF assms] by (auto simp: ip_iface_def)
  have "same_but_queue (ip_dropped (ip_emit x t)) (ip_dropped (ip_emit x u))" for x
    using same_but_queueD [OF assms] by (auto simp: ip_dropped_def ip_emit_def unserved_def)
  then show ?thesis
    unfolding fragmentAndSend_def e Let_def
    by (intro rel_bind_same rel_if sent_but_queue all_sent_but_queue assms) simp_all
qed

interpretation queue: ip_relation same_but_queue env for env
proof
  show "rel_res same_but_queue (fragmentAndSend env d i nextHop t) (fragmentAndSend env d i nextHop u)"
    if "same_but_queue t u" for t u d i nextHop
    using that by (rule fragmented_but_queue)
qed (drule same_but_queueD, elim exE, simp add: same_reads_def ip_emit_def unserved_def)+

section \<open>Handlers leave the configuration alone\<close>

definition config :: "ip_flow \<Rightarrow> (int \<times> int) list \<times> (int \<times> nat) list \<times> bool \<times> simtime" where
  "config t = (ip_mapping t, ip_hooks t, ip_up t, ip_delay t)"

lemma sendDatagram_config:
  "sendDatagramToOutput env d i nextHop t = Inr t' \<Longrightarrow> config t' = config t \<and> ip_queue t' = ip_queue t \<and> ip_serviced t' = ip_serviced t"
  using sendDatagram_cases [of env d i nextHop t t']
  by (auto simp: config_def ip_emit_def pending_insert_def)

lemma send_all_config:
  "send_all env ds i nextHop t = Inr t' \<Longrightarrow> config t' = config t \<and> ip_queue t' = ip_queue t \<and> ip_serviced t' = ip_serviced t"
proof (induction ds arbitrary: t)
  case (Cons d ds)
  then obtain u where "sendDatagramToOutput env d i nextHop t = Inr u" "send_all env ds i nextHop u = Inr t'"
    by (auto simp: res_simps)
  then show ?case using sendDatagram_config Cons.IH by metis
qed simp

lemma fragmentAndSend_config:
  assumes s: "fragmentAndSend env d i nextHop t = Inr t'"
  shows "config t' = config t \<and> ip_queue t' = ip_queue t \<and> ip_serviced t' = ip_serviced t"
proof -
  obtain ie where "ip_iface i t = Inr ie" using s by (auto simp: fragmentAndSend_def res_simps)
  from fragmentAndSend_cases [OF s this] show ?thesis
    by (auto simp: config_def ip_dropped_def ip_emit_def
        dest: sendDatagram_config [unfolded config_def] send_all_config [unfolded config_def] split: if_splits)
qed

interpretation settings: ip_invariant "\<lambda>t. (config t, ip_queue t, ip_serviced t) = c" env for c env
proof (rule ip_invariant.intro, unfold_locales)
  show "rel_res (\<lambda>t u. t = u \<and> (config t, ip_queue t, ip_serviced t) = c) (fragmentAndSend env d i nextHop t)
      (fragmentAndSend env d i nextHop u)"
    if "t = u \<and> (config t, ip_queue t, ip_serviced t) = c" for t u d i nextHop
    using that fragmentAndSend_config by (cases "fragmentAndSend env d i nextHop u") auto
qed (auto simp: config_def same_reads_def ip_emit_def)

lemma endService_settings:
  assumes "endService env p t = Inr t'" and "\<And>a i. p \<noteq> FromARP a i"
  shows "config t' = config t \<and> ip_queue t' = ip_queue t \<and> ip_serviced t' = ip_serviced t"
proof -
  have "(config t', ip_queue t', ip_serviced t') = (config t, ip_queue t, ip_serviced t)"
    by (rule settings.serve_keeps [where pkt = p and t = t]) (use assms in auto)
  then show ?thesis by simp
qed

section \<open>The service queue\<close>

definition backlog :: "ip_flow \<Rightarrow> arrival_pkt list" where
  "backlog t = (case ip_serviced t of None \<Rightarrow> [] | Some p \<Rightarrow> p # ip_queue t)"

definition queue_ok :: "ip_flow \<Rightarrow> bool" where
  "queue_ok t \<longleftrightarrow> (ip_serviced t = None \<longrightarrow> ip_queue t = [])"

fun through_queue :: "ip_msg \<Rightarrow> bool" where
  "through_queue (Packet (FromARP p i)) \<longleftrightarrow> False"
| "through_queue (RegisterProtocol proto gate) \<longleftrightarrow> False"
| "through_queue m \<longleftrightarrow> True"

fun arrivals :: "(ip_env \<times> ip_msg) list \<Rightarrow> arrival_pkt list" where
  "arrivals [] = []"
| "arrivals ((env, Packet p) # ms) = p # arrivals ms"
| "arrivals (m # ms) = arrivals ms"

fun services :: "(ip_env \<times> ip_msg) list \<Rightarrow> ip_env list" where
  "services [] = []"
| "services ((env, EndService) # ms) = env # services ms"
| "services (m # ms) = services ms"

fun handle_all :: "(ip_env \<times> ip_msg) list \<Rightarrow> ip_flow \<Rightarrow> ip_flow res" where
  "handle_all [] t = Inr t"
| "handle_all ((env, m) # ms) t = rbind (ip_handleMessage env m t) (handle_all ms)"

text \<open>A network layer without a service queue.\<close>

fun process :: "(ip_env \<times> arrival_pkt) list \<Rightarrow> ip_flow \<Rightarrow> ip_flow res" where
  "process [] t = Inr t"
| "process ((env, p) # ps) t = rbind (endService env p t) (process ps)"

lemma handle_all_append: "handle_all (ms @ ns) t = rbind (handle_all ms t) (handle_all ns)"
  by (induction ms t rule: handle_all.induct) (auto simp: rbind_assoc intro: rbind_cong)

lemma process_append: "process (ps @ qs) t = rbind (process ps t) (process qs)"
  by (induction ps t rule: process.induct) (auto simp: rbind_assoc intro: rbind_cong)

lemma arrivals_append [simp]: "arrivals (ms @ ns) = arrivals ms @ arrivals ns"
  by (induction ms rule: arrivals.induct) simp_all

lemma services_append [simp]: "services (ms @ ns) = services ms @ services ns"
  by (induction ms rule: services.induct) simp_all

lemma serve_step:
  assumes s: "serve env p q t = Inr t'" and "ip_delay t \<noteq> 0" and "\<And>a i. p \<noteq> FromARP a i"
  obtains t1 where "endService env p (t\<lparr>ip_queue := q\<rparr>) = Inr t1" and "same_but_queue t' t1" and "backlog t' = q"
    and "queue_ok t'" and "config t' = config t"
proof -
  obtain t1 where t1: "endService env p (t\<lparr>ip_queue := q\<rparr>) = Inr t1"
    using s by (cases q) (auto simp: res_simps)
  have c: "config t1 = config t" "ip_queue t1 = q"
    using endService_settings [OF t1 assms(3)] by (simp_all add: config_def)
  have d: "ip_delay t1 \<noteq> 0" using c assms(2) by (simp add: config_def)
  show ?thesis
  proof (cases q)
    case Nil
    then have "t' = t1\<lparr>ip_serviced := None, ip_endService := None\<rparr>" using s t1 by simp
    then show ?thesis using Nil c t1
      by (intro that [of t1]) (simp_all add: unserved_def backlog_def queue_ok_def config_def)
  next
    case (Cons n r)
    then have "t' = t1\<lparr>ip_serviced := Some n, ip_queue := r, ip_endService := Some (env_now env + ip_delay t1)\<rparr>"
      using s t1 d by simp
    then show ?thesis using Cons c t1
      by (intro that [of t1]) (simp_all add: unserved_def backlog_def queue_ok_def config_def)
  qed
qed

lemma arrival_step:
  assumes "queue_arrival env p t = Inr t'" and "queue_ok t" and "ip_delay t \<noteq> 0"
  shows "same_but_queue t' t" and "backlog t' = backlog t @ [p]" and "queue_ok t'" and "config t' = config t"
  using assms
  by (auto simp: queue_arrival_def Let_def unserved_def backlog_def queue_ok_def config_def split: if_splits)

lemma arrivals_not_arp:
  "\<forall>(env, m) \<in> set ms. through_queue m \<Longrightarrow> p \<in> set (arrivals ms) \<Longrightarrow> p \<noteq> FromARP a i"
  by (induction ms rule: arrivals.induct) auto

text \<open>
  C19: the service queue only delays: after any sequence of arrivals and ends of service, what was
  served are the first arrivals in their order, the others are the one in service and the queue,
  and apart from that the module is in the state in which it would be had it handled the served
  packets one after the other without a queue.
\<close>

theorem service_queue_is_fifo:
  assumes "handle_all ms t = Inr t'" and "\<forall>(env, m) \<in> set ms. through_queue m"
    and "ip_serviced t = None" and "ip_queue t = []" and "ip_delay t \<noteq> 0"
  shows "\<exists>served u. arrivals ms = served @ backlog t' \<and> length served = length (services ms) \<and>
    process (zip (services ms) served) t = Inr u \<and> same_but_queue t' u"
proof -
  have "queue_ok t' \<and> config t' = config t \<and> (\<exists>served u. arrivals ms = served @ backlog t' \<and>
      length served = length (services ms) \<and> process (zip (services ms) served) t = Inr u \<and> same_but_queue t' u)"
    using assms(1,2)
  proof (induction ms arbitrary: t' rule: rev_induct)
    case Nil
    then show ?case using assms(3,4) by (simp add: queue_ok_def backlog_def)
  next
    case (snoc em ms)
    obtain env m where em: "em = (env, m)" by (cases em)
    obtain t1 where t1: "handle_all ms t = Inr t1" "ip_handleMessage env m t1 = Inr t'"
      using snoc.prems(1) by (auto simp: em handle_all_append res_simps)
    obtain served u where IH: "queue_ok t1" "config t1 = config t" "arrivals ms = served @ backlog t1"
        "length served = length (services ms)" "process (zip (services ms) served) t = Inr u" "same_but_queue t1 u"
      using snoc.IH [OF t1(1)] snoc.prems(2) by auto
    have d: "ip_delay t1 \<noteq> 0" using IH(2) assms(5) by (simp add: config_def)
    have "through_queue m" using snoc.prems(2) em by auto
    then consider p where "m = Packet p" "\<And>a i. p \<noteq> FromARP a i" | "m = EndService"
      by (cases m rule: through_queue.cases) auto
    then show ?case
    proof cases
      case (1 p)
      then have "queue_arrival env p t1 = Inr t'" using t1(2) by (cases p) auto
      note step = arrival_step [OF this IH(1) d]
      show ?thesis using IH step 1(1) em by (intro conjI exI [of _ served] exI [of _ u]) simp_all
    next
      case 2
      then obtain p where p: "ip_serviced t1 = Some p" "serve env p (ip_queue t1) t1 = Inr t'"
        using t1(2) by (auto simp: doEndService_def res_simps)
      then have b: "backlog t1 = p # ip_queue t1" by (simp add: backlog_def)
      have "p \<in> set (arrivals ms)" using IH(3) b by simp
      then have q: "p \<noteq> FromARP a i" for a i using arrivals_not_arp snoc.prems(2) by auto
      obtain t2 where t2: "endService env p (t1\<lparr>ip_queue := ip_queue t1\<rparr>) = Inr t2" "same_but_queue t' t2"
          "backlog t' = ip_queue t1" "queue_ok t'" "config t' = config t1"
        using serve_step [OF p(2) d q] by blast
      have "rel_res same_but_queue (endService env p t1) (endService env p u)"
        using queue.served [OF IH(6)] q by blast
      then obtain v where v: "endService env p u = Inr v" "same_but_queue t2 v"
        using t2(1) by (cases "endService env p u") auto
      have "process (zip (services ms @ [env]) (served @ [p])) t = Inr v"
        using IH(4,5) v(1) by (simp add: process_append)
      then show ?thesis using IH t2 v b 2 em
        by (intro conjI exI [of _ "served @ [p]"] exI [of _ v]) simp_all
    qed
  qed
  then show ?thesis by blast
qed

definition example_messages :: "(ip_env \<times> ip_msg) list" where
  "example_messages =
     [(example_env, Packet (FromTransport (Inl example_datagram))), (example_env, Packet (FromNetwork NetOther 0)),
      (example_env, EndService)]"

lemma example_handled:
  "case handle_all example_messages (example_node [example_iface]\<lparr>ip_delay := 5\<rparr>) of Inl _ \<Rightarrow> False | Inr _ \<Rightarrow> True"
  by code_simp

theorem service_queue_is_fifo_witness:
  "\<exists>t' served u. handle_all example_messages (example_node [example_iface]\<lparr>ip_delay := 5\<rparr>) = Inr t' \<and>
     served @ backlog t' = [FromTransport (Inl example_datagram), FromNetwork NetOther 0] \<and>
     process (zip [example_env] served) (example_node [example_iface]\<lparr>ip_delay := 5\<rparr>) = Inr u \<and> same_but_queue t' u"
proof -
  let ?t = "example_node [example_iface]\<lparr>ip_delay := 5\<rparr>"
  obtain t' where t': "handle_all example_messages ?t = Inr t'"
    using example_handled by (auto split: sum.splits)
  have h: "\<forall>(env, m) \<in> set example_messages. through_queue m" "ip_serviced ?t = None" "ip_queue ?t = []" "ip_delay ?t \<noteq> 0"
    by (simp_all add: example_messages_def example_node_def IPv4Flow_def)
  have "arrivals example_messages = [FromTransport (Inl example_datagram), FromNetwork NetOther 0]"
    "services example_messages = [example_env]" by (simp_all add: example_messages_def)
  then show ?thesis using service_queue_is_fifo [OF t' h] t' by metis
qed

end
