(* ===== verification/IpProps.thy ===== *)
theory IpProps
  imports IpRun
begin

text \<open>
  A node as a transition system: messages, signals of the ARP module, life cycle operations, hooks
  and changes of the routing table in any order, whatever the other modules answer.
\<close>

section \<open>What waits for an address\<close>

lemma link_datagram_iff: "link_datagram e \<longleftrightarrow> nic_datagram e \<noteq> None"
  by (cases e rule: nic_datagram.cases) auto

lemma handed_over_emit: "\<not> link_datagram e \<Longrightarrow> handed_over (ip_emit e t) = handed_over t"
  by (simp add: handed_over_def link_datagram_iff)

lemma waiting_del:
  assumes "al_wf m" and "map_of m a = Some q"
  shows "waiting (al_del a m) + mset q = waiting m"
  using assms by (simp add: waiting_sum al_sum_del)

lemma arp_completed_handed:
  assumes "al_wf (ip_pending t)"
  shows "handed_over (arpResolutionCompleted a i mac t) = handed_over t"
proof (cases "map_of (ip_pending t) a")
  case (Some q)
  show ?thesis
    using waiting_del [OF assms Some] send_pending_fields [of q i mac t]
    by (simp add: arpResolutionCompleted_def Some Let_def handed_over_def ac_simps)
qed (simp add: arpResolutionCompleted_def)

section \<open>The invariant of a node\<close>

text \<open>Everything handed to the link layer or waiting for an address has time left to live.\<close>

definition link_ok :: "ip_flow \<Rightarrow> bool" where
  "link_ok t \<longleftrightarrow> al_wf (ip_pending t) \<and> (\<forall>d \<in># handed_over t. 0 \<le> sint (dg_ttl d))"

definition node_ok :: "sorter \<Rightarrow> u32 \<Rightarrow> iface list \<Rightarrow> ip_flow \<Rightarrow> bool" where
  "node_ok srt seed is t \<longleftrightarrow> ecmp_run srt seed is (ip_rt t) \<and> link_ok t"

text \<open>A listener that adds multicast routes uses the operations of the table.\<close>

definition steady :: "ip_env \<Rightarrow> iface list \<Rightarrow> bool" where
  "steady env is \<longleftrightarrow>
     (\<forall>d t. ecmp_run (env_sort env) (env_seed env) is t \<longrightarrow>
        ecmp_run (env_sort env) (env_seed env) is (env_newMulticast env d t))"

lemma fragment_list_ttl: "f \<in> set (fragment_list d payload len offset) \<Longrightarrow> dg_ttl f = dg_ttl d"
proof (induction d payload len offset rule: fragment_list.induct)
  case (1 d payload len offset)
  then show ?case by (subst (asm) (2) fragment_list.simps) (auto simp: Let_def split: if_splits)
qed

lemma sendDatagram_wf:
  "sendDatagramToOutput env d i nextHop t = Inr t' \<Longrightarrow> al_wf (ip_pending t) \<Longrightarrow> al_wf (ip_pending t')"
  using sendDatagram_cases [of env d i nextHop t t'] by (auto simp: pending_insert_def)

lemma send_all_wf: "send_all env ds i nextHop t = Inr t' \<Longrightarrow> al_wf (ip_pending t) \<Longrightarrow> al_wf (ip_pending t')"
  by (induction ds arbitrary: t) (auto simp: res_simps dest: sendDatagram_wf)

lemma fragmentAndSend_ok:
  assumes s: "fragmentAndSend env d i nextHop t = Inr t'" and "node_ok srt seed is t"
  shows "node_ok srt seed is t'"
proof -
  obtain ie where ie: "ip_iface i t = Inr ie" using s by (auto simp: fragmentAndSend_def res_simps)
  let ?o = "outgoing ie d"
  have one: ?thesis if "0 \<le> sint (dg_ttl ?o)" "sendDatagramToOutput env ?o i nextHop t = Inr t'"
    using that sendDatagram_handed [OF that(2)] sendDatagram_wf [OF that(2)] assms(2)
    by (auto simp: node_ok_def link_ok_def)
  have many: ?thesis
    if "0 \<le> sint (dg_ttl ?o)" "fragment_datagram (if_mtu ie) ?o = Inr ds" "send_all env ds i nextHop t = Inr t'" for ds
  proof -
    have "\<forall>f \<in> set ds. dg_ttl f = dg_ttl ?o"
      using that(2) fragment_list_ttl by (auto simp: fragment_datagram_def split: if_splits)
    then show ?thesis
      using that send_all_handed [OF that(3)] send_all_wf [OF that(3)] assms(2)
      by (auto simp: node_ok_def link_ok_def)
  qed
  have drop: ?thesis if "t' = ip_dropped (ip_emit (IcmpError ?o None e) t)" for e
    using that assms(2) handed_over_emit [of "IcmpError ?o None e" t]
    by (simp add: node_ok_def link_ok_def) (simp add: handed_over_def)
  from fragmentAndSend_cases [OF s ie] show ?thesis using one many drop by (auto split: if_splits)
qed

lemma node_ok_updates [simp]:
  "node_ok srt seed is (t\<lparr>ip_numDropped := n\<rparr>) = node_ok srt seed is t"
  "node_ok srt seed is (t\<lparr>ip_numForwarded := n\<rparr>) = node_ok srt seed is t"
  "node_ok srt seed is (t\<lparr>ip_numUnroutable := n\<rparr>) = node_ok srt seed is t"
  "node_ok srt seed is (t\<lparr>ip_numMulticast := n\<rparr>) = node_ok srt seed is t"
  "node_ok srt seed is (t\<lparr>ip_numLocalDeliver := n\<rparr>) = node_ok srt seed is t"
  "node_ok srt seed is (t\<lparr>ip_curFragmentId := w\<rparr>) = node_ok srt seed is t"
  "node_ok srt seed is (t\<lparr>ip_fragbuf := b\<rparr>) = node_ok srt seed is t"
  "node_ok srt seed is (t\<lparr>ip_queued := q\<rparr>) = node_ok srt seed is t"
  "node_ok srt seed is (t\<lparr>ip_queue := ps\<rparr>) = node_ok srt seed is t"
  "node_ok srt seed is (t\<lparr>ip_serviced := s\<rparr>) = node_ok srt seed is t"
  "node_ok srt seed is (t\<lparr>ip_endService := e\<rparr>) = node_ok srt seed is t"
  "node_ok srt seed is (t\<lparr>ip_mapping := m\<rparr>) = node_ok srt seed is t"
  "node_ok srt seed is (t\<lparr>ip_hooks := h\<rparr>) = node_ok srt seed is t"
  "node_ok srt seed is (t\<lparr>ip_up := u\<rparr>) = node_ok srt seed is t"
  by (simp_all add: node_ok_def link_ok_def handed_over_def)

lemma node_ok_purged:
  "node_ok srt seed is (t\<lparr>ip_lastCheck := c, ip_events := ip_events t @ map (\<lambda>d. IcmpError d None TIME_EXCEEDED) ds\<rparr>) =
   node_ok srt seed is t"
proof -
  have "nic_datagrams (map (\<lambda>d. IcmpError d None TIME_EXCEEDED) ds) = []"
    by (induction ds) (simp_all add: nic_datagrams_def)
  then show ?thesis by (simp add: node_ok_def link_ok_def handed_over_def)
qed

lemma node_ok_emit: "\<not> link_datagram e \<Longrightarrow> node_ok srt seed is (ip_emit e t) = node_ok srt seed is t"
  by (simp add: node_ok_def link_ok_def handed_over_emit)

lemma node_ok_table:
  "node_ok srt seed is t \<Longrightarrow> ecmp_run srt seed is rt \<Longrightarrow> node_ok srt seed is (t\<lparr>ip_rt := rt\<rparr>)"
  by (simp add: node_ok_def link_ok_def handed_over_def)

lemma node_ok_run: "node_ok srt seed is t \<Longrightarrow> ecmp_run srt seed is (ip_rt t)"
  by (simp add: node_ok_def)

lemma steady_run:
  "steady env is \<Longrightarrow> node_ok (env_sort env) (env_seed env) is t \<Longrightarrow>
   ecmp_run (env_sort env) (env_seed env) is (env_newMulticast env d (ip_rt t))"
  by (simp add: steady_def node_ok_def)

interpretation node: ip_invariant "\<lambda>t. steady env is \<longrightarrow> node_ok (env_sort env) (env_seed env) is t" env for env "is"
proof (rule ip_invariant.intro, unfold_locales)
  show "rel_res (\<lambda>t u. t = u \<and> (steady env is \<longrightarrow> node_ok (env_sort env) (env_seed env) is t))
      (fragmentAndSend env d i nextHop t) (fragmentAndSend env d i nextHop u)"
    if "t = u \<and> (steady env is \<longrightarrow> node_ok (env_sort env) (env_seed env) is t)" for t u d i nextHop
    using that fragmentAndSend_ok by (cases "fragmentAndSend env d i nextHop u") auto
qed (auto simp: same_reads_def node_ok_purged node_ok_emit
     intro!: node_ok_table intro: steady_run node_ok_run er_lookup er_local er_broadcast)

section \<open>Runs of a node\<close>

datatype net_input = Message ip_msg | Signal arp_signal | Lifecycle ip_lifecycle | AddHook int nat | DelHook int nat
  | Discard nat | Reinject nat | Routing rt_op

fun node_input :: "ip_env \<Rightarrow> net_input \<Rightarrow> ip_flow \<Rightarrow> ip_flow res" where
  "node_input env (Message m) t = ip_handleMessage env m t"
| "node_input env (Signal s) t = Inr (receiveSignal s t)"
| "node_input env (Lifecycle x) t = ip_handleOperationStage x t"
| "node_input env (AddHook prio h) t = Inr (register_hook prio h t)"
| "node_input env (DelHook prio h) t = Inr (unregister_hook prio h t)"
| "node_input env (Discard k) t = Inr (dropQueuedDatagram k t)"
| "node_input env (Reinject k) t = reinjectQueuedDatagram env k t"
| "node_input env (Routing op) t = rbind (rt_exec op (ip_rt t)) (\<lambda>rt. Inr (t\<lparr>ip_rt := rt\<rparr>))"

text \<open>The ARP module sends ARP packets, and operations on the table are those it allows.\<close>

fun input_ok :: "net_input \<Rightarrow> ip_flow \<Rightarrow> bool" where
  "input_ok (Message (Packet (FromARP (NetDatagram d) i))) t \<longleftrightarrow> False"
| "input_ok (Routing op) t \<longleftrightarrow> rt_allowed op (ip_rt t) \<and> \<not> moves_gateway op (ip_rt t)"
| "input_ok inp t \<longleftrightarrow> True"

inductive node_run :: "sorter \<Rightarrow> u32 \<Rightarrow> iface list \<Rightarrow> ip_flow \<Rightarrow> bool" for srt seed "is" where
  node_start: "ecmp_run srt seed is rt \<Longrightarrow>
    node_run srt seed is (IPv4Flow rt mcast ttl mttl timeout force proxy delay up)"
| node_step: "node_run srt seed is t \<Longrightarrow> input_ok inp t \<Longrightarrow> env_sort env = srt \<Longrightarrow> env_seed env = seed \<Longrightarrow>
    steady env is \<Longrightarrow> node_input env inp t = Inr t' \<Longrightarrow> node_run srt seed is t'"

text \<open>Packets from the ARP module are not queued.\<close>

definition no_arp :: "arrival_pkt \<Rightarrow> bool" where
  "no_arp p \<longleftrightarrow> (\<forall>a i. p \<noteq> FromARP a i)"

definition queued_ok :: "ip_flow \<Rightarrow> bool" where
  "queued_ok t \<longleftrightarrow> (\<forall>p \<in> set (ip_queue t) \<union> set_option (ip_serviced t). no_arp p)"

lemma endService_node_ok:
  assumes "endService env p t = Inr t'" and "steady env is" and "node_ok (env_sort env) (env_seed env) is t"
    and "\<And>a i. p = FromARP a i \<Longrightarrow> \<nexists>d. a = NetDatagram d"
  shows "node_ok (env_sort env) (env_seed env) is t'"
proof -
  have "steady env is \<longrightarrow> node_ok (env_sort env) (env_seed env) is t'"
    by (rule node.serve_keeps [OF _ _ assms(1)]) (use assms(3,4) in auto)
  then show ?thesis using assms(2) by simp
qed

lemma serve_node_ok:
  assumes "serve env p q t = Inr t'" and "steady env is" and "node_ok (env_sort env) (env_seed env) is t"
    and "no_arp p" and "\<forall>p \<in> set q. no_arp p"
  shows "node_ok (env_sort env) (env_seed env) is t' \<and> queued_ok t'"
  using assms
proof (induction env p q t rule: serve.induct)
  case (1 env p t)
  then obtain u where u: "endService env p (t\<lparr>ip_queue := []\<rparr>) = Inr u"
    "t' = u\<lparr>ip_serviced := None, ip_endService := None\<rparr>" by (auto simp: res_simps)
  have "ip_queue u = []" using endService_settings [OF u(1)] 1(4) by (simp add: no_arp_def)
  moreover have "node_ok (env_sort env) (env_seed env) is u"
    by (rule endService_node_ok [OF u(1)]) (use 1 in \<open>simp_all add: no_arp_def\<close>)
  ultimately show ?case using u(2) by (simp add: queued_ok_def)
next
  case (2 env p n r t)
  obtain u where u: "endService env p (t\<lparr>ip_queue := n # r\<rparr>) = Inr u"
    using 2(2) by (auto simp: res_simps)
  have ok: "node_ok (env_sort env) (env_seed env) is u"
    by (rule endService_node_ok [OF u(1)]) (use 2 in \<open>simp_all add: no_arp_def\<close>)
  show ?case
  proof (cases "ip_delay u = 0")
    case True
    then show ?thesis using 2 u ok by simp
  next
    case False
    then have "t' = u\<lparr>ip_serviced := Some n, ip_queue := r, ip_endService := Some (env_now env + ip_delay u)\<rparr>"
      using 2(2) u by simp
    then show ?thesis using ok 2(6) by (simp add: queued_ok_def)
  qed
qed

lemma from_arp_queue:
  assumes "endService env (FromARP a i) t = Inr t'" and "queued_ok t"
  shows "queued_ok t'"
  using assms
  by (auto simp: endService_def handlePacketFromARP_def sendPacketToNIC_def ip_emit_def queued_ok_def res_simps
      split: if_splits)

lemma arrival_node_ok:
  assumes a: "queue_arrival env p t = Inr t'" and "steady env is" and "node_ok (env_sort env) (env_seed env) is t"
    and "queued_ok t" and "no_arp p"
  shows "node_ok (env_sort env) (env_seed env) is t' \<and> queued_ok t'"
proof -
  consider q where "ip_serviced t = Some q" | "ip_serviced t = None" "ip_delay t \<noteq> 0"
    | "ip_serviced t = None" "ip_delay t = 0" by blast
  then show ?thesis
  proof cases
    case 3
    then have "serve env p (ip_queue t) (t\<lparr>ip_serviced := Some p\<rparr>) = Inr t'"
      using a by (simp add: queue_arrival_def doEndService_def)
    from serve_node_ok [OF this assms(2)] show ?thesis using assms(3-5) by (simp add: queued_ok_def)
  qed (use assms in \<open>auto simp: queue_arrival_def queued_ok_def Let_def\<close>)
qed

lemma message_node_ok:
  assumes h: "ip_handleMessage env m t = Inr t'" and s: "steady env is" and n: "node_ok (env_sort env) (env_seed env) is t"
    and q: "queued_ok t" and i: "input_ok (Message m) t"
  shows "node_ok (env_sort env) (env_seed env) is t' \<and> queued_ok t'"
proof (cases m)
  case (RegisterProtocol proto gate)
  then show ?thesis using h n q by (auto simp: res_simps queued_ok_def)
next
  case EndService
  then obtain p where "ip_serviced t = Some p" "serve env p (ip_queue t) t = Inr t'"
    using h by (auto simp: doEndService_def res_simps)
  then show ?thesis using serve_node_ok [OF _ s n] q by (simp add: queued_ok_def)
next
  case (Packet p)
  show ?thesis
  proof (cases p)
    case (FromARP a j)
    then have e: "endService env (FromARP a j) t = Inr t'" using h Packet by simp
    have "\<nexists>d. a = NetDatagram d" using i Packet FromARP by (cases a) auto
    then show ?thesis using endService_node_ok [OF e s n] from_arp_queue [OF e q] by blast
  qed (use h Packet arrival_node_ok [OF _ s n q] in \<open>auto simp: no_arp_def\<close>)
qed

lemma signal_node_ok: "node_ok srt seed is t \<Longrightarrow> node_ok srt seed is (receiveSignal s t)"
proof -
  assume n: "node_ok srt seed is t"
  then have w: "al_wf (ip_pending t)" by (simp add: node_ok_def link_ok_def)
  show ?thesis
  proof (cases s)
    case (ArpCompleted a i mac)
    have "al_wf (ip_pending (arpResolutionCompleted a i mac t))" "ip_rt (arpResolutionCompleted a i mac t) = ip_rt t"
      using w send_pending_fields by (auto simp: arpResolutionCompleted_def Let_def split: option.split)
    then show ?thesis using n arp_completed_handed [OF w] ArpCompleted by (simp add: node_ok_def link_ok_def)
  next
    case (ArpFailed a)
    show ?thesis
    proof (cases "map_of (ip_pending t) a")
      case (Some q)
      have "handed_over (arpResolutionTimedOut a t) \<subseteq># handed_over t"
        using waiting_del [OF w Some, symmetric] by (simp add: arpResolutionTimedOut_def Some handed_over_def)
      then show ?thesis
        using n w ArpFailed Some by (auto simp: node_ok_def link_ok_def arpResolutionTimedOut_def dest: mset_subset_eqD)
    qed (use n ArpFailed in \<open>simp add: arpResolutionTimedOut_def\<close>)
  qed
qed

lemma stop_node_ok: "node_ok srt seed is t \<Longrightarrow> node_ok srt seed is (ip_stop t) \<and> queued_ok (ip_stop t)"
  by (auto simp: ip_stop_def ip_flush_def node_ok_def link_ok_def handed_over_def waiting_def al_wf_def queued_ok_def)

lemma reinject_node_ok:
  assumes "reinject env q t = Inr t'" and "steady env is" and "node_ok (env_sort env) (env_seed env) is t"
  shows "node_ok (env_sort env) (env_seed env) is t'"
proof -
  have "steady env is \<longrightarrow> node_ok (env_sort env) (env_seed env) is t'"
    by (rule node.reinject_keeps [OF _ assms(1)]) (use assms(3) in simp)
  then show ?thesis using assms(2) by simp
qed

lemma node_run_ok: "node_run srt seed is t \<Longrightarrow> node_ok srt seed is t \<and> queued_ok t"
proof (induction rule: node_run.induct)
  case (node_start rt)
  then show ?case
    by (simp add: IPv4Flow_def node_ok_def link_ok_def handed_over_def waiting_def al_wf_def queued_ok_def)
next
  case (node_step t inp env t')
  then have n: "node_ok (env_sort env) (env_seed env) is t" and q: "queued_ok t" by simp_all
  show ?case
  proof (cases inp)
    case (Message m)
    then show ?thesis using node_step message_node_ok [OF _ _ n q] by auto
  next
    case (Signal s)
    have "queued_ok (receiveSignal s t) = queued_ok t"
      using send_pending_fields
      by (cases s) (auto simp: arpResolutionCompleted_def arpResolutionTimedOut_def queued_ok_def Let_def split: option.split)
    then show ?thesis using Signal node_step signal_node_ok [OF n, of s] q by auto
  next
    case (Lifecycle x)
    then show ?thesis using node_step stop_node_ok [OF n] n q
      by (cases x) (auto simp: ip_start_def res_simps queued_ok_def)
  next
    case (Reinject k)
    show ?thesis
    proof (cases "k < length (ip_queued t)")
      case True
      then obtain u where u: "reinject env (ip_queued t ! k) t = Inr u" "t' = dropQueuedDatagram k u"
        using node_step Reinject by (auto simp: reinjectQueuedDatagram_def res_simps)
      have "node_ok (env_sort env) (env_seed env) is u" using reinject_node_ok [OF u(1) _ n] node_step by simp
      moreover have "(config u, ip_queue u, ip_serviced u) = (config t, ip_queue t, ip_serviced t)"
        by (rule settings.reinject_keeps [OF _ u(1)]) simp
      ultimately show ?thesis using u(2) q node_step by (simp add: dropQueuedDatagram_def queued_ok_def)
    qed (use node_step Reinject n q in \<open>simp add: reinjectQueuedDatagram_def\<close>)
  next
    case (Routing op)
    then obtain rt where rt: "rt_exec op (ip_rt t) = Inr rt" "t' = t\<lparr>ip_rt := rt\<rparr>"
      using node_step by (auto simp: res_simps)
    have "ecmp_run srt seed is rt" using node_step Routing rt by (auto intro: er_op simp: node_ok_def)
    then show ?thesis using node_step rt(2) node_ok_table by (auto simp: queued_ok_def)
  qed (use node_step in \<open>auto simp: register_hook_def unregister_hook_def dropQueuedDatagram_def queued_ok_def\<close>)
qed

end
