(* ===== verification/NodeProps.thy ===== *)
theory NodeProps
  imports IpProps
begin

text \<open>
  Properties of a node as a whole: the routing table of a node that handles messages in any order
  answers with longest matches, so a datagram to be forwarded leaves on one of them, picked by the
  hash of its flow, or is answered with an error.
\<close>

section \<open>Forwarding\<close>

lemma address_cache_view:
  assumes "isLocalAddress a t = (own, t')"
  shows "ft_routes t' = ft_routes t" "ft_heap t' = ft_heap t" "ft_ift t' = ft_ift t" "ft_IPForward t' = ft_IPForward t"
    and "longest_matches dest t' = longest_matches dest t" "gateway_of t' = gateway_of t" "route_at t' = route_at t"
    and "unambiguous t' = unambiguous t"
proof -
  obtain x where t': "t' = t\<lparr>ft_localAddresses := x\<rparr>"
    using assms by (intro that [of "ft_localAddresses t'"]) (auto simp: isLocalAddress_def Let_def)
  show "ft_routes t' = ft_routes t" "ft_heap t' = ft_heap t" "ft_ift t' = ft_ift t" "ft_IPForward t' = ft_IPForward t"
    by (simp_all add: t')
  show "gateway_of t' = gateway_of t" "route_at t' = route_at t"
    by (simp_all add: t' gateway_of_def route_at_def fun_eq_iff)
  show "longest_matches dest t' = longest_matches dest t"
    by (simp add: t' longest_matches_def longest_of_def matches_def route_at_def)
  show "unambiguous t' = unambiguous t" by (simp add: t' unambiguous_def route_at_def)
qed

text \<open>The next hops of the longest matches, and the one the hash of the flow picks.\<close>

definition chosen_hop :: "u32 \<Rightarrow> flow \<Rightarrow> flow_table \<Rightarrow> u32" where
  "chosen_hop seed f t =
     (let hops = sorted_list_of_set (gateway_of t ` set (longest_matches (flow_dest f) t))
      in hops ! unat (positiveMod (murmur3_32 (flow_bin f) seed) (of_nat (length hops))))"

lemma lookup_answer:
  assumes "ecmp_run srt seed is t" and "sorts srt" and "ifaces_ok is" and "unambiguous t"
    and "length (ft_routes t) \<le> 2 ^ 30"
  obtains v t' where "lookup srt seed f t = Inr (v, t')"
    and "v = None \<longleftrightarrow> longest_matches (flow_dest f) t = []"
    and "\<And>r. v = Some r \<Longrightarrow> r \<in> set (longest_matches (flow_dest f) t) \<and> gateway_of t r = chosen_hop seed f t \<and>
      live_route r t' = Inr (route_at t r)"
    and "\<exists>c. t' = t\<lparr>ft_cache := c\<rparr>"
proof -
  have ok: "table_ok t" "coherent srt seed t" using ecmp_run_ok [OF assms(1-3)] by simp_all
  obtain v where v: "find_uncached srt seed (flow_dest f) (flow_bin f) t = Inr v"
    "ecmp_answer seed (flow_dest f) (flow_bin f) t v"
    using find_uncached_ok [OF ok(1) assms(4,2,5)] by blast
  define t' where "t' = (if v = None \<or> map_of (ft_cache t) (flow_bin f) \<noteq> None then t
      else t\<lparr>ft_cache := al_put (flow_bin f) v (ft_cache t)\<rparr>)"
  have "lookup srt seed f t = Inr (v, t')"
    unfolding lookup_eq [OF assms(2) ok(2)] v(1) rbind_Inr t'_def by (rule refl)
  moreover have "\<exists>c. t' = t\<lparr>ft_cache := c\<rparr>"
    unfolding t'_def by (cases "v = None \<or> map_of (ft_cache t) (flow_bin f) \<noteq> None")
      (auto intro: exI [of _ "ft_cache t"])
  moreover have "v = None \<longleftrightarrow> longest_matches (flow_dest f) t = []"
  proof (cases v)
    case None
    then have "\<forall>r \<in> set (ft_routes t). \<not> matches (flow_dest f) t r" using v(2) by (simp add: ecmp_answer_def)
    then show ?thesis using None by (auto simp: longest_matches_def longest_of_def filter_empty_conv)
  qed (use v(2) in \<open>auto simp: ecmp_answer_def\<close>)
  moreover have "r \<in> set (longest_matches (flow_dest f) t) \<and> gateway_of t r = chosen_hop seed f t \<and>
      live_route r t' = Inr (route_at t r)" if "v = Some r" for r
  proof -
    have a: "r \<in> set (longest_matches (flow_dest f) t)" "gateway_of t r = chosen_hop seed f t"
      using v(2) that by (simp_all add: ecmp_answer_def chosen_hop_def)
    then have "r \<in> set (ft_routes t)" by (auto simp: longest_matches_def longest_of_def)
    then have "live_route r t = Inr (route_at t r)" by (rule route_at_live [OF ok(1)])
    then show ?thesis using a by (simp add: t'_def live_route_def)
  qed
  ultimately show ?thesis using that by blast
qed

text \<open>A unicast datagram that the node does not deliver to itself.\<close>

definition to_forward :: "datagram \<Rightarrow> nat \<Rightarrow> ip_flow \<Rightarrow> bool" where
  "to_forward d from t \<longleftrightarrow>
     (case ip_iface from t of
        Inl _ \<Rightarrow> False
      | Inr ie \<Rightarrow> \<not> if_loopback ie \<and> if_ipv4 ie \<and> if_addr ie \<noteq> 0) \<and>
     \<not> dg_bitError d \<and> \<not> isMulticast (dg_dest d) \<and> \<not> isLimitedBroadcastAddress (dg_dest d) \<and>
     \<not> fst (isLocalAddress (dg_dest d) (ip_rt t)) \<and>
     findInterfaceByLocalBroadcastAddress (dg_dest d) (ip_rt t) = None"

lemma incoming_forwarded:
  assumes f: "to_forward d from t" and h: "ip_hooks t = []" and fwd: "ft_IPForward (ip_rt t)"
    and a: "isLocalAddress (dg_dest d) (ip_rt t) = (own, rt)"
  shows "handleIncomingDatagram env d (Some from) t =
    routeUnicastPacket env (d\<lparr>dg_loop := None\<rparr>) (Some from) None 0 (t\<lparr>ip_rt := rt\<rparr>)"
proof -
  obtain ie where ie: "ip_iface from t = Inr ie" "\<not> if_loopback ie" "if_ipv4 ie" "if_addr ie \<noteq> 0"
    using f by (auto simp: to_forward_def split: sum.splits)
  have b: "findInterfaceByLocalBroadcastAddress (dg_dest d) rt = None" "ft_IPForward rt"
    using f fwd address_cache_view [OF a] by (simp_all add: to_forward_def findInterfaceByLocalBroadcastAddress_def)
  show ?thesis using f ie b a h
    by (simp add: handleIncomingDatagram_def datagramHook_def preroutingFinish_def to_forward_def ipv4Data_def
        isUnspecified_def Let_def)
qed

lemma datagram_flow_dest: "datagram_flow d = Inr f \<Longrightarrow> flow_dest f = dg_dest d"
  by (auto simp: datagram_flow_def split: if_splits option.splits prod.splits transport_pkt.splits)

lemma datagram_flow_loop [simp]: "datagram_flow (d\<lparr>dg_loop := x\<rparr>) = datagram_flow d"
  by (simp add: datagram_flow_def split: option.split prod.split transport_pkt.split)

lemma route_unicast_looked_up:
  assumes "datagram_flow d = Inr f" and "lookup (env_sort env) (env_seed env) f (ip_rt t) = Inr (v, rt)"
    and "\<And>r. v = Some r \<Longrightarrow> live_route r rt = Inr (e r)" and "ip_hooks t = []"
  shows "routeUnicastPacket env d (Some from) None 0 t =
    (case v of
       None \<Rightarrow> Inr (ip_emit (IcmpError d (Some from) DEST_UNREACHABLE) (t\<lparr>ip_rt := rt, ip_numUnroutable := ip_numUnroutable t + 1\<rparr>))
     | Some r \<Rightarrow>
         (case rt_interface (e r) of
            None \<Rightarrow> Inr (ip_emit (IcmpError d (Some from) DEST_UNREACHABLE) (t\<lparr>ip_rt := rt, ip_numUnroutable := ip_numUnroutable t + 1\<rparr>))
          | Some i \<Rightarrow> fragmentAndSend env d i (rt_gateway (e r)) (t\<lparr>ip_rt := rt, ip_numForwarded := ip_numForwarded t + 1\<rparr>)))"
  using assms
  by (auto simp: routeUnicastPacket_def choose_route_def ip_lookup_def datagramHook_def routeUnicastPacketFinish_def
      fragmentPostRouting_def split: option.split)


text \<open>A router with one interface and a route to 10.0.0.0/16.\<close>

definition routed_table :: flow_table where
  "routed_table = (new_table [example_iface] True)\<lparr>ft_heap := [(0, hop 0xFFFF0000 0x0A000101\<lparr>rt_table := True\<rparr>)],
     ft_routes := [0], ft_next := 1, ft_notes := [RouteAdded 0]\<rparr>"

lemma routed_table_run: "ecmp_run srt seed [example_iface] routed_table"
proof -
  let ?t0 = "new_table [example_iface] True" and ?e = "hop 0xFFFF0000 0x0A000101"
  have add: "rt_exec (AddRoute 0) (snd (new_route ?e ?t0)) = Inr routed_table"
    by (simp add: addRoute_def internalAddRoute_def live_route_def masks_valid hop_def new_route_def new_table_def
        isUnspecified_def insert_route_def Let_def routed_table_def upper_bound_def fire_def invalidateCache_def)
  have "ecmp_run srt seed [example_iface] ?t0" by (rule er_start)
  then have "ecmp_run srt seed [example_iface] (snd (new_route ?e ?t0))"
    by (rule er_op [where op = "NewRoute ?e"]) (simp_all add: moves_gateway_def hop_def)
  then show ?thesis
    by (rule er_op [OF _ _ _ add]) (simp_all add: moves_gateway_def hop_def new_route_def new_table_def)
qed

definition routed_node :: ip_flow where
  "routed_node = IPv4Flow routed_table False 32 32 60 False True 0 True"

lemma routed_node_run: "node_run srt seed [example_iface] routed_node"
  unfolding routed_node_def by (rule node_start [OF routed_table_run])

definition example_forward :: datagram where
  "example_forward = example_datagram\<lparr>dg_dest := 0x0A000304, dg_loop := None\<rparr>"

lemma example_forward_facts:
  "to_forward example_forward 0 routed_node" "datagram_flow example_forward = Inr (ByPorts 1 5 0x0A000304 6)"
  "longest_matches (dg_dest example_forward) (ip_rt routed_node) = [0]"
  "chosen_hop 2 (ByPorts 1 5 0x0A000304 6) (ip_rt routed_node) = 0x0A000101"
  "rt_interface (route_at (ip_rt routed_node) 0) = Some 0"
  by code_simp+


section \<open>What holds in every state\<close>

text \<open>
  C21: whatever happens to a node in whatever order, everything it hands to the link layer or keeps
  for an address resolution has a time to live that is not negative, what waits for an address is
  filed under it once, the service queue holds no packet of the ARP module, and the routing table
  is in a state that its own operations and lookups lead to.
\<close>

theorem node_invariants:
  assumes "node_run srt seed is t"
  shows "(\<forall>d \<in># handed_over t. 0 \<le> sint (dg_ttl d)) \<and> distinct (map fst (ip_pending t)) \<and>
    (\<forall>p \<in> set (ip_queue t). \<forall>a i. p \<noteq> FromARP a i) \<and> ecmp_run srt seed is (ip_rt t)"
  using node_run_ok [OF assms] by (simp add: node_ok_def link_ok_def al_wf_def queued_ok_def no_arp_def)

lemma example_handled_datagram:
  "case node_input example_env (Message (Packet (FromNetwork (NetDatagram example_forward) 0))) routed_node of
     Inl _ \<Rightarrow> False | Inr t \<Rightarrow> nic_datagrams (ip_events t) \<noteq> []"
  by code_simp

theorem node_invariants_witness:
  "\<exists>t. node_run sort_key 2 [example_iface] t \<and> handed_over t \<noteq> {#} \<and> (\<forall>d \<in># handed_over t. 0 \<le> sint (dg_ttl d))"
proof -
  let ?m = "Message (Packet (FromNetwork (NetDatagram example_forward) 0))"
  obtain t where t: "node_input example_env ?m routed_node = Inr t" "nic_datagrams (ip_events t) \<noteq> []"
    using example_handled_datagram by (auto split: sum.splits)
  have "node_run sort_key 2 [example_iface] t"
    by (rule node_step [OF routed_node_run _ _ _ _ t(1)]) (simp_all add: example_env_def steady_def)
  then show ?thesis using node_invariants t(2) by (fastforce simp: handed_over_def)
qed

end
