(* ===== verification/ArpFifo.thy ===== *)
theory ArpFifo
  imports ForwardProps "HOL-Library.Sublist"
begin

text \<open>
  Datagrams and address resolution: what is submitted to a next hop leaves in the order of
  submission, whatever resolutions succeed or fail meanwhile, as long as the ARP module knows no
  address it was asked to resolve before it has answered.
\<close>

section \<open>Submissions and signals\<close>

datatype arp_op = Submit ip_env datagram nat u32 | Resolved u32 nat u64 | Failed u32

fun arp_exec :: "arp_op list \<Rightarrow> ip_flow \<Rightarrow> ip_flow res" where
  "arp_exec [] t = Inr t"
| "arp_exec (Submit env d i a # ops) t = rbind (sendDatagramToOutput env d i a t) (arp_exec ops)"
| "arp_exec (Resolved a i mac # ops) t = arp_exec ops (receiveSignal (ArpCompleted a i mac) t)"
| "arp_exec (Failed a # ops) t = arp_exec ops (receiveSignal (ArpFailed a) t)"

text \<open>
  The documented behaviour of the ARP module, where \<open>R\<close> holds the addresses it was asked to
  resolve and has not answered for: it has no address for them.
\<close>

fun arp_honest :: "u32 set \<Rightarrow> arp_op list \<Rightarrow> bool" where
  "arp_honest R [] \<longleftrightarrow> True"
| "arp_honest R (Submit env d i a # ops) \<longleftrightarrow>
     (env_arp env a \<noteq> 0 \<longrightarrow> a \<notin> R) \<and> arp_honest (if env_arp env a = 0 then insert a R else R) ops"
| "arp_honest R (Resolved a i mac # ops) \<longleftrightarrow> arp_honest (R - {a}) ops"
| "arp_honest R (Failed a # ops) \<longleftrightarrow> arp_honest (R - {a}) ops"

text \<open>Submissions are to a specified unicast next hop over an IEEE 802 interface of the node.\<close>

definition lan :: "iface list \<Rightarrow> nat \<Rightarrow> u32 \<Rightarrow> bool" where
  "lan is i a \<longleftrightarrow>
     (case find (\<lambda>ie. if_id ie = i) is of
        None \<Rightarrow> False
      | Some ie \<Rightarrow> if_broadcast ie \<and> if_mac ie \<noteq> 0 \<and> if_ipv4 ie \<and>
          a \<noteq> makeBroadcastAddress (if_addr ie) (if_netmask ie)) \<and>
     \<not> isUnspecified a \<and> \<not> isMulticast a \<and> \<not> isLimitedBroadcastAddress a"

fun submissions_ok :: "iface list \<Rightarrow> arp_op list \<Rightarrow> bool" where
  "submissions_ok is [] \<longleftrightarrow> True"
| "submissions_ok is (Submit env d i a # ops) \<longleftrightarrow> lan is i a \<and> submissions_ok is ops"
| "submissions_ok is (op # ops) \<longleftrightarrow> submissions_ok is ops"

fun submitted :: "u32 \<Rightarrow> arp_op list \<Rightarrow> datagram list" where
  "submitted a [] = []"
| "submitted a (Submit env d i b # ops) = (if b = a then d # submitted a ops else submitted a ops)"
| "submitted a (op # ops) = submitted a ops"

definition pending_for :: "u32 \<Rightarrow> ip_flow \<Rightarrow> datagram list" where
  "pending_for a t = (case map_of (ip_pending t) a of None \<Rightarrow> [] | Some q \<Rightarrow> q)"

definition sent_to :: "u32 \<Rightarrow> (u32 \<times> datagram) list \<Rightarrow> datagram list" where
  "sent_to a sent = map snd (filter (\<lambda>p. fst p = a) sent)"

section \<open>Single steps\<close>

lemma submit_lan:
  assumes "lan is i a" and "ft_ift (ip_rt t) = is" and "env_arp env a \<noteq> 0 \<longrightarrow> map_of (ip_pending t) a = None"
  shows "sendDatagramToOutput env d i a t = Inr
    (if env_arp env a = 0 then ip_emit (StartResolution a i) (pending_insert a d t)
     else ip_emit (ToNIC (NetDatagram d) i (Some (env_arp env a))) t)"
proof -
  obtain ie where ie: "ip_iface i t = Inr ie" "if_broadcast ie" "if_mac ie \<noteq> 0" "if_ipv4 ie"
      "a \<noteq> makeBroadcastAddress (if_addr ie) (if_netmask ie)"
    using assms(1,2) by (auto simp: lan_def ip_iface_def interface_of_def split: option.splits)
  have a: "\<not> isUnspecified a" "\<not> isMulticast a" "\<not> isLimitedBroadcastAddress a"
    using assms(1) by (simp_all add: lan_def)
  show ?thesis
    using ie a assms(3)
    by (simp add: sendDatagramToOutput_def resolveNextHopMacAddress_def ipv4Data_def sendPacketToIeee802NIC_def)
qed

lemma resolved_step:
  fixes t :: ip_flow and a i mac
  defines "t' \<equiv> receiveSignal (ArpCompleted a i mac) t"
  shows "map_of (ip_pending t') = (map_of (ip_pending t))(a := None)" and "ip_rt t' = ip_rt t"
    and "nic_datagrams (ip_events t') = nic_datagrams (ip_events t) @ pending_for a t"
  unfolding t'_def using send_pending_fields
  by (auto simp: arpResolutionCompleted_def Let_def pending_for_def fun_upd_idem split: option.split)

lemma failed_step:
  fixes t :: ip_flow and a
  defines "t' \<equiv> receiveSignal (ArpFailed a) t"
  shows "map_of (ip_pending t') = (map_of (ip_pending t))(a := None)" and "ip_rt t' = ip_rt t"
    and "ip_events t' = ip_events t"
  unfolding t'_def
  by (auto simp: arpResolutionTimedOut_def fun_upd_idem split: option.split)

lemma sent_to_simps [simp]:
  "sent_to a [] = []" "sent_to a ((b, d) # sent) = (if b = a then d # sent_to a sent else sent_to a sent)"
  "sent_to a (map (Pair b) ds @ sent) = (if b = a then ds @ sent_to a sent else sent_to a sent)"
proof -
  show "sent_to a (map (Pair b) ds @ sent) = (if b = a then ds @ sent_to a sent else sent_to a sent)"
    by (induction ds) (auto simp: sent_to_def comp_def)
qed (simp_all add: sent_to_def)

text \<open>What the state says of the addresses that are being resolved.\<close>

definition waits_for :: "u32 set \<Rightarrow> ip_flow \<Rightarrow> bool" where
  "waits_for R t \<longleftrightarrow> (\<forall>a. map_of (ip_pending t) a \<noteq> None \<longrightarrow> a \<in> R)"

text \<open>The datagrams submitted to every next hop leave in order, none is lost unless a resolution fails.\<close>

definition in_order :: "arp_op list \<Rightarrow> ip_flow \<Rightarrow> bool" where
  "in_order ops t \<longleftrightarrow>
     (\<exists>t' sent. arp_exec ops t = Inr t' \<and>
        nic_datagrams (ip_events t') = nic_datagrams (ip_events t) @ map snd sent \<and>
        (\<forall>a. subseq (sent_to a sent @ pending_for a t') (pending_for a t @ submitted a ops) \<and>
           (Failed a \<notin> set ops \<longrightarrow> sent_to a sent @ pending_for a t' = pending_for a t @ submitted a ops)))"

lemma in_order_step:
  assumes o: "in_order ops u" and e: "arp_exec (op # ops) t = arp_exec ops u"
    and n: "nic_datagrams (ip_events u) = nic_datagrams (ip_events t) @ ds"
    and new: "\<And>a. submitted a (op # ops) = new a @ submitted a ops"
    and step: "\<And>a. subseq ((if b = a then ds else []) @ pending_for a u) (pending_for a t @ new a)"
      "\<And>a. op \<noteq> Failed a \<Longrightarrow> (if b = a then ds else []) @ pending_for a u = pending_for a t @ new a"
  shows "in_order (op # ops) t"
proof -
  obtain t' sent where r: "arp_exec ops u = Inr t'"
      "nic_datagrams (ip_events t') = nic_datagrams (ip_events u) @ map snd sent"
      "\<And>a. subseq (sent_to a sent @ pending_for a t') (pending_for a u @ submitted a ops)"
      "\<And>a. Failed a \<notin> set ops \<Longrightarrow> sent_to a sent @ pending_for a t' = pending_for a u @ submitted a ops"
    using o unfolding in_order_def by blast
  let ?sent = "map (Pair b) ds @ sent"
  have "subseq (sent_to a ?sent @ pending_for a t') (pending_for a t @ submitted a (op # ops))" for a
  proof -
    have "subseq ((if b = a then ds else []) @ sent_to a sent @ pending_for a t')
        ((if b = a then ds else []) @ pending_for a u @ submitted a ops)"
      by (rule list_emb_append_mono [OF _ r(3)]) simp_all
    moreover have "subseq (((if b = a then ds else []) @ pending_for a u) @ submitted a ops)
        ((pending_for a t @ new a) @ submitted a ops)"
      by (rule list_emb_append_mono [OF step(1)]) simp_all
    ultimately show ?thesis unfolding new by (auto elim: subseq_order.order_trans split: if_splits)
  qed
  moreover have "sent_to a ?sent @ pending_for a t' = pending_for a t @ submitted a (op # ops)"
    if "Failed a \<notin> set (op # ops)" for a
    using r(4) [of a] step(2) [of a] that unfolding new by (auto split: if_splits)
  moreover have "nic_datagrams (ip_events t') = nic_datagrams (ip_events t) @ map snd ?sent"
    using r(2) n by (simp add: comp_def)
  ultimately show ?thesis unfolding in_order_def e r(1) by blast
qed

lemma arp_exec_order:
  assumes "arp_honest R ops" and "submissions_ok is ops" and "ft_ift (ip_rt t) = is" and "waits_for R t"
  shows "in_order ops t"
  using assms
proof (induction R ops arbitrary: t rule: arp_honest.induct)
  case (1 R)
  show ?case unfolding in_order_def by (intro exI [of _ t] exI [of _ "[]"]) simp
next
  case (2 R env d i b ops)
  let ?new = "\<lambda>a. if b = a then [d] else []"
  have e: "sendDatagramToOutput env d i b t = Inr
    (if env_arp env b = 0 then ip_emit (StartResolution b i) (pending_insert b d t)
     else ip_emit (ToNIC (NetDatagram d) i (Some (env_arp env b))) t)"
    using 2 by (intro submit_lan) (auto simp: waits_for_def)
  show ?case
  proof (cases "env_arp env b = 0")
    case True
    let ?u = "ip_emit (StartResolution b i) (pending_insert b d t)"
    have p: "pending_for a ?u = pending_for a t @ ?new a" for a
      by (simp add: pending_for_def pending_insert_def split: option.split)
    have "in_order ops ?u" using 2 True by (intro 2(1)) (simp_all add: waits_for_def pending_insert_def)
    then show ?thesis
      by (rule in_order_step [where ds = "[]" and b = b and new = ?new]) (use e True p in simp_all)
  next
    case False
    let ?u = "ip_emit (ToNIC (NetDatagram d) i (Some (env_arp env b))) t"
    have p: "pending_for a ?u = pending_for a t" "pending_for b t = []" for a
      using 2(2,5) False by (auto simp: pending_for_def waits_for_def split: option.split)
    have "in_order ops ?u" using 2 False by (intro 2(1)) (simp_all add: waits_for_def)
    then show ?thesis
      by (rule in_order_step [where ds = "[d]" and b = b and new = ?new]) (use e False p in auto)
  qed
next
  case (3 R b i mac ops)
  let ?u = "receiveSignal (ArpCompleted b i mac) t"
  have p: "pending_for a ?u = (if b = a then [] else pending_for a t)" for a
    unfolding pending_for_def resolved_step by simp
  have "in_order ops ?u" using 3 resolved_step by (intro 3(1)) (auto simp: waits_for_def)
  then show ?case
    by (rule in_order_step [where ds = "pending_for b t" and b = b and new = "\<lambda>_. []"])
      (use p resolved_step(3) in auto)
next
  case (4 R b ops)
  let ?u = "receiveSignal (ArpFailed b) t"
  have p: "pending_for a ?u = (if b = a then [] else pending_for a t)" for a
    unfolding pending_for_def failed_step by simp
  have "in_order ops ?u" using 4 failed_step by (intro 4(1)) (auto simp: waits_for_def)
  then show ?case
    by (rule in_order_step [where ds = "[]" and b = b and new = "\<lambda>_. []"]) (use p failed_step(3) in auto)
qed



end
