(* ===== verification/PseudoTransport.thy ===== *)
theory PseudoTransport
  imports UnschedAllocator
begin

text \<open>
  \<open>PseudoIdealPriorityTransport\<close>: the transport that sends all packets of a message at once, each
  with the bytes that are still to send as its priority, and at the receiver collects the packets
  of a message until all its bytes are there.  Messages that are incomplete are kept by the id the
  sender gave them, since several senders can use the same id.
\<close>

section \<open>State\<close>

text \<open>\<open>numBytesToRecv\<close> is an \<open>int\<close>: a word here, read with \<open>sint\<close> where its sign matters.\<close>

record pi_inbound =
  pm_numBytesToRecv :: u32
  pm_msgByteLen :: u32
  pm_totalBytesOnWire :: u32
  pm_srcAddr :: u32
  pm_destAddr :: u32
  pm_msgIdAtSender :: u64
  pm_msgCreationTime :: simtime

datatype pi_event = PiMsgsLeft int | PiBytesLeft u32 | PiBind int | PiUdp homa_pkt | PiApp app_msg

record pseudo =
  pi_now :: simtime
  pi_localPort :: int
  pi_destPort :: int
  pi_msgId :: u64
  pi_maxDataBytesInPkt :: u32
  pi_incomplete :: "(u64 \<times> pi_inbound list) list"
  pi_startTimer :: "simtime option"
  pi_outs :: "pi_event list"

text \<open>The constructor, with the random first message id, and \<open>initialize\<close>, with the parameters.\<close>

definition PseudoIdealPriorityTransport :: "u64 \<Rightarrow> simtime \<Rightarrow> pseudo" where
  "PseudoIdealPriorityTransport rnd currTime =
     \<lparr>pi_now = currTime, pi_localPort = -1, pi_destPort = -1, pi_msgId = rnd,
      pi_maxDataBytesInPkt = MAX_ETHERNET_PAYLOAD_BYTES - IP_HEADER_SIZE - UDP_HEADER_SIZE -
        headerSize (new_pkt currTime UNSCHED_DATA),
      pi_incomplete = [], pi_startTimer = None, pi_outs = []\<rparr>"

definition pi_initialize :: "int \<Rightarrow> int \<Rightarrow> pseudo \<Rightarrow> pseudo" where
  "pi_initialize lport dport t =
     t\<lparr>pi_localPort := lport, pi_destPort := dport, pi_startTimer := Some (pi_now t)\<rparr>"

definition pi_emit :: "pi_event \<Rightarrow> pseudo \<Rightarrow> pseudo" where
  "pi_emit e t = t\<lparr>pi_outs := pi_outs t @ [e]\<rparr>"

definition pi_processStart :: "pseudo \<Rightarrow> pseudo" where
  "pi_processStart t = pi_emit (PiBind (pi_localPort t)) (t\<lparr>pi_startTimer := None\<rparr>)"

section \<open>Sending\<close>

text \<open>The packet with \<open>n\<close> bytes of data from \<open>first\<close> on, when \<open>left\<close> bytes are left after it.\<close>

definition pi_packet :: "app_msg \<Rightarrow> u64 \<Rightarrow> simtime \<Rightarrow> u32 \<Rightarrow> u32 \<Rightarrow> u32 \<Rightarrow> homa_pkt" where
  "pi_packet msg msgId currTime first n left =
     (let lastByte = first + n - 1;
          p = (new_pkt currTime UNSCHED_DATA)\<lparr>pkt_srcAddr := app_srcAddr msg, pkt_destAddr := app_destAddr msg,
                pkt_msgId := msgId, pkt_priority := left,
                pkt_unsched := empty_unsched\<lparr>uf_msgByteLen := app_byteLength msg,
                  uf_msgCreationTime := app_msgCreationTime msg, uf_totalUnschedBytes := ucast n,
                  uf_firstByte := first, uf_lastByte := lastByte\<rparr>\<rparr>
      in p\<lparr>pkt_byteLength := n + headerSize p\<rparr>)"

text \<open>
  The loop over the packets.  The size of a packet is positive in every state (\<open>pi_max_data\<close>
  below); with a size of zero the loop of the code would not end.
\<close>

function pi_packets :: "app_msg \<Rightarrow> u64 \<Rightarrow> simtime \<Rightarrow> u32 \<Rightarrow> u32 \<Rightarrow> u32 \<Rightarrow> homa_pkt list res" where
  "pi_packets msg msgId currTime maxData first bytesToSend =
     (let n = min bytesToSend maxData; left = bytesToSend - n
      in if left = 0 then Inr [pi_packet msg msgId currTime first n left]
         else if n = 0 then Inl Diverges
         else rbind (pi_packets msg msgId currTime maxData (first + n) left) (\<lambda>ps.
              Inr (pi_packet msg msgId currTime first n left # ps)))"
  by auto
termination
proof (relation "measure (\<lambda>(msg, msgId, currTime, maxData, first, bytesToSend). unat bytesToSend)", goal_cases)
  case (2 msg msgId currTime maxData first bytesToSend n left)
  then have "n \<le> bytesToSend" by simp
  then have "unat left = unat bytesToSend - unat n" using 2 by (simp add: unat_sub)
  moreover have "0 < unat n" using 2 by (simp add: unat_gt_0)
  moreover have "unat n \<le> unat bytesToSend" using \<open>n \<le> bytesToSend\<close> by (simp add: word_le_nat_alt)
  ultimately show ?case by simp
qed simp

declare pi_packets.simps [simp del]

definition pi_processMsgFromApp :: "app_msg \<Rightarrow> pseudo \<Rightarrow> pseudo res" where
  "pi_processMsgFromApp msg t =
     rbind (pi_packets msg (pi_msgId t) (pi_now t) (pi_maxDataBytesInPkt t) 0 (app_byteLength msg)) (\<lambda>ps.
     Inr (t\<lparr>pi_outs := pi_outs t @ [PiMsgsLeft 1, PiBytesLeft (app_byteLength msg)] @ map PiUdp ps,
            pi_msgId := pi_msgId t + 1\<rparr>))"

section \<open>Receiving\<close>

definition pi_InboundMsg :: "homa_pkt \<Rightarrow> pi_inbound res" where
  "pi_InboundMsg p =
     rbind (assertion (pkt_type p = UNSCHED_DATA)) (\<lambda>_.
     Inr \<lparr>pm_numBytesToRecv = uf_msgByteLen (pkt_unsched p), pm_msgByteLen = uf_msgByteLen (pkt_unsched p),
          pm_totalBytesOnWire = 0, pm_srcAddr = pkt_srcAddr p, pm_destAddr = pkt_destAddr p,
          pm_msgIdAtSender = pkt_msgId p, pm_msgCreationTime = uf_msgCreationTime (pkt_unsched p)\<rparr>)"

definition appendPktData :: "homa_pkt \<Rightarrow> pi_inbound \<Rightarrow> (bool \<times> pi_inbound) res" where
  "appendPktData p m =
     (let uf = pkt_unsched p
      in rbind (assertion (pkt_type p = UNSCHED_DATA \<and> uf_msgCreationTime uf = pm_msgCreationTime m \<and>
             uf_msgByteLen uf = pm_msgByteLen m)) (\<lambda>_.
         rbind (assertion (pkt_srcAddr p = pm_srcAddr m \<and> pkt_destAddr p = pm_destAddr m \<and>
             pkt_msgId p = pm_msgIdAtSender m)) (\<lambda>_.
         if pm_msgByteLen m = 0 then
           Inr (True, m\<lparr>pm_totalBytesOnWire := pm_totalBytesOnWire m + getBytesOnWire 0 (pkt_type p)\<rparr>)
         else
           let dataBytesInPkt = uf_lastByte uf - uf_firstByte uf + 1;
               m = m\<lparr>pm_totalBytesOnWire := pm_totalBytesOnWire m + getBytesOnWire dataBytesInPkt (pkt_type p),
                     pm_numBytesToRecv := pm_numBytesToRecv m - dataBytesInPkt\<rparr>
           in if sint (pm_numBytesToRecv m) < 0 then Inl RuntimeError
              else Inr (pm_numBytesToRecv m = 0, m))))"

text \<open>The search stops at the first message from the sender; every one passed must have the id.\<close>

fun pi_find :: "u64 \<Rightarrow> u32 \<Rightarrow> pi_inbound list \<Rightarrow> pi_inbound option res" where
  "pi_find msgId srcAddr [] = Inr None"
| "pi_find msgId srcAddr (m # ms) =
     rbind (assertion (pm_msgIdAtSender m = msgId)) (\<lambda>_.
     if pm_srcAddr m = srcAddr then Inr (Some m) else pi_find msgId srcAddr ms)"

text \<open>
  The entry of a sender in a list of messages, which hold one per sender: \<open>pi_put\<close> stores the
  changed object, \<open>pi_drop\<close> removes it.
\<close>

definition pi_put :: "pi_inbound \<Rightarrow> pi_inbound list \<Rightarrow> pi_inbound list" where
  "pi_put m ms = map (\<lambda>x. if pm_srcAddr x = pm_srcAddr m then m else x) ms"

definition pi_drop :: "u32 \<Rightarrow> pi_inbound list \<Rightarrow> pi_inbound list" where
  "pi_drop srcAddr ms = filter (\<lambda>x. pm_srcAddr x \<noteq> srcAddr) ms"

definition pi_complete :: "pi_inbound \<Rightarrow> app_msg" where
  "pi_complete m =
     \<lparr>app_destAddr = pm_destAddr m, app_srcAddr = pm_srcAddr m, app_isEcho = False,
      app_byteLength = pm_msgByteLen m, app_msgCreationTime = pm_msgCreationTime m,
      app_transportSchedDelay = 0, app_msgBytesOnWire = pm_totalBytesOnWire m\<rparr>"

definition pi_processRcvdPkt :: "homa_pkt \<Rightarrow> pseudo \<Rightarrow> pseudo res" where
  "pi_processRcvdPkt p t =
     (let msgId = pkt_msgId p;
          ms = (case map_of (pi_incomplete t) msgId of None \<Rightarrow> [] | Some ms \<Rightarrow> ms)
      in rbind (pi_find msgId (pkt_srcAddr p) ms) (\<lambda>found.
         rbind (case found of
                  Some m \<Rightarrow> Inr (m, ms)
                | None \<Rightarrow> rbind (pi_InboundMsg p) (\<lambda>m. Inr (m, m # ms))) (\<lambda>(m, ms).
         rbind (appendPktData p m) (\<lambda>(complete, m).
         if complete then
           let ms = pi_drop (pm_srcAddr m) ms
           in Inr (pi_emit (PiApp (pi_complete m))
                (t\<lparr>pi_incomplete := (if ms = [] then al_del msgId (pi_incomplete t)
                                    else al_put msgId ms (pi_incomplete t))\<rparr>))
         else Inr (t\<lparr>pi_incomplete := al_put msgId (pi_put m ms) (pi_incomplete t)\<rparr>)))))"

datatype pi_msg = PiSelf int | PiAppIn app_msg | PiUdpIn homa_pkt

fun pi_handleMessage :: "pi_msg \<Rightarrow> pseudo \<Rightarrow> pseudo res" where
  "pi_handleMessage (PiSelf kind) t =
     (if kind = 1 then Inr (pi_processStart t) else if kind = 2 then Inr t else Inl RuntimeError)"
| "pi_handleMessage (PiAppIn msg) t = pi_processMsgFromApp msg t"
| "pi_handleMessage (PiUdpIn p) t = pi_processRcvdPkt p t"


fun pi_run :: "pi_msg list \<Rightarrow> pseudo \<Rightarrow> pseudo res" where
  "pi_run [] t = Inr t"
| "pi_run (m # ms) t = rbind (pi_handleMessage m t) (pi_run ms)"

section \<open>The packets of a message in closed form\<close>

definition pi_count :: "nat \<Rightarrow> nat \<Rightarrow> nat" where
  "pi_count m n = (if n = 0 then 1 else (n + m - 1) div m)"

definition pi_nth :: "app_msg \<Rightarrow> u64 \<Rightarrow> simtime \<Rightarrow> nat \<Rightarrow> homa_pkt" where
  "pi_nth msg msgId currTime i =
     (let len = unat (app_byteLength msg)
      in pi_packet msg msgId currTime (of_nat (1442 * i)) (of_nat (min (len - 1442 * i) 1442))
           (of_nat (len - 1442 * Suc i)))"

definition pi_tiles :: "app_msg \<Rightarrow> u64 \<Rightarrow> simtime \<Rightarrow> homa_pkt list" where
  "pi_tiles msg msgId currTime =
     map (pi_nth msg msgId currTime) [0..<pi_count 1442 (unat (app_byteLength msg))]"

lemma pi_count_step:
  assumes "0 < m" "m < n"
  shows "pi_count m n = Suc (pi_count m (n - m))"
proof -
  have "n + m - 1 = (n - 1) + m" using assms by simp
  then have "(n + m - 1) div m = Suc ((n - 1) div m)" using assms by (simp only: div_add_self2)
  then show ?thesis using assms by (simp add: pi_count_def)
qed

lemma pi_count_small: "0 < m \<Longrightarrow> n \<le> m \<Longrightarrow> pi_count m n = 1"
  by (auto simp: pi_count_def intro!: div_nat_eqI)

lemma pi_packets_closed:
  assumes "0 < maxData"
  shows "pi_packets msg i currTime maxData first n =
     Inr (map (\<lambda>k. pi_packet msg i currTime (first + of_nat (unat maxData * k))
            (of_nat (min (unat n - unat maxData * k) (unat maxData)))
            (of_nat (unat n - unat maxData * Suc k))) [0..<pi_count (unat maxData) (unat n)])"
  using assms
proof (induction msg i currTime maxData first n rule: pi_packets.induct)
  case (1 msg msgId currTime maxData first n)
  define m where "m = unat maxData"
  have m: "0 < m" using "1.prems" by (simp add: m_def word_less_nat_alt)
  have M: "maxData = of_nat m" by (simp add: m_def)
  show ?case
  proof (cases "n \<le> maxData")
    case True
    then have le: "unat n \<le> m" by (simp add: m_def word_le_nat_alt)
    have "min n maxData = n" using True by (simp add: min_def)
    then show ?thesis using le pi_count_small [OF m le]
      by (subst pi_packets.simps) (simp add: m_def [symmetric] min_def)
  next
    case False
    then have gt: "m < unat n" by (simp add: m_def word_less_nat_alt not_le)
    have mn: "min n maxData = maxData" using False by (simp add: min_def)
    have left: "unat (n - maxData) = unat n - m" using False by (simp add: m_def unat_sub)
    have leftw: "n - maxData = of_nat (unat n - m)" by (simp add: left [symmetric])
    have ne: "n - maxData \<noteq> 0" using left gt by auto
    have IH: "pi_packets msg msgId currTime maxData (first + maxData) (n - maxData) =
        Inr (map (\<lambda>k. pi_packet msg msgId currTime (first + maxData + of_nat (m * k))
               (of_nat (min (unat n - m - m * k) m)) (of_nat (unat n - m - m * Suc k)))
               [0..<pi_count m (unat n - m)])"
      using "1.IH" [OF refl refl] ne "1.prems" by (simp add: mn left m_def [symmetric])
    have shift: "[0..<pi_count m (unat n)] = 0 # map Suc [0..<pi_count m (unat n - m)]"
      using pi_count_step [OF m gt] by (simp add: upt_conv_Cons map_Suc_upt del: upt_Suc)
    have "pi_packets msg msgId currTime maxData first n =
        rbind (pi_packets msg msgId currTime maxData (first + maxData) (n - maxData)) (\<lambda>ps.
          Inr (pi_packet msg msgId currTime first maxData (n - maxData) # ps))"
      using ne "1.prems" by (subst pi_packets.simps) (auto simp: mn Let_def)
    also have "\<dots> = Inr (map (\<lambda>k. pi_packet msg msgId currTime (first + of_nat (m * k))
        (of_nat (min (unat n - m * k) m)) (of_nat (unat n - m * Suc k))) [0..<pi_count m (unat n)])"
      unfolding IH shift using gt
      by (simp add: leftw [symmetric, unfolded M] M min_absorb2 comp_def algebra_simps del: of_nat_diff)
    finally show ?thesis by (simp add: m_def)
  qed
qed


section \<open>What the packets carry\<close>

lemma pi_count_pos [simp]: "0 < m \<Longrightarrow> 0 < pi_count m n"
  by (auto simp: pi_count_def div_greater_zero_iff)

lemma pi_count_chunk: "0 < m \<Longrightarrow> k < pi_count m n \<Longrightarrow> 0 < n \<Longrightarrow> m * k < n"
proof -
  assume m: "0 < m" and k: "k < pi_count m n" and n: "0 < n"
  then have "Suc k \<le> (n + m - 1) div m" by (simp add: pi_count_def)
  then have "Suc k * m \<le> n + m - 1" using m by (simp add: less_eq_div_iff_mult_less_eq)
  with m n show "m * k < n" by (simp add: mult.commute)
qed

lemma pi_count_cover: "0 < m \<Longrightarrow> n \<le> m * pi_count m n"
proof (induction n rule: less_induct)
  case (less n)
  show ?case
  proof (cases "n \<le> m")
    case False
    then have "n - m \<le> m * pi_count m (n - m)" using less.prems by (intro less.IH) auto
    with False less.prems show ?thesis using pi_count_step [of m n] by simp
  qed (use less.prems pi_count_small [of m n] in simp)
qed

lemma pi_data_chunks:
  assumes "0 < m"
  shows "map (\<lambda>k. min (n - m * k) m) [0..<pi_count m n] = (if n = 0 then [0] else chunks m n)"
proof (cases "n = 0")
  case False
  then show ?thesis using assms
  proof (induction n rule: less_induct)
    case (less n)
    show ?case
    proof (cases "n \<le> m")
      case True
      with less.prems pi_count_small [of m n] chunks_step [of n m] show ?thesis by simp
    next
      case False
      then have shift: "[0..<pi_count m n] = 0 # map Suc [0..<pi_count m (n - m)]"
        using pi_count_step [of m n] less.prems by (simp add: upt_conv_Cons map_Suc_upt del: upt_Suc)
      have "map (\<lambda>k. min (n - m - m * k) m) [0..<pi_count m (n - m)] = chunks m (n - m)"
        using less.IH [of "n - m"] less.prems False by simp
      with False less.prems shift chunks_step [of n m] show ?thesis
        by (simp add: comp_def min_absorb2 del: upt_Suc)
    qed
  qed
qed (simp add: pi_count_small assms)

lemma pi_max_data [simp]: "pi_maxDataBytesInPkt (PseudoIdealPriorityTransport rnd currTime) = 1442"
  by (simp add: PseudoIdealPriorityTransport_def headerSize_def new_pkt_def)

lemma pi_packets_tiles:
  "pi_packets msg i currTime 1442 0 (app_byteLength msg) = Inr (pi_tiles msg i currTime)"
proof -
  have "(0 :: u32) < 1442" by simp
  from pi_packets_closed [OF this, of msg i currTime 0 "app_byteLength msg"] show ?thesis
    by (simp add: pi_tiles_def pi_nth_def Let_def)
qed


section \<open>The receiver\<close>

definition pkt_data :: "homa_pkt \<Rightarrow> u32" where
  "pkt_data p = uf_lastByte (pkt_unsched p) - uf_firstByte (pkt_unsched p) + 1"

definition pi_wf :: "pseudo \<Rightarrow> bool" where
  "pi_wf t \<longleftrightarrow> pi_maxDataBytesInPkt t = 1442 \<and> al_wf (pi_incomplete t) \<and>
     (\<forall>(i, ms) \<in> set (pi_incomplete t). ms \<noteq> [] \<and> distinct (map pm_srcAddr ms) \<and>
        (\<forall>m \<in> set ms. pm_msgIdAtSender m = i \<and> 0 < sint (pm_numBytesToRecv m)))"

definition pi_list :: "u64 \<Rightarrow> pseudo \<Rightarrow> pi_inbound list" where
  "pi_list i t = (case map_of (pi_incomplete t) i of None \<Rightarrow> [] | Some ms \<Rightarrow> ms)"

definition pi_pending :: "u64 \<Rightarrow> u32 \<Rightarrow> pseudo \<Rightarrow> pi_inbound option" where
  "pi_pending i srcAddr t = find (\<lambda>m. pm_srcAddr m = srcAddr) (pi_list i t)"

declare al_put_put [simp]

lemma al_put_entries: "(i, w) \<in> set (al_put k v m) \<Longrightarrow> (i = k \<and> w = v) \<or> (i, w) \<in> set m"
  by (induction m) (auto split: if_splits)

lemma set_al_del: "(i, w) \<in> set (al_del k m) \<Longrightarrow> (i, w) \<in> set m"
  by (simp add: al_del_def)

lemma pi_wf_list:
  assumes "pi_wf t"
  shows "distinct (map pm_srcAddr (pi_list i t))"
    and "m \<in> set (pi_list i t) \<Longrightarrow> pm_msgIdAtSender m = i \<and> 0 < sint (pm_numBytesToRecv m)"
    and "map_of (pi_incomplete t) i = (if pi_list i t = [] then None else Some (pi_list i t))"
proof -
  have *: "ms \<noteq> [] \<and> distinct (map pm_srcAddr ms) \<and>
      (\<forall>m \<in> set ms. pm_msgIdAtSender m = i \<and> 0 < sint (pm_numBytesToRecv m))"
    if "map_of (pi_incomplete t) i = Some ms" for ms
    using map_of_SomeD [OF that] assms unfolding pi_wf_def by fast
  show "distinct (map pm_srcAddr (pi_list i t))"
    and "m \<in> set (pi_list i t) \<Longrightarrow> pm_msgIdAtSender m = i \<and> 0 < sint (pm_numBytesToRecv m)"
    and "map_of (pi_incomplete t) i = (if pi_list i t = [] then None else Some (pi_list i t))"
    using * by (cases "map_of (pi_incomplete t) i"; simp add: pi_list_def)+
qed

lemma pi_find_eq:
  "\<forall>m \<in> set ms. pm_msgIdAtSender m = i \<Longrightarrow>
    pi_find i a ms = Inr (find (\<lambda>m. pm_srcAddr m = a) ms)"
  by (induction ms) auto

lemma sint_positive: "\<not> sint w < 0 \<Longrightarrow> w \<noteq> 0 \<Longrightarrow> 0 < sint (w :: 'a::len word)"
  using signed_word_eqI [of w 0] by (cases "sint w = 0") auto

lemma appendPktData_keeps:
  assumes "appendPktData p m = Inr (c, m')"
  shows "pm_srcAddr m' = pm_srcAddr m \<and> pm_msgIdAtSender m' = pm_msgIdAtSender m \<and>
    (\<not> c \<longrightarrow> 0 < sint (pm_numBytesToRecv m'))"
  using assms by (auto simp: appendPktData_def Let_def res_simps intro: sint_positive split: if_splits)

lemma pi_drop_absent: "pi_drop a ms = ms" if "a \<notin> pm_srcAddr ` set ms"
  using that by (auto simp: pi_drop_def filter_id_conv)

lemma pi_put_absent: "pi_put m ms = ms" if "pm_srcAddr m \<notin> pm_srcAddr ` set ms"
  using that unfolding pi_put_def by (intro map_idI) (metis image_eqI)

lemma pi_put_srcs [simp]: "map pm_srcAddr (pi_put m ms) = map pm_srcAddr ms"
  by (auto simp: pi_put_def)

lemma pi_put_Nil [simp]: "pi_put m ms = [] \<longleftrightarrow> ms = []"
  by (simp add: pi_put_def)

lemma pi_processRcvdPkt_wf:
  assumes wf: "pi_wf t" and r: "pi_processRcvdPkt p t = Inr t'"
  shows "pi_wf t'"
proof -
  define i where "i = pkt_msgId p"
  define ms where "ms = pi_list i t"
  have ids: "\<forall>m \<in> set ms. pm_msgIdAtSender m = i" using pi_wf_list(2) [OF wf] by (auto simp: ms_def)
  define ok where "ok = (\<lambda>ms :: pi_inbound list. distinct (map pm_srcAddr ms) \<and>
    (\<forall>m \<in> set ms. pm_msgIdAtSender m = i \<and> 0 < sint (pm_numBytesToRecv m)))"
  have okms: "ok ms" using pi_wf_list [OF wf] by (simp add: ok_def ms_def)
  from r obtain m ms1 c m' where
    found: "(find (\<lambda>m. pm_srcAddr m = pkt_srcAddr p) ms = Some m \<and> ms1 = ms) \<or>
            (find (\<lambda>m. pm_srcAddr m = pkt_srcAddr p) ms = None \<and> ms1 = m # ms \<and> pi_InboundMsg p = Inr m)"
    and ap: "appendPktData p m = Inr (c, m')"
    and t': "t' = (if c then pi_emit (PiApp (pi_complete m')) (t\<lparr>pi_incomplete :=
          (if pi_drop (pm_srcAddr m') ms1 = [] then al_del i (pi_incomplete t)
           else al_put i (pi_drop (pm_srcAddr m') ms1) (pi_incomplete t))\<rparr>)
        else t\<lparr>pi_incomplete := al_put i (pi_put m' ms1) (pi_incomplete t)\<rparr>)"
    using pi_find_eq [OF ids, of "pkt_srcAddr p"]
    by (auto simp: pi_processRcvdPkt_def Let_def res_simps i_def [symmetric] pi_list_def [symmetric]
          ms_def [symmetric] split: option.splits if_splits)
  have src: "pm_srcAddr m = pkt_srcAddr p"
    using found by (auto simp: find_Some_iff pi_InboundMsg_def res_simps)
  have keeps: "pm_srcAddr m' = pkt_srcAddr p" "\<not> c \<longrightarrow> 0 < sint (pm_numBytesToRecv m')"
    "pm_msgIdAtSender m' = pm_msgIdAtSender m"
    using appendPktData_keeps [OF ap] src by auto
  have mi: "pm_msgIdAtSender m = i"
    using found ids by (auto simp: find_Some_iff pi_InboundMsg_def res_simps i_def)
  have dist: "distinct (map pm_srcAddr ms1)"
  proof (cases "find (\<lambda>m. pm_srcAddr m = pkt_srcAddr p) ms")
    case None
    then have "pkt_srcAddr p \<notin> pm_srcAddr ` set ms" unfolding find_None_iff by (metis imageE)
    with None found okms src show ?thesis by (simp add: ok_def)
  qed (use found okms in \<open>simp add: ok_def\<close>)
  have rest: "x \<in> set ms1 \<Longrightarrow> pm_srcAddr x \<noteq> pkt_srcAddr p \<Longrightarrow> x \<in> set ms" for x
    using found src by auto
  have put: "ok (pi_put m' ms1)" if "\<not> c"
    unfolding ok_def
  proof (intro conjI ballI)
    fix x assume "x \<in> set (pi_put m' ms1)"
    then consider "x = m'" | "x \<in> set ms1" "pm_srcAddr x \<noteq> pkt_srcAddr p"
      using keeps(1) by (auto simp: pi_put_def split: if_splits)
    then have "pm_msgIdAtSender x = i \<and> 0 < sint (pm_numBytesToRecv x)"
      by cases (use that keeps mi rest [of x] okms in \<open>auto simp: ok_def\<close>)
    then show "pm_msgIdAtSender x = i" "0 < sint (pm_numBytesToRecv x)" by simp_all
  qed (simp only: pi_put_srcs dist)
  have drop: "ok (pi_drop (pm_srcAddr m') ms1)"
    unfolding ok_def using dist rest okms keeps
    by (auto simp: pi_drop_def ok_def distinct_map_filter)
  have ne: "ms1 \<noteq> []" using found by (auto simp: find_Some_iff)
  show ?thesis
    using wf put drop ne unfolding t'
    by (auto simp: pi_wf_def pi_emit_def ok_def dest!: al_put_entries set_al_del)
qed


text \<open>A state in which message \<open>m\<close> stands in front of the list \<open>pi_list i t\<close>.\<close>

definition pi_with :: "u64 \<Rightarrow> pi_inbound \<Rightarrow> pseudo \<Rightarrow> pseudo" where
  "pi_with i m t = t\<lparr>pi_incomplete := al_put i (m # pi_list i t) (pi_incomplete t)\<rparr>"

definition pi_fresh :: "pi_inbound \<Rightarrow> pseudo \<Rightarrow> bool" where
  "pi_fresh m t \<longleftrightarrow> pm_srcAddr m \<notin> pm_srcAddr ` set (pi_list (pm_msgIdAtSender m) t)"

definition pi_take :: "homa_pkt \<Rightarrow> pi_inbound \<Rightarrow> pseudo \<Rightarrow> pseudo res" where
  "pi_take p m t =
     rbind (appendPktData p m) (\<lambda>(c, m').
       Inr (if c then pi_emit (PiApp (pi_complete m')) t else pi_with (pkt_msgId p) m' t))"

lemma pi_list_with: "pi_list i (pi_with i m t) = m # pi_list i t"
  by (simp add: pi_list_def pi_with_def)

lemma pi_take_step:
  assumes wf: "pi_wf t" and m: "pm_msgIdAtSender m = pkt_msgId p" "pm_srcAddr m = pkt_srcAddr p"
    and fresh: "pi_fresh m t"
  shows "pi_processRcvdPkt p (pi_with (pkt_msgId p) m t) = pi_take p m t"
    and "pi_InboundMsg p = Inr m \<Longrightarrow> pi_processRcvdPkt p t = pi_take p m t"
proof -
  define i where "i = pkt_msgId p"
  define ms where "ms = pi_list i t"
  have ids: "\<forall>m \<in> set ms. pm_msgIdAtSender m = i" using pi_wf_list(2) [OF wf] by (auto simp: ms_def)
  have new: "pkt_srcAddr p \<notin> pm_srcAddr ` set ms"
    using fresh m by (simp add: pi_fresh_def ms_def i_def)
  then have none: "find (\<lambda>m. pm_srcAddr m = pkt_srcAddr p) ms = None"
    unfolding find_None_iff by (metis imageI)
  have drop: "pi_drop (pkt_srcAddr p) (m # ms) = ms"
    using pi_drop_absent [OF new] m by (simp add: pi_drop_def)
  have put: "pm_srcAddr m' = pkt_srcAddr p \<Longrightarrow> pi_put m' (m # ms) = m' # ms" for m'
    using pi_put_absent [of m' ms] new m by (simp add: pi_put_def)
  have fin: "(if c then
       let ms' = pi_drop (pm_srcAddr m') (m # ms)
       in Inr (pi_emit (PiApp (pi_complete m'))
            (t'\<lparr>pi_incomplete := (if ms' = [] then al_del i (pi_incomplete t')
                               else al_put i ms' (pi_incomplete t'))\<rparr>))
     else Inr (t'\<lparr>pi_incomplete := al_put i (pi_put m' (m # ms)) (pi_incomplete t')\<rparr>)) =
    (Inr (if c then pi_emit (PiApp (pi_complete m')) t else pi_with i m' t) :: pseudo res)"
    if ap: "appendPktData p m = Inr (c, m')" and t': "t' = t \<or> t' = pi_with i m t" for c m' t'
  proof -
    have src: "pm_srcAddr m' = pkt_srcAddr p" using appendPktData_keeps [OF ap] m by simp
    have "(if ms = [] then al_del i (pi_incomplete t') else al_put i ms (pi_incomplete t')) = pi_incomplete t"
      using t' pi_wf_list(3) [OF wf, of i]
      by (auto simp: ms_def pi_with_def al_del_put al_put_same al_del_absent)
    moreover have "t'\<lparr>pi_incomplete := x\<rparr> = t\<lparr>pi_incomplete := x\<rparr>" for x using t' by (auto simp: pi_with_def)
    moreover have "al_put i (m' # ms) (pi_incomplete t') = al_put i (m' # ms) (pi_incomplete t)"
      using t' by (auto simp: pi_with_def)
    ultimately show ?thesis by (simp add: src drop put Let_def pi_with_def ms_def [symmetric])
  qed
  show "pi_processRcvdPkt p (pi_with (pkt_msgId p) m t) = pi_take p m t"
    using fin [of _ _ "pi_with i m t"] m ids pi_list_with [of i m t]
    unfolding pi_processRcvdPkt_def pi_take_def Let_def i_def [symmetric] pi_list_def [symmetric]
    by (cases "appendPktData p m") (auto simp: ms_def i_def)
  show "pi_processRcvdPkt p t = pi_take p m t" if new: "pi_InboundMsg p = Inr m"
    using fin [of _ _ t] new pi_find_eq [OF ids, of "pkt_srcAddr p"] none
    unfolding pi_processRcvdPkt_def pi_take_def Let_def i_def [symmetric] pi_list_def [symmetric] ms_def [symmetric]
    by (cases "appendPktData p m") auto
qed


definition pi_carries :: "pi_inbound \<Rightarrow> homa_pkt \<Rightarrow> bool" where
  "pi_carries m p \<longleftrightarrow> pkt_type p = UNSCHED_DATA \<and> uf_msgCreationTime (pkt_unsched p) = pm_msgCreationTime m \<and>
     uf_msgByteLen (pkt_unsched p) = pm_msgByteLen m \<and> pkt_srcAddr p = pm_srcAddr m \<and>
     pkt_destAddr p = pm_destAddr m \<and> pkt_msgId p = pm_msgIdAtSender m"

definition pi_after :: "homa_pkt \<Rightarrow> pi_inbound \<Rightarrow> pi_inbound" where
  "pi_after p m = m\<lparr>pm_totalBytesOnWire := pm_totalBytesOnWire m + getBytesOnWire (pkt_data p) UNSCHED_DATA,
     pm_numBytesToRecv := pm_numBytesToRecv m - pkt_data p\<rparr>"

lemma pi_after_simps [simp]:
  "pi_carries (pi_after p m) q = pi_carries m q" "pi_fresh (pi_after p m) t = pi_fresh m t"
  "pm_msgIdAtSender (pi_after p m) = pm_msgIdAtSender m" "pm_msgByteLen (pi_after p m) = pm_msgByteLen m"
  "pm_totalBytesOnWire (pi_after p m) = pm_totalBytesOnWire m + getBytesOnWire (pkt_data p) UNSCHED_DATA"
  "pm_numBytesToRecv (pi_after p m) = pm_numBytesToRecv m - pkt_data p"
  by (simp_all add: pi_after_def pi_carries_def pi_fresh_def)

lemma pi_complete_after:
  "pi_complete (pi_after p m\<lparr>pm_totalBytesOnWire := w\<rparr>) = pi_complete (m\<lparr>pm_totalBytesOnWire := w\<rparr>)"
  by (simp add: pi_after_def pi_complete_def)

lemma sint_word_of_int: "- 2147483648 \<le> i \<Longrightarrow> i < 2147483648 \<Longrightarrow> sint (word_of_int i :: u32) = i"
  using signed_take_bit_int_eq_self [of 31 i] by (simp add: signed_of_int)

lemma sint_small:
  assumes "unat (w :: u32) < 2 ^ 31"
  shows "0 \<le> sint w"
proof -
  have "int (unat w) < 2 ^ 31" using assms by (metis of_nat_less_iff of_nat_numeral of_nat_power)
  then have "uint w < 2147483648" by simp
  then have "sint (word_of_int (uint w) :: u32) = uint w"
    using sint_word_of_int [of "uint w"] order_trans [OF _ uint_ge_0 [of w]] by simp
  then show ?thesis by simp
qed

lemma append_carried:
  assumes "pi_carries m p" "pm_msgByteLen m \<noteq> 0" "unat (pkt_data p) \<le> unat (pm_numBytesToRecv m)"
    "unat (pm_numBytesToRecv m) < 2 ^ 31"
  shows "appendPktData p m = Inr (pkt_data p = pm_numBytesToRecv m, pi_after p m)"
proof -
  have "unat (pm_numBytesToRecv m - pkt_data p) = unat (pm_numBytesToRecv m) - unat (pkt_data p)"
    using assms(3) by (simp add: unat_sub word_le_nat_alt)
  then have "0 \<le> sint (pm_numBytesToRecv m - pkt_data p)" using assms(4) by (intro sint_small) simp
  then show ?thesis using assms(1,2)
    by (auto simp: appendPktData_def Let_def pi_carries_def pi_after_def pkt_data_def)
qed

abbreviation pi_wire :: "homa_pkt list \<Rightarrow> u32" where
  "pi_wire qs \<equiv> sum_list (map (\<lambda>q. getBytesOnWire (pkt_data q) UNSCHED_DATA) qs)"

lemma pi_run_rest:
  assumes "pi_wf t" "pi_fresh m t" "\<forall>q \<in> set qs. pi_carries m q \<and> pkt_data q \<noteq> 0" "qs \<noteq> []"
    "pm_msgByteLen m \<noteq> 0" "(\<Sum>q \<leftarrow> qs. unat (pkt_data q)) = unat (pm_numBytesToRecv m)"
    "unat (pm_numBytesToRecv m) < 2 ^ 31"
  shows "pi_run (map PiUdpIn qs) (pi_with (pm_msgIdAtSender m) m t) =
    Inr (pi_emit (PiApp (pi_complete (m\<lparr>pm_totalBytesOnWire := pm_totalBytesOnWire m + pi_wire qs\<rparr>))) t)"
  using assms(2-)
proof (induction qs arbitrary: m)
  case (Cons p qs)
  have c: "pi_carries m p" and id: "pm_msgIdAtSender m = pkt_msgId p" "pm_srcAddr m = pkt_srcAddr p"
    using Cons.prems(2) by (auto simp: pi_carries_def)
  have step: "pi_processRcvdPkt p (pi_with (pkt_msgId p) m t) =
      Inr (if pkt_data p = pm_numBytesToRecv m then pi_emit (PiApp (pi_complete (pi_after p m))) t
           else pi_with (pkt_msgId p) (pi_after p m) t)"
    unfolding pi_take_step(1) [OF assms(1) id Cons.prems(1)] pi_take_def
    using append_carried [OF c Cons.prems(4) _ Cons.prems(6)] Cons.prems(5) by simp
  have sum: "unat (pkt_data p) + (\<Sum>q \<leftarrow> qs. unat (pkt_data q)) = unat (pm_numBytesToRecv m)"
    using Cons.prems(5) by simp
  show ?case
  proof (cases "qs = []")
    case True
    then have "pkt_data p = pm_numBytesToRecv m" using sum by (simp add: word_unat_eq_iff)
    then show ?thesis using True step id
      by (simp add: pi_complete_def pi_after_def)
  next
    case False
    then have pos: "0 < (\<Sum>q \<leftarrow> qs. unat (pkt_data q))"
      using Cons.prems(2) by (cases qs) (auto simp: unat_gt_0)
    then have "unat (pkt_data p) < unat (pm_numBytesToRecv m)" using sum by linarith
    then have ne: "pkt_data p \<noteq> pm_numBytesToRecv m" by auto
    have "unat (pm_numBytesToRecv m - pkt_data p) = unat (pm_numBytesToRecv m) - unat (pkt_data p)"
      using sum by (intro unat_sub) (simp add: word_le_nat_alt)
    then have "pi_run (map PiUdpIn qs) (pi_with (pkt_msgId p) (pi_after p m) t) =
        Inr (pi_emit (PiApp (pi_complete (pi_after p m\<lparr>pm_totalBytesOnWire :=
          pm_totalBytesOnWire (pi_after p m) + pi_wire qs\<rparr>))) t)"
      using Cons.IH [of "pi_after p m"] Cons.prems False sum id by simp
    then show ?thesis using step ne id by (simp add: pi_complete_after add.assoc)
  qed
qed simp


section \<open>A message on its way\<close>

lemma pi_nth_fields:
  fixes msg :: app_msg and mid :: u64 and currTime :: simtime and k :: nat
  defines "p \<equiv> pi_nth msg mid currTime k"
  defines "len \<equiv> unat (app_byteLength msg)"
  shows "pkt_data p = of_nat (min (len - 1442 * k) 1442)"
    and "unat (pkt_data p) = min (len - 1442 * k) 1442"
    and "pkt_priority p = of_nat (len - 1442 * Suc k)"
    and "unat (pkt_priority p) = len - 1442 * Suc k"
    and "getFirstByte p = of_nat (1442 * k)"
    and "pkt_type p = UNSCHED_DATA" "uf_msgCreationTime (pkt_unsched p) = app_msgCreationTime msg"
    and "uf_msgByteLen (pkt_unsched p) = app_byteLength msg" "pkt_srcAddr p = app_srcAddr msg"
    and "pkt_destAddr p = app_destAddr msg" "pkt_msgId p = mid"
proof -
  show d: "pkt_data p = of_nat (min (len - 1442 * k) 1442)"
    by (simp add: p_def len_def pi_nth_def pi_packet_def Let_def pkt_data_def)
  show "unat (pkt_data p) = min (len - 1442 * k) 1442"
    unfolding d by (subst unsigned_of_nat) (simp add: take_bit_nat_eq_self)
  show r: "pkt_priority p = of_nat (len - 1442 * Suc k)"
    by (simp add: p_def len_def pi_nth_def pi_packet_def Let_def)
  have "len - 1442 * Suc k < 2 ^ 32" using unsigned_less [of "app_byteLength msg", where 'a = nat]
    by (simp add: len_def)
  then show "unat (pkt_priority p) = len - 1442 * Suc k"
    unfolding r by (subst unsigned_of_nat) (simp add: take_bit_nat_eq_self)
qed (simp_all add: p_def pi_nth_def pi_packet_def Let_def new_pkt_def getFirstByte_def)

definition pi_rx_msg :: "u64 \<Rightarrow> app_msg \<Rightarrow> pi_inbound" where
  "pi_rx_msg mid msg =
     \<lparr>pm_numBytesToRecv = app_byteLength msg, pm_msgByteLen = app_byteLength msg, pm_totalBytesOnWire = 0,
      pm_srcAddr = app_srcAddr msg, pm_destAddr = app_destAddr msg, pm_msgIdAtSender = mid,
      pm_msgCreationTime = app_msgCreationTime msg\<rparr>"

definition pi_delivered :: "app_msg \<Rightarrow> app_msg" where
  "pi_delivered msg = msg\<lparr>app_isEcho := False, app_transportSchedDelay := 0,
     app_msgBytesOnWire := getBytesOnWire (app_byteLength msg) UNSCHED_DATA\<rparr>"

lemma pi_delivered_alt: "pi_delivered msg =
    \<lparr>app_destAddr = app_destAddr msg, app_srcAddr = app_srcAddr msg, app_isEcho = False,
     app_byteLength = app_byteLength msg, app_msgCreationTime = app_msgCreationTime msg,
     app_transportSchedDelay = 0, app_msgBytesOnWire = getBytesOnWire (app_byteLength msg) UNSCHED_DATA\<rparr>"
  by (simp add: pi_delivered_def)

lemma pi_tiles_carry:
  assumes "p \<in> set (pi_tiles msg mid currTime)"
  shows "pi_carries (pi_rx_msg mid msg) p" and "pi_InboundMsg p = Inr (pi_rx_msg mid msg)"
    and "app_byteLength msg \<noteq> 0 \<Longrightarrow> pkt_data p \<noteq> 0"
proof -
  obtain k where k: "p = pi_nth msg mid currTime k" "k < pi_count 1442 (unat (app_byteLength msg))"
    using assms by (auto simp: pi_tiles_def)
  show "pi_carries (pi_rx_msg mid msg) p" "pi_InboundMsg p = Inr (pi_rx_msg mid msg)"
    by (simp_all add: k(1) pi_nth_fields pi_carries_def pi_rx_msg_def pi_InboundMsg_def)
  show "pkt_data p \<noteq> 0" if "app_byteLength msg \<noteq> 0"
  proof -
    have "0 < unat (app_byteLength msg)" using that by (simp add: unat_gt_0)
    then have "0 < unat (pkt_data p)"
      using pi_count_chunk [OF _ k(2)] by (simp add: k(1) pi_nth_fields(2))
    then show ?thesis by auto
  qed
qed

lemma pi_tiles_data:
  "map (\<lambda>p. unat (pkt_data p)) (pi_tiles msg mid currTime) =
     (if app_byteLength msg = 0 then [0] else chunks 1442 (unat (app_byteLength msg)))"
  using pi_data_chunks [of 1442 "unat (app_byteLength msg)"]
  by (simp add: pi_tiles_def pi_nth_fields(2) comp_def unat_eq_zero)

lemma sum_list_of_nat: "(\<Sum>x \<leftarrow> xs. of_nat (f x)) = of_nat (\<Sum>x \<leftarrow> xs. f x)"
  by (induction xs) simp_all

lemma pi_tiles_wire:
  "app_byteLength msg \<noteq> 0 \<Longrightarrow> pi_wire (pi_tiles msg mid currTime) = getBytesOnWire (app_byteLength msg) UNSCHED_DATA"
proof -
  assume ne: "app_byteLength msg \<noteq> 0"
  then have pos: "0 < unat (app_byteLength msg)" by (simp add: unat_gt_0)
  have m: "max_data_nat UNSCHED_DATA = 1442" by (simp add: max_data_nat_def hdr_nat_def)
  have "pi_wire (pi_tiles msg mid currTime) =
      of_nat (sum_list (map (wire_nat UNSCHED_DATA) (map (\<lambda>p. unat (pkt_data p)) (pi_tiles msg mid currTime))))"
    by (simp add: getBytesOnWire_of_nat sum_list_of_nat comp_def)
  also have "\<dots> = getBytesOnWire (app_byteLength msg) UNSCHED_DATA"
    unfolding pi_tiles_data using ne wire_nat_chunks [OF pos, of UNSCHED_DATA]
    by (simp add: m getBytesOnWire_of_nat)
  finally show ?thesis .
qed

lemma pi_deliver:
  assumes wf: "pi_wf r" and len: "unat (app_byteLength msg) < 2 ^ 31"
    and none: "pi_pending mid (app_srcAddr msg) r = None"
    and qs: "mset qs = mset (pi_tiles msg mid currTime)"
  shows "pi_run (map PiUdpIn qs) r = Inr (pi_emit (PiApp (pi_delivered msg)) r)"
proof -
  let ?m = "pi_rx_msg mid msg"
  have tiles: "q \<in> set (pi_tiles msg mid currTime)" if "q \<in> set qs" for q
    using that mset_eq_setD [OF qs] by simp
  have fresh: "pi_fresh ?m r"
    using none by (auto simp: pi_fresh_def pi_pending_def find_None_iff pi_rx_msg_def)
  have ne: "qs \<noteq> []"
  proof
    assume "qs = []"
    with qs have "length (pi_tiles msg mid currTime) = 0" by simp
    then show False using pi_count_pos [of 1442 "unat (app_byteLength msg)"] by (simp add: pi_tiles_def)
  qed
  then obtain q qs' where q: "qs = q # qs'" by (cases qs) auto
  have c: "pi_carries ?m q" "pi_InboundMsg q = Inr ?m"
    using pi_tiles_carry(1,2) [OF tiles [of q]] by (simp_all add: q)
  then have id: "pm_msgIdAtSender ?m = pkt_msgId q" "pm_srcAddr ?m = pkt_srcAddr q"
    by (auto simp: pi_carries_def)
  note first = pi_take_step [OF wf id fresh]
  show ?thesis
  proof (cases "app_byteLength msg = 0")
    case True
    then have "pi_tiles msg mid currTime = [pi_nth msg mid currTime 0]"
      by (simp add: pi_tiles_def pi_count_def)
    then have one: "qs' = []" using qs q by simp
    have "appendPktData q ?m = Inr (True, ?m\<lparr>pm_totalBytesOnWire := getBytesOnWire 0 UNSCHED_DATA\<rparr>)"
      using c(1) True by (simp add: appendPktData_def Let_def pi_carries_def pi_rx_msg_def)
    then show ?thesis using True
      by (simp add: q one first(2) [OF c(2)] pi_take_def pi_complete_def pi_delivered_alt pi_rx_msg_def)
  next
    case False
    have sums: "(\<Sum>q \<leftarrow> qs. f q) = (\<Sum>q \<leftarrow> pi_tiles msg mid currTime. f q)" for f :: "homa_pkt \<Rightarrow> 'x::comm_monoid_add"
      using arg_cong [OF qs, of "\<lambda>x. \<Sum>\<^sub># (image_mset f x)"] by (simp add: sum_mset_sum_list [symmetric])
    have "(\<Sum>q \<leftarrow> qs. unat (pkt_data q)) = unat (pm_numBytesToRecv ?m)"
      using arg_cong [OF pi_tiles_data, of sum_list msg mid currTime] False by (simp add: sums pi_rx_msg_def)
    moreover have "\<forall>q \<in> set qs. pi_carries ?m q \<and> pkt_data q \<noteq> 0"
      using pi_tiles_carry tiles False by blast
    ultimately have "pi_run (map PiUdpIn qs) (pi_with (pkt_msgId q) ?m r) =
        Inr (pi_emit (PiApp (pi_complete (?m\<lparr>pm_totalBytesOnWire := pm_totalBytesOnWire ?m + pi_wire qs\<rparr>))) r)"
      using pi_run_rest [OF wf fresh _ ne] False len id by (simp add: pi_rx_msg_def)
    moreover have "pi_run (map PiUdpIn qs) r = pi_run (map PiUdpIn qs) (pi_with (pkt_msgId q) ?m r)"
      by (simp add: q first c(2))
    ultimately show ?thesis using pi_tiles_wire [OF False, of mid currTime]
      by (simp add: sums pi_rx_msg_def pi_complete_def pi_delivered_alt)
  qed
qed


definition pi_sent :: "pi_event list \<Rightarrow> homa_pkt list" where
  "pi_sent es = concat (map (\<lambda>e. case e of PiUdp p \<Rightarrow> [p] | _ \<Rightarrow> []) es)"

lemma pi_sent_udp [simp]: "pi_sent (es @ fs) = pi_sent es @ pi_sent fs" "pi_sent (map PiUdp ps) = ps"
  "pi_sent [] = []" "pi_sent (PiMsgsLeft n # es) = pi_sent es" "pi_sent (PiBytesLeft b # es) = pi_sent es"
  by (simp_all add: pi_sent_def comp_def)

lemma pi_send:
  assumes "pi_maxDataBytesInPkt s = 1442"
  shows "pi_processMsgFromApp msg s =
    Inr (s\<lparr>pi_outs := pi_outs s @ [PiMsgsLeft 1, PiBytesLeft (app_byteLength msg)] @
             map PiUdp (pi_tiles msg (pi_msgId s) (pi_now s)), pi_msgId := pi_msgId s + 1\<rparr>)"
  by (simp add: pi_processMsgFromApp_def assms pi_packets_tiles)

lemma pi_send_ok:
  assumes "pi_wf s"
  obtains s' where "pi_processMsgFromApp msg s = Inr s'" "pi_msgId s' = pi_msgId s + 1"
    "pi_sent (pi_outs s') = pi_sent (pi_outs s) @ pi_tiles msg (pi_msgId s) (pi_now s)"
  using assms pi_send [of s msg] by (simp add: pi_wf_def)

lemma pi_wf_simps [simp]: "pi_wf (t\<lparr>pi_outs := es\<rparr>) = pi_wf t" "pi_wf (t\<lparr>pi_msgId := i\<rparr>) = pi_wf t"
    "pi_wf (t\<lparr>pi_startTimer := a\<rparr>) = pi_wf t"
  by (simp_all add: pi_wf_def)

lemma pi_handleMessage_wf: "pi_wf t \<Longrightarrow> pi_handleMessage m t = Inr t' \<Longrightarrow> pi_wf t'"
proof (cases m)
  case (PiAppIn msg)
  assume "pi_wf t" "pi_handleMessage m t = Inr t'"
  then show ?thesis using PiAppIn pi_send [of t msg] by (auto simp: pi_wf_def [of t])
next
  case (PiUdpIn p)
  assume "pi_wf t" "pi_handleMessage m t = Inr t'"
  then show ?thesis using PiUdpIn pi_processRcvdPkt_wf by simp
qed (auto simp: pi_processStart_def pi_emit_def split: if_splits)

lemma pi_run_wf: "pi_wf t \<Longrightarrow> pi_run ms t = Inr t' \<Longrightarrow> pi_wf t'"
  by (induction ms arbitrary: t) (auto simp: res_simps dest: pi_handleMessage_wf)

lemma pi_wf_init: "pi_wf (pi_initialize lport dport (PseudoIdealPriorityTransport rnd currTime))"
  by (simp add: pi_wf_def pi_initialize_def) (simp add: PseudoIdealPriorityTransport_def)

definition example_msg :: app_msg where
  "example_msg = \<lparr>app_destAddr = 0x0A000002, app_srcAddr = 0x0A000001, app_isEcho = False,
     app_byteLength = 3000, app_msgCreationTime = 5, app_transportSchedDelay = 0, app_msgBytesOnWire = 0\<rparr>"

section \<open>Properties\<close>

text \<open>
  C36: The pseudo ideal transport in any reachable state cuts a message into packets whose data are
  the full packets of 1442 bytes and a rest (one empty packet for an empty message), each starts
  where the packets before it end, and each has as its priority the bytes that are left after it,
  so the priorities fall strictly down to 0.
\<close>

theorem pseudo_sends_message:
  assumes "pi_run ms (pi_initialize lport dport (PseudoIdealPriorityTransport rnd currTime)) = Inr s"
  shows "\<exists>s' ps. pi_processMsgFromApp msg s = Inr s' \<and> pi_msgId s' = pi_msgId s + 1 \<and>
     pi_sent (pi_outs s') = pi_sent (pi_outs s) @ ps \<and>
     map (\<lambda>p. unat (pkt_data p)) ps =
       (if app_byteLength msg = 0 then [0] else chunks 1442 (unat (app_byteLength msg))) \<and>
     (\<forall>k < length ps. getFirstByte (ps ! k) = of_nat (1442 * k) \<and>
        unat (pkt_priority (ps ! k)) = unat (app_byteLength msg) - 1442 * Suc k \<and>
        pkt_msgId (ps ! k) = pi_msgId s) \<and>
     sorted_wrt (\<lambda>p q. pkt_priority q < pkt_priority p) ps \<and> pkt_priority (last ps) = 0"
proof -
  define n where "n = unat (app_byteLength msg)"
  define ps where "ps = pi_tiles msg (pi_msgId s) (pi_now s)"
  have wf: "pi_wf s" using assms pi_run_wf [OF pi_wf_init] by blast
  have nth: "ps ! k = pi_nth msg (pi_msgId s) (pi_now s) k" and len: "length ps = pi_count 1442 n"
    if "k < length ps" for k using that by (simp_all add: ps_def pi_tiles_def n_def)
  have "pkt_priority (ps ! j) < pkt_priority (ps ! i)" if "i < j" "j < length ps" for i j
  proof -
    have "n \<noteq> 0" using that by (auto simp: ps_def pi_tiles_def n_def pi_count_def split: if_splits)
    then have "1442 * j < n" using pi_count_chunk [of 1442 j n] that len by simp
    then show ?thesis using that unfolding word_less_nat_alt
      by (simp add: nth pi_nth_fields(4) n_def [symmetric])
  qed
  moreover have "pkt_priority (last ps) = 0"
  proof -
    have ne: "ps \<noteq> []" using pi_count_pos [of 1442 n] by (auto simp: ps_def pi_tiles_def n_def)
    then obtain k where k: "length ps = Suc k" by (cases ps) auto
    then have "n \<le> 1442 * Suc k" using pi_count_cover [of 1442 n] len [of k] by simp
    then show ?thesis using ne k by (simp add: last_conv_nth nth pi_nth_fields(3) n_def [symmetric])
  qed
  moreover obtain s' where "pi_processMsgFromApp msg s = Inr s'" "pi_msgId s' = pi_msgId s + 1"
    "pi_sent (pi_outs s') = pi_sent (pi_outs s) @ ps" unfolding ps_def by (rule pi_send_ok [OF wf])
  ultimately show ?thesis using pi_tiles_data [of msg "pi_msgId s" "pi_now s"]
    by (intro exI [of _ s'] exI [of _ ps])
      (simp add: ps_def [symmetric] sorted_wrt_iff_nth_less nth pi_nth_fields(4,5,11))
qed

lemma pseudo_sends_message_witness:
  "\<exists>s s' ps. pi_run [PiSelf 1] (pi_initialize 1 2 (PseudoIdealPriorityTransport 7 0)) = Inr s \<and>
     pi_processMsgFromApp example_msg s = Inr s' \<and> pi_msgId s' = pi_msgId s + 1 \<and>
     map (\<lambda>p. unat (pkt_data p)) ps = [1442, 1442, 116] \<and> pkt_priority (last ps) = 0"
proof -
  have "is_ok (pi_run [PiSelf 1] (pi_initialize 1 2 (PseudoIdealPriorityTransport 7 0)))"
    by code_simp
  then obtain s where s: "pi_run [PiSelf 1] (pi_initialize 1 2 (PseudoIdealPriorityTransport 7 0)) = Inr s"
    by (auto simp only: is_ok_iff)
  from pseudo_sends_message [OF s, of example_msg] obtain s' ps where
    "pi_processMsgFromApp example_msg s = Inr s'" "pi_msgId s' = pi_msgId s + 1"
    "map (\<lambda>p. unat (pkt_data p)) ps = (if app_byteLength example_msg = 0 then [0]
       else chunks 1442 (unat (app_byteLength example_msg)))" "pkt_priority (last ps) = 0"
    by blast
  moreover have "(if app_byteLength example_msg = 0 then [0]
       else chunks 1442 (unat (app_byteLength example_msg))) = [1442, 1442, 116 :: nat]"
    by code_simp
  ultimately show ?thesis using s by (intro exI [of _ s] exI [of _ s'] exI [of _ ps]) simp
qed

text \<open>
  C30: A message sent by the pseudo ideal transport and delivered by the network in any order of
  its packets is handed to the receiving application exactly once, with its length, its addresses,
  its creation time and the bytes it costs on the wire; nothing of it stays behind in the receiver,
  whatever other messages the receiver is in the middle of.
\<close>

theorem pseudo_delivers_message:
  assumes "pi_run ms (pi_initialize lport dport (PseudoIdealPriorityTransport rnd currTime)) = Inr s"
    and "pi_run ms' (pi_initialize lport' dport' (PseudoIdealPriorityTransport rnd' currTime')) = Inr r"
    and "unat (app_byteLength msg) < 2 ^ 31"
    and "pi_pending (pi_msgId s) (app_srcAddr msg) r = None"
  shows "\<exists>s' ps. pi_processMsgFromApp msg s = Inr s' \<and>
     pi_sent (pi_outs s') = pi_sent (pi_outs s) @ ps \<and>
     (\<forall>qs. mset qs = mset ps \<longrightarrow>
        pi_run (map PiUdpIn qs) r = Inr (pi_emit (PiApp (pi_delivered msg)) r))"
proof -
  have wf: "pi_wf s" "pi_wf r" using assms(1,2) pi_run_wf [OF pi_wf_init] by blast+
  show ?thesis
    by (rule pi_send_ok [OF wf(1), of msg], intro exI conjI)
      (assumption, assumption, use pi_deliver [OF wf(2) assms(3,4)] in blast)
qed

lemma pseudo_delivers_message_witness:
  "\<exists>s' ps. pi_processMsgFromApp example_msg (pi_initialize 1 2 (PseudoIdealPriorityTransport 7 0)) = Inr s' \<and>
     pi_sent (pi_outs s') = ps \<and>
     pi_run (map PiUdpIn (rev ps)) (pi_initialize 1 2 (PseudoIdealPriorityTransport 9 0)) =
       Inr (pi_emit (PiApp (pi_delivered example_msg)) (pi_initialize 1 2 (PseudoIdealPriorityTransport 9 0)))"
proof -
  let ?s = "pi_initialize 1 2 (PseudoIdealPriorityTransport 7 0)"
  let ?r = "pi_initialize 1 2 (PseudoIdealPriorityTransport 9 0)"
  have "pi_run [] ?s = Inr ?s" "pi_run [] ?r = Inr ?r" by simp_all
  moreover have "unat (app_byteLength example_msg) < 2 ^ 31" by (simp add: example_msg_def)
  moreover have "pi_pending (pi_msgId ?s) (app_srcAddr example_msg) ?r = None"
    by (simp add: pi_pending_def pi_list_def pi_initialize_def PseudoIdealPriorityTransport_def)
  ultimately obtain s' ps where "pi_processMsgFromApp example_msg ?s = Inr s'"
    "pi_sent (pi_outs s') = pi_sent (pi_outs ?s) @ ps"
    "\<forall>qs. mset qs = mset ps \<longrightarrow> pi_run (map PiUdpIn qs) ?r = Inr (pi_emit (PiApp (pi_delivered example_msg)) ?r)"
    using pseudo_delivers_message by blast
  moreover have "pi_sent (pi_outs ?s) = []"
    by (simp add: pi_initialize_def PseudoIdealPriorityTransport_def)
  ultimately show ?thesis by (intro exI [of _ s'] exI [of _ ps]) simp
qed

end
