(* ===== verification/UnschedRate.thy ===== *)
theory UnschedRate
  imports HomaState
begin

text \<open>
  \<open>ReceiveScheduler::UnschedRateComputer\<close>: the share of the link that unscheduled packets took
  over the last time window.  The receive scheduler constructs one; nothing reads it yet.  Doubles
  are rationals.
\<close>

section \<open>State and operations\<close>

record rate_computer =
  rc_computeAvgUnschRate :: bool
  rc_bytesRecvTime :: "(u32 \<times> rat) list"
  rc_sumBytes :: u64
  rc_minAvgTimeWindow :: rat

definition UnschedRateComputer :: "bool \<Rightarrow> rat \<Rightarrow> rate_computer" where
  "UnschedRateComputer enabled window =
     \<lparr>rc_computeAvgUnschRate = enabled, rc_bytesRecvTime = [], rc_sumBytes = 0, rc_minAvgTimeWindow = window\<rparr>"

text \<open>\<open>simtime_t::dbl()\<close>: ticks of a picosecond as seconds.\<close>

definition in_seconds :: "simtime \<Rightarrow> rat" where
  "in_seconds t = of_int t / 1000000000000"

text \<open>
  With a link speed of zero the quotient is infinite or not a number, and neither is less than
  one.
\<close>

definition getAvgUnschRate :: "homa_config \<Rightarrow> simtime \<Rightarrow> rate_computer \<Rightarrow> rat res" where
  "getAvgUnschRate c currentTime r =
     (if \<not> rc_computeAvgUnschRate r then Inr 0
      else case rc_bytesRecvTime r of
        [] \<Rightarrow> Inr 0
      | (_, t) # _ \<Rightarrow>
          let timeDuration = in_seconds currentTime - t
          in if timeDuration \<le> rc_minAvgTimeWindow r / 100 then Inr 0
             else
               let rate = (of_int (uint (rc_sumBytes r)) * 8 / timeDuration) * (1 / 1000000000) /
                     of_int (nicLinkSpeed c)
               in rbind (assertion (nicLinkSpeed c \<noteq> 0 \<and> rate < 1)) (\<lambda>_. Inr rate))"

fun rate_expire :: "rat \<Rightarrow> rat \<Rightarrow> (u32 \<times> rat) list \<Rightarrow> u64 \<Rightarrow> (u32 \<times> rat) list \<times> u64" where
  "rate_expire arrival window [] s = ([], s)"
| "rate_expire arrival window ((n, t) # bs) s =
     (if arrival - t \<le> window then ((n, t) # bs, s)
      else rate_expire arrival window bs (s - ucast n))"

definition updateUnschRate :: "simtime \<Rightarrow> u32 \<Rightarrow> rate_computer \<Rightarrow> rate_computer" where
  "updateUnschRate arrivalTime bytesRecvd r =
     (if \<not> rc_computeAvgUnschRate r then r
      else
        let (bs, s) = rate_expire (in_seconds arrivalTime) (rc_minAvgTimeWindow r)
              (rc_bytesRecvTime r @ [(bytesRecvd, in_seconds arrivalTime)]) (rc_sumBytes r + ucast bytesRecvd)
        in r\<lparr>rc_bytesRecvTime := bs, rc_sumBytes := s\<rparr>)"

fun rate_arrivals :: "(simtime \<times> u32) list \<Rightarrow> rate_computer \<Rightarrow> rate_computer" where
  "rate_arrivals [] r = r"
| "rate_arrivals ((t, n) # as) r = rate_arrivals as (updateUnschRate t n r)"

section \<open>The packets of the window\<close>

definition in_window :: "rat \<Rightarrow> simtime \<Rightarrow> simtime \<times> u32 \<Rightarrow> bool" where
  "in_window w t a \<longleftrightarrow> in_seconds t - in_seconds (fst a) \<le> w"

definition window_of :: "rat \<Rightarrow> (simtime \<times> u32) list \<Rightarrow> (simtime \<times> u32) list" where
  "window_of w as = (if as = [] then [] else filter (in_window w (fst (last as))) as)"

definition stamped :: "simtime \<times> u32 \<Rightarrow> u32 \<times> rat" where
  "stamped a = (snd a, in_seconds (fst a))"

definition rate_inv :: "(simtime \<times> u32) list \<Rightarrow> rat \<Rightarrow> rate_computer \<Rightarrow> bool" where
  "rate_inv as w r \<longleftrightarrow> rc_computeAvgUnschRate r \<and> rc_minAvgTimeWindow r = w \<and>
     rc_bytesRecvTime r = map stamped (window_of w as) \<and>
     rc_sumBytes r = (\<Sum>a \<leftarrow> window_of w as. ucast (snd a))"

lemma in_seconds_le [simp]: "in_seconds s \<le> in_seconds t \<longleftrightarrow> s \<le> t"
  by (simp add: in_seconds_def divide_right_mono)

lemma rate_expire_eq:
  "rate_expire (in_seconds t) w (map stamped as) (s + (\<Sum>a \<leftarrow> as. ucast (snd a))) =
     (map stamped (dropWhile (\<lambda>a. \<not> in_window w t a) as),
      s + (\<Sum>a \<leftarrow> dropWhile (\<lambda>a. \<not> in_window w t a) as. ucast (snd a)))"
  by (induction as arbitrary: s) (auto simp: stamped_def in_window_def algebra_simps)

lemma dropWhile_sorted:
  "sorted (map fst as) \<Longrightarrow> dropWhile (\<lambda>a. \<not> in_window w t a) as = filter (in_window w t) as"
proof (induction as)
  case (Cons a as)
  show ?case
  proof (cases "in_window w t a")
    case True
    have "in_window w t b" if "b \<in> set as" for b
    proof -
      have "in_seconds (fst a) \<le> in_seconds (fst b)" using Cons.prems that by simp
      with True show ?thesis unfolding in_window_def by linarith
    qed
    with True show ?thesis by (simp add: filter_id_conv)
  qed (use Cons in simp)
qed simp

lemma window_snoc:
  assumes "sorted (map fst (as @ [a]))"
  shows "filter (in_window w (fst a)) (window_of w as @ [a]) = window_of w (as @ [a])"
proof -
  have "in_window w (fst (last as)) b" if "in_window w (fst a) b" "b \<in> set as" for b
  proof -
    have "last as \<in> set as" using that(2) by (cases as rule: rev_cases) auto
    then have "in_seconds (fst (last as)) \<le> in_seconds (fst a)" using assms by (auto simp: sorted_append)
    then show ?thesis using that(1) unfolding in_window_def by linarith
  qed
  then show ?thesis by (auto simp: window_of_def intro!: filter_cong)
qed

lemma sorted_window: "sorted (map fst as) \<Longrightarrow> sorted (map fst (window_of w as))"
  by (simp add: window_of_def sorted_filter)

lemma updateUnschRate_inv:
  assumes inv: "rate_inv as w r" and sorted: "sorted (map fst (as @ [(t, n)]))"
  shows "rate_inv (as @ [(t, n)]) w (updateUnschRate t n r)"
proof -
  let ?ws = "window_of w as @ [(t, n)]"
  have "set (window_of w as) \<subseteq> set as" by (auto simp: window_of_def)
  then have s: "sorted (map fst ?ws)"
    using sorted sorted_window [of as w] by (auto simp: sorted_append)
  have "rate_expire (in_seconds t) w (map stamped ?ws) (0 + (\<Sum>a \<leftarrow> ?ws. ucast (snd a))) =
      (map stamped (window_of w (as @ [(t, n)])), \<Sum>a \<leftarrow> window_of w (as @ [(t, n)]). ucast (snd a))"
    unfolding rate_expire_eq dropWhile_sorted [OF s] using window_snoc [OF sorted, of w] by simp
  then show ?thesis using inv
    by (simp add: rate_inv_def updateUnschRate_def stamped_def)
qed

lemma rate_arrivals_inv:
  "rate_inv as w r \<Longrightarrow> sorted (map fst (as @ bs)) \<Longrightarrow> rate_inv (as @ bs) w (rate_arrivals bs r)"
proof (induction bs arbitrary: as r)
  case (Cons b bs)
  obtain t n where b: "b = (t, n)" by (cases b)
  have "sorted (map fst (as @ [(t, n)]))" using Cons.prems(2) by (auto simp: b sorted_append)
  from Cons.IH [OF updateUnschRate_inv [OF Cons.prems(1) this]] Cons.prems(2) show ?case by (simp add: b)
qed simp

section \<open>Properties\<close>

text \<open>
  C37: After any packets that arrived in the order of time, the unscheduled rate is the average
  over the packets that arrived within the window before the last one: their bytes, in bits, over
  the time since the first of them and the link speed; it is 0 before there is enough of a history,
  and an assertion fails if the packets claim more than the link.
\<close>

theorem unsched_rate_is_window_average:
  assumes "sorted (map fst as)" and "(\<Sum>a \<leftarrow> as. unat (snd a)) < 2 ^ 64" and "nicLinkSpeed c \<noteq> 0"
  shows "getAvgUnschRate c currentTime (rate_arrivals as (UnschedRateComputer True w)) =
     (case window_of w as of
        [] \<Rightarrow> Inr 0
      | a # _ \<Rightarrow>
          let dur = in_seconds currentTime - in_seconds (fst a);
              rate = of_nat (8 * (\<Sum>b \<leftarrow> window_of w as. unat (snd b))) / (dur * 1000000000 * of_int (nicLinkSpeed c))
          in if dur \<le> w / 100 then Inr 0 else if rate < 1 then Inr rate else Inl AssertFailed)"
proof -
  let ?ws = "window_of w as" and ?r = "rate_arrivals as (UnschedRateComputer True w)"
  have inv: "rate_inv as w ?r"
    using rate_arrivals_inv [of "[]" w "UnschedRateComputer True w" as] assms(1)
    by (simp add: rate_inv_def window_of_def UnschedRateComputer_def)
  have "(\<Sum>b \<leftarrow> ?ws. unat (snd b)) \<le> (\<Sum>a \<leftarrow> as. unat (snd a))"
    by (auto simp: window_of_def intro: sum_list_filter_le_nat)
  then have small: "(\<Sum>b \<leftarrow> ?ws. unat (snd b)) < 2 ^ 64" using assms(2) by linarith
  have "(\<Sum>a \<leftarrow> bs. ucast (snd a)) = (of_nat (\<Sum>b \<leftarrow> bs. unat (snd b)) :: u64)" for bs :: "(simtime \<times> u32) list"
    by (induction bs) simp_all
  then have "rc_sumBytes ?r = of_nat (\<Sum>b \<leftarrow> ?ws. unat (snd b))" using inv by (simp add: rate_inv_def)
  then have "unat (rc_sumBytes ?r) = (\<Sum>b \<leftarrow> ?ws. unat (snd b))"
    using small by (simp add: unsigned_of_nat take_bit_nat_eq_self)
  then have sum: "uint (rc_sumBytes ?r) = int (\<Sum>b \<leftarrow> ?ws. unat (snd b))" by (metis uint_nat)
  from inv have f: "rc_computeAvgUnschRate ?r" "rc_bytesRecvTime ?r = map stamped ?ws" "rc_minAvgTimeWindow ?r = w"
    by (simp_all add: rate_inv_def)
  show ?thesis
  proof (cases ?ws)
    case Nil
    then show ?thesis by (simp add: getAvgUnschRate_def f)
  next
    case (Cons a bs)
    then show ?thesis using assms(3)
      by (simp add: getAvgUnschRate_def f sum stamped_def Let_def mult.commute)
  qed
qed

lemma unsched_rate_is_window_average_witness:
  "getAvgUnschRate ini_params 300000000 (rate_arrivals [(0, 1500), (200000000, 1000)]
     (UnschedRateComputer True (1 / 10000))) = Inr (1 / 125)"
proof -
  let ?as = "[(0, 1500), (200000000, 1000)] :: (simtime \<times> u32) list"
  have "sorted (map fst ?as)" "(\<Sum>a \<leftarrow> ?as. unat (snd a)) < 2 ^ 64" "nicLinkSpeed ini_params \<noteq> 0"
    by (simp_all add: ini_params_def)
  note r = unsched_rate_is_window_average [OF this, of 300000000 "1 / 10000"]
  have w: "window_of (1 / 10000) ?as = [(200000000, 1000)]"
    by (simp add: window_of_def in_window_def in_seconds_def)
  show ?thesis unfolding r w by (simp add: in_seconds_def ini_params_def)
qed

end
