(* ===== verification/WorkloadEst.thy ===== *)
theory WorkloadEst
  imports UnschedAllocator
begin

text \<open>
  \<open>WorkloadEstimator\<close>: from a distribution of message sizes it computes how the packets, and the
  bytes on the wire, are spread over the bytes a message has left, from which the priority cut-offs
  are taken.  Doubles are rationals; the lines of the distribution file are numbers already.
\<close>

section \<open>State\<close>

type_synonym cdf_vector = "(u32 \<times> rat) list"

record workload_estimator =
  cdfFromFile :: cdf_vector
  cbfFromFile :: cdf_vector
  remainSizeCdf :: cdf_vector
  remainSizeCbf :: cdf_vector
  cbfLastCapBytesFromFile :: cdf_vector
  avgSizeFromFile :: rat
  rxCdfComputed :: cdf_vector
  sxCdfComputed :: cdf_vector

section \<open>Reading a distribution\<close>

definition distFileName :: "string \<Rightarrow> string res" where
  "distFileName wtype =
     (if wtype = ''DCTCP'' then Inr ''../homatransport/sizeDistributions/DCTCP_MsgSizeDist.txt''
      else if wtype = ''TEST_DIST'' then Inr ''../homatransport/sizeDistributions/TestDistribution.txt''
      else if wtype = ''FACEBOOK_KEY_VALUE''
        then Inr ''../homatransport/sizeDistributions/FacebookKeyValueMsgSizeDist.txt''
      else if wtype = ''FACEBOOK_WEB_SERVER_INTRACLUSTER''
        then Inr ''../homatransport/sizeDistributions/Facebook_WebServerDist_IntraCluster.txt''
      else if wtype = ''FACEBOOK_CACHE_FOLLOWER_INTRACLUSTER''
        then Inr ''../homatransport/sizeDistributions/Facebook_CacheFollowerDist_IntraCluster.txt''
      else if wtype = ''FACEBOOK_HADOOP_ALL''
        then Inr ''../homatransport/sizeDistributions/Facebook_HadoopDist_All.txt''
      else if wtype = ''FABRICATED_HEAVY_MIDDLE''
        then Inr ''../homatransport/sizeDistributions/Fabricated_Heavy_Middle.txt''
      else if wtype = ''FABRICATED_HEAVY_HEAD''
        then Inr ''../homatransport/sizeDistributions/Fabricated_Heavy_Head.txt''
      else if wtype = ''GOOGLE_SEARCH_RPC''
        then Inr ''../homatransport/sizeDistributions/Google_SearchRPC.txt''
      else if wtype = ''GOOGLE_ALL_RPC''
        then Inr ''../homatransport/sizeDistributions/Google_AllRPC.txt''
      else if wtype = ''PRESET_IN_FILE''
        then Inr ''../homatransport/sizeDistributions/Fabricated_Heavy_Middle.txt''
      else Inl RuntimeError)"

text \<open>
  The tail of the key-value distribution, from \<open>prob\<close> to 0.999; \<open>size_at\<close> is the rounded pareto
  formula, a power of doubles.  The loop does not end if the step is not positive.
\<close>

function pareto_tail :: "(rat \<Rightarrow> u32) \<Rightarrow> rat \<Rightarrow> rat \<Rightarrow> cdf_vector \<Rightarrow> cdf_vector res" where
  "pareto_tail size_at probIncr prob v =
     (if \<not> prob \<le> 999 / 1000 then Inr v
      else if probIncr \<le> 0 then Inl Diverges
      else if v = [] then Inl NullPointer
      else
        let sz = size_at prob
        in pareto_tail size_at probIncr (prob + probIncr)
             (if sz \<noteq> fst (last v) then v @ [(sz, prob)] else butlast v @ [(fst (last v), prob)]))"
  by auto
termination
proof (relation "measure (\<lambda>(size_at, probIncr, prob, v). nat (floor ((999 / 1000 - prob) / probIncr) + 1))", goal_cases)
  case (2 size_at probIncr prob v sz)
  let ?x = "(999 / 1000 - prob) / probIncr"
  have "(999 / 1000 - (prob + probIncr)) / probIncr = ?x - 1" using 2 by (simp add: field_simps)
  moreover have "0 \<le> ?x" using 2 by simp
  ultimately show ?case by simp
qed simp

declare pareto_tail.simps [simp del]

definition dist_avg :: "string \<Rightarrow> rat \<Rightarrow> rat" where
  "dist_avg wtype avg =
     (if wtype = ''DCTCP''
      then avg * of_nat (unat (MAX_ETHERNET_PAYLOAD_BYTES - IP_HEADER_SIZE - UDP_HEADER_SIZE -
             headerSize (new_pkt 0 UNSCHED_DATA)))
      else avg)"

text \<open>The constructor; \<open>files\<close> gives the first line and the pairs of each file.\<close>

definition WorkloadEstimator ::
    "string option \<Rightarrow> (string \<Rightarrow> rat \<times> (int \<times> rat) list) \<Rightarrow> (int \<Rightarrow> rat \<Rightarrow> rat \<Rightarrow> u32) \<Rightarrow> workload_estimator res" where
  "WorkloadEstimator wtype files pareto =
     (let w = \<lparr>cdfFromFile = [], cbfFromFile = [], remainSizeCdf = [], remainSizeCbf = [],
                cbfLastCapBytesFromFile = [], avgSizeFromFile = 0, rxCdfComputed = [], sxCdfComputed = []\<rparr>
      in case wtype of
           None \<Rightarrow> Inr w
         | Some ty \<Rightarrow>
             rbind (distFileName ty) (\<lambda>file.
             let (avg, pairs) = files file;
                 v = map (\<lambda>(sz, prob). (word_of_int sz, prob)) pairs;
                 w = w\<lparr>avgSizeFromFile := dist_avg ty avg\<rparr>
             in if ty \<noteq> ''FACEBOOK_KEY_VALUE'' then Inr (w\<lparr>cdfFromFile := v\<rparr>)
                else if v = [] then Inl NullPointer
                else
                  let sizeOffset = sint (fst (last v)); probOffset = snd (last v);
                      probIncr = (999 / 1000 - probOffset) / 1000
                  in rbind (pareto_tail (pareto sizeOffset probOffset) probIncr (probOffset + probIncr) v) (\<lambda>v.
                     Inr (w\<lparr>cdfFromFile := butlast v @ [(fst (last v), 1)]\<rparr>))))"

section \<open>Packets of a message\<close>

text \<open>
  The loop that cuts a message the way the sender does: a request, unscheduled packets, scheduled
  packets, each with its bytes on the wire; with the bytes on the wire of all and the bytes of
  their grants.  The variable \<open>pktedSize\<close> of the code is always \<open>size - sizeRemain\<close>.  A packet of
  no bytes is made again and again.
\<close>

record packetized =
  pz_packets :: "(u32 \<times> u32) list"
  pz_onWire :: u32
  pz_grants :: u32

definition we_perPkt :: "pkt_type \<Rightarrow> u32" where
  "we_perPkt t = MAX_ETHERNET_PAYLOAD_BYTES - IP_HEADER_SIZE - UDP_HEADER_SIZE - headerSize (new_pkt 0 t)"

definition we_next :: "homa_config \<Rightarrow> u32 \<Rightarrow> u32 \<Rightarrow> u32 \<times> u32 \<times> u32" where
  "we_next c sz sizeRemain =
     (let totalUnsched = min (defaultReqBytes c + defaultUnschedBytes c) sz;
          pktedSize = sz - sizeRemain
      in if sizeRemain = sz then
           let pkt = min (defaultReqBytes c) sizeRemain in (pkt, getBytesOnWire pkt REQUEST, 0)
         else if pktedSize < totalUnsched then
           let pkt = min (totalUnsched - pktedSize) (we_perPkt UNSCHED_DATA)
           in (pkt, getBytesOnWire pkt UNSCHED_DATA, 0)
         else
           let pkt = min (we_perPkt SCHED_DATA) sizeRemain
           in (pkt, getBytesOnWire pkt SCHED_DATA, getBytesOnWire 0 GRANT))"

lemma sub_le_swap: "sz - rem < tot \<Longrightarrow> tot \<le> sz \<Longrightarrow> tot - (sz - rem) \<le> (rem :: u32)"
proof -
  assume "sz - rem < tot" "tot \<le> sz"
  then have "tot - (sz - rem) \<le> sz - (sz - rem)" by (intro word_le_minus_mono_left) simp_all
  then show ?thesis by simp
qed

lemma we_next_le: "we_next c sz sizeRemain = (pkt, w, g) \<Longrightarrow> pkt \<le> sizeRemain"
  using sub_le_swap [of sz sizeRemain "min (defaultReqBytes c + defaultUnschedBytes c) sz"]
  by (auto simp: we_next_def Let_def min_le_iff_disj split: if_splits)

function we_packetize :: "homa_config \<Rightarrow> u32 \<Rightarrow> u32 \<Rightarrow> packetized res" where
  "we_packetize c sz sizeRemain =
     (if sizeRemain = 0 then Inr \<lparr>pz_packets = [], pz_onWire = 0, pz_grants = 0\<rparr>
      else
        let (pkt, pktOnWire, grantBytes) = we_next c sz sizeRemain
        in if pkt = 0 then Inl Diverges
           else rbind (we_packetize c sz (sizeRemain - pkt)) (\<lambda>p.
             Inr \<lparr>pz_packets = (pkt, pktOnWire) # pz_packets p, pz_onWire = pktOnWire + pz_onWire p,
                  pz_grants = grantBytes + pz_grants p\<rparr>))"
  by auto
termination
proof (relation "measure (\<lambda>(c, sz, sizeRemain). unat sizeRemain)", goal_cases)
  case (2 c sz sizeRemain x pkt y pktOnWire grantBytes)
  then have "pkt \<le> sizeRemain" using we_next_le [of c sz sizeRemain pkt pktOnWire grantBytes] by simp
  with 2 show ?case by (simp add: unat_sub_less word_greater_zero_iff)
qed simp

declare we_packetize.simps [simp del]

section \<open>Bytes by what is left of a message\<close>

text \<open>
  The two lists of the code are changed together, at the same place.  The iterators are a position;
  \<open>seek_back\<close> is the loop that moves it towards the front.
\<close>

fun seek_back :: "u32 \<Rightarrow> cdf_vector \<Rightarrow> nat \<Rightarrow> nat" where
  "seek_back sizeRemain l 0 = 0"
| "seek_back sizeRemain l (Suc i) = (if fst (l ! i) \<le> sizeRemain then i else seek_back sizeRemain l i)"

definition list_insert :: "nat \<Rightarrow> 'a \<Rightarrow> 'a list \<Rightarrow> 'a list" where
  "list_insert i x l = take i l @ x # drop i l"

definition add_at :: "nat \<Rightarrow> rat \<Rightarrow> cdf_vector \<Rightarrow> cdf_vector" where
  "add_at i v l = l[i := (fst (l ! i), snd (l ! i) + v)]"

record rem_lists =
  rl_pdf :: cdf_vector
  rl_pbf :: cdf_vector
  rl_pktBytes :: rat
  rl_pkts :: rat

definition rem_place :: "u32 \<Rightarrow> rat \<Rightarrow> rat \<Rightarrow> nat \<Rightarrow> rem_lists \<Rightarrow> (nat \<times> rem_lists) res" where
  "rem_place sizeRemain prob bytes it r =
     (let it = seek_back sizeRemain (rl_pdf r) it;
          ins = (\<lambda>i. r\<lparr>rl_pdf := list_insert i (sizeRemain, prob) (rl_pdf r),
                       rl_pbf := list_insert i (sizeRemain, bytes) (rl_pbf r)\<rparr>)
      in if it = length (rl_pdf r) then Inr (it + 1, ins it)
         else if fst (rl_pdf r ! it) = sizeRemain then
           Inr (it, r\<lparr>rl_pdf := add_at it prob (rl_pdf r), rl_pbf := add_at it bytes (rl_pbf r)\<rparr>)
         else if fst (rl_pdf r ! it) < sizeRemain then Inr (it + 2, ins (it + 1))
         else rbind (assertion (it = 0)) (\<lambda>_. Inr (it + 1, ins it)))"

fun rem_packets :: "u32 \<Rightarrow> u32 \<Rightarrow> rat \<Rightarrow> (u32 \<times> u32) list \<Rightarrow> nat \<Rightarrow> u32 \<Rightarrow> u32 \<Rightarrow> u32 \<Rightarrow> rem_lists \<Rightarrow> rem_lists res" where
  "rem_packets cap tail prob [] it sizeRemain pktedOnWire toSendOnWire r = Inr r"
| "rem_packets cap tail prob ((pkt, wire) # ps) it sizeRemain pktedOnWire toSendOnWire r =
     (if cap \<le> pktedOnWire \<and> tail \<le> toSendOnWire
      then rem_packets cap tail prob ps it (sizeRemain - pkt) (pktedOnWire + wire) (toSendOnWire - wire) r
      else
        let bytes = prob * of_nat (unat wire)
        in rbind (rem_place sizeRemain prob bytes it r) (\<lambda>(it, r).
           rem_packets cap tail prob ps it (sizeRemain - pkt) (pktedOnWire + wire) (toSendOnWire - wire)
             (r\<lparr>rl_pktBytes := rl_pktBytes r + bytes, rl_pkts := rl_pkts r + prob\<rparr>)))"

fun rem_sizes :: "homa_config \<Rightarrow> u32 \<Rightarrow> u32 \<Rightarrow> cdf_vector \<Rightarrow> rat \<Rightarrow> rat \<Rightarrow> rem_lists \<Rightarrow> (rat \<times> rem_lists) res" where
  "rem_sizes c cap tail [] prevProb cumGrantBytes r = Inr (cumGrantBytes, r)"
| "rem_sizes c cap tail ((sz, p) # cdf) prevProb cumGrantBytes r =
     (let prob = p - prevProb
      in rbind (we_packetize c sz sz) (\<lambda>pz.
         rbind (rem_packets cap tail prob (pz_packets pz) (length (rl_pdf r)) sz 0 (pz_onWire pz) r) (\<lambda>r.
         rem_sizes c cap tail cdf p (cumGrantBytes + prob * of_nat (unat (pz_grants pz))) r)))"

text \<open>The running sums, with the assertions that the two lists agree and are in order.\<close>

fun rem_cumulate :: "rat \<Rightarrow> rat \<Rightarrow> u32 \<Rightarrow> rat \<Rightarrow> rat \<Rightarrow> cdf_vector \<Rightarrow> cdf_vector \<Rightarrow> (cdf_vector \<times> cdf_vector) res" where
  "rem_cumulate cumPkts cumPktBytes prevRemSize cumsumPkts cumsumBytes [] pbf = Inr ([], [])"
| "rem_cumulate cumPkts cumPktBytes prevRemSize cumsumPkts cumsumBytes ((s, p) # pdf) [] = Inl NullPointer"
| "rem_cumulate cumPkts cumPktBytes prevRemSize cumsumPkts cumsumBytes ((s, p) # pdf) ((s', b) # pbf) =
     rbind (assertion (prevRemSize < s \<and> s' = s)) (\<lambda>_.
     let cumsumPkts = cumsumPkts + p / cumPkts; cumsumBytes = cumsumBytes + b / cumPktBytes
     in rbind (rem_cumulate cumPkts cumPktBytes s cumsumPkts cumsumBytes pdf pbf) (\<lambda>(cdf, cbf).
        Inr ((s, cumsumPkts) # cdf, (s', cumsumBytes) # cbf)))"

definition getRemainSizeCdfCbf ::
    "homa_config \<Rightarrow> cdf_vector \<Rightarrow> u32 \<Rightarrow> u32 \<Rightarrow> workload_estimator \<Rightarrow> workload_estimator res" where
  "getRemainSizeCdfCbf c cdf capMsgSize tailBytesPrio w =
     rbind (rem_sizes c capMsgSize tailBytesPrio cdf 0 0
              \<lparr>rl_pdf = [], rl_pbf = [], rl_pktBytes = 0, rl_pkts = 0\<rparr>) (\<lambda>(cumGrantBytes, r).
     let grants = accountForGrantTraffic c;
         cumPktBytes = (if grants then rl_pktBytes r + cumGrantBytes else rl_pktBytes r);
         cumsumBytes = (if grants then cumGrantBytes / cumPktBytes else 0)
     in rbind (rem_cumulate (rl_pkts r) cumPktBytes 0 0 cumsumBytes (rl_pdf r) (rl_pbf r)) (\<lambda>(rcdf, rcbf).
        Inr (w\<lparr>remainSizeCdf := rcdf,
               remainSizeCbf := (if grants then (0, cumsumBytes) # rcbf else rcbf)\<rparr>)))"

section \<open>Bytes by the size of a message\<close>

text \<open>Bytes of a message on the wire and of its grants.\<close>

definition cbf_wire :: "homa_config \<Rightarrow> u32 \<Rightarrow> u32 \<times> u32" where
  "cbf_wire c sz =
     (let req = defaultReqBytes c; unsched = defaultUnschedBytes c
      in if sz < req then (getBytesOnWire (min req sz) REQUEST, 0)
         else if sz < req + unsched then
           (getBytesOnWire req REQUEST + getBytesOnWire (min (sz - req) unsched) UNSCHED_DATA, 0)
         else
           let schedOnWire = getBytesOnWire (sz - req - unsched) SCHED_DATA;
               numGrants = word_of_int (ceiling (of_nat (unat schedOnWire) / of_nat (unat maxEthFrameSize) :: rat))
           in (getBytesOnWire req REQUEST + getBytesOnWire unsched UNSCHED_DATA + schedOnWire,
               numGrants * getBytesOnWire 0 GRANT))"

text \<open>The bytes on the wire that count, and their sum weighted with the probability.\<close>

fun cap_packets :: "u32 \<Rightarrow> u32 \<Rightarrow> rat \<Rightarrow> (u32 \<times> u32) list \<Rightarrow> u32 \<Rightarrow> u32 \<Rightarrow> u32 \<Rightarrow> rat \<Rightarrow> u32 \<times> rat" where
  "cap_packets cap tail prob [] pktedOnWire toSendOnWire onWire cumRtt = (onWire, cumRtt)"
| "cap_packets cap tail prob ((pkt, wire) # ps) pktedOnWire toSendOnWire onWire cumRtt =
     (if cap \<le> pktedOnWire \<and> tail \<le> toSendOnWire
      then cap_packets cap tail prob ps (pktedOnWire + wire) (toSendOnWire - wire) onWire cumRtt
      else cap_packets cap tail prob ps (pktedOnWire + wire) (toSendOnWire - wire) (onWire + wire)
             (cumRtt + of_nat (unat wire) * prob))"

record cbf_sums =
  cs_bytes :: rat
  cs_rttBytes :: rat
  cs_grants :: rat
  cs_cbf :: cdf_vector
  cs_last :: cdf_vector

fun cbf_sizes :: "homa_config \<Rightarrow> u32 \<Rightarrow> u32 \<Rightarrow> cdf_vector \<Rightarrow> rat \<Rightarrow> cbf_sums \<Rightarrow> cbf_sums res" where
  "cbf_sizes c cap tail [] prevProb s = Inr s"
| "cbf_sizes c cap tail ((sz, p) # cdf) prevProb s =
     (let prob = p - prevProb; (sizeOnWire, grantsOnWire) = cbf_wire c sz
      in rbind (we_packetize c sz sz) (\<lambda>pz.
         let (onWire, rtt) = cap_packets cap tail prob (pz_packets pz) 0 (pz_onWire pz) 0 (cs_rttBytes s)
         in cbf_sizes c cap tail cdf p
              (s\<lparr>cs_grants := cs_grants s + of_nat (unat grantsOnWire) * prob,
                 cs_bytes := cs_bytes s + of_nat (unat sizeOnWire) * prob,
                 cs_cbf := cs_cbf s @ [(sz, of_nat (unat sizeOnWire) * prob)],
                 cs_rttBytes := rtt, cs_last := cs_last s @ [(sz, of_nat (unat onWire) * prob)]\<rparr>)))"

fun rolling :: "rat \<Rightarrow> rat \<Rightarrow> cdf_vector \<Rightarrow> cdf_vector" where
  "rolling whole acc [] = []"
| "rolling whole acc ((s, v) # l) = (s, (acc + v) / whole) # rolling whole (acc + v) l"

definition set_first :: "rat \<Rightarrow> cdf_vector \<Rightarrow> cdf_vector" where
  "set_first v l = (case l of [] \<Rightarrow> [] | (s, _) # l \<Rightarrow> (s, v) # l)"

text \<open>The argument \<open>cdf\<close> is not used: the code goes over the distribution read from the file.\<close>

definition getCbfFromCdf ::
    "homa_config \<Rightarrow> cdf_vector \<Rightarrow> u32 \<Rightarrow> u32 \<Rightarrow> workload_estimator \<Rightarrow> workload_estimator res" where
  "getCbfFromCdf c cdf capMsgSize tailBytesPrio w =
     (let grants = accountForGrantTraffic c; l0 = (if grants then [(0, 0)] else [])
      in rbind (cbf_sizes c capMsgSize tailBytesPrio (cdfFromFile w) 0
           \<lparr>cs_bytes = 0, cs_rttBytes = 0, cs_grants = 0, cs_cbf = l0, cs_last = l0\<rparr>) (\<lambda>s.
         let s = (if grants then s\<lparr>cs_bytes := cs_bytes s + cs_grants s, cs_rttBytes := cs_rttBytes s + cs_grants s,
                      cs_cbf := set_first (cs_grants s) (cs_cbf s), cs_last := set_first (cs_grants s) (cs_last s)\<rparr>
                  else s)
         in Inr (w\<lparr>cbfFromFile := rolling (cs_bytes s) 0 (cs_cbf s),
                   cbfLastCapBytesFromFile := rolling (cs_rttBytes s) 0 (cs_last s)\<rparr>)))"

end
