(* ===== verification/WorkloadProps.thy ===== *)
theory WorkloadProps
  imports WorkloadEst
begin

text \<open>
  What the estimator computes: the packets it cuts a message into are those of the sender, and the
  two vectors over the bytes left of a message are distributions.
\<close>

section \<open>Packets\<close>

lemma we_perPkt_vals: "we_perPkt UNSCHED_DATA = 1442" "we_perPkt SCHED_DATA = 1456"
  by (simp_all add: we_perPkt_def headerSize_def new_pkt_def)

text \<open>The types of the packets, for their bytes on the wire.\<close>

definition wire_of :: "pkt_type \<Rightarrow> nat list \<Rightarrow> (u32 \<times> u32) list" where
  "wire_of t ns = map (\<lambda>n. (of_nat n, getBytesOnWire (of_nat n) t)) ns"

definition we_total :: "(u32 \<times> u32) list \<Rightarrow> u32" where
  "we_total ps = (\<Sum>p \<leftarrow> ps. snd p)"

lemma wire_of_simps [simp]: "wire_of t [] = []" "wire_of t (n # ns) = (of_nat n, getBytesOnWire (of_nat n) t) # wire_of t ns"
  by (simp_all add: wire_of_def)

lemma we_sched:
  assumes "rem \<noteq> sz" "min (defaultReqBytes c + defaultUnschedBytes c) sz \<le> sz - rem"
    "rem \<le> sz" "0 < sz"
  shows "\<exists>g. we_packetize c sz rem = Inr \<lparr>pz_packets = wire_of SCHED_DATA (chunks 1456 (unat rem)),
     pz_onWire = we_total (wire_of SCHED_DATA (chunks 1456 (unat rem))), pz_grants = g\<rparr>"
  using assms
proof (induction "unat rem" arbitrary: rem rule: less_induct)
  case less
  show ?case
  proof (cases "rem = 0")
    case True
    then show ?thesis by (subst we_packetize.simps) (simp add: we_total_def)
  next
    case False
    then have pos: "0 < unat rem" by (simp add: unat_gt_0)
    define pkt where "pkt = min 1456 rem"
    have pkt: "0 < pkt" "pkt \<le> rem" "unat pkt = min (unat rem) 1456"
      using False by (auto simp: pkt_def unat_min min.commute word_greater_zero_iff)
    have n: "we_next c sz rem = (pkt, getBytesOnWire pkt SCHED_DATA, getBytesOnWire 0 GRANT)"
    proof -
      have "\<not> sz - rem < min (defaultReqBytes c + defaultUnschedBytes c) sz"
        using less.prems(2) by (simp only: not_less)
      then show ?thesis using less.prems(1)
        by (simp add: we_next_def Let_def we_perPkt_vals pkt_def del: min_less_iff_conj)
    qed
    have lt: "unat (rem - pkt) < unat rem" using unat_sub_less pkt by blast
    have "sz - rem \<le> sz - (rem - pkt)"
    proof -
      have "unat rem \<le> unat sz" using less.prems(3) by (simp only: word_le_nat_alt)
      with lt have rs: "rem - pkt \<le> sz" unfolding word_le_nat_alt by linarith
      show ?thesis using lt unfolding word_le_nat_alt unat_sub [OF less.prems(3)] unat_sub [OF rs] by linarith
    qed
    moreover have "rem - pkt < rem" using lt by (simp add: word_less_nat_alt)
    ultimately have IH: "\<exists>g. we_packetize c sz (rem - pkt) = Inr \<lparr>pz_packets = wire_of SCHED_DATA (chunks 1456 (unat (rem - pkt))),
       pz_onWire = we_total (wire_of SCHED_DATA (chunks 1456 (unat (rem - pkt)))), pz_grants = g\<rparr>"
      using less.prems by (intro less.hyps lt) auto
    have ch: "chunks 1456 (unat rem) = unat pkt # chunks 1456 (unat (rem - pkt))"
      using chunks_step [OF pos, of 1456] by (simp add: pkt(3) unat_sub [OF pkt(2)])
    obtain g where g: "we_packetize c sz (rem - pkt) = Inr \<lparr>pz_packets = wire_of SCHED_DATA (chunks 1456 (unat (rem - pkt))),
       pz_onWire = we_total (wire_of SCHED_DATA (chunks 1456 (unat (rem - pkt)))), pz_grants = g\<rparr>"
      using IH by (elim exE)
    have ne: "pkt \<noteq> 0" using pkt(1) by auto
    have "we_packetize c sz rem = rbind (we_packetize c sz (rem - pkt)) (\<lambda>p.
        Inr \<lparr>pz_packets = (pkt, getBytesOnWire pkt SCHED_DATA) # pz_packets p,
             pz_onWire = getBytesOnWire pkt SCHED_DATA + pz_onWire p, pz_grants = getBytesOnWire 0 GRANT + pz_grants p\<rparr>)"
      by (subst we_packetize.simps) (simp only: False ne n Let_def prod.case if_False)
    then show ?thesis unfolding g ch rbind_Inr
      by (intro exI [of _ "getBytesOnWire 0 GRANT + g"]) (simp add: we_total_def)
  qed
qed

lemma we_unsched:
  defines "tot \<equiv> \<lambda>c sz. min (defaultReqBytes c + defaultUnschedBytes c) sz"
  assumes "rem < sz" "sz - rem \<le> tot c sz"
  shows "\<exists>g. we_packetize c sz rem = Inr \<lparr>
     pz_packets = wire_of UNSCHED_DATA (chunks 1442 (unat (tot c sz) - unat (sz - rem))) @
       wire_of SCHED_DATA (chunks 1456 (unat sz - unat (tot c sz))),
     pz_onWire = we_total (wire_of UNSCHED_DATA (chunks 1442 (unat (tot c sz) - unat (sz - rem))) @
       wire_of SCHED_DATA (chunks 1456 (unat sz - unat (tot c sz)))), pz_grants = g\<rparr>"
  using assms(2,3)
proof (induction "unat rem" arbitrary: rem rule: less_induct)
  case less
  have le: "rem \<le> sz" "0 < sz" using less.prems(1) by (auto simp: word_less_nat_alt word_le_nat_alt)
  have tsz: "tot c sz \<le> sz" by (simp add: tot_def)
  have sub: "unat (sz - rem) = unat sz - unat rem" "unat rem \<le> unat sz"
    using le(1) by (simp_all add: unat_sub word_le_nat_alt)
  show ?case
  proof (cases "sz - rem = tot c sz")
    case True
    then have "unat rem = unat sz - unat (tot c sz)" using sub by (metis diff_diff_cancel)
    then show ?thesis using we_sched [of rem sz c] less.prems le True by (simp add: tot_def)
  next
    case False
    then have lt: "sz - rem < tot c sz" using less.prems(2) by simp
    define pkt where "pkt = min (tot c sz - (sz - rem)) 1442"
    have left: "unat (tot c sz - (sz - rem)) = unat (tot c sz) - unat (sz - rem)"
      using lt by (intro unat_sub) simp
    have pos: "0 < unat (tot c sz) - unat (sz - rem)" using lt by (simp add: word_less_nat_alt)
    have pkt: "unat pkt = min (unat (tot c sz) - unat (sz - rem)) 1442" by (simp add: pkt_def unat_min left)
    have "0 < unat pkt" using pkt pos by simp
    then have pkt0: "0 < pkt" by (simp add: word_less_nat_alt)
    have ple: "pkt \<le> rem" using sub_le_swap [OF lt tsz] by (simp add: pkt_def min_le_iff_disj)
    have ns: "we_next c sz rem = (pkt, getBytesOnWire pkt UNSCHED_DATA, 0)"
    proof -
      have "rem \<noteq> sz" using less.prems(1) by auto
      with lt show ?thesis
        by (simp add: we_next_def Let_def we_perPkt_vals pkt_def tot_def del: min_less_iff_conj)
    qed
    have dec: "unat (rem - pkt) < unat rem" using unat_sub_less pkt0 ple by blast
    then have rsz: "rem - pkt < sz" using less.prems(1) by (simp add: word_less_nat_alt)
    have "unat (sz - (rem - pkt)) = unat sz - unat (rem - pkt)"
      using rsz by (intro unat_sub) simp
    also have "\<dots> = unat (sz - rem) + unat pkt"
      using sub ple by (simp add: unat_sub word_le_nat_alt)
    finally have step: "unat (sz - (rem - pkt)) = unat (sz - rem) + unat pkt" .
    moreover have "unat (sz - rem) + unat pkt \<le> unat (tot c sz)" unfolding pkt using pos by linarith
    ultimately have "sz - (rem - pkt) \<le> tot c sz" unfolding word_le_nat_alt by (simp only:)
    from less.hyps [OF dec rsz this] step have IH: "\<exists>g. we_packetize c sz (rem - pkt) = Inr \<lparr>
       pz_packets = wire_of UNSCHED_DATA (chunks 1442 (unat (tot c sz) - (unat (sz - rem) + unat pkt))) @
         wire_of SCHED_DATA (chunks 1456 (unat sz - unat (tot c sz))),
       pz_onWire = we_total (wire_of UNSCHED_DATA (chunks 1442 (unat (tot c sz) - (unat (sz - rem) + unat pkt))) @
         wire_of SCHED_DATA (chunks 1456 (unat sz - unat (tot c sz)))), pz_grants = g\<rparr>" by simp
    have ch: "chunks 1442 (unat (tot c sz) - unat (sz - rem)) =
        unat pkt # chunks 1442 (unat (tot c sz) - (unat (sz - rem) + unat pkt))"
      using chunks_step [OF pos, of 1442] pkt by simp
    have "rem \<noteq> 0" using ple pkt0 by auto
    then show ?thesis using IH pkt0
      by (subst we_packetize.simps) (auto simp: ns ch Let_def we_total_def)
  qed
qed


lemma we_packets:
  assumes "0 < defaultReqBytes c" "unat (defaultReqBytes c) + unat (defaultUnschedBytes c) < 2 ^ 32" "sz \<noteq> 0"
  defines "R \<equiv> req_bytes c (unat sz)" and "U \<equiv> unsched_bytes c (unat sz)"
  shows "\<exists>g. we_packetize c sz sz = Inr \<lparr>
     pz_packets = wire_of REQUEST [R] @ wire_of UNSCHED_DATA (chunks 1442 U) @ wire_of SCHED_DATA (chunks 1456 (unat sz - R - U)),
     pz_onWire = we_total (wire_of REQUEST [R] @ wire_of UNSCHED_DATA (chunks 1442 U) @
       wire_of SCHED_DATA (chunks 1456 (unat sz - R - U))), pz_grants = g\<rparr>"
proof -
  define pkt where "pkt = min (defaultReqBytes c) sz"
  define tot where "tot = min (defaultReqBytes c + defaultUnschedBytes c) sz"
  have pos: "0 < unat sz" "0 < unat (defaultReqBytes c)"
    using assms(1,3) by (simp_all add: unat_gt_0 word_less_nat_alt)
  have pkt: "unat pkt = R" by (simp add: pkt_def unat_min R_def req_bytes_def)
  have sum: "unat (defaultReqBytes c + defaultUnschedBytes c) = unat (defaultReqBytes c) + unat (defaultUnschedBytes c)"
    using assms(2) by (simp add: unat_word_ariths)
  have tot: "unat tot = R + U"
    by (auto simp: tot_def unat_min sum R_def U_def req_bytes_def unsched_bytes_def)
  have R: "0 < R" "R \<le> unat sz" using pos by (simp_all add: R_def req_bytes_def)
  have pkt0: "0 < pkt" "pkt \<le> sz" using R pkt by (simp_all add: word_less_nat_alt word_le_nat_alt)
  have n: "we_next c sz sz = (pkt, getBytesOnWire pkt REQUEST, 0)" by (simp add: we_next_def Let_def pkt_def)
  have "sz - (sz - pkt) = pkt" by simp
  moreover have "sz - pkt < sz" using unat_sub_less [OF pkt0] by (simp add: word_less_nat_alt)
  moreover have "pkt \<le> tot" by (simp add: word_le_nat_alt pkt tot)
  ultimately have "\<exists>g. we_packetize c sz (sz - pkt) = Inr \<lparr>
     pz_packets = wire_of UNSCHED_DATA (chunks 1442 U) @ wire_of SCHED_DATA (chunks 1456 (unat sz - R - U)),
     pz_onWire = we_total (wire_of UNSCHED_DATA (chunks 1442 U) @ wire_of SCHED_DATA (chunks 1456 (unat sz - R - U))), pz_grants = g\<rparr>"
    using we_unsched [of "sz - pkt" sz c] by (simp add: tot_def [symmetric] tot pkt)
  then show ?thesis using assms(3) pkt0(1)
    by (subst we_packetize.simps) (auto simp: n Let_def we_total_def pkt [symmetric])
qed

lemma wire_of_sizes [simp]: "(\<And>n. n \<in> set ns \<Longrightarrow> n < 2 ^ 32) \<Longrightarrow> map (unat \<circ> fst) (wire_of t ns) = ns"
  by (induction ns) (simp_all add: unsigned_of_nat take_bit_nat_eq_self)

section \<open>The lists by bytes left\<close>

abbreviation ascending :: "u32 list \<Rightarrow> bool" where
  "ascending \<equiv> sorted_wrt (<)"

definition rem_ok :: "rem_lists \<Rightarrow> bool" where
  "rem_ok r \<longleftrightarrow> ascending (map fst (rl_pdf r)) \<and> map fst (rl_pbf r) = map fst (rl_pdf r) \<and>
     0 \<notin> fst ` set (rl_pdf r) \<and> (\<forall>p \<in> set (rl_pdf r) \<union> set (rl_pbf r). 0 \<le> snd p) \<and>
     (\<Sum>p \<leftarrow> rl_pdf r. snd p) = rl_pkts r \<and> (\<Sum>p \<leftarrow> rl_pbf r. snd p) = rl_pktBytes r"

definition behind :: "u32 \<Rightarrow> nat \<Rightarrow> rem_lists \<Rightarrow> bool" where
  "behind k it r \<longleftrightarrow> it \<le> length (rl_pdf r) \<and> (\<forall>p \<in> set (drop it (rl_pdf r)). k \<le> fst p)"

lemma seek_back_spec:
  assumes "it \<le> length l" "\<forall>p \<in> set (drop it l). sz < fst p" "l \<noteq> []"
  shows "seek_back sz l it < length l \<and> (\<forall>p \<in> set (drop (Suc (seek_back sz l it)) l). sz < fst p) \<and>
    (fst (l ! seek_back sz l it) \<le> sz \<or> seek_back sz l it = 0 \<and> sz < fst (l ! 0))"
  using assms(1,2)
proof (induction it)
  case 0
  then show ?case using assms(3) by (cases l) auto
next
  case (Suc i)
  show ?case
  proof (cases "fst (l ! i) \<le> sz")
    case True
    then show ?thesis using Suc.prems by simp
  next
    case False
    then have "\<forall>p \<in> set (drop i l). sz < fst p"
      using Suc.prems Cons_nth_drop_Suc [of i l] by (metis Suc_le_lessD not_le set_ConsD)
    with False Suc show ?thesis by simp
  qed
qed

lemma ascending_insert:
  assumes "ascending ks" "\<forall>x \<in> set (take i ks). x < k" "\<forall>x \<in> set (drop i ks). k < x"
  shows "ascending (take i ks @ k # drop i ks)"
proof -
  have "ascending (take i ks @ drop i ks)" using assms(1) by simp
  then show ?thesis using assms(2,3) unfolding sorted_wrt_append by (auto intro: less_trans)
qed


lemma list_insert_simps: "i \<le> length l \<Longrightarrow> map fst (list_insert i (k, v) l) = take i (map fst l) @ k # drop i (map fst l)"
  "(\<Sum>p \<leftarrow> list_insert i (k, v) l. snd p) = v + (\<Sum>p \<leftarrow> l. (snd p :: rat))"
  "set (list_insert i x l) = insert x (set l)"
proof -
  have "(\<Sum>p \<leftarrow> take i l. snd p) + (\<Sum>p \<leftarrow> drop i l. snd p) = (\<Sum>p \<leftarrow> take i l @ drop i l. (snd p :: rat))"
    by (simp del: append_take_drop_id)
  then show "(\<Sum>p \<leftarrow> list_insert i (k, v) l. snd p) = v + (\<Sum>p \<leftarrow> l. (snd p :: rat))" by (simp add: list_insert_def)
  have "set (take i l) \<union> set (drop i l) = set l" by (metis append_take_drop_id set_append)
  then show "set (list_insert i x l) = insert x (set l)" by (auto simp: list_insert_def)
qed (simp_all add: list_insert_def take_map drop_map)

lemma sum_list_add_at: "i < length xs \<Longrightarrow> sum_list (xs[i := xs ! i + (v :: rat)]) = v + sum_list xs"
  by (induction xs arbitrary: i) (auto simp: nth_Cons split: nat.splits)

lemma add_at_simps: "i < length l \<Longrightarrow> map fst (add_at i v l) = map fst l"
  "i < length l \<Longrightarrow> (\<Sum>p \<leftarrow> add_at i v l. snd p) = v + (\<Sum>p \<leftarrow> l. (snd p :: rat))"
  "i < length l \<Longrightarrow> set (add_at i v l) \<subseteq> insert (fst (l ! i), snd (l ! i) + v) (set l)"
proof -
  show "map fst (add_at i v l) = map fst l" if "i < length l"
    using that by (simp add: add_at_def map_update list_update_same_conv)
  show "(\<Sum>p \<leftarrow> add_at i v l. snd p) = v + (\<Sum>p \<leftarrow> l. (snd p :: rat))" if "i < length l"
    using that sum_list_add_at [of i "map snd l" v] by (simp add: add_at_def map_update)
  show "set (add_at i v l) \<subseteq> insert (fst (l ! i), snd (l ! i) + v) (set l)"
    unfolding add_at_def by (rule set_update_subset_insert)
qed

lemma add_at_nonneg:
  assumes "\<forall>p \<in> set l. 0 \<le> snd p" "i < length l" "0 \<le> v"
  shows "\<forall>p \<in> set (add_at i v l). 0 \<le> snd p"
proof
  fix p assume "p \<in> set (add_at i v l)"
  then consider "p = (fst (l ! i), snd (l ! i) + v)" | "p \<in> set l"
    using add_at_simps(3) [OF assms(2), of v] by blast
  then show "0 \<le> snd p"
  proof cases
    case 1
    have "0 \<le> snd (l ! i)" using assms(1) nth_mem [OF assms(2)] by blast
    then show ?thesis using 1 assms(3) by simp
  qed (use assms in blast)
qed

definition counted_in :: "rat \<Rightarrow> rat \<Rightarrow> rem_lists \<Rightarrow> rem_lists" where
  "counted_in prob bytes r = r\<lparr>rl_pktBytes := rl_pktBytes r + bytes, rl_pkts := rl_pkts r + prob\<rparr>"

lemma rem_insert:
  assumes ok: "rem_ok r" and i: "i \<le> length (rl_pdf r)" and k: "0 < k" and nn: "0 \<le> prob" "0 \<le> bytes"
    and below: "\<forall>x \<in> set (take i (map fst (rl_pdf r))). x < k" and above: "\<forall>p \<in> set (drop i (rl_pdf r)). k < fst p"
  defines "r' \<equiv> r\<lparr>rl_pdf := list_insert i (k, prob) (rl_pdf r), rl_pbf := list_insert i (k, bytes) (rl_pbf r)\<rparr>"
  shows "rem_ok (counted_in prob bytes r')" and "behind k (i + 1) r'"
proof -
  have keys: "map fst (rl_pbf r) = map fst (rl_pdf r)" and asc: "ascending (map fst (rl_pdf r))"
    using ok by (simp_all add: rem_ok_def)
  have len: "length (rl_pbf r) = length (rl_pdf r)" using arg_cong [OF keys, of length] by simp
  have a: "\<forall>x \<in> set (drop i (map fst (rl_pdf r))). k < x" using above by (simp add: drop_map)
  have "ascending (map fst (list_insert i (k, prob) (rl_pdf r)))"
    using ascending_insert [OF asc below a] i by (simp add: list_insert_simps)
  then show "rem_ok (counted_in prob bytes r')"
    using ok i len keys k nn unfolding rem_ok_def
    by (auto simp: r'_def counted_in_def list_insert_simps add.commute)
  show "behind k (i + 1) r'" using i above by (auto simp: behind_def r'_def list_insert_def intro: less_imp_le)
qed

lemma rem_add:
  assumes ok: "rem_ok r" and i: "i < length (rl_pdf r)" and k: "fst (rl_pdf r ! i) = k" and nn: "0 \<le> prob" "0 \<le> bytes"
    and above: "\<forall>p \<in> set (drop (Suc i) (rl_pdf r)). k < fst p"
  defines "r' \<equiv> r\<lparr>rl_pdf := add_at i prob (rl_pdf r), rl_pbf := add_at i bytes (rl_pbf r)\<rparr>"
  shows "rem_ok (counted_in prob bytes r')" and "behind k i r'"
proof -
  have keys: "map fst (rl_pbf r) = map fst (rl_pdf r)" using ok by (simp_all add: rem_ok_def)
  have len: "length (rl_pbf r) = length (rl_pdf r)" using arg_cong [OF keys, of length] by simp
  have keyset: "fst ` set (add_at i prob (rl_pdf r)) = fst ` set (rl_pdf r)"
    using arg_cong [OF add_at_simps(1) [OF i, of prob], of set] by simp
  have l: "i < length (rl_pbf r)" using i len by simp
  note add = add_at_simps(1,2) [OF i] add_at_simps(1,2) [OF l]
  have r': "rl_pdf (counted_in prob bytes r') = add_at i prob (rl_pdf r)" "rl_pbf (counted_in prob bytes r') = add_at i bytes (rl_pbf r)"
    "rl_pkts (counted_in prob bytes r') = rl_pkts r + prob" "rl_pktBytes (counted_in prob bytes r') = rl_pktBytes r + bytes"
    by (simp_all add: counted_in_def r'_def)
  have nonneg: "\<forall>p \<in> set (rl_pdf r). 0 \<le> snd p" "\<forall>p \<in> set (rl_pbf r). 0 \<le> snd p" using ok by (auto simp: rem_ok_def)
  show "rem_ok (counted_in prob bytes r')"
    unfolding rem_ok_def r' add
  proof (intro conjI)
    show "\<forall>p \<in> set (add_at i prob (rl_pdf r)) \<union> set (add_at i bytes (rl_pbf r)). 0 \<le> snd p"
      using add_at_nonneg [OF nonneg(1) i nn(1)] add_at_nonneg [OF nonneg(2) l nn(2)] by blast
    show "0 \<notin> fst ` set (add_at i prob (rl_pdf r))" unfolding keyset using ok by (simp add: rem_ok_def)
  qed (use ok in \<open>simp_all add: rem_ok_def\<close>)
  have "drop i (add_at i prob (rl_pdf r)) = (k, snd (rl_pdf r ! i) + prob) # drop (Suc i) (rl_pdf r)"
    using i k Cons_nth_drop_Suc [of i "add_at i prob (rl_pdf r)"] by (simp add: add_at_def)
  moreover have "i \<le> length (add_at i prob (rl_pdf r))" using i by (simp add: add_at_def)
  ultimately show "behind k i r'" using above by (simp add: behind_def r'_def less_imp_le)
qed

lemma rem_place_ok:
  assumes ok: "rem_ok r" and bh: "behind prev it r" "sz < prev \<or> it = length (rl_pdf r)" and sz: "0 < sz"
    and nn: "0 \<le> prob" "0 \<le> bytes"
  shows "\<exists>it' r'. rem_place sz prob bytes it r = Inr (it', r') \<and> rem_ok (counted_in prob bytes r') \<and>
    behind sz it' r' \<and> rl_pkts r' = rl_pkts r \<and> rl_pktBytes r' = rl_pktBytes r"
proof -
  let ?l = "rl_pdf r" and ?i = "seek_back sz (rl_pdf r) it"
  have above: "\<forall>p \<in> set (drop it ?l). sz < fst p" and it: "it \<le> length ?l"
    using bh by (auto simp: behind_def)
  show ?thesis
  proof (cases "?l = []")
    case True
    then have "it = 0" using it by simp
    then show ?thesis using rem_insert [OF ok _ sz nn, of 0] True
      by (auto simp: rem_place_def Let_def)
  next
    case False
    note seek = seek_back_spec [OF it above False]
    then have i: "?i < length ?l" and ab: "\<forall>p \<in> set (drop (Suc ?i) ?l). sz < fst p" by simp_all
    have asc: "ascending (map fst ?l)" using ok by (simp add: rem_ok_def)
    consider "fst (?l ! ?i) = sz" | "fst (?l ! ?i) < sz" | "?i = 0" "sz < fst (?l ! 0)" using seek by fastforce
    then show ?thesis
    proof cases
      case 1
      then show ?thesis using i rem_add [OF ok i 1 nn ab] by (simp add: rem_place_def Let_def counted_in_def)
    next
      case 2
      have "\<forall>x \<in> set (take (Suc ?i) (map fst ?l)). x < sz"
      proof
        fix x assume "x \<in> set (take (Suc ?i) (map fst ?l))"
        then obtain j where j: "j \<le> ?i" "x = map fst ?l ! j" using i by (auto simp: in_set_conv_nth less_Suc_eq_le)
        then have "x \<le> fst (?l ! ?i)"
          using sorted_wrt_nth_less [OF asc, of j ?i] i by (cases "j = ?i") (auto intro: less_imp_le)
        then show "x < sz" using 2 by (rule le_less_trans)
      qed
      then have "\<forall>x \<in> set (take (Suc ?i) (map fst (rl_pdf r))). x < sz" by simp
      note ins = rem_insert [OF ok Suc_leI [OF i] sz nn this ab]
      have "fst (?l ! ?i) \<noteq> sz" using 2 by auto
      then show ?thesis using i 2 ins by (simp add: rem_place_def Let_def counted_in_def)
    next
      case 3
      have "\<forall>p \<in> set (drop 0 ?l). sz < fst p"
        using ab 3 False by (cases ?l) auto
      note ins = rem_insert [OF ok le0 sz nn _ this, simplified]
      have "fst (?l ! 0) \<noteq> sz" "\<not> fst (?l ! 0) < sz" using 3(2) by auto
      then show ?thesis using i 3(1) ins by (simp add: rem_place_def Let_def counted_in_def)
    qed
  qed
qed


lemma rem_packets_ok:
  assumes "rem_ok r" "behind prev it r" "rem < prev \<or> it = length (rl_pdf r)" "0 \<le> prob"
    "\<forall>p \<in> set ps. 0 < fst p \<and> 0 < snd p" "(\<Sum>p \<leftarrow> ps. unat (fst p)) = unat rem"
  shows "\<exists>r'. rem_packets cap tail prob ps it rem pkted left r = Inr r' \<and> rem_ok r' \<and>
    rl_pkts r + (if ps \<noteq> [] \<and> pkted < cap then prob else 0) \<le> rl_pkts r' \<and>
    rl_pktBytes r + (if ps \<noteq> [] \<and> pkted < cap then prob else 0) \<le> rl_pktBytes r'"
  using assms
proof (induction ps arbitrary: prev it rem pkted left r)
  case (Cons p ps)
  obtain pkt wire where p: "p = (pkt, wire)" by (cases p)
  have pkt: "0 < pkt" "0 < wire" and sum: "unat pkt + (\<Sum>p \<leftarrow> ps. unat (fst p)) = unat rem"
    using Cons.prems(5,6) by (simp_all add: p)
  have "unat pkt \<le> unat rem" "0 < unat pkt" using sum pkt by (simp_all add: word_less_nat_alt)
  then have le: "pkt \<le> rem" and rem: "0 < rem" by (simp_all add: word_le_nat_alt word_less_nat_alt)
  have sum': "(\<Sum>p \<leftarrow> ps. unat (fst p)) = unat (rem - pkt)" using sum by (simp add: unat_sub [OF le])
  have less: "rem - pkt < rem" using unat_sub_less [OF pkt(1) le] by (simp add: word_less_nat_alt)
  have ps: "\<forall>p \<in> set ps. 0 < fst p \<and> 0 < snd p" using Cons.prems(5) by simp
  show ?case
  proof (cases "cap \<le> pkted \<and> tail \<le> left")
    case True
    have "rem - pkt < prev \<or> it = length (rl_pdf r)" using Cons.prems(3) less by (blast intro: less_trans)
    note IH = Cons.IH [OF Cons.prems(1,2) this Cons.prems(4) ps sum', of "pkted + wire" "left - wire"]
    then obtain r' where r': "rem_packets cap tail prob ps it (rem - pkt) (pkted + wire) (left - wire) r = Inr r'"
      "rem_ok r'" "rl_pkts r \<le> rl_pkts r'" "rl_pktBytes r \<le> rl_pktBytes r'"
      using Cons.prems(4) by (fastforce split: if_splits)
    have "\<not> pkted < cap" using True by (simp add: not_less)
    then show ?thesis using r' True by (simp add: p)
  next
    case False
    let ?b = "prob * of_nat (unat wire)"
    have b0: "0 \<le> ?b" using mult_nonneg_nonneg [OF Cons.prems(4) of_nat_0_le_iff] .
    have "1 \<le> unat wire" using pkt(2) by (simp add: word_less_nat_alt)
    then have "1 \<le> (of_nat (unat wire) :: rat)" by (metis of_nat_1 of_nat_le_iff)
    then have b: "prob \<le> ?b" using mult_left_mono [of 1 "of_nat (unat wire)" prob] Cons.prems(4) by simp
    from rem_place_ok [OF Cons.prems(1-3) rem Cons.prems(4) b0] obtain it' r1 where
      pl: "rem_place rem prob ?b it r = Inr (it', r1)" and ok: "rem_ok (counted_in prob ?b r1)"
      and bh: "behind rem it' r1" and same: "rl_pkts r1 = rl_pkts r" "rl_pktBytes r1 = rl_pktBytes r" by blast
    have "behind rem it' (counted_in prob ?b r1)" using bh by (simp add: behind_def counted_in_def)
    note IH = Cons.IH [OF ok this disjI1 [OF less] Cons.prems(4) ps sum', of "pkted + wire" "left - wire"]
    then obtain r' where r': "rem_packets cap tail prob ps it' (rem - pkt) (pkted + wire) (left - wire) (counted_in prob ?b r1) = Inr r'"
      "rem_ok r'" "rl_pkts (counted_in prob ?b r1) \<le> rl_pkts r'" "rl_pktBytes (counted_in prob ?b r1) \<le> rl_pktBytes r'"
      using Cons.prems(4) by (fastforce split: if_splits)
    have "rem_packets cap tail prob ((pkt, wire) # ps) it rem pkted left r = Inr r'"
      using r'(1) False unfolding rem_packets.simps Let_def pl if_not_P [OF False]
      by (simp only: rbind_Inr prod.case counted_in_def)
    moreover have "rl_pkts r + prob \<le> rl_pkts r'" "rl_pktBytes r + prob \<le> rl_pktBytes r'"
      using r'(3,4) b by (simp_all add: counted_in_def same)
    ultimately show ?thesis using r'(2) Cons.prems(4) by (auto simp: p)
  qed
qed simp

lemma wire_pos: "unat n \<le> 1456 \<Longrightarrow> 0 < getBytesOnWire n t"
proof -
  assume n: "unat n \<le> 1456"
  have "0 < wire_nat t (unat n)" by (simp add: wire_nat_def Let_def)
  then show ?thesis using unat_getBytesOnWire [of n t] n by (simp add: word_less_nat_alt)
qed

lemma wire_of_pos:
  assumes "\<And>n. n \<in> set ns \<Longrightarrow> 0 < n \<and> n \<le> 1456"
  shows "\<forall>p \<in> set (wire_of t ns). 0 < fst p \<and> 0 < snd p"
proof
  fix p assume "p \<in> set (wire_of t ns)"
  then obtain n where n: "n \<in> set ns" "p = (of_nat n, getBytesOnWire (of_nat n) t)" by (auto simp: wire_of_def)
  then have "unat (of_nat n :: u32) = n" using assms [OF n(1)] by (simp add: unsigned_of_nat take_bit_nat_eq_self)
  then show "0 < fst p \<and> 0 < snd p" using assms [OF n(1)] wire_pos [of "of_nat n" t] n(2) by (simp add: word_less_nat_alt)
qed

lemma wire_of_sum: "(\<And>n. n \<in> set ns \<Longrightarrow> n < 2 ^ 32) \<Longrightarrow> (\<Sum>p \<leftarrow> wire_of t ns. unat (fst p)) = sum_list ns"
  using arg_cong [OF wire_of_sizes, of ns sum_list t] by (simp add: comp_def)

definition req_ok :: "homa_config \<Rightarrow> bool" where
  "req_ok c \<longleftrightarrow> 0 < defaultReqBytes c \<and> defaultReqBytes c \<le> 1442 \<and>
     unat (defaultReqBytes c) + unat (defaultUnschedBytes c) < 2 ^ 32"

lemma we_packets_ok:
  assumes "req_ok c" "sz \<noteq> 0"
  shows "\<exists>pz. we_packetize c sz sz = Inr pz \<and> pz_packets pz \<noteq> [] \<and>
    (\<forall>p \<in> set (pz_packets pz). 0 < fst p \<and> 0 < snd p) \<and> (\<Sum>p \<leftarrow> pz_packets pz. unat (fst p)) = unat sz"
proof -
  let ?R = "req_bytes c (unat sz)" and ?U = "unsched_bytes c (unat sz)"
  let ?S = "unat sz - ?R - ?U"
  have pos: "0 < unat sz" using assms(2) by (simp add: unat_gt_0)
  have R: "0 < ?R" "?R \<le> 1442" "?R + ?U + ?S = unat sz"
    using assms(1) pos by (auto simp: req_ok_def req_bytes_def unsched_bytes_def word_less_nat_alt word_le_nat_alt)
  have u: "\<And>n. n \<in> set (chunks 1442 ?U) \<Longrightarrow> 0 < n \<and> n \<le> 1456" using chunks_le [of 1442 _ ?U] by fastforce
  have s: "\<And>n. n \<in> set (chunks 1456 ?S) \<Longrightarrow> 0 < n \<and> n \<le> 1456" using chunks_le [of 1456 _ ?S] by fastforce
  have r: "\<And>n. n \<in> set [?R] \<Longrightarrow> 0 < n \<and> n \<le> 1456" using R by simp
  have small: "n < 2 ^ 32" if "0 < n \<and> n \<le> 1456" for n :: nat using that by simp
  let ?ps = "wire_of REQUEST [?R] @ wire_of UNSCHED_DATA (chunks 1442 ?U) @ wire_of SCHED_DATA (chunks 1456 ?S)"
  obtain g where g: "we_packetize c sz sz = Inr \<lparr>pz_packets = ?ps, pz_onWire = we_total ?ps, pz_grants = g\<rparr>"
    using we_packets [of c sz] assms unfolding req_ok_def by blast
  have pos: "\<forall>p \<in> set ?ps. 0 < fst p \<and> 0 < snd p"
    using wire_of_pos [OF r, where t = REQUEST] wire_of_pos [OF u, where t = UNSCHED_DATA]
      wire_of_pos [OF s, where t = SCHED_DATA] unfolding set_append by blast
  have "(\<Sum>p \<leftarrow> wire_of REQUEST [?R]. unat (fst p)) = ?R"
    using wire_of_sum [of "[?R]" REQUEST] small [OF r] by simp
  moreover have "(\<Sum>p \<leftarrow> wire_of UNSCHED_DATA (chunks 1442 ?U). unat (fst p)) = ?U"
    using wire_of_sum [of "chunks 1442 ?U" UNSCHED_DATA] small [OF u] by simp
  moreover have "(\<Sum>p \<leftarrow> wire_of SCHED_DATA (chunks 1456 ?S). unat (fst p)) = ?S"
    using wire_of_sum [of "chunks 1456 ?S" SCHED_DATA] small [OF s] by simp
  ultimately have sum: "(\<Sum>p \<leftarrow> ?ps. unat (fst p)) = unat sz"
    unfolding map_append sum_list_append using R(3) by linarith
  have "?ps \<noteq> []" by simp
  with g pos sum show ?thesis
    by (intro exI [of _ "\<lparr>pz_packets = ?ps, pz_onWire = we_total ?ps, pz_grants = g\<rparr>"] conjI)
      (simp_all only: packetized.simps simp_thms)
qed

lemma rem_sizes_ok:
  assumes "req_ok c" "0 < cap" "rem_ok r" "\<forall>p \<in> set cdf. fst p \<noteq> 0" "sorted (prev # map snd cdf)"
  shows "\<exists>g' r'. rem_sizes c cap tail cdf prev g r = Inr (g', r') \<and> rem_ok r' \<and> g \<le> g' \<and>
    rl_pkts r + (last (prev # map snd cdf) - prev) \<le> rl_pkts r' \<and>
    rl_pktBytes r + (last (prev # map snd cdf) - prev) \<le> rl_pktBytes r'"
  using assms(3-5)
proof (induction cdf arbitrary: prev g r)
  case (Cons e cdf)
  obtain sz p where e: "e = (sz, p)" by (cases e)
  have sz: "sz \<noteq> 0" and p: "prev \<le> p" "0 \<le> p - prev" and srt: "sorted (p # map snd cdf)"
    using Cons.prems(2,3) by (simp_all add: e)
  obtain pz where pz: "we_packetize c sz sz = Inr pz" "pz_packets pz \<noteq> []"
      "\<forall>p \<in> set (pz_packets pz). 0 < fst p \<and> 0 < snd p" "(\<Sum>p \<leftarrow> pz_packets pz. unat (fst p)) = unat sz"
    using we_packets_ok [OF assms(1) sz] by blast
  have bh: "behind 0 (length (rl_pdf r)) r" by (simp add: behind_def)
  obtain r1 where r1: "rem_packets cap tail (p - prev) (pz_packets pz) (length (rl_pdf r)) sz 0 (pz_onWire pz) r = Inr r1"
      "rem_ok r1" "rl_pkts r + (p - prev) \<le> rl_pkts r1" "rl_pktBytes r + (p - prev) \<le> rl_pktBytes r1"
    using rem_packets_ok [OF Cons.prems(1) bh _ p(2) pz(3,4), of cap tail 0 "pz_onWire pz"] pz(2) assms(2) by auto
  define g1 where "g1 = g + (p - prev) * of_nat (unat (pz_grants pz))"
  have g1: "g \<le> g1" unfolding g1_def using mult_nonneg_nonneg [OF p(2) of_nat_0_le_iff [of "unat (pz_grants pz)"]] by linarith
  obtain g' r' where r': "rem_sizes c cap tail cdf p g1 r1 = Inr (g', r')" "rem_ok r'" "g1 \<le> g'"
      "rl_pkts r1 + (last (p # map snd cdf) - p) \<le> rl_pkts r'" "rl_pktBytes r1 + (last (p # map snd cdf) - p) \<le> rl_pktBytes r'"
    using Cons.IH [OF r1(2) _ srt, of g1] Cons.prems(2) by auto
  have "rem_sizes c cap tail (e # cdf) prev g r = Inr (g', r')"
    using r'(1) by (simp add: e Let_def pz(1) r1(1) g1_def)
  moreover have "last (prev # map snd (e # cdf)) = last (p # map snd cdf)" by (simp add: e)
  ultimately show ?case using r'(2-5) r1(3,4) g1 by (intro exI [of _ g'] exI [of _ r'] conjI) simp_all
qed simp

section \<open>Running sums\<close>

fun running :: "rat \<Rightarrow> rat \<Rightarrow> rat list \<Rightarrow> rat list" where
  "running cum n [] = []"
| "running cum n (x # xs) = (cum + x / n) # running (cum + x / n) n xs"

lemma length_running [simp]: "length (running cum n xs) = length xs"
  by (induction xs arbitrary: cum) simp_all

lemma running_Nil [simp]: "running cum n xs = [] \<longleftrightarrow> xs = []"
  by (cases xs) simp_all

lemma running_last: "last (cum # running cum n xs) = cum + sum_list xs / n"
  by (induction xs arbitrary: cum) (simp_all add: add_divide_distrib)

lemma running_sorted: "0 < n \<Longrightarrow> \<forall>x \<in> set xs. 0 \<le> x \<Longrightarrow> sorted (cum # running cum n xs)"
proof (induction xs arbitrary: cum)
  case (Cons x xs)
  then have "sorted ((cum + x / n) # running (cum + x / n) n xs)" "0 \<le> x / n" by simp_all
  then show ?case by (auto simp: sorted_simps intro: order_trans)
qed simp

lemma rem_cumulate_eq:
  assumes "map fst pbf = map fst pdf" "ascending (prev # map fst pdf)"
  shows "rem_cumulate P B prev a b pdf pbf =
    Inr (zip (map fst pdf) (running a P (map snd pdf)), zip (map fst pdf) (running b B (map snd pbf)))"
  using assms
proof (induction pdf arbitrary: prev a b pbf)
  case (Cons x pdf)
  then obtain y ys where "pbf = y # ys" "fst y = fst x" "map fst ys = map fst pdf" by (cases pbf) auto
  with Cons show ?case by (cases x; cases y) (simp add: assertion_def Let_def)
qed simp

lemma remain_sizes_ok:
  assumes "req_ok c" "0 < cap" and "\<forall>p \<in> set cdf. fst p \<noteq> 0" "sorted (0 # map snd cdf)" "cdf \<noteq> []" "0 < snd (last cdf)"
  shows "\<exists>rcdf rcbf. getRemainSizeCdfCbf c cdf cap tail w = Inr (w\<lparr>remainSizeCdf := rcdf, remainSizeCbf := rcbf\<rparr>) \<and>
    sorted_wrt (<) (0 # map fst rcdf) \<and>
    map fst rcbf = (if accountForGrantTraffic c then 0 # map fst rcdf else map fst rcdf) \<and>
    sorted (0 # map snd rcdf) \<and> sorted (0 # map snd rcbf) \<and>
    rcdf \<noteq> [] \<and> snd (last rcdf) = 1 \<and> snd (last rcbf) = 1"
proof -
  let ?r0 = "\<lparr>rl_pdf = [], rl_pbf = [], rl_pktBytes = 0, rl_pkts = 0\<rparr>" and ?p = "snd (last cdf)"
  have "rem_ok ?r0" by (simp add: rem_ok_def)
  moreover have "last (0 # map snd cdf) = ?p" using assms(5) by (simp add: last_map)
  ultimately obtain g r where r: "rem_sizes c cap tail cdf 0 0 ?r0 = Inr (g, r)" "rem_ok r" "0 \<le> g"
      "?p \<le> rl_pkts r" "?p \<le> rl_pktBytes r"
    using rem_sizes_ok [OF assms(1,2) _ assms(3,4), of ?r0 tail 0] by auto
  define B where "B = (if accountForGrantTraffic c then rl_pktBytes r + g else rl_pktBytes r)"
  define b where "b = (if accountForGrantTraffic c then g / B else 0)"
  define rcdf where "rcdf = zip (map fst (rl_pdf r)) (running 0 (rl_pkts r) (map snd (rl_pdf r)))"
  define rcbf where "rcbf = zip (map fst (rl_pdf r)) (running b B (map snd (rl_pbf r)))"
  have P: "0 < rl_pkts r" "0 < B" "0 \<le> b" using r assms(6) by (auto simp: B_def b_def)
  note ok = r(2) [unfolded rem_ok_def]
  have asc: "ascending (0 # map fst (rl_pdf r))" using ok by (auto simp: word_gt_0)
  have len: "length (rl_pbf r) = length (rl_pdf r)" using ok map_eq_imp_length_eq by metis
  have keys: "map fst rcdf = map fst (rl_pdf r)" "map fst rcbf = map fst (rl_pdf r)"
    and vals: "map snd rcdf = running 0 (rl_pkts r) (map snd (rl_pdf r))" "map snd rcbf = running b B (map snd (rl_pbf r))"
    by (simp_all add: rcdf_def rcbf_def len)
  have "rl_pdf r \<noteq> []" using ok P(1) by auto
  then have ne: "rcdf \<noteq> []" "rcbf \<noteq> []" using len by (auto simp: rcdf_def rcbf_def zip_eq_Nil_iff)
  have srt: "sorted (0 # map snd rcdf)" "sorted (b # map snd rcbf)"
    unfolding vals using ok by (intro running_sorted P(1,2); auto)+
  have "snd (last rcdf) = last (0 # map snd rcdf)" "snd (last rcbf) = last (b # map snd rcbf)"
    using ne by (simp_all add: last_map)
  moreover have "b + rl_pktBytes r / B = 1"
  proof (cases "accountForGrantTraffic c")
    case True
    then have "b + rl_pktBytes r / B = (g + rl_pktBytes r) / B" by (simp add: b_def add_divide_distrib)
    with True P(2) show ?thesis by (simp add: B_def add.commute)
  qed (use P(2) in \<open>simp add: b_def B_def\<close>)
  ultimately have ends: "snd (last rcdf) = 1" "snd (last rcbf) = 1"
    unfolding vals running_last using ok P(1) by simp_all
  have cum: "rem_cumulate (rl_pkts r) B 0 0 b (rl_pdf r) (rl_pbf r) = Inr (rcdf, rcbf)"
    unfolding rcdf_def rcbf_def using ok by (intro rem_cumulate_eq asc) blast
  let ?rcbf = "if accountForGrantTraffic c then (0, b) # rcbf else rcbf"
  have "getRemainSizeCdfCbf c cdf cap tail w = Inr (w\<lparr>remainSizeCdf := rcdf, remainSizeCbf := ?rcbf\<rparr>)"
    unfolding getRemainSizeCdfCbf_def r(1) Let_def rbind_Inr prod.case
    unfolding B_def [symmetric] unfolding b_def [symmetric] unfolding cum by simp
  moreover have "sorted (0 # map snd ?rcbf)" using srt(2) P(3) by (auto intro: order_trans)
  moreover have "map fst ?rcbf = (if accountForGrantTraffic c then 0 # map fst rcdf else map fst rcdf)" "snd (last ?rcbf) = 1"
    using keys ne(2) ends(2) by simp_all
  moreover have "ascending (0 # map fst rcdf)" using asc unfolding keys .
  ultimately show ?thesis using srt(1) ne(1) ends(1) by blast
qed

section \<open>Properties\<close>

text \<open>
  C39: the estimator cuts a message exactly as the sender does: the request and the unscheduled
  packets are those the unscheduled byte allocator answers for the message, the rest is cut into
  full scheduled packets and a last one, each with its bytes on the wire by its type.
\<close>

theorem estimator_cuts_as_sender:
  assumes "0 < defaultReqBytes c" "defaultReqBytes c \<le> 1442"
    "unat (defaultReqBytes c) + unat (defaultUnschedBytes c) < 2 ^ 32" "sz \<noteq> 0" "alloc_ok c a"
  shows "\<exists>pz d ds a'. we_packetize c sz sz = Inr pz \<and>
    getReqUnschedDataPkts c rxAddr sz a = Inr (d # ds, a') \<and>
    pz_packets pz = wire_of REQUEST [unat d] @ wire_of UNSCHED_DATA (map unat ds) @
      wire_of SCHED_DATA (chunks 1456 (unat sz - (\<Sum>x \<leftarrow> d # ds. unat x))) \<and>
    (\<Sum>p \<leftarrow> pz_packets pz. unat (fst p)) = unat sz \<and>
    pz_onWire pz = (\<Sum>p \<leftarrow> pz_packets pz. snd p)"
proof -
  obtain d ds a' where d: "getReqUnschedDataPkts c rxAddr sz a = Inr (d # ds, a')"
      "unat d = req_bytes c (unat sz)" "map unat ds = chunks 1442 (unsched_bytes c (unat sz))"
    using getReqUnschedDataPkts_ok [OF assms(5,2), of rxAddr sz] by blast
  have "req_ok c" using assms(1-3) by (simp add: req_ok_def)
  then obtain pz where pz: "we_packetize c sz sz = Inr pz" "(\<Sum>p \<leftarrow> pz_packets pz. unat (fst p)) = unat sz"
    using we_packets_ok [OF _ assms(4)] by blast
  have sum: "(\<Sum>x \<leftarrow> d # ds. unat x) = req_bytes c (unat sz) + unsched_bytes c (unat sz)"
    using d(2,3) by simp
  obtain g where g: "pz = \<lparr>pz_packets = wire_of REQUEST [unat d] @ wire_of UNSCHED_DATA (map unat ds) @
        wire_of SCHED_DATA (chunks 1456 (unat sz - (\<Sum>x \<leftarrow> d # ds. unat x))),
      pz_onWire = we_total (wire_of REQUEST [unat d] @ wire_of UNSCHED_DATA (map unat ds) @
        wire_of SCHED_DATA (chunks 1456 (unat sz - (\<Sum>x \<leftarrow> d # ds. unat x)))), pz_grants = g\<rparr>"
    using we_packets [OF assms(1,3,4)] pz(1) unfolding sum d(2,3) diff_diff_left by auto
  show ?thesis
    by (intro exI conjI, rule pz(1), rule d(1)) (use pz(2) in \<open>simp_all only: g packetized.simps we_total_def\<close>)
qed

lemma estimator_cuts_as_sender_witness:
  "\<exists>pz d ds a'. we_packetize ini_params 20000 20000 = Inr pz \<and>
    getReqUnschedDataPkts ini_params 7 20000 UnschedByteAllocator = Inr (d # ds, a') \<and>
    (\<Sum>p \<leftarrow> pz_packets pz. unat (fst p)) = 20000"
  using estimator_cuts_as_sender [OF _ _ _ _ alloc_ok_init, of ini_params 20000 7]
  by (auto simp: ini_params_def)

text \<open>
  C40: for an ascending distribution of non-empty messages the vectors over the bytes left of a message
  are computed without a failed assertion, are in ascending order of the bytes, and are cumulative
  distributions: they grow from 0 and end at exactly 1; with grants accounted, the byte vector has
  them in front as a message of no bytes.
\<close>

theorem remain_size_distributions:
  assumes "0 < defaultReqBytes c" "defaultReqBytes c \<le> 1442"
    "unat (defaultReqBytes c) + unat (defaultUnschedBytes c) < 2 ^ 32" "0 < cap"
    and "\<forall>p \<in> set cdf. fst p \<noteq> 0" "sorted (0 # map snd cdf)" "cdf \<noteq> []" "0 < snd (last cdf)"
  shows "\<exists>rcdf rcbf. getRemainSizeCdfCbf c cdf cap tail w = Inr (w\<lparr>remainSizeCdf := rcdf, remainSizeCbf := rcbf\<rparr>) \<and>
    sorted_wrt (<) (0 # map fst rcdf) \<and>
    map fst rcbf = (if accountForGrantTraffic c then 0 # map fst rcdf else map fst rcdf) \<and>
    sorted (0 # map snd rcdf) \<and> sorted (0 # map snd rcbf) \<and>
    rcdf \<noteq> [] \<and> snd (last rcdf) = 1 \<and> snd (last rcbf) = 1"
  by (rule remain_sizes_ok) (use assms in \<open>simp_all add: req_ok_def\<close>)

lemma remain_size_distributions_witness:
  "\<forall>w0. \<exists>rcdf rcbf. getRemainSizeCdfCbf ini_params [(500, 1/2), (3000, 1)] 10000 0 w0 =
      Inr (w0\<lparr>remainSizeCdf := rcdf, remainSizeCbf := rcbf\<rparr>) \<and>
    sorted_wrt (<) (0 # map fst rcdf) \<and> snd (last rcdf) = 1 \<and> snd (last rcbf) = 1"
proof
  fix w0
  show "\<exists>rcdf rcbf. getRemainSizeCdfCbf ini_params [(500, 1/2), (3000, 1)] 10000 0 w0 =
      Inr (w0\<lparr>remainSizeCdf := rcdf, remainSizeCbf := rcbf\<rparr>) \<and>
    sorted_wrt (<) (0 # map fst rcdf) \<and> snd (last rcdf) = 1 \<and> snd (last rcbf) = 1"
    using remain_size_distributions [of ini_params 10000 "[(500, 1/2), (3000, 1)]" 0 w0]
    by (auto simp: ini_params_def)
qed

end
