(* ===== verification/WorkloadPrio.thy ===== *)
theory WorkloadPrio
  imports PriorityResolver WorkloadProps
begin

text \<open>
  The priority resolver on the vectors the workload estimator computes: the constructor of
  \<open>PriorityResolver\<close> with the calls into the estimator, and \<open>recomputeCbf\<close>.  From a distribution
  of message sizes the resolver ends up with well-formed cut-offs.
\<close>

section \<open>Operations\<close>

definition recomputeCbf ::
    "nat \<Rightarrow> homa_config \<Rightarrow> u32 \<Rightarrow> u32 \<Rightarrow> workload_estimator \<Rightarrow> prio_resolver \<Rightarrow> (workload_estimator \<times> prio_resolver) res" where
  "recomputeCbf fuel c capMsgSize tailBytesPrio w r =
     rbind (getCbfFromCdf c (cdfFromFile w) capMsgSize tailBytesPrio w) (\<lambda>w.
     rbind (getRemainSizeCdfCbf c (cdfFromFile w) capMsgSize tailBytesPrio w) (\<lambda>w.
     rbind (setPrioCutOffs fuel c
              (cdf_vectors.make (cdfFromFile w) (cbfLastCapBytesFromFile w) (workload_estimator.remainSizeCbf w)) r) (\<lambda>r.
     Inr (w, r))))"

definition resolver_of_workload ::
    "nat \<Rightarrow> homa_config \<Rightarrow> workload_estimator \<Rightarrow> (workload_estimator \<times> prio_resolver) res" where
  "resolver_of_workload fuel c w =
     rbind (getCbfFromCdf c (cdfFromFile w) (cbfCapMsgSize c) (boostTailBytesPrio c) w) (\<lambda>w.
     rbind (getRemainSizeCdfCbf c (cdfFromFile w) (cbfCapMsgSize c) (boostTailBytesPrio c) w) (\<lambda>w.
     rbind (PriorityResolver fuel c
              (cdf_vectors.make (cdfFromFile w) (cbfLastCapBytesFromFile w) (workload_estimator.remainSizeCbf w))) (\<lambda>r.
     Inr (w, r))))"

section \<open>Bytes on the wire\<close>

lemma wire_of_total:
  assumes "n \<le> 4000000000"
  shows "(\<Sum>p \<leftarrow> wire_of t (chunks (max_data_nat t) n). unat (snd p)) \<le> n div 1442 * 1538 + 1584"
proof (cases "n = 0")
  case False
  have pos: "0 < max_data_nat t" "max_data_nat t \<le> 4000000000" using max_data_nat_range [of t] by simp_all
  have wire: "unat (getBytesOnWire (of_nat k) t) = wire_nat t k" if "k \<in> set (chunks (max_data_nat t) n)" for k
  proof -
    have k: "k \<le> 4000000000" using chunks_le [OF pos(1) that] pos(2) by simp
    then have "unat (of_nat k :: u32) = k" by (simp add: unsigned_of_nat take_bit_nat_eq_self)
    then show ?thesis using unat_getBytesOnWire [of "of_nat k" t] k by simp
  qed
  have "(\<Sum>p \<leftarrow> wire_of t (chunks (max_data_nat t) n). unat (snd p)) =
      (\<Sum>k \<leftarrow> chunks (max_data_nat t) n. unat (getBytesOnWire (of_nat k) t))"
    unfolding wire_of_def map_map by (simp only: comp_def snd_conv)
  also have "\<dots> = (\<Sum>k \<leftarrow> chunks (max_data_nat t) n. wire_nat t k)"
    by (rule arg_cong [of _ _ sum_list], rule map_cong [OF HOL.refl wire])
  also have "\<dots> = wire_nat t n" using False by (intro wire_nat_chunks) simp
  also have "\<dots> \<le> n div max_data_nat t * 1538 + 1584" using wire_nat_le [of t n] by simp
  also have "\<dots> \<le> n div 1442 * 1538 + 1584" using max_data_nat_range(1) [of t] by (simp add: div_le_mono2)
  finally show ?thesis .
qed simp

lemma div_sum_le: "a div m + b div m \<le> (a + b) div (m :: nat)"
  using div_add1_eq [of a b m] by linarith

lemma three_parts: "a \<le> x * 1538 + 1584 \<Longrightarrow> b \<le> y * 1538 + 1584 \<Longrightarrow> c \<le> z * 1538 + 1584 \<Longrightarrow>
    x + y + z \<le> 2773925 \<Longrightarrow> a + (b + c) < (2 ^ 32 :: nat)"
  by simp

lemma we_packets_wire:
  assumes "req_ok c" "sz \<noteq> 0" "unat sz \<le> 4000000000" "we_packetize c sz sz = Inr pz"
  shows "(\<Sum>p \<leftarrow> pz_packets pz. unat (snd p)) < 2 ^ 32"
proof -
  let ?R = "req_bytes c (unat sz)" and ?U = "unsched_bytes c (unat sz)"
  let ?S = "unat sz - ?R - ?U"
  let ?ps = "wire_of REQUEST [?R] @ wire_of UNSCHED_DATA (chunks 1442 ?U) @ wire_of SCHED_DATA (chunks 1456 ?S)"
  obtain g where "we_packetize c sz sz = Inr \<lparr>pz_packets = ?ps, pz_onWire = we_total ?ps, pz_grants = g\<rparr>"
    using we_packets [of c sz] assms(1,2) unfolding req_ok_def by blast
  then have "pz = \<lparr>pz_packets = ?ps, pz_onWire = we_total ?ps, pz_grants = g\<rparr>" using assms(4) by (simp only: sum.inject)
  then have ps: "pz_packets pz = ?ps" by (simp only: packetized.simps)
  have R: "?R \<le> 1442" "?R + ?U + ?S = unat sz"
    using assms(1) by (auto simp: req_ok_def req_bytes_def unsched_bytes_def word_le_nat_alt)
  have m: "max_data_nat REQUEST = 1442" "max_data_nat UNSCHED_DATA = 1442" "max_data_nat SCHED_DATA = 1456"
    by (simp_all add: max_data_nat_def hdr_nat_def)
  have "unat (of_nat ?R :: u32) = ?R" using R(1) by (simp add: unsigned_of_nat take_bit_nat_eq_self)
  then have "unat (getBytesOnWire (of_nat ?R) REQUEST) = wire_nat REQUEST ?R" using unat_getBytesOnWire [of "of_nat ?R" REQUEST] R(1) by simp
  then have r: "(\<Sum>p \<leftarrow> wire_of REQUEST [?R]. unat (snd p)) \<le> ?R div 1442 * 1538 + 1584"
    using wire_nat_le [of REQUEST ?R] by (simp add: m(1))
  have u: "(\<Sum>p \<leftarrow> wire_of UNSCHED_DATA (chunks 1442 ?U). unat (snd p)) \<le> ?U div 1442 * 1538 + 1584"
    using wire_of_total [of ?U UNSCHED_DATA] R(2) assms(3) by (simp add: m(2))
  have s: "(\<Sum>p \<leftarrow> wire_of SCHED_DATA (chunks 1456 ?S). unat (snd p)) \<le> ?S div 1442 * 1538 + 1584"
    using wire_of_total [of ?S SCHED_DATA] R(2) assms(3) by (simp add: m(3))
  have "?R div 1442 + ?U div 1442 + ?S div 1442 \<le> unat sz div 1442"
    using div_sum_le [of "?R + ?U" 1442 ?S] div_sum_le [of ?R 1442 ?U] unfolding R(2) by linarith
  also have "\<dots> \<le> 2773925" using div_le_mono [OF assms(3), of 1442] by simp
  finally have d: "?R div 1442 + ?U div 1442 + ?S div 1442 \<le> 2773925" .
  show ?thesis unfolding ps map_append sum_list_append by (rule three_parts [OF r u s d])
qed

section \<open>The vector of capped bytes\<close>

lemma cap_packets_ok:
  assumes "unat on + (\<Sum>p \<leftarrow> ps. unat (snd p)) < 2 ^ 32" "\<forall>p \<in> set ps. 0 < snd p"
  shows "\<exists>on'. cap_packets cap tail prob ps pkted left on cum =
      (on', cum + (of_nat (unat on') - of_nat (unat on)) * prob) \<and> unat on \<le> unat on' \<and>
    (ps \<noteq> [] \<and> pkted < cap \<longrightarrow> unat on < unat on')"
  using assms
proof (induction ps arbitrary: pkted left on cum)
  case (Cons p ps)
  obtain pkt wire where p: "p = (pkt, wire)" by (cases p)
  show ?case
  proof (cases "cap \<le> pkted \<and> tail \<le> left")
    case True
    have pre: "unat on + (\<Sum>p \<leftarrow> ps. unat (snd p)) < 2 ^ 32" "\<forall>p \<in> set ps. 0 < snd p" using Cons.prems by simp_all
    have "\<not> pkted < cap" using True by (simp add: not_less)
    then show ?thesis using Cons.IH [OF pre, of "pkted + wire" "left - wire" cum] True by (auto simp: p)
  next
    case False
    have sum: "unat on + unat wire + (\<Sum>p \<leftarrow> ps. unat (snd p)) < 2 ^ 32" using Cons.prems(1) by (simp add: p)
    then have un: "unat (on + wire) = unat on + unat wire" by (simp add: unat_word_ariths)
    have pos: "0 < unat wire" "\<forall>p \<in> set ps. 0 < snd p" using Cons.prems(2) by (simp_all add: p word_less_nat_alt)
    have pre: "unat (on + wire) + (\<Sum>p \<leftarrow> ps. unat (snd p)) < 2 ^ 32" using sum un by simp
    obtain on' where on': "cap_packets cap tail prob ps (pkted + wire) (left - wire) (on + wire) (cum + of_nat (unat wire) * prob) =
        (on', cum + of_nat (unat wire) * prob + (of_nat (unat on') - of_nat (unat (on + wire))) * prob)" "unat (on + wire) \<le> unat on'"
      using Cons.IH [OF pre pos(2), of "pkted + wire" "left - wire" "cum + of_nat (unat wire) * prob"] by blast
    have "cum + of_nat (unat wire) * prob + (of_nat (unat on') - of_nat (unat (on + wire))) * prob =
        cum + (of_nat (unat on') - of_nat (unat on)) * prob"
      unfolding un of_nat_add by (simp only: algebra_simps)
    then have "cap_packets cap tail prob (p # ps) pkted left on cum = (on', cum + (of_nat (unat on') - of_nat (unat on)) * prob)"
      using on'(1) False unfolding p cap_packets.simps if_not_P [OF False] by simp
    moreover have "unat on < unat on'" using on'(2) pos(1) un by simp
    ultimately show ?thesis by simp
  qed
qed simp

lemma scale_ge: "0 \<le> prob \<Longrightarrow> 0 < n \<Longrightarrow> prob \<le> of_nat n * (prob :: rat)"
  using mult_right_mono [of 1 "of_nat n" prob] by simp

lemma cbf_sizes_ok:
  assumes "req_ok c" "0 < cap" "\<forall>p \<in> set v. fst p \<noteq> 0 \<and> unat (fst p) \<le> 4000000000" "sorted (prev # map snd v)"
  shows "\<exists>s' new. cbf_sizes c cap tail v prev s = Inr s' \<and> cs_last s' = cs_last s @ new \<and>
    map fst new = map fst v \<and> cs_rttBytes s' = cs_rttBytes s + (\<Sum>p \<leftarrow> new. snd p) \<and>
    last (prev # map snd v) - prev \<le> (\<Sum>p \<leftarrow> new. snd p) \<and> cs_grants s \<le> cs_grants s'"
  using assms(3,4)
proof (induction v arbitrary: prev s)
  case (Cons e v)
  obtain sz p where e: "e = (sz, p)" by (cases e)
  have sz: "sz \<noteq> 0" "unat sz \<le> 4000000000" and p: "0 \<le> p - prev" and srt: "sorted (p # map snd v)"
    and rest: "\<forall>p \<in> set v. fst p \<noteq> 0 \<and> unat (fst p) \<le> 4000000000"
    using Cons.prems by (simp_all add: e)
  obtain pz where pz: "we_packetize c sz sz = Inr pz" "pz_packets pz \<noteq> []" "\<forall>p \<in> set (pz_packets pz). 0 < fst p \<and> 0 < snd p"
    using we_packets_ok [OF assms(1) sz(1)] by blast
  have wire: "unat (0 :: u32) + (\<Sum>p \<leftarrow> pz_packets pz. unat (snd p)) < 2 ^ 32" "\<forall>p \<in> set (pz_packets pz). 0 < snd p"
    using we_packets_wire [OF assms(1) sz pz(1)] pz(3) by simp_all
  obtain onWire where on: "cap_packets cap tail (p - prev) (pz_packets pz) 0 (pz_onWire pz) 0 (cs_rttBytes s) =
      (onWire, cs_rttBytes s + of_nat (unat onWire) * (p - prev))" "0 < unat onWire"
    using cap_packets_ok [OF wire, of cap tail "p - prev" 0 "pz_onWire pz" "cs_rttBytes s"] pz(2) assms(2) by auto
  obtain w g where wg: "cbf_wire c sz = (w, g)" by (cases "cbf_wire c sz")
  define s1 where "s1 = s\<lparr>cs_grants := cs_grants s + of_nat (unat g) * (p - prev),
     cs_bytes := cs_bytes s + of_nat (unat w) * (p - prev), cs_cbf := cs_cbf s @ [(sz, of_nat (unat w) * (p - prev))],
     cs_rttBytes := cs_rttBytes s + of_nat (unat onWire) * (p - prev), cs_last := cs_last s @ [(sz, of_nat (unat onWire) * (p - prev))]\<rparr>"
  obtain s' new where s': "cbf_sizes c cap tail v p s1 = Inr s'" "cs_last s' = cs_last s1 @ new" "map fst new = map fst v"
      "cs_rttBytes s' = cs_rttBytes s1 + (\<Sum>p \<leftarrow> new. snd p)" "last (p # map snd v) - p \<le> (\<Sum>p \<leftarrow> new. snd p)"
      "cs_grants s1 \<le> cs_grants s'"
    using Cons.IH [OF rest srt, of s1] by blast
  have run: "cbf_sizes c cap tail (e # v) prev s = Inr s'"
    using s'(1) unfolding s1_def e cbf_sizes.simps Let_def wg pz(1) rbind_Inr prod.case on(1) by blast
  have "0 \<le> of_nat (unat g) * (p - prev)" using mult_nonneg_nonneg [OF of_nat_0_le_iff p] .
  then have g: "cs_grants s \<le> cs_grants s'" using s'(6) by (simp add: s1_def)
  have ge: "p - prev \<le> of_nat (unat onWire) * (p - prev)" by (rule scale_ge [OF p on(2)])
  show ?case
  proof (intro exI conjI)
    show "cs_last s' = cs_last s @ (sz, of_nat (unat onWire) * (p - prev)) # new" using s'(2) by (simp add: s1_def)
    show "last (prev # map snd (e # v)) - prev \<le> (\<Sum>p \<leftarrow> (sz, of_nat (unat onWire) * (p - prev)) # new. snd p)"
      using s'(5) ge by (simp add: e)
  qed (use run g s' in \<open>simp_all add: e s1_def\<close>)
qed simp

lemma rolling_keys [simp]: "map fst (rolling whole acc l) = map fst l"
  by (induction whole acc l rule: rolling.induct) simp_all

lemma rolling_last: "l \<noteq> [] \<Longrightarrow> snd (last (rolling whole acc l)) = (acc + (\<Sum>p \<leftarrow> l. snd p)) / whole"
proof (induction whole acc l rule: rolling.induct)
  case (2 whole acc s v l)
  then show ?case by (cases l) (auto simp: add.assoc)
qed simp

lemma capped_bytes_ok:
  assumes "req_ok c" "0 < cap" "\<forall>p \<in> set (cdfFromFile w). fst p \<noteq> 0 \<and> unat (fst p) \<le> 4000000000"
    "sorted (0 # map snd (cdfFromFile w))" "sorted_wrt (<) (0 # map fst (cdfFromFile w))"
    "cdfFromFile w \<noteq> []" "0 < snd (last (cdfFromFile w))"
  shows "\<exists>u v. getCbfFromCdf c d cap tail w = Inr (w\<lparr>cbfFromFile := u, cbfLastCapBytesFromFile := v\<rparr>) \<and>
    sorted_wrt (<) (map fst v) \<and> v \<noteq> [] \<and> snd (last v) = 1"
proof -
  define l0 :: "(u32 \<times> rat) list" where "l0 = (if accountForGrantTraffic c then [(0, 0)] else [])"
  let ?s0 = "\<lparr>cs_bytes = 0, cs_rttBytes = 0, cs_grants = 0, cs_cbf = l0, cs_last = l0\<rparr>"
  obtain s' new where s': "cbf_sizes c cap tail (cdfFromFile w) 0 ?s0 = Inr s'" "cs_last s' = l0 @ new"
      "map fst new = map fst (cdfFromFile w)" "cs_rttBytes s' = (\<Sum>p \<leftarrow> new. snd p)"
      "last (0 # map snd (cdfFromFile w)) \<le> (\<Sum>p \<leftarrow> new. snd p)" "0 \<le> cs_grants s'"
    using cbf_sizes_ok [OF assms(1-4), of tail ?s0] by auto
  define s where "s = (if accountForGrantTraffic c
     then s'\<lparr>cs_bytes := cs_bytes s' + cs_grants s', cs_rttBytes := cs_rttBytes s' + cs_grants s',
            cs_cbf := set_first (cs_grants s') (cs_cbf s'), cs_last := set_first (cs_grants s') (cs_last s')\<rparr> else s')"
  have pos: "0 < (\<Sum>p \<leftarrow> new. snd p)" using s'(5) assms(6,7) by (simp add: last_map)
  have ne: "new \<noteq> []" using s'(3) assms(6) by auto
  have l: "cs_last s = (if accountForGrantTraffic c then (0, cs_grants s') # new else new)"
    by (simp add: s_def s'(2) l0_def set_first_def)
  have whole: "cs_rttBytes s = (\<Sum>p \<leftarrow> cs_last s. snd p)" "0 < cs_rttBytes s"
    using pos s'(6) by (simp_all add: l0_def s_def s'(2,4) set_first_def add.commute)
  have run: "getCbfFromCdf c d cap tail w = Inr (w\<lparr>cbfFromFile := rolling (cs_bytes s) 0 (cs_cbf s),
     cbfLastCapBytesFromFile := rolling (cs_rttBytes s) 0 (cs_last s)\<rparr>)"
    unfolding getCbfFromCdf_def Let_def l0_def [symmetric] s'(1) rbind_Inr unfolding s_def [symmetric] by (rule HOL.refl)
  have cn: "cs_last s \<noteq> []" using ne by (simp add: l)
  have "snd (last (rolling (cs_rttBytes s) 0 (cs_last s))) = 1"
    using rolling_last [OF cn, of "cs_rttBytes s" 0] whole by simp
  moreover have "map fst (cs_last s) = (if accountForGrantTraffic c then 0 # map fst (cdfFromFile w) else map fst (cdfFromFile w))"
    by (simp add: l s'(3))
  then have "sorted_wrt (<) (map fst (cs_last s))" using assms(5) by simp
  moreover have "rolling (cs_rttBytes s) 0 (cs_last s) \<noteq> []" using cn by (cases "cs_last s") auto
  ultimately show ?thesis using run unfolding rolling_keys [symmetric, of "cs_last s" "cs_rttBytes s" 0] by blast
qed

section \<open>Properties\<close>

text \<open>
  C9: From a distribution of message sizes the estimator and the resolver together arrive at the
  cut-offs of the unscheduled priorities: no assertion fails, the loop that picks the cut-offs ends
  within as many rounds as there are levels, and leaves increasing cut-offs, closed by the largest
  size and no more of them than levels.
\<close>

theorem workload_sets_cutoffs:
  assumes "strPrioModeToInt (unschedPrioResolutionMode c) \<in>
      {STATIC_CDF_UNIFORM, STATIC_CBF_UNIFORM, STATIC_CBF_GRADUATED}"
    and "0 < unschedPrioUsageWeight c" "0 < prioResolverPrioLevels c" "0 < cbfCapMsgSize c"
    and "0 < defaultReqBytes c" "defaultReqBytes c \<le> 1442"
      "unat (defaultReqBytes c) + unat (defaultUnschedBytes c) < 2 ^ 32"
    and "cdfFromFile w \<noteq> []" "sorted_wrt (<) (0 # map fst (cdfFromFile w))"
      "\<forall>p \<in> set (cdfFromFile w). fst p \<le> 4000000000"
      "sorted (0 # map snd (cdfFromFile w))" "snd (last (cdfFromFile w)) = 1"
  shows "\<exists>w' r. resolver_of_workload (unat (prioResolverPrioLevels c) - 1) c w = Inr (w', r) \<and>
    cdfFromFile w' = cdfFromFile w \<and> cutoffs_ok (prioCutOffs r) \<and>
    length (prioCutOffs r) \<le> unat (prioResolverPrioLevels c)"
proof -
  let ?v = "cdfFromFile w" and ?m = "strPrioModeToInt (unschedPrioResolutionMode c)"
  let ?cap = "cbfCapMsgSize c" and ?tail = "boostTailBytesPrio c"
  have c: "req_ok c" using assms(5-7) by (simp add: req_ok_def)
  have sizes: "\<forall>p \<in> set ?v. fst p \<noteq> 0 \<and> unat (fst p) \<le> 4000000000" "\<forall>p \<in> set ?v. fst p \<noteq> 0"
    using assms(9,10) by (auto simp: word_le_nat_alt)
  obtain u v where v: "getCbfFromCdf c ?v ?cap ?tail w = Inr (w\<lparr>cbfFromFile := u, cbfLastCapBytesFromFile := v\<rparr>)"
      "sorted_wrt (<) (map fst v)" "v \<noteq> []" "snd (last v) = 1"
    using capped_bytes_ok [OF c assms(4) sizes(1) assms(11,9,8)] assms(12) by fastforce
  let ?w = "w\<lparr>cbfFromFile := u, cbfLastCapBytesFromFile := v\<rparr>"
  obtain rcdf rcbf where r: "getRemainSizeCdfCbf c ?v ?cap ?tail ?w = Inr (?w\<lparr>remainSizeCdf := rcdf, workload_estimator.remainSizeCbf := rcbf\<rparr>)"
      "sorted_wrt (<) (0 # map fst rcdf)" "map fst rcbf = (if accountForGrantTraffic c then 0 # map fst rcdf else map fst rcdf)"
      "rcdf \<noteq> []" "snd (last rcbf) = 1"
    using remain_sizes_ok [OF c assms(4) sizes(2) assms(11,8)] assms(12) by fastforce
  let ?vec = "cdf_vectors.make ?v v rcbf" and ?r0 = "\<lparr>prioCutOffs = [], prioResMode = ?m\<rparr>"
  have "cdf_ok (cdf_vectors.cdf ?vec)" "cdf_ok (cdf_vectors.cbfLastCapBytes ?vec)"
    using assms(8,9,12) v by (simp_all add: cdf_vectors.defs cdf_ok_def isEqual_def)
  moreover have "cdf_ok (cdf_vectors.remainSizeCbf ?vec)"
    using r(2-5) by (auto simp: cdf_vectors.defs cdf_ok_def isEqual_def split: if_splits)
  moreover have "prioResMode ?r0 \<in> {STATIC_CDF_UNIFORM, STATIC_CBF_UNIFORM, STATIC_CBF_GRADUATED}" using assms(1) by simp
  ultimately obtain r' where "setPrioCutOffs (unat (prioResolverPrioLevels c) - 1) c ?vec ?r0 = Inr r'"
      "cutoffs_ok (prioCutOffs r')" "length (prioCutOffs r') \<le> unat (prioResolverPrioLevels c)"
    using setPrioCutOffs_cdf [OF _ _ _ _ assms(2,3) HOL.refl] by blast
  then show ?thesis by (simp add: resolver_of_workload_def v(1) r(1) PriorityResolver_def)
qed

lemma workload_sets_cutoffs_witness:
  "\<exists>w' r. resolver_of_workload 3 (ini_params\<lparr>prioResolverPrioLevels := 4, unschedPrioUsageWeight := 1 / 2\<rparr>)
      \<lparr>cdfFromFile = [(500, 1/2), (3000, 1)], cbfFromFile = [], remainSizeCdf = [], remainSizeCbf = [],
       cbfLastCapBytesFromFile = [], avgSizeFromFile = 1750, rxCdfComputed = [], sxCdfComputed = []\<rparr> = Inr (w', r) \<and>
    cutoffs_ok (prioCutOffs r) \<and> length (prioCutOffs r) \<le> 4"
  using workload_sets_cutoffs [of "ini_params\<lparr>prioResolverPrioLevels := 4, unschedPrioUsageWeight := 1 / 2\<rparr>"
      "\<lparr>cdfFromFile = [(500, 1/2), (3000, 1)], cbfFromFile = [], remainSizeCdf = [], remainSizeCbf = [],
       cbfLastCapBytesFromFile = [], avgSizeFromFile = 1750, rxCdfComputed = [], sxCdfComputed = []\<rparr>"]
  by (auto simp: ini_params_def strPrioModeToInt_def)

end
