(* ===== verification/Mimic.thy ===== *)
theory Mimic
  imports IpDatagram UnschedRate
begin

text \<open>
  \<open>MimicDCN\<close>: the module that stands for a whole cluster.  It predicts for every packet that
  enters the cluster whether it is dropped and how long it takes, and sends it on by the gate it
  would leave by.  The learned models are arguments: what a model answers is a function of all the
  inputs it was given so far.  Both builds are modelled, the one with the CUDA models and the one
  that calls Python.  Doubles are rationals; the counters of a bin are integers.
\<close>

section \<open>Packets and frames\<close>

record presched =
  ps_dst_server :: int
  ps_dst_rack :: int
  ps_src_server :: int
  ps_src_rack :: int
  ps_agg :: int
  ps_agg_intf :: int
  ps_ecn :: bool
  ps_priority :: int
  ps_length :: int

record arp_packet =
  arp_opcode :: int
  arp_srcMAC :: u64
  arp_destMAC :: u64
  arp_srcIP :: u32
  arp_destIP :: u32

datatype frame_content = FrameIPv4 datagram | FrameARP arp_packet | FrameOther | FrameEmpty

record ether_frame =
  ef_src :: u64
  ef_dest :: u64
  ef_kind :: int
  ef_content :: frame_content

section \<open>Environment\<close>

text \<open>
  \<open>env_SimTime\<close> is the conversion of a double to simulation time, \<open>env_busy\<close> the time until
  which the channel at a gate is busy, \<open>env_getterRefs\<close> whether the getters of the message
  compiler return references to the fields (they do for fields of a class type), and the last
  two are what C++ leaves undefined: the conversion of an infinite double to \<open>int\<close> and the
  result of \<open>IPv4DatagramWrapper::getLength\<close>, which has no \<open>return\<close>.
\<close>

record mimic_env =
  env_cuda :: bool
  env_SimTime :: "rat \<Rightarrow> simtime"
  env_busy :: "bool \<Rightarrow> int \<Rightarrow> simtime \<Rightarrow> simtime"
  env_getterRefs :: bool
  env_badCast :: int
  env_noReturn :: int

datatype packet_wrapper = IPv4DatagramWrapper datagram | PreschedWrapper presched

fun pw_getEcn :: "packet_wrapper \<Rightarrow> bool" where
  "pw_getEcn (IPv4DatagramWrapper d) = (drop_bit 6 (dg_tos d) AND 3 = 3)"
| "pw_getEcn (PreschedWrapper p) = ps_ecn p"

fun pw_setEcn :: "packet_wrapper \<Rightarrow> packet_wrapper" where
  "pw_setEcn (IPv4DatagramWrapper d) =
     (if drop_bit 6 (dg_tos d) AND 3 \<noteq> 0
      then IPv4DatagramWrapper (d\<lparr>dg_tos := (dg_tos d AND 0x3f) OR push_bit 6 3\<rparr>)
      else IPv4DatagramWrapper d)"
| "pw_setEcn (PreschedWrapper p) = PreschedWrapper p"

fun pw_getPrio :: "packet_wrapper \<Rightarrow> int res" where
  "pw_getPrio (IPv4DatagramWrapper d) =
     (case dg_payload d of
        Some (UDPPacket _ _ inner, _) \<Rightarrow>
          (case searchEncapHomaPkt (OtherPacket (Some (OtherPacket inner))) of
             Some h \<Rightarrow> Inr (sint (pkt_priority h)) | None \<Rightarrow> Inl RuntimeError)
      | _ \<Rightarrow> Inl RuntimeError)"
| "pw_getPrio (PreschedWrapper p) = Inr (ps_priority p)"

fun pw_getLength :: "mimic_env \<Rightarrow> packet_wrapper \<Rightarrow> int" where
  "pw_getLength env (IPv4DatagramWrapper d) = env_noReturn env"
| "pw_getLength env (PreschedWrapper p) = ps_length p"

section \<open>Models and their features\<close>

datatype mimic_variant = TCP | DCTCP | Homa

text \<open>A loaded model: what it answers to the inputs so far, and the steps of its features.\<close>

record learned_model =
  mm_getValue :: "rat list list \<Rightarrow> bool \<times> rat \<times> bool"
  mm_pyValue :: "rat list list \<Rightarrow> (rat \<times> rat \<times> rat) option"
  DIS_META_LAST_MIN :: rat
  DIS_META_LAST_STEP :: rat
  DIS_META_EWMA_MIN :: rat
  DIS_META_EWMA_STEP :: rat
  DIS_META_LATENCY_MIN :: rat
  DIS_META_LATENCY_STEP :: rat

abbreviation (input) NO_CONGES :: int where "NO_CONGES \<equiv> 0"
abbreviation (input) INCR_CONGES :: int where "INCR_CONGES \<equiv> 1"
abbreviation (input) MAX_CONGES :: int where "MAX_CONGES \<equiv> 2"
abbreviation (input) DECR_CONGES :: int where "DECR_CONGES \<equiv> 3"
abbreviation (input) CONGES_LEVELS :: int where "CONGES_LEVELS \<equiv> 4"

abbreviation (input) LATENCY_MEDIAN :: rat where "LATENCY_MEDIAN \<equiv> 103 / 100000"
abbreviation (input) LATENCY_VARIANCE :: rat where "LATENCY_VARIANCE \<equiv> 2 / 10000"
abbreviation (input) LATENCY_DROP_THRESHOLD :: rat where "LATENCY_DROP_THRESHOLD \<equiv> 5 / 10000"
abbreviation (input) EWMA_WEIGHT :: rat where "EWMA_WEIGHT \<equiv> 3 / 10"

record ml_meta =
  ml_variant :: mimic_variant
  lastpacket :: rat
  ewma :: rat
  conges_state :: int
  cur_bin_start_time :: simtime
  bin_latency_sum :: rat
  bin_num_packets :: int
  bin_num_drops :: int
  num_features :: nat
  FT_INDEX_SERVER :: int
  FT_INDEX_AGG :: int
  FT_INDEX_AGGINTF :: int
  FT_INDEX_TORS :: int
  FT_INDEX_LAST :: int
  prev_drop :: rat
  prev_latency :: rat
  prev_ECN :: rat
  ml_input :: "rat list"
  ml_model :: learned_model
  ml_fed :: "rat list list"

abbreviation (input) FT_INDEX_CONGES :: int where "FT_INDEX_CONGES \<equiv> 0"

definition variant_features :: "mimic_variant \<Rightarrow> nat" where
  "variant_features v = (case v of TCP \<Rightarrow> 7 | DCTCP \<Rightarrow> 8 | Homa \<Rightarrow> 7)"

text \<open>The entries behind \<open>FT_INDEX_LAST\<close> that the constructor of the variant makes room for.\<close>

definition variant_last :: "mimic_variant \<Rightarrow> nat" where
  "variant_last v = (case v of TCP \<Rightarrow> 4 | DCTCP \<Rightarrow> 6 | Homa \<Rightarrow> 4)"

text \<open>
  The constructors of the variants with that of \<open>MLMetadata\<close>.  The Python build allocates the
  input uninitialised; every entry is written before it is read.
\<close>

definition MLMetadata ::
    "mimic_env \<Rightarrow> mimic_variant \<Rightarrow> learned_model \<Rightarrow> int \<Rightarrow> int \<Rightarrow> int \<Rightarrow> int \<Rightarrow> simtime \<Rightarrow> ml_meta" where
  "MLMetadata env v model servers_per_tor num_aggs num_agg_intfs num_tors currTime =
     (let server = FT_INDEX_CONGES + CONGES_LEVELS;
          agg = server + servers_per_tor;
          aggintf = agg + num_aggs;
          tors = aggintf + num_agg_intfs;
          end_tors = tors + num_tors
      in \<lparr>ml_variant = v, lastpacket = in_seconds currTime, ewma = 0, conges_state = NO_CONGES,
          cur_bin_start_time = 0, bin_latency_sum = 0, bin_num_packets = 0, bin_num_drops = 0,
          num_features = variant_features v, FT_INDEX_SERVER = server, FT_INDEX_AGG = agg,
          FT_INDEX_AGGINTF = aggintf, FT_INDEX_TORS = tors, FT_INDEX_LAST = end_tors,
          prev_drop = 0, prev_latency = 1 / 1000, prev_ECN = 0,
          ml_input = replicate (if env_cuda env then nat end_tors + variant_last v else variant_features v) 0,
          ml_model = model, ml_fed = []\<rparr>)"

definition bin_congestion :: "ml_meta \<Rightarrow> int" where
  "bin_congestion m =
     (if bin_num_drops m > bin_num_packets m sdiv 3 then MAX_CONGES
      else
        let bin_latency_mean = bin_latency_sum m / of_int (bin_num_packets m)
        in if bin_latency_mean > LATENCY_MEDIAN + LATENCY_VARIANCE then
             if conges_state m = NO_CONGES \<or> conges_state m = INCR_CONGES then INCR_CONGES
             else if conges_state m = MAX_CONGES \<or> conges_state m = DECR_CONGES then DECR_CONGES
             else conges_state m
           else NO_CONGES)"

definition updateCongesState :: "mimic_env \<Rightarrow> simtime \<Rightarrow> rat \<Rightarrow> ml_meta \<Rightarrow> ml_meta" where
  "updateCongesState env cur_time latency m =
     (let m = m\<lparr>bin_num_packets := bin_num_packets m + 1,
                bin_latency_sum := bin_latency_sum m + latency,
                bin_num_drops := (if latency < LATENCY_DROP_THRESHOLD then bin_num_drops m + 1
                                  else bin_num_drops m)\<rparr>
      in if cur_time - cur_bin_start_time m > env_SimTime env (6 / 10000) then
           m\<lparr>conges_state := bin_congestion m, bin_num_packets := 0, cur_bin_start_time := cur_time,
             bin_latency_sum := 0, bin_num_drops := 0\<rparr>
         else m)"

text \<open>A write through a pointer into the input; outside of the allocated entries it is a fault.\<close>

definition put_input :: "int \<Rightarrow> rat \<Rightarrow> ml_meta \<Rightarrow> ml_meta res" where
  "put_input i v m =
     (if 0 \<le> i \<and> i < int (length (ml_input m)) then Inr (m\<lparr>ml_input := (ml_input m)[nat i := v]\<rparr>)
      else Inl OutOfRange)"

fun put_inputs :: "(int \<times> rat) list \<Rightarrow> ml_meta \<Rightarrow> ml_meta res" where
  "put_inputs [] m = Inr m"
| "put_inputs ((i, v) # ivs) m = rbind (put_input i v m) (put_inputs ivs)"

text \<open>\<open>(int)x\<close> cuts towards zero.\<close>

definition to_int :: "rat \<Rightarrow> int" where
  "to_int x = (if 0 \<le> x then floor x else ceiling x)"

definition discretize :: "mimic_env \<Rightarrow> rat \<Rightarrow> rat \<Rightarrow> rat \<Rightarrow> rat" where
  "discretize env x lo step = of_int (if step = 0 then env_badCast env else to_int ((x - lo) / step))"

definition next_ewma :: "rat \<Rightarrow> ml_meta \<Rightarrow> rat" where
  "next_ewma gap m = (1 - EWMA_WEIGHT) * ewma m + EWMA_WEIGHT * gap"

text \<open>The features behind \<open>FT_INDEX_LAST\<close> and where they are written, for each variant.\<close>

definition last_features :: "mimic_env \<Rightarrow> rat \<Rightarrow> packet_wrapper \<Rightarrow> ml_meta \<Rightarrow> (int \<times> rat) list res" where
  "last_features env gap pw m =
     (let L = FT_INDEX_LAST m;
          dis_last = discretize env gap (DIS_META_LAST_MIN (ml_model m)) (DIS_META_LAST_STEP (ml_model m));
          dis_ewma = discretize env (next_ewma gap m) (DIS_META_EWMA_MIN (ml_model m)) (DIS_META_EWMA_STEP (ml_model m));
          dis_latency = discretize env (prev_latency m) (DIS_META_LATENCY_MIN (ml_model m))
            (DIS_META_LATENCY_STEP (ml_model m))
      in case ml_variant m of
           TCP \<Rightarrow> Inr [(L, dis_last), (L + 1, dis_ewma), (L + 2, prev_drop m), (L + 3, dis_latency)]
         | DCTCP \<Rightarrow> Inr [(L, dis_last), (L + 1, dis_ewma), (L + 2, if pw_getEcn pw then 1 else 0),
                       (L + 3, prev_drop m), (L + 4, dis_latency), (L + 5, prev_ECN m)]
         | Homa \<Rightarrow> rbind (pw_getPrio pw) (\<lambda>prio.
             Inr [(L, of_int prio), (L + 1, of_int (pw_getLength env pw)), (L + 2, dis_last),
               (L + 3, dis_ewma), (L + 4, prev_drop m), (L + 5, dis_latency)]))"

definition setLastFeatures :: "mimic_env \<Rightarrow> rat \<Rightarrow> packet_wrapper \<Rightarrow> ml_meta \<Rightarrow> ml_meta res" where
  "setLastFeatures env current_time pw m =
     (let gap = current_time - lastpacket m
      in rbind (last_features env gap pw m) (\<lambda>ivs.
         put_inputs ivs (m\<lparr>lastpacket := current_time, ewma := next_ewma gap m\<rparr>)))"

section \<open>The module\<close>

datatype mimic_self = Prescheduled bool presched | SelfFrame ether_frame

record mimic =
  mi_now :: simtime
  mi_ing :: ml_meta
  mi_egr :: ml_meta
  mi_variant :: mimic_variant
  tor_seeds :: "int list"
  agg_seeds :: "int list"
  servers_per_tor :: int
  mi_num_aggs :: int
  num_agg_intfs :: int
  mi_num_tors :: int
  max_latency :: rat
  min_latency :: rat
  num_intgates :: int
  num_extgates :: int
  mi_scheduled :: "(simtime \<times> mimic_self) list"
  mi_outs :: "(bool \<times> int \<times> simtime \<times> ether_frame) list"

text \<open>Kinds and interfaces are \<open>short\<close>.\<close>

definition to_short :: "int \<Rightarrow> int" where
  "to_short x = sint (word_of_int x :: 16 word)"

abbreviation (input) PRESCHEDULED_ING :: int where "PRESCHEDULED_ING \<equiv> 32767"
abbreviation (input) PRESCHEDULED_EGR :: int where "PRESCHEDULED_EGR \<equiv> 32766"

definition getDByte :: "u32 \<Rightarrow> nat \<Rightarrow> int" where
  "getDByte a i = uint (drop_bit ((3 - i) * 8) a AND 0xFF)"

definition getHostNumInRack :: "u32 \<Rightarrow> int" where
  "getHostNumInRack a = getDByte a 3 div 4"

definition clamp_latency :: "mimic \<Rightarrow> rat \<Rightarrow> rat" where
  "clamp_latency t latency =
     (if latency < min_latency t then min_latency t
      else if latency > max_latency t then max_latency t else latency)"

text \<open>
  \<open>predict\<close> of the CUDA build: the five features of the one-hot part are set, the model is asked,
  and the five are cleared again.  Its answer is a number of steps.
\<close>

definition onehot :: "int \<Rightarrow> int \<Rightarrow> int \<Rightarrow> int \<Rightarrow> ml_meta \<Rightarrow> int list" where
  "onehot server aggregation intf tor m =
     [FT_INDEX_CONGES + conges_state m, FT_INDEX_SERVER m + server, FT_INDEX_AGG m + aggregation,
      FT_INDEX_AGGINTF m + intf, FT_INDEX_TORS m + tor]"

definition predict_cuda ::
    "mimic_env \<Rightarrow> packet_wrapper \<Rightarrow> int \<Rightarrow> int \<Rightarrow> int \<Rightarrow> int \<Rightarrow> int \<Rightarrow> int \<Rightarrow> ml_meta \<Rightarrow> bool \<Rightarrow> mimic \<Rightarrow>
     (rat \<times> packet_wrapper \<times> ml_meta) res" where
  "predict_cuda env pkt destServ destToR srcServ srcToR aggregation intf m isIncoming t =
     (let current_time = in_seconds (mi_now t);
          ptrs = (if isIncoming then onehot destServ aggregation intf destToR m
                  else onehot srcServ aggregation intf srcToR m)
      in rbind (put_inputs (map (\<lambda>i. (i, 1)) ptrs) m) (\<lambda>m.
         rbind (setLastFeatures env current_time pkt m) (\<lambda>m.
         if ml_variant m \<noteq> mi_variant t then Inl NullPointer
         else
           let m = m\<lparr>ml_fed := ml_fed m @ [ml_input m]\<rparr>;
               (drop, steps, ecn) = mm_getValue (ml_model m) (ml_fed m);
               latency = DIS_META_LATENCY_MIN (ml_model m) +
                 of_int (to_int steps) * DIS_META_LATENCY_STEP (ml_model m);
               (m, pkt) = (if mi_variant t = DCTCP
                           then (m\<lparr>prev_ECN := (if ecn then 1 else 0)\<rparr>, if ecn then pw_setEcn pkt else pkt)
                           else (m, pkt))
           in rbind (put_inputs (map (\<lambda>i. (i, 0)) ptrs) m) (\<lambda>m.
              if drop then Inr (-1, pkt, m\<lparr>prev_drop := 1, prev_latency := 0\<rparr>)
              else Inr (clamp_latency t latency, pkt,
                     m\<lparr>prev_drop := 0, prev_latency := clamp_latency t latency\<rparr>)))))"

text \<open>
  \<open>predict\<close> of the Python build.  The weighted average takes \<open>input_[5]\<close>, which is the time since
  the last packet except for Homa, where it is the priority.
\<close>

definition py_features :: "mimic_env \<Rightarrow> packet_wrapper \<Rightarrow> rat \<Rightarrow> mimic \<Rightarrow> ml_meta \<Rightarrow> ml_meta res" where
  "py_features env pkt current_time t m =
     rbind (if mi_variant t = Homa
            then rbind (pw_getPrio pkt) (\<lambda>prio.
                 rbind (put_inputs [(5, of_int prio), (6, of_int (pw_getLength env pkt))] m) (\<lambda>m. Inr (7, m)))
            else Inr (5, m)) (\<lambda>(current_index, m).
     rbind (put_input current_index (current_time - lastpacket m) m) (\<lambda>m.
     let m = m\<lparr>lastpacket := current_time, ewma := next_ewma (ml_input m ! 5) m\<rparr>
     in rbind (put_input (current_index + 1) (ewma m) m) (\<lambda>m.
        if mi_variant t = DCTCP then put_input (current_index + 2) (if pw_getEcn pkt then 1 else 0) m
        else Inr m)))"

definition predict_python ::
    "mimic_env \<Rightarrow> packet_wrapper \<Rightarrow> int \<Rightarrow> int \<Rightarrow> int \<Rightarrow> int \<Rightarrow> int \<Rightarrow> int \<Rightarrow> ml_meta \<Rightarrow> bool \<Rightarrow> mimic \<Rightarrow>
     (rat \<times> packet_wrapper \<times> ml_meta) res" where
  "predict_python env pkt destServ destToR srcServ srcToR aggregation intf m isIncoming t =
     rbind (put_inputs
         [(0, of_int (conges_state m)), (1, of_int (if isIncoming then destServ else srcServ)),
          (2, of_int aggregation), (3, of_int intf), (4, of_int (if isIncoming then destToR else srcToR))] m) (\<lambda>m.
     rbind (py_features env pkt (in_seconds (mi_now t)) t m) (\<lambda>m.
     let m = m\<lparr>ml_fed := ml_fed m @ [take (num_features m) (ml_input m)]\<rparr>
     in case mm_pyValue (ml_model m) (ml_fed m) of
          None \<Rightarrow> Inl RuntimeError
        | Some (drop_predict, latency_predict, ecn_predict) \<Rightarrow>
            if drop_predict > 1 / 2 then Inr (-1, pkt, m)
            else Inr (clamp_latency t latency_predict,
                   if mi_variant t = DCTCP \<and> ecn_predict \<ge> 1 / 2 then pw_setEcn pkt else pkt, m)))"

definition predict ::
    "mimic_env \<Rightarrow> packet_wrapper \<Rightarrow> int \<Rightarrow> int \<Rightarrow> int \<Rightarrow> int \<Rightarrow> int \<Rightarrow> int \<Rightarrow> ml_meta \<Rightarrow> bool \<Rightarrow> mimic \<Rightarrow>
     (rat \<times> packet_wrapper \<times> ml_meta) res" where
  "predict env pkt destServ destToR srcServ srcToR aggregation intf m isIncoming t =
     (if env_cuda env then predict_cuda env pkt destServ destToR srcServ srcToR aggregation intf m isIncoming t
      else predict_python env pkt destServ destToR srcServ srcToR aggregation intf m isIncoming t)"

definition predict_packet_helper ::
    "mimic_env \<Rightarrow> datagram \<Rightarrow> int \<Rightarrow> int \<Rightarrow> ml_meta \<Rightarrow> bool \<Rightarrow> mimic \<Rightarrow> (rat \<times> packet_wrapper \<times> ml_meta) res" where
  "predict_packet_helper env d aggregation intf m isIncoming t =
     predict env (IPv4DatagramWrapper d) (getHostNumInRack (dg_dest d)) (getDByte (dg_dest d) 2)
       (getHostNumInRack (dg_src d)) (getDByte (dg_src d) 2) aggregation intf m isIncoming t"

definition mi_schedule :: "simtime \<Rightarrow> mimic_self \<Rightarrow> mimic \<Rightarrow> mimic res" where
  "mi_schedule time msg t =
     (if time < mi_now t then Inl RuntimeError
      else Inr (t\<lparr>mi_scheduled := mi_scheduled t @ [(time, msg)]\<rparr>))"

text \<open>The outcome of a prediction counts as a latency of zero when the packet is dropped.\<close>

definition counted_latency :: "rat \<Rightarrow> rat" where
  "counted_latency prediction = (if prediction < 0 then 0 else prediction)"

section \<open>The simulated uplinks\<close>

text \<open>Reducing a hash modulo zero stops the program.\<close>

definition ecmp :: "u8 list \<Rightarrow> int \<Rightarrow> int \<Rightarrow> int res" where
  "ecmp flowBin len seed =
     (if (word_of_int len :: u32) = 0 then Inl RuntimeError
      else Inr (sint (positiveMod (murmur3_32 flowBin (word_of_int seed)) (word_of_int len))))"

fun convertToFlowBin :: "flow \<Rightarrow> u8 list" where
  "convertToFlowBin (ByPorts srcIP srcPort destIP dstPort) =
     le_bytes 4 srcIP @ le_bytes 2 srcPort @ le_bytes 4 destIP @ le_bytes 2 dstPort"
| "convertToFlowBin (BySrcDest srcIP destIP) = le_bytes 4 srcIP @ le_bytes 4 destIP"
| "convertToFlowBin _ = []"

definition ecmp_helper :: "int \<Rightarrow> int \<Rightarrow> flow \<Rightarrow> int res" where
  "ecmp_helper len seed flow = ecmp (convertToFlowBin flow) len seed"

definition seed_at :: "int list \<Rightarrow> int \<Rightarrow> int res" where
  "seed_at seeds i = (if 0 \<le> i \<and> i < int (length seeds) then Inr (seeds ! nat i) else Inl OutOfRange)"

text \<open>What the flow of an outgoing datagram is told apart by: never the message id of Homa.\<close>

definition egress_flow :: "datagram \<Rightarrow> flow res" where
  "egress_flow d =
     (if dg_proto d = IP_PROT_TCP then
        (case dg_payload d of
           Some (TCPSegment srcPort dstPort _, _) \<Rightarrow> Inr (ByPorts (dg_src d) srcPort (dg_dest d) dstPort)
         | _ \<Rightarrow> Inl RuntimeError)
      else if dg_proto d = IP_PROT_UDP then
        (case dg_payload d of
           Some (UDPPacket srcPort dstPort _, _) \<Rightarrow> Inr (ByPorts (dg_src d) srcPort (dg_dest d) dstPort)
         | _ \<Rightarrow> Inl RuntimeError)
      else Inr (BySrcDest (dg_src d) (dg_dest d)))"

definition wrapped :: "packet_wrapper \<Rightarrow> frame_content" where
  "wrapped w = (case w of IPv4DatagramWrapper d \<Rightarrow> FrameIPv4 d | PreschedWrapper _ \<Rightarrow> FrameOther)"

definition handleEgress :: "mimic_env \<Rightarrow> datagram \<Rightarrow> ether_frame \<Rightarrow> mimic \<Rightarrow> mimic res" where
  "handleEgress env d frame t =
     (if getDByte (dg_src d) 1 = getDByte (dg_dest d) 1 then Inr t
      else
        rbind (egress_flow d) (\<lambda>flow.
        rbind (seed_at (tor_seeds t) (getDByte (dg_src d) 2)) (\<lambda>tor_seed.
        rbind (ecmp_helper (mi_num_aggs t) tor_seed flow) (\<lambda>aggregation.
        rbind (seed_at (agg_seeds t) aggregation) (\<lambda>agg_seed.
        rbind (ecmp_helper (num_agg_intfs t) agg_seed flow) (\<lambda>intf.
        rbind (predict_packet_helper env d aggregation intf (mi_egr t) False t) (\<lambda>(prediction, pkt, m).
        let t = t\<lparr>mi_egr := updateCongesState env (mi_now t) (counted_latency prediction) m\<rparr>
        in if prediction < 0 then Inr t
           else
             let out_intf = to_short (int (length (agg_seeds t)) * aggregation + intf)
             in mi_schedule (mi_now t + env_SimTime env prediction)
                  (SelfFrame (frame\<lparr>ef_dest := BROADCAST_MAC, ef_content := wrapped pkt,
                     ef_kind := to_short (num_intgates t + out_intf)\<rparr>)) t)))))))"

definition handleIngress :: "mimic_env \<Rightarrow> datagram \<Rightarrow> ether_frame \<Rightarrow> int \<Rightarrow> mimic \<Rightarrow> mimic res" where
  "handleIngress env d frame agg_gate t =
     (if num_agg_intfs t = 0 then Inl RuntimeError
      else
        let aggregation = agg_gate sdiv num_agg_intfs t; intf = agg_gate smod num_agg_intfs t
        in rbind (predict_packet_helper env d aggregation intf (mi_ing t) False t) (\<lambda>(prediction, pkt, m).
           let t = t\<lparr>mi_ing := updateCongesState env (mi_now t) (counted_latency prediction) m\<rparr>
           in if prediction < 0 then Inr t
              else
                let out_intf = to_short (getDByte (dg_dest d) 2 * 4 + getDByte (dg_dest d) 3 div 4)
                in mi_schedule (mi_now t + env_SimTime env prediction)
                     (SelfFrame (frame\<lparr>ef_dest := BROADCAST_MAC, ef_content := wrapped pkt,
                        ef_kind := out_intf\<rparr>)) t))"

section \<open>Messages\<close>

text \<open>Sending at a gate, once its channel is free; a gate that does not exist is an error.\<close>

definition mi_send :: "mimic_env \<Rightarrow> bool \<Rightarrow> int \<Rightarrow> ether_frame \<Rightarrow> mimic \<Rightarrow> mimic res" where
  "mi_send env internal i frame t =
     (if i < 0 \<or> (if internal then num_intgates t else num_extgates t) \<le> i then Inl RuntimeError
      else
        let busyUntil = env_busy env internal i (mi_now t)
        in if busyUntil \<le> mi_now t then Inr (t\<lparr>mi_outs := mi_outs t @ [(internal, i, mi_now t, frame)]\<rparr>)
           else Inr (t\<lparr>mi_outs := mi_outs t @ [(internal, i, mi_now t + (busyUntil - mi_now t), frame)]\<rparr>))"

definition routeMsg :: "mimic_env \<Rightarrow> ether_frame \<Rightarrow> mimic \<Rightarrow> mimic res" where
  "routeMsg env frame t =
     (let out_intf = to_short (ef_kind frame)
      in if out_intf < num_intgates t then mi_send env True out_intf frame t
         else mi_send env False (to_short (out_intf - num_intgates t)) frame t)"

text \<open>
  A getter that returns a reference is read again after the field behind it was set: then the
  source address of the reply has replaced the one that was to become its destination.
\<close>

definition handleARPReq :: "mimic_env \<Rightarrow> arp_packet \<Rightarrow> ether_frame \<Rightarrow> bool \<Rightarrow> int \<Rightarrow> mimic \<Rightarrow> mimic res" where
  "handleARPReq env arp frame internal i t =
     (let a1 = arp\<lparr>arp_srcMAC := BROADCAST_MAC\<rparr>;
          a2 = a1\<lparr>arp_destMAC := (if env_getterRefs env then arp_srcMAC a1 else arp_srcMAC arp)\<rparr>;
          a3 = a2\<lparr>arp_srcIP := (if env_getterRefs env then arp_destIP a2 else arp_destIP arp)\<rparr>;
          a4 = a3\<lparr>arp_destIP := (if env_getterRefs env then arp_srcIP a3 else arp_srcIP arp)\<rparr>;
          f = frame\<lparr>ef_src := BROADCAST_MAC,
                ef_dest := (if env_getterRefs env then arp_srcMAC a4 else arp_srcMAC arp),
                ef_content := FrameARP a4\<rparr>
      in mi_send env internal i f t)"

datatype mimic_msg = MiSelf mimic_self | MiArrive bool int ether_frame | MiNoFrame

fun handle_presched :: "mimic_env \<Rightarrow> bool \<Rightarrow> presched \<Rightarrow> mimic \<Rightarrow> mimic res" where
  "handle_presched env isIncoming pm t =
     rbind (predict env (PreschedWrapper pm) (ps_dst_server pm) (ps_dst_rack pm) (ps_src_server pm)
        (ps_src_rack pm) (ps_agg pm) (ps_agg_intf pm) (if isIncoming then mi_ing t else mi_egr t) isIncoming t)
       (\<lambda>(latency, pkt, m).
         let m = updateCongesState env (mi_now t) (counted_latency latency) m
         in Inr (if isIncoming then t\<lparr>mi_ing := m\<rparr> else t\<lparr>mi_egr := m\<rparr>))"

text \<open>A frame that carries the kind of a prescheduled message is cast to one, which is undefined.\<close>

fun mi_handleMessage :: "mimic_env \<Rightarrow> mimic_msg \<Rightarrow> mimic \<Rightarrow> mimic res" where
  "mi_handleMessage env (MiSelf (Prescheduled isIncoming pm)) t = handle_presched env isIncoming pm t"
| "mi_handleMessage env (MiSelf (SelfFrame frame)) t =
     (if ef_kind frame = PRESCHEDULED_ING \<or> ef_kind frame = PRESCHEDULED_EGR then Inl NullPointer
      else routeMsg env frame t)"
| "mi_handleMessage env (MiArrive internal i frame) t =
     (case ef_content frame of
        FrameEmpty \<Rightarrow> Inl RuntimeError
      | FrameOther \<Rightarrow> Inl RuntimeError
      | FrameARP arp \<Rightarrow> handleARPReq env arp frame internal i t
      | FrameIPv4 d \<Rightarrow> if internal then handleEgress env d frame t else handleIngress env d frame i t)"
| "mi_handleMessage env MiNoFrame t = Inl RuntimeError"

end
