(* ===== verification/MimicConges.thy ===== *)
theory MimicConges
  imports Mimic
begin

text \<open>
  The congestion state of a \<open>MimicDCN\<close> model: the counters of \<open>updateCongesState\<close> implement a
  machine of four states that takes a step for every time window of predicted latencies.
\<close>

section \<open>The machine\<close>

datatype congestion = Calm | Rising | Peak | Falling

instantiation congestion :: linorder
begin

fun conges_code :: "congestion \<Rightarrow> int" where
  "conges_code Calm = NO_CONGES"
| "conges_code Rising = INCR_CONGES"
| "conges_code Peak = MAX_CONGES"
| "conges_code Falling = DECR_CONGES"

definition less_eq_congestion :: "congestion \<Rightarrow> congestion \<Rightarrow> bool" where
  "less_eq_congestion c d \<longleftrightarrow> conges_code c \<le> conges_code d"

definition less_congestion :: "congestion \<Rightarrow> congestion \<Rightarrow> bool" where
  "less_congestion c d \<longleftrightarrow> conges_code c < conges_code d"

instance
proof
  fix c d e :: congestion
  show "c < d \<longleftrightarrow> c \<le> d \<and> \<not> d \<le> c" by (auto simp: less_eq_congestion_def less_congestion_def)
  show "c \<le> c" by (simp add: less_eq_congestion_def)
  show "c \<le> d \<Longrightarrow> d \<le> e \<Longrightarrow> c \<le> e" by (simp add: less_eq_congestion_def)
  show "c \<le> d \<Longrightarrow> d \<le> c \<Longrightarrow> c = d" by (cases c; cases d) (simp_all add: less_eq_congestion_def)
  show "c \<le> d \<or> d \<le> c" by (auto simp: less_eq_congestion_def)
qed

end

definition lossy :: "rat list \<Rightarrow> bool" where
  "lossy ls \<longleftrightarrow> length ls < 3 * length (filter (\<lambda>l. l < LATENCY_DROP_THRESHOLD) ls)"

definition slow :: "rat list \<Rightarrow> bool" where
  "slow ls \<longleftrightarrow> LATENCY_MEDIAN + LATENCY_VARIANCE < sum_list ls / of_nat (length ls)"

text \<open>Congestion is at its peak after a lossy window; without losses a window is calm, or it is slow
  and congestion is rising, or falling after a peak.\<close>

inductive conges_bin :: "rat list \<Rightarrow> congestion \<Rightarrow> congestion \<Rightarrow> bool" where
  peak: "lossy ls \<Longrightarrow> conges_bin ls c Peak"
| calm: "\<not> lossy ls \<Longrightarrow> \<not> slow ls \<Longrightarrow> conges_bin ls c Calm"
| rising: "\<not> lossy ls \<Longrightarrow> slow ls \<Longrightarrow> c < Peak \<Longrightarrow> conges_bin ls c Rising"
| falling: "\<not> lossy ls \<Longrightarrow> slow ls \<Longrightarrow> Peak \<le> c \<Longrightarrow> conges_bin ls c Falling"

inductive conges_bins :: "rat list list \<Rightarrow> congestion \<Rightarrow> congestion \<Rightarrow> bool" where
  start: "conges_bins [] c c"
| bin: "conges_bins bs c d \<Longrightarrow> conges_bin ls d e \<Longrightarrow> conges_bins (bs @ [ls]) c e"

inductive_cases conges_bins_NilE: "conges_bins [] c d"
inductive_cases conges_bins_snocE: "conges_bins (bs @ [ls]) c e"
inductive_simps conges_bin_iff: "conges_bin ls c d"

text \<open>The windows of a history of predictions: the complete ones, the last one and its start.\<close>

fun window_bins :: "simtime \<Rightarrow> (simtime \<times> rat) list \<Rightarrow> simtime \<Rightarrow> rat list \<Rightarrow> rat list list \<Rightarrow>
    rat list list \<times> rat list \<times> simtime" where
  "window_bins w [] start cur bs = (bs, cur, start)"
| "window_bins w ((time, l) # h) start cur bs =
     (if w < time - start then window_bins w h time [] (bs @ [cur @ [l]])
      else window_bins w h start (cur @ [l]) bs)"

fun conges_history :: "mimic_env \<Rightarrow> (simtime \<times> rat) list \<Rightarrow> ml_meta \<Rightarrow> ml_meta" where
  "conges_history env [] m = m"
| "conges_history env ((time, l) # h) m = conges_history env h (updateCongesState env time l m)"

section \<open>Refinement\<close>

definition conges_rel :: "congestion \<Rightarrow> rat list \<Rightarrow> simtime \<Rightarrow> ml_meta \<Rightarrow> bool" where
  "conges_rel c cur start m \<longleftrightarrow> conges_state m = conges_code c \<and> cur_bin_start_time m = start \<and>
     bin_latency_sum m = sum_list cur \<and> bin_num_packets m = int (length cur) \<and>
     bin_num_drops m = int (length (filter (\<lambda>l. l < LATENCY_DROP_THRESHOLD) cur))"

lemma third_of: "(int n sdiv 3 < int d) = (n < 3 * d)"
proof -
  have "int n sdiv 3 = int (n div 3)" by (cases "n = 0") (simp_all add: signed_divide_int_def zdiv_int)
  then show ?thesis by simp presburger
qed

lemma conges_code_cases:
  "(conges_code c = NO_CONGES \<or> conges_code c = INCR_CONGES) = (c < Peak)"
  "(conges_code c = MAX_CONGES \<or> conges_code c = DECR_CONGES) = (Peak \<le> c)"
  by (cases c; simp add: less_congestion_def less_eq_congestion_def)+

lemma bin_congestion_step:
  assumes "conges_rel c ls start m"
  shows "\<exists>d. conges_bin ls c d \<and> bin_congestion m = conges_code d"
proof -
  have lossy: "bin_num_drops m > bin_num_packets m sdiv 3 \<longleftrightarrow> lossy ls"
    using assms third_of unfolding conges_rel_def lossy_def by simp
  have slow: "bin_latency_sum m / of_int (bin_num_packets m) > LATENCY_MEDIAN + LATENCY_VARIANCE \<longleftrightarrow> slow ls"
    using assms unfolding conges_rel_def slow_def by simp
  have code: "conges_state m = conges_code c" using assms by (simp add: conges_rel_def)
  have b: "bin_congestion m =
      (if lossy ls then MAX_CONGES else if slow ls then
         (if c < Peak then INCR_CONGES else if Peak \<le> c then DECR_CONGES else conges_code c) else NO_CONGES)"
    unfolding bin_congestion_def Let_def lossy slow code conges_code_cases by (rule refl)
  consider "lossy ls" | "\<not> lossy ls" "\<not> slow ls" | "\<not> lossy ls" "slow ls" "c < Peak"
    | "\<not> lossy ls" "slow ls" "Peak \<le> c" by fastforce
  then show ?thesis
  proof cases
    case 1
    then show ?thesis by (intro exI [of _ Peak]) (simp add: b conges_bin.peak)
  next
    case 2
    then show ?thesis by (intro exI [of _ Calm]) (simp add: b conges_bin.calm)
  next
    case 3
    then show ?thesis by (intro exI [of _ Rising]) (simp add: b conges_bin.rising)
  next
    case 4
    then show ?thesis by (intro exI [of _ Falling]) (simp add: b conges_bin.falling not_less)
  qed
qed

lemma conges_step:
  assumes "conges_rel c cur start m"
  shows "if env_SimTime env (6 / 10000) < time - start
     then \<exists>d. conges_bin (cur @ [l]) c d \<and> conges_rel d [] time (updateCongesState env time l m)
     else conges_rel c (cur @ [l]) start (updateCongesState env time l m)"
proof -
  define m' where "m' = m\<lparr>bin_num_packets := bin_num_packets m + 1, bin_latency_sum := bin_latency_sum m + l,
    bin_num_drops := (if l < LATENCY_DROP_THRESHOLD then bin_num_drops m + 1 else bin_num_drops m)\<rparr>"
  have rel: "conges_rel c (cur @ [l]) start m'" using assms by (simp add: conges_rel_def m'_def)
  have start: "cur_bin_start_time m' = start" using assms by (simp add: conges_rel_def m'_def)
  have upd: "updateCongesState env time l m =
      (if env_SimTime env (6 / 10000) < time - start
       then m'\<lparr>conges_state := bin_congestion m', bin_num_packets := 0, cur_bin_start_time := time,
             bin_latency_sum := 0, bin_num_drops := 0\<rparr> else m')"
    unfolding updateCongesState_def Let_def m'_def [symmetric] start by (rule refl)
  show ?thesis
  proof (cases "env_SimTime env (6 / 10000) < time - start")
    case True
    with bin_congestion_step [OF rel] show ?thesis by (auto simp: upd conges_rel_def)
  qed (simp add: upd rel)
qed

lemma conges_refines:
  assumes "conges_rel c cur start m" "conges_bins bs Calm c"
    "window_bins (env_SimTime env (6 / 10000)) h start cur bs = (bs', cur', start')"
  shows "\<exists>c'. conges_bins bs' Calm c' \<and> conges_rel c' cur' start' (conges_history env h m)"
  using assms
proof (induction h arbitrary: c cur start m bs)
  case (Cons a h)
  obtain time l where a: "a = (time, l)" by (cases a)
  note step = conges_step [OF Cons.prems(1), of env time l]
  show ?case
  proof (cases "env_SimTime env (6 / 10000) < time - start")
    case True
    with step obtain d where "conges_bin (cur @ [l]) c d" "conges_rel d [] time (updateCongesState env time l m)"
      by auto
    then show ?thesis using Cons.IH [of d "[]" time _ "bs @ [cur @ [l]]"] Cons.prems True
      by (auto simp: a intro: conges_bins.bin)
  next
    case False
    with step Cons show ?thesis by (simp add: a)
  qed
qed (auto intro: conges_bins.start)

lemma conges_bin_deterministic: "conges_bin ls c d \<Longrightarrow> conges_bin ls c e \<Longrightarrow> d = e"
  by (simp add: conges_bin_iff) (auto simp: not_le)

lemma conges_bins_deterministic: "conges_bins bs c d \<Longrightarrow> conges_bins bs c e \<Longrightarrow> d = e"
proof (induction bs c d arbitrary: e rule: conges_bins.induct)
  case (start c)
  then show ?case by (auto elim: conges_bins_NilE)
next
  case (bin bs c d ls d')
  from bin.prems obtain e' where "conges_bins bs c e'" "conges_bin ls e' e"
    by (auto elim: conges_bins_snocE)
  then show ?case using bin.IH bin.hyps(2) conges_bin_deterministic by blast
qed

text \<open>Congestion falls only after a peak.\<close>

lemma falling_after_peak:
  "conges_bins bs c d \<Longrightarrow> c = Calm \<Longrightarrow> Peak \<le> d \<Longrightarrow>
     \<exists>xs ls ys. bs = xs @ ls # ys \<and> lossy ls \<and> (\<forall>b \<in> set ys. slow b \<or> lossy b)"
proof (induction bs c d rule: conges_bins.induct)
  case (bin bs c d ls e)
  show ?case
  proof (cases "lossy ls")
    case True
    then show ?thesis by (intro exI [of _ bs] exI [of _ ls] exI [of _ "[]"]) simp
  next
    case False
    with bin.hyps(2) bin.prems(2) have "slow ls" "Peak \<le> d"
      by (auto simp: conges_bin_iff less_eq_congestion_def)
    with bin.IH bin.prems(1) obtain xs l ys where
      "bs = xs @ l # ys" "lossy l" "\<forall>b \<in> set ys. slow b \<or> lossy b" by auto
    with \<open>slow ls\<close> show ?thesis
      by (intro exI [of _ xs] exI [of _ l] exI [of _ "ys @ [ls]"]) auto
  qed
qed (simp add: less_eq_congestion_def)

section \<open>An environment and a model\<close>

definition env0 :: mimic_env where
  "env0 = \<lparr>env_cuda = True, env_SimTime = (\<lambda>x. floor (x * 1000000000000)), env_busy = (\<lambda>_ _ c. c),
     env_getterRefs = True, env_badCast = 0, env_noReturn = 0\<rparr>"

definition model0 :: learned_model where
  "model0 = \<lparr>mm_getValue = (\<lambda>h. (length h mod 5 = 0, of_nat (length h), False)),
     mm_pyValue = (\<lambda>h. Some (0, 1 / 1000, 0)),
     DIS_META_LAST_MIN = 0, DIS_META_LAST_STEP = 1 / 1000, DIS_META_EWMA_MIN = 0,
     DIS_META_EWMA_STEP = 1 / 1000, DIS_META_LATENCY_MIN = 1 / 2000, DIS_META_LATENCY_STEP = 1 / 10000\<rparr>"

section \<open>Properties\<close>

text \<open>
  C33: The congestion state that a model of the mimic is given follows the machine over the time
  windows of its predictions: it is the state after the complete windows, the counters describe the
  window that is still open, and the state is at or past a peak only if some window lost more than
  a third of its packets and no later one was calm.
\<close>

theorem congestion_state_machine:
  assumes "m = MLMetadata env v model servers num_aggs num_intfs num_tors currTime"
    and "window_bins (env_SimTime env (6 / 10000)) h 0 [] [] = (bs, cur, start)"
  shows "\<exists>c. conges_bins bs Calm c \<and> (\<forall>d. conges_bins bs Calm d \<longrightarrow> d = c) \<and>
     conges_state (conges_history env h m) = conges_code c \<and>
     bin_num_packets (conges_history env h m) = int (length cur) \<and>
     bin_num_drops (conges_history env h m) = int (length (filter (\<lambda>l. l < LATENCY_DROP_THRESHOLD) cur)) \<and>
     bin_latency_sum (conges_history env h m) = sum_list cur \<and>
     (Peak \<le> c \<longrightarrow> (\<exists>xs ls ys. bs = xs @ ls # ys \<and> lossy ls \<and> (\<forall>b \<in> set ys. slow b \<or> lossy b)))"
proof -
  have "conges_rel Calm [] 0 m" by (simp add: assms(1) conges_rel_def MLMetadata_def Let_def)
  from conges_refines [OF this conges_bins.start assms(2)] obtain c where
    c: "conges_bins bs Calm c" "conges_rel c cur start (conges_history env h m)" by blast
  moreover from c(1) have "\<forall>d. conges_bins bs Calm d \<longrightarrow> d = c" by (blast dest: conges_bins_deterministic)
  ultimately show ?thesis using falling_after_peak [OF c(1) refl] unfolding conges_rel_def by blast
qed

lemma congestion_state_machine_witness:
  "\<exists>c. conges_bins [[1 / 500, 1 / 500], [0, 0, 1 / 1000]] Calm c \<and>
     conges_state (conges_history env0 [(1, 1 / 500), (700000000, 1 / 500), (700000001, 0), (700000002, 0),
         (1500000000, 1 / 1000), (1500000001, 1 / 1000)]
       (MLMetadata env0 TCP model0 4 2 2 2 0)) = conges_code c"
proof -
  let ?h = "[(1, 1 / 500), (700000000, 1 / 500), (700000001, 0), (700000002, 0),
         (1500000000, 1 / 1000), (1500000001, 1 / 1000)] :: (simtime \<times> rat) list"
  have "window_bins (env_SimTime env0 (6 / 10000)) ?h 0 [] [] =
      ([[1 / 500, 1 / 500], [0, 0, 1 / 1000]], [1 / 1000], 1500000000)"
    by (simp add: env0_def)
  from congestion_state_machine [OF refl this] show ?thesis by blast
qed

end
