(* ===== verification/MimicTraffic.thy ===== *)
theory MimicTraffic
  imports Mimic
begin

text \<open>
  The start of a \<open>MimicDCN\<close>: its parameters, the seeds of the ECMP hashes, and the traffic among
  other such modules, which it schedules for itself so that its models see it.  The lines of a
  traffic file are lists of numbers already; the pareto samples and the values of \<open>rand\<close> are
  streams, and \<open>push_heap\<close> and \<open>pop_heap\<close> are arguments, since the standard does not say where
  they put the other elements.
\<close>

section \<open>Seeds\<close>

definition is_space :: "char \<Rightarrow> bool" where
  "is_space c \<longleftrightarrow> c \<in> set [CHR '' '', CHR 0x09, CHR 0x0A, CHR 0x0B, CHR 0x0C, CHR 0x0D]"

text \<open>\<open>istream_iterator<string>\<close>: the words between white space.\<close>

fun words_loop :: "string \<Rightarrow> string \<Rightarrow> string list" where
  "words_loop w [] = (if w = [] then [] else [w])"
| "words_loop w (c # cs) =
     (if is_space c then (if w = [] then words_loop [] cs else w # words_loop [] cs)
      else words_loop (w @ [c]) cs)"

definition is_digit :: "char \<Rightarrow> bool" where
  "is_digit c \<longleftrightarrow> 48 \<le> (of_char c :: nat) \<and> (of_char c :: nat) \<le> 57"

fun digits_value :: "int \<Rightarrow> string \<Rightarrow> int" where
  "digits_value v [] = v"
| "digits_value v (c # cs) =
     (if is_digit c then digits_value (10 * v + (of_char c - 48)) cs else v)"

definition atoi :: "string \<Rightarrow> int" where
  "atoi s =
     (case dropWhile is_space s of
        [] \<Rightarrow> 0
      | c # cs \<Rightarrow>
          if c = CHR ''-'' then - digits_value 0 cs
          else if c = CHR ''+'' then digits_value 0 cs
          else digits_value 0 (c # cs))"

definition parse_ecmp_seeds :: "string \<Rightarrow> string \<Rightarrow> mimic \<Rightarrow> mimic res" where
  "parse_ecmp_seeds torEcmpSeeds aggEcmpSeeds t =
     (let t = t\<lparr>tor_seeds := tor_seeds t @ map atoi (words_loop [] torEcmpSeeds)\<rparr>;
          t = t\<lparr>agg_seeds := agg_seeds t @ map atoi (words_loop [] aggEcmpSeeds)\<rparr>
      in rbind (assertion (int (length (agg_seeds t)) = mi_num_aggs t)) (\<lambda>_.
         rbind (assertion (int (length (tor_seeds t)) = mi_num_tors t)) (\<lambda>_. Inr t)))"

section \<open>Traffic among the mimics\<close>

text \<open>A flow: start, end, the six coordinates, bytes left, packets sent.\<close>

type_synonym mi_flow = "rat list"

definition mf_at :: "nat \<Rightarrow> mi_flow \<Rightarrow> rat res" where
  "mf_at i f = (if i < length f then Inr (f ! i) else Inl OutOfRange)"

record mimic_traffic =
  tr_samples :: "nat \<Rightarrow> rat"
  tr_rand :: "nat \<Rightarrow> nat"
  tr_push_heap :: "mi_flow list \<Rightarrow> mi_flow list"
  tr_pop_heap :: "mi_flow list \<Rightarrow> mi_flow list"

definition active_flow_comp :: "mi_flow \<Rightarrow> mi_flow \<Rightarrow> bool" where
  "active_flow_comp lhs rhs \<longleftrightarrow> lhs ! 1 < rhs ! 1"

text \<open>Taking in the flows that have started; \<open>next_flow\<close> is \<open>None\<close> after the last line.\<close>

fun add_flows :: "mimic_traffic \<Rightarrow> rat \<Rightarrow> mi_flow option \<Rightarrow> rat \<Rightarrow> rat list list \<Rightarrow> mi_flow list \<Rightarrow>
    mi_flow option \<times> rat \<times> rat list list \<times> mi_flow list" where
  "add_flows tr currTime None next_time ls act = (None, next_time, ls, act)"
| "add_flows tr currTime (Some f) next_time [] act =
     (if next_time \<le> currTime then (None, next_time, [], tr_push_heap tr (act @ [f]))
      else (Some f, next_time, [], act))"
| "add_flows tr currTime (Some f) next_time (l # ls) act =
     (if next_time \<le> currTime
      then add_flows tr currTime (Some (l @ [0])) ((l @ [0]) ! 0) ls (tr_push_heap tr (act @ [f]))
      else (Some f, next_time, l # ls, act))"

text \<open>Removing flows from the front of the heap, at most as often as it has elements.\<close>

fun expire_flows :: "nat \<Rightarrow> mimic_traffic \<Rightarrow> rat \<Rightarrow> mi_flow list \<Rightarrow> mi_flow list res" where
  "expire_flows n tr currTime [] = Inr []"
| "expire_flows 0 tr currTime (f # act) = Inl OutOfFuel"
| "expire_flows (Suc n) tr currTime (f # act) =
     rbind (mf_at 1 f) (\<lambda>stop.
     if stop \<le> currTime then expire_flows n tr currTime (butlast (tr_pop_heap tr (f # act)))
     else Inr (f # act))"

text \<open>The message for a packet of a flow, or nothing if it has no bytes left, and the flow after it.\<close>

definition flow_packet :: "mi_flow \<Rightarrow> (presched \<times> mi_flow) option res" where
  "flow_packet f =
     rbind (mf_at 2 f) (\<lambda>dst_server. rbind (mf_at 3 f) (\<lambda>dst_rack. rbind (mf_at 4 f) (\<lambda>src_server.
     rbind (mf_at 5 f) (\<lambda>src_rack. rbind (mf_at 6 f) (\<lambda>agg. rbind (mf_at 7 f) (\<lambda>agg_intf.
     rbind (mf_at 8 f) (\<lambda>left.
     let payload_size = min 1441 (to_int left)
     in if payload_size = 0 then Inr None
        else rbind (mf_at 9 f) (\<lambda>sent.
          Inr (Some (\<lparr>ps_dst_server = to_int dst_server, ps_dst_rack = to_int dst_rack,
               ps_src_server = to_int src_server, ps_src_rack = to_int src_rack, ps_agg = to_int agg,
               ps_agg_intf = to_int agg_intf, ps_ecn = False,
               ps_priority = (if sent < 7 then 0 else 7), ps_length = payload_size + 31\<rparr>,
             f[8 := left - of_int payload_size, 9 := sent + 1]))))))))))"

text \<open>
  The loop; the first argument bounds the number of packet times, since the loop only ends once
  all flows are over.  \<open>k\<close> counts the samples, \<open>j\<close> the calls of \<open>rand\<close>.
\<close>

fun traffic_loop :: "nat \<Rightarrow> mimic_env \<Rightarrow> mimic_traffic \<Rightarrow> bool \<Rightarrow> nat \<Rightarrow> nat \<Rightarrow> rat \<Rightarrow> mi_flow option \<Rightarrow>
    rat \<Rightarrow> rat list list \<Rightarrow> mi_flow list \<Rightarrow> mimic \<Rightarrow> mimic res" where
  "traffic_loop 0 env tr isIncoming k j currTime next_flow next_time ls act t =
     (if next_flow = None \<and> act = [] then Inr t else Inl OutOfFuel)"
| "traffic_loop (Suc n) env tr isIncoming k j currTime next_flow next_time ls act t =
     (if next_flow = None \<and> act = [] then Inr t
      else
        let currTime = currTime + tr_samples tr k;
            (next_flow, next_time, ls, act) = add_flows tr currTime next_flow next_time ls act
        in rbind (expire_flows (length act) tr currTime act) (\<lambda>act.
           if act = [] then traffic_loop n env tr isIncoming (Suc k) j currTime next_flow next_time ls act t
           else
             let i = tr_rand tr j mod length act
             in rbind (flow_packet (act ! i)) (\<lambda>pkt.
                case pkt of
                  None \<Rightarrow> traffic_loop n env tr isIncoming (Suc k) (Suc j) currTime next_flow next_time ls act t
                | Some (pm, f) \<Rightarrow>
                    rbind (mi_schedule (env_SimTime env currTime) (Prescheduled isIncoming pm) t) (\<lambda>t.
                    traffic_loop n env tr isIncoming (Suc k) (Suc j) currTime next_flow next_time ls
                      (act[i := f]) t))))"

definition loadAndScheduleInterMimicTraffic ::
    "nat \<Rightarrow> mimic_env \<Rightarrow> mimic_traffic \<Rightarrow> rat list list option \<Rightarrow> bool \<Rightarrow> mimic \<Rightarrow> mimic res" where
  "loadAndScheduleInterMimicTraffic n env tr file isIncoming t =
     (case file of
        None \<Rightarrow> Inl RuntimeError
      | Some [] \<Rightarrow> traffic_loop n env tr isIncoming 0 0 0 None 0 [] [] t
      | Some (l # ls) \<Rightarrow>
          rbind (mf_at 0 l) (\<lambda>next_time.
          traffic_loop n env tr isIncoming 0 0 0 (Some (l @ [0])) next_time ls [] t))"

section \<open>Initialisation\<close>

record mimic_params =
  par_variant :: string
  par_max_queue_len :: int
  par_packet_size :: rat
  par_link_speed :: rat
  par_min_link_latency :: rat
  par_servers_per_tor :: int
  par_num_aggs :: int
  par_num_agg_intfs :: int
  par_num_tors :: int
  par_torEcmpSeeds :: string
  par_aggEcmpSeeds :: string
  par_intports :: int
  par_extports :: int
  par_intermimic_lines :: "nat option"
  par_ing_traffic :: "rat list list option"
  par_egr_traffic :: "rat list list option"
  par_ing_model :: learned_model
  par_egr_model :: learned_model

definition mimic_base :: "mimic_env \<Rightarrow> mimic_params \<Rightarrow> simtime \<Rightarrow> mimic" where
  "mimic_base env p currTime =
     (let transmission_delay = of_int (par_max_queue_len p) * par_packet_size p * 8 / par_link_speed p;
          meta = (\<lambda>model. MLMetadata env TCP model (par_servers_per_tor p) (par_num_aggs p)
                    (par_num_agg_intfs p) (par_num_tors p) currTime)
      in \<lparr>mi_now = currTime, mi_ing = meta (par_ing_model p), mi_egr = meta (par_egr_model p), mi_variant = TCP,
          tor_seeds = [], agg_seeds = [], servers_per_tor = par_servers_per_tor p,
          mi_num_aggs = par_num_aggs p, num_agg_intfs = par_num_agg_intfs p, mi_num_tors = par_num_tors p,
          max_latency = par_min_link_latency p + transmission_delay * 2,
          min_latency = par_min_link_latency p,
          num_intgates = to_short (par_intports p), num_extgates = par_extports p,
          mi_scheduled = [], mi_outs = []\<rparr>)"

definition parse_variant :: "string \<Rightarrow> mimic_variant res" where
  "parse_variant s =
     (if s = ''TCP'' then Inr TCP else if s = ''DCTCP'' then Inr DCTCP
      else if s = ''Homa'' then Inr Homa else Inl RuntimeError)"

text \<open>
  \<open>initialize\<close>; a file that cannot be opened or has too few lines ends the program.  The link
  speed is not zero.  The models are set last; before, nothing uses them.
\<close>

definition mi_initialize :: "nat \<Rightarrow> mimic_env \<Rightarrow> mimic_traffic \<Rightarrow> mimic_traffic \<Rightarrow> mimic_params \<Rightarrow> simtime \<Rightarrow> mimic res" where
  "mi_initialize n env tri tre p currTime =
     (case par_intermimic_lines p of
        None \<Rightarrow> Inl RuntimeError
      | Some k \<Rightarrow>
          if k < 2 then Inl RuntimeError
          else
            rbind (loadAndScheduleInterMimicTraffic n env tri (par_ing_traffic p) True (mimic_base env p currTime)) (\<lambda>t.
            rbind (loadAndScheduleInterMimicTraffic n env tre (par_egr_traffic p) False t) (\<lambda>t.
            rbind (parse_ecmp_seeds (par_torEcmpSeeds p) (par_aggEcmpSeeds p) t) (\<lambda>t.
            rbind (parse_variant (par_variant p)) (\<lambda>v.
            let meta = (\<lambda>model. MLMetadata env v model (servers_per_tor t) (mi_num_aggs t)
                          (num_agg_intfs t) (mi_num_tors t) currTime)
            in Inr (t\<lparr>mi_variant := v, mi_ing := meta (par_ing_model p), mi_egr := meta (par_egr_model p)\<rparr>))))))"

end
