(* ===== verification/MimicInv.thy ===== *)
theory MimicInv
  imports MimicConges MimicTraffic
begin

text \<open>
  What a \<open>MimicDCN\<close> keeps true while it runs: the layout of the input of its models, whose one-hot
  part is clear between predictions, the range of the congestion states, and the messages it
  scheduled for itself.
\<close>

section \<open>Writing features\<close>

definition set_entries :: "(int \<times> rat) list \<Rightarrow> rat list \<Rightarrow> rat list" where
  "set_entries ivs xs = fold (\<lambda>(i, v) xs. xs[nat i := v]) ivs xs"

definition entries_in :: "(int \<times> rat) list \<Rightarrow> rat list \<Rightarrow> bool" where
  "entries_in ivs xs \<longleftrightarrow> (\<forall>(i, v) \<in> set ivs. 0 \<le> i \<and> i < int (length xs))"

lemma set_entries_simps [simp]: "set_entries [] xs = xs"
  "set_entries ((i, v) # ivs) xs = set_entries ivs (xs[nat i := v])"
  by (simp_all add: set_entries_def)

lemma length_set_entries [simp]: "length (set_entries ivs xs) = length xs"
  by (induction ivs arbitrary: xs) auto

lemma put_inputs_eq: "put_inputs ivs m =
    (if entries_in ivs (ml_input m) then Inr (m\<lparr>ml_input := set_entries ivs (ml_input m)\<rparr>) else Inl OutOfRange)"
  by (induction ivs m rule: put_inputs.induct) (auto simp: put_input_def entries_in_def)

lemma nth_set_entries_const:
  "j < length xs \<Longrightarrow> set_entries (map (\<lambda>i. (i, v)) is) xs ! j = (if j \<in> nat ` set is then v else xs ! j)"
  by (induction "is" arbitrary: xs) (auto simp: nth_list_update)

lemma nth_set_entries_other:
  "\<forall>(i, v) \<in> set ivs. int j < i \<Longrightarrow> set_entries ivs xs ! j = xs ! j"
  by (induction ivs arbitrary: xs) auto

section \<open>The invariant\<close>

definition meta_ok :: "mimic_env \<Rightarrow> mimic \<Rightarrow> ml_meta \<Rightarrow> bool" where
  "meta_ok env t m \<longleftrightarrow> ml_variant m = mi_variant t \<and> num_features m = variant_features (mi_variant t) \<and>
     conges_state m \<in> {0..3} \<and> FT_INDEX_SERVER m = 4 \<and> FT_INDEX_AGG m = 4 + servers_per_tor t \<and>
     FT_INDEX_AGGINTF m = 4 + servers_per_tor t + mi_num_aggs t \<and>
     FT_INDEX_TORS m = 4 + servers_per_tor t + mi_num_aggs t + num_agg_intfs t \<and>
     FT_INDEX_LAST m = 4 + servers_per_tor t + mi_num_aggs t + num_agg_intfs t + mi_num_tors t \<and>
     length (ml_input m) =
       (if env_cuda env then nat (FT_INDEX_LAST m) + variant_last (mi_variant t) else variant_features (mi_variant t)) \<and>
     (env_cuda env \<longrightarrow> (\<forall>j < nat (FT_INDEX_LAST m). ml_input m ! j = 0))"

definition mimic_sizes :: "mimic \<Rightarrow> bool" where
  "mimic_sizes t \<longleftrightarrow> 0 \<le> servers_per_tor t \<and> 0 \<le> mi_num_aggs t \<and> 0 \<le> num_agg_intfs t \<and> 0 \<le> mi_num_tors t \<and>
     int (length (agg_seeds t)) = mi_num_aggs t \<and> int (length (tor_seeds t)) = mi_num_tors t \<and>
     min_latency t \<le> max_latency t"

definition mimic_ok :: "mimic_env \<Rightarrow> mimic \<Rightarrow> bool" where
  "mimic_ok env t \<longleftrightarrow> mimic_sizes t \<and> meta_ok env t (mi_ing t) \<and> meta_ok env t (mi_egr t) \<and>
     (\<forall>(c, msg) \<in> set (mi_scheduled t). mi_now t \<le> c)"

lemma last_features_shape:
  assumes "last_features env gap pw m = Inr ivs"
  shows "\<forall>(i, v) \<in> set ivs. FT_INDEX_LAST m \<le> i \<and> i \<le> FT_INDEX_LAST m + (if ml_variant m = TCP then 3 else 5)"
    and "\<exists>v. (FT_INDEX_LAST m + (if ml_variant m = TCP then 3 else 5), v) \<in> set ivs"
  using assms by (cases "ml_variant m"; auto simp: last_features_def Let_def res_simps)+

lemma setLastFeatures_eq:
  "setLastFeatures env ct pw m = rbind (last_features env (ct - lastpacket m) pw m) (\<lambda>ivs.
     if entries_in ivs (ml_input m)
     then Inr (m\<lparr>lastpacket := ct, ewma := next_ewma (ct - lastpacket m) m, ml_input := set_entries ivs (ml_input m)\<rparr>)
     else Inl OutOfRange)"
  by (simp add: setLastFeatures_def Let_def put_inputs_eq cong: if_cong)

lemma meta_ok_fields:
  "meta_ok env t (m\<lparr>lastpacket := a, ewma := b\<rparr>) = meta_ok env t m"
  "meta_ok env t (m\<lparr>prev_drop := c, prev_latency := d\<rparr>) = meta_ok env t m"
  "meta_ok env t (m\<lparr>prev_ECN := c\<rparr>) = meta_ok env t m"
  "meta_ok env t (m\<lparr>ml_fed := f\<rparr>) = meta_ok env t m"
  "meta_ok env (t\<lparr>mi_scheduled := s\<rparr>) m = meta_ok env t m"
  "meta_ok env (t\<lparr>mi_outs := os\<rparr>) m = meta_ok env t m"
  "meta_ok env (t\<lparr>mi_now := n\<rparr>) m = meta_ok env t m"
  "meta_ok env (t\<lparr>mi_ing := m1\<rparr>) m = meta_ok env t m"
  "meta_ok env (t\<lparr>mi_egr := m1\<rparr>) m = meta_ok env t m"
  by (simp_all add: meta_ok_def)

lemma meta_ok_input:
  assumes "meta_ok env t m" "length xs = length (ml_input m)"
    "env_cuda env \<Longrightarrow> \<forall>j < nat (FT_INDEX_LAST m). xs ! j = 0"
  shows "meta_ok env t (m\<lparr>ml_input := xs\<rparr>)"
  using assms by (simp add: meta_ok_def)

lemma bin_congestion_range: "conges_state m \<in> {0..3} \<Longrightarrow> bin_congestion m \<in> {0..3}"
  by (auto simp: bin_congestion_def Let_def)

lemma meta_ok_update: "meta_ok env t m \<Longrightarrow> meta_ok env t (updateCongesState env c l m)"
  using bin_congestion_range [of "m\<lparr>bin_num_packets := bin_num_packets m + 1,
      bin_latency_sum := bin_latency_sum m + l,
      bin_num_drops := (if l < LATENCY_DROP_THRESHOLD then bin_num_drops m + 1 else bin_num_drops m)\<rparr>"]
  unfolding updateCongesState_def Let_def by (simp add: meta_ok_def)

lemma clamp_range: "min_latency t \<le> max_latency t \<Longrightarrow>
    min_latency t \<le> clamp_latency t l \<and> clamp_latency t l \<le> max_latency t"
  by (simp add: clamp_latency_def)


section \<open>Predictions\<close>

definition feature_ptrs :: "ml_meta \<Rightarrow> int \<Rightarrow> int \<Rightarrow> int \<Rightarrow> int \<Rightarrow> int \<Rightarrow> int \<Rightarrow> bool \<Rightarrow> int list" where
  "feature_ptrs m destServ destToR srcServ srcToR aggregation intf isIncoming =
     (if isIncoming then onehot destServ aggregation intf destToR m else onehot srcServ aggregation intf srcToR m)"

lemma predict_cuda_shape:
  assumes r: "predict_cuda env pkt ds dt ss st a i m inc t = Inr (lat, pkt', m')"
    and m: "meta_ok env t m" and cuda: "env_cuda env" and sizes: "mimic_sizes t"
  defines "ptrs \<equiv> feature_ptrs m ds dt ss st a i inc"
  shows "\<exists>x. ml_fed m' = ml_fed m @ [x] \<and>
      (\<forall>j < nat (FT_INDEX_LAST m). x ! j = (if j \<in> nat ` set ptrs then 1 else 0)) \<and>
      length x = length (ml_input m) \<and> meta_ok env t m' \<and>
      (lat = -1 \<or> (\<exists>l. lat = clamp_latency t l)) \<and> wrapped pkt' \<noteq> FrameEmpty"
proof -
  let ?L = "nat (FT_INDEX_LAST m)"
  let ?ones = "map (\<lambda>i. (i, 1)) ptrs" and ?zeros = "map (\<lambda>i. (i, 0)) ptrs"
  have ptrs: "ptrs = (if inc then onehot ds a i dt m else onehot ss a i st m)"
    by (simp add: ptrs_def feature_ptrs_def)
  have var: "ml_variant m = mi_variant t" using m by (simp add: meta_ok_def)
  have L0: "0 \<le> FT_INDEX_LAST m" using m sizes by (simp add: meta_ok_def mimic_sizes_def)
  define x1 where "x1 = set_entries ?ones (ml_input m)"
  define m1 where "m1 = m\<lparr>ml_input := x1\<rparr>"
  define gap where "gap = in_seconds (mi_now t) - lastpacket m1"
  from r obtain ivs where e1: "entries_in ?ones (ml_input m)" and ivs: "last_features env gap pkt m1 = Inr ivs"
    and e2: "entries_in ivs x1"
    unfolding predict_cuda_def Let_def ptrs [symmetric] put_inputs_eq [of ?ones m] setLastFeatures_eq
    by (auto simp: res_simps m1_def [symmetric] x1_def [symmetric] gap_def [symmetric] split: if_splits)
      (auto simp: m1_def)
  define x2 where "x2 = set_entries ivs x1"
  define m2 where "m2 = m1\<lparr>lastpacket := in_seconds (mi_now t), ewma := next_ewma gap m1, ml_input := x2\<rparr>"
  define m3 where "m3 = m2\<lparr>ml_fed := ml_fed m2 @ [ml_input m2]\<rparr>"
  have s1: "put_inputs ?ones m = Inr m1" using e1 by (simp add: put_inputs_eq m1_def x1_def)
  have s2: "setLastFeatures env (in_seconds (mi_now t)) pkt m1 = Inr m2"
    unfolding setLastFeatures_eq gap_def [symmetric] ivs using e2 by (simp add: m1_def m2_def x2_def)
  obtain d v ecn where ask: "mm_getValue (ml_model m3) (ml_fed m3) = (d, v, ecn)" by (cases "mm_getValue (ml_model m3) (ml_fed m3)")
  define m4 where "m4 = (if mi_variant t = DCTCP then m3\<lparr>prev_ECN := (if ecn then 1 else 0)\<rparr> else m3)"
  have v2: "ml_variant m2 = mi_variant t" using var by (simp add: m2_def m1_def)
  have eq: "predict_cuda env pkt ds dt ss st a i m inc t =
      rbind (put_inputs ?zeros m4) (\<lambda>m.
        let latency = DIS_META_LATENCY_MIN (ml_model m3) + of_int (to_int v) * DIS_META_LATENCY_STEP (ml_model m3);
            pkt = (if mi_variant t = DCTCP \<and> ecn then pw_setEcn pkt else pkt)
        in if d then Inr (-1, pkt, m\<lparr>prev_drop := 1, prev_latency := 0\<rparr>)
           else Inr (clamp_latency t latency, pkt, m\<lparr>prev_drop := 0, prev_latency := clamp_latency t latency\<rparr>))"
    unfolding predict_cuda_def Let_def ptrs [symmetric] s1 rbind_Inr s2 v2
    using ask by (simp add: m3_def m4_def cong: if_cong)
  obtain m5 where m5: "put_inputs ?zeros m4 = Inr m5"
    and lat: "lat = -1 \<or> (\<exists>l. lat = clamp_latency t l)"
    and pk: "pkt' = (if mi_variant t = DCTCP \<and> ecn then pw_setEcn pkt else pkt)"
    and m': "\<exists>c e. m' = m5\<lparr>prev_drop := c, prev_latency := e\<rparr>"
    using r [unfolded eq] by (auto simp: res_simps Let_def split: if_splits)
  have f4: "ml_input m4 = x2" "ml_fed m4 = ml_fed m @ [x2]"
    by (simp_all add: m4_def m3_def m2_def m1_def)
  have m5': "m5 = m4\<lparr>ml_input := set_entries ?zeros x2\<rparr>"
    using m5 by (simp add: put_inputs_eq f4 split: if_splits)
  have len: "length x1 = length (ml_input m)" "length x2 = length (ml_input m)" by (simp_all add: x1_def x2_def)
  have lenL: "?L \<le> length (ml_input m)" using m cuda by (simp add: meta_ok_def)
  have x1: "x1 ! j = (if j \<in> nat ` set ptrs then 1 else 0)" if "j < ?L" for j
    using that lenL m cuda nth_set_entries_const [of j "ml_input m" 1 ptrs]
    by (simp add: x1_def meta_ok_def)
  have x2: "x2 ! j = x1 ! j" if "j < ?L" for j
  proof -
    have "\<forall>(i, v) \<in> set ivs. int j < i"
      using last_features_shape(1) [OF ivs] that by (fastforce simp: m1_def)
    then show ?thesis unfolding x2_def by (rule nth_set_entries_other)
  qed
  have "set_entries ?zeros x2 ! j = 0" if "j < ?L" for j
    using that lenL x1 [OF that] x2 [OF that] nth_set_entries_const [of j x2 0 ptrs] by (simp add: len)
  then have "meta_ok env t m5" unfolding m5' using m len
    by (simp add: m4_def m3_def m2_def m1_def meta_ok_def)
  then have "meta_ok env t m'" using m' by (auto simp: meta_ok_fields)
  moreover have "ml_fed m' = ml_fed m @ [x2]" using m' by (auto simp: m5' f4)
  moreover have "wrapped pkt' \<noteq> FrameEmpty" by (simp add: wrapped_def split: packet_wrapper.split)
  ultimately show ?thesis using x1 x2 lat len by (intro exI [of _ x2]) simp
qed

lemma put_input_Inr: "put_input i v m = Inr m' \<longleftrightarrow>
    0 \<le> i \<and> i < int (length (ml_input m)) \<and> m' = m\<lparr>ml_input := (ml_input m)[nat i := v]\<rparr>"
  by (auto simp: put_input_def)

lemma same_but_features: "m1\<lparr>lastpacket := a, ewma := b, ml_input := c\<rparr> = m \<Longrightarrow>
    m1 = m\<lparr>lastpacket := lastpacket m1, ewma := ewma m1, ml_input := ml_input m1\<rparr>"
  by (drule sym) simp

lemma py_features_shape:
  assumes "py_features env pkt ct t m = Inr m'"
  shows "\<exists>lp e xs. m' = m\<lparr>lastpacket := lp, ewma := e, ml_input := xs\<rparr> \<and> length xs = length (ml_input m) \<and>
    (mi_variant t = Homa \<longrightarrow> 8 < length (ml_input m))"
proof -
  define R where "R = (\<lambda>m1 :: ml_meta. m1\<lparr>lastpacket := lastpacket m, ewma := ewma m, ml_input := ml_input m\<rparr> = m \<and>
    length (ml_input m1) = length (ml_input m))"
  have put: "R m2" if "put_input i v m1 = Inr m2" "R m1" for i v m1 m2
    using that by (simp add: R_def put_input_Inr)
  have upd: "R (m1\<lparr>lastpacket := a, ewma := b\<rparr>)" if "R m1" for m1 a b
    using that by (simp add: R_def)
  have R: "\<exists>lp e xs. m1 = m\<lparr>lastpacket := lp, ewma := e, ml_input := xs\<rparr> \<and> length xs = length (ml_input m)" if "R m1" for m1
  proof (intro exI conjI)
    show "m1 = m\<lparr>lastpacket := lastpacket m1, ewma := ewma m1, ml_input := ml_input m1\<rparr>"
      using that unfolding R_def by (elim conjE) (rule same_but_features)
    show "length (ml_input m1) = length (ml_input m)" using that by (simp add: R_def)
  qed
  have len: "R m1 \<Longrightarrow> length (ml_input m1) = length (ml_input m)" for m1 by (auto simp: R_def)
  have self: "R m" by (simp add: R_def)
  show ?thesis
  proof (cases "mi_variant t = Homa")
    case True
    from assms obtain prio m1 where m1: "put_inputs [(5, of_int prio), (6, of_int (pw_getLength env pkt))] m = Inr m1"
      and rest: "rbind (put_input 7 (ct - lastpacket m1) m1) (\<lambda>m.
         let m = m\<lparr>lastpacket := ct, ewma := next_ewma (ml_input m ! 5) m\<rparr>
         in rbind (put_input (7 + 1) (ewma m) m) Inr) = Inr m'"
      unfolding py_features_def by (auto simp: True res_simps) blast
    from m1 have R1: "R m1" using self put by (auto simp: res_simps)
    from rest obtain m2 m3 where m2: "put_input 7 (ct - lastpacket m1) m1 = Inr m2"
      and m3: "m3 = m2\<lparr>lastpacket := ct, ewma := next_ewma (ml_input m2 ! 5) m2\<rparr>"
      and m': "put_input (7 + 1) (ewma m3) m3 = Inr m'" by (auto simp: Let_def res_simps)
    have R3: "R m3" unfolding m3 by (intro upd put [OF m2 R1])
    have "R m'" by (rule put [OF m' R3])
    moreover have "8 < length (ml_input m)" using m' len [OF R3] by (simp add: put_input_Inr)
    ultimately show ?thesis using R by blast
  next
    case False
    with assms obtain m2 m3 m4 where m2: "put_input 5 (ct - lastpacket m) m = Inr m2"
      and m3: "m3 = m2\<lparr>lastpacket := ct, ewma := next_ewma (ml_input m2 ! 5) m2\<rparr>"
      and m4: "put_input 6 (ewma m3) m3 = Inr m4"
      and m': "m' = m4 \<or> put_input 7 (if pw_getEcn pkt then 1 else 0) m4 = Inr m'"
      unfolding py_features_def by (auto simp: Let_def res_simps split: if_splits)
    have "R m3" unfolding m3 by (intro upd put [OF m2 self])
    then have "R m4" by (rule put [OF m4])
    then have "R m'" using m' put by blast
    with False R show ?thesis by blast
  qed
qed


lemma predict_python_shape:
  assumes r: "predict_python env pkt ds dt ss st a i m inc t = Inr (lat, pkt', m')"
    and m: "meta_ok env t m" and py: "\<not> env_cuda env"
  shows "meta_ok env t m' \<and> mi_variant t \<noteq> Homa \<and> (lat = -1 \<or> (\<exists>l. lat = clamp_latency t l)) \<and>
    (\<exists>x. ml_fed m' = ml_fed m @ [x])"
proof -
  let ?ivs = "[(0, of_int (conges_state m)), (1, of_int (if inc then ds else ss)), (2, of_int a),
     (3, of_int i), (4, of_int (if inc then dt else st))] :: (int \<times> rat) list"
  obtain m1 where m1: "put_inputs ?ivs m = Inr m1" and
    r1: "rbind (py_features env pkt (in_seconds (mi_now t)) t m1) (\<lambda>m.
     let m = m\<lparr>ml_fed := ml_fed m @ [take (num_features m) (ml_input m)]\<rparr>
     in case mm_pyValue (ml_model m) (ml_fed m) of
          None \<Rightarrow> Inl RuntimeError
        | Some (drop_predict, latency_predict, ecn_predict) \<Rightarrow>
            if drop_predict > 1 / 2 then Inr (-1, pkt, m)
            else Inr (clamp_latency t latency_predict,
                   if mi_variant t = DCTCP \<and> ecn_predict \<ge> 1 / 2 then pw_setEcn pkt else pkt, m)) = Inr (lat, pkt', m')"
    using r unfolding predict_python_def rbind_eq_Inr [of "put_inputs ?ivs m"] by blast
  have m1': "m1 = m\<lparr>ml_input := set_entries ?ivs (ml_input m)\<rparr>"
    using m1 unfolding put_inputs_eq by (simp split: if_splits)
  have ok1: "meta_ok env t m1" unfolding m1' by (rule meta_ok_input [OF m]) (simp_all add: py)
  from r1 obtain m2 where m2: "py_features env pkt (in_seconds (mi_now t)) t m1 = Inr m2"
    and r2: "(let m = m2\<lparr>ml_fed := ml_fed m2 @ [take (num_features m2) (ml_input m2)]\<rparr>
     in case mm_pyValue (ml_model m) (ml_fed m) of
          None \<Rightarrow> Inl RuntimeError
        | Some (drop_predict, latency_predict, ecn_predict) \<Rightarrow>
            if drop_predict > 1 / 2 then Inr (-1, pkt, m)
            else Inr (clamp_latency t latency_predict,
                   if mi_variant t = DCTCP \<and> ecn_predict \<ge> 1 / 2 then pw_setEcn pkt else pkt, m)) = Inr (lat, pkt', m')"
    unfolding rbind_eq_Inr by blast
  define m3 where "m3 = m2\<lparr>ml_fed := ml_fed m2 @ [take (num_features m2) (ml_input m2)]\<rparr>"
  obtain dp l ep where "mm_pyValue (ml_model m3) (ml_fed m3) = Some (dp, l, ep)"
    using r2 unfolding Let_def m3_def [symmetric] by (cases "mm_pyValue (ml_model m3) (ml_fed m3)") auto
  then have lat: "lat = -1 \<or> (\<exists>l. lat = clamp_latency t l)" and m': "m' = m3"
    using r2 unfolding Let_def m3_def [symmetric] by (auto split: if_splits)
  from py_features_shape [OF m2] obtain lp e xs where
    e: "m2 = m1\<lparr>lastpacket := lp, ewma := e, ml_input := xs\<rparr>" "length xs = length (ml_input m1)"
    and h: "mi_variant t = Homa \<longrightarrow> 8 < length (ml_input m1)" by auto
  have "meta_ok env t m2" unfolding e(1) using ok1 e(2) py by (simp add: meta_ok_def)
  then have "meta_ok env t m'" unfolding m' m3_def by (simp add: meta_ok_fields)
  moreover have "mi_variant t \<noteq> Homa"
    using h ok1 py by (auto simp: meta_ok_def variant_features_def)
  ultimately show ?thesis using lat by (simp add: m' m3_def e(1) m1')
qed

lemma predict_ok:
  assumes r: "predict env pkt ds dt ss st a i m inc t = Inr (lat, pkt', m')"
    and m: "meta_ok env t m" and sizes: "mimic_sizes t"
  shows "meta_ok env t m'" "lat = -1 \<or> min_latency t \<le> lat \<and> lat \<le> max_latency t"
proof -
  have "meta_ok env t m' \<and> (lat = -1 \<or> (\<exists>l. lat = clamp_latency t l))"
    using r predict_cuda_shape [OF _ m _ sizes] predict_python_shape [OF _ m]
    unfolding predict_def by (cases "env_cuda env") (simp_all, blast+)
  then show "meta_ok env t m'" "lat = -1 \<or> min_latency t \<le> lat \<and> lat \<le> max_latency t"
    using clamp_range sizes by (auto simp: mimic_sizes_def)
qed

text \<open>The constructor of Homa makes room for two entries less than its features.\<close>

lemma last_features_overrun:
  assumes "last_features env gap pw m = Inr ivs" "ml_variant m = Homa"
    "int (length xs) = FT_INDEX_LAST m + 4"
  shows "\<not> entries_in ivs xs"
  using last_features_shape(2) [OF assms(1)] assms(2,3) unfolding entries_in_def by fastforce

lemma predict_homa:
  assumes m: "meta_ok env t m" and sizes: "mimic_sizes t" and v: "mi_variant t = Homa"
  shows "\<not> is_ok (predict env pkt ds dt ss st a i m inc t)"
proof (cases "env_cuda env")
  case True
  let ?ptrs = "if inc then onehot ds a i dt m else onehot ss a i st m"
  have L: "0 \<le> FT_INDEX_LAST m" "length (ml_input m) = nat (FT_INDEX_LAST m) + 4" "ml_variant m = Homa"
    using m sizes v True by (simp_all add: meta_ok_def mimic_sizes_def variant_last_def)
  have "\<not> is_ok (predict_cuda env pkt ds dt ss st a i m inc t)"
  proof
    assume "is_ok (predict_cuda env pkt ds dt ss st a i m inc t)"
    then obtain m1 ivs where "m1 = m\<lparr>ml_input := set_entries (map (\<lambda>i. (i, 1)) ?ptrs) (ml_input m)\<rparr>"
      "last_features env (in_seconds (mi_now t) - lastpacket m1) pkt m1 = Inr ivs" "entries_in ivs (ml_input m1)"
      unfolding predict_cuda_def Let_def put_inputs_eq [of _ m] setLastFeatures_eq is_ok_iff
      by (auto simp: res_simps split: if_splits)
    then show False using last_features_overrun [of env _ pkt m1 ivs "ml_input m1"] L by simp
  qed
  with True show ?thesis by (simp add: predict_def)
next
  case False
  show ?thesis
  proof
    assume "is_ok (predict env pkt ds dt ss st a i m inc t)"
    with False obtain lat pkt' m' where "predict_python env pkt ds dt ss st a i m inc t = Inr (lat, pkt', m')"
      by (auto simp: predict_def is_ok_iff)
    then show False using predict_python_shape [OF _ m False] v by blast
  qed
qed


section \<open>Runs\<close>

text \<open>
  A step handles a message that arrives at a gate, or the earliest of the messages the module
  scheduled for itself; time does not pass over a scheduled message.
\<close>

inductive mimic_step :: "mimic_env \<Rightarrow> mimic \<Rightarrow> mimic \<Rightarrow> bool" where
  arrive: "mi_now t \<le> c \<Longrightarrow> \<forall>(time, msg) \<in> set (mi_scheduled t). c \<le> time \<Longrightarrow>
     mi_handleMessage env (MiArrive internal i frame) (t\<lparr>mi_now := c\<rparr>) = Inr t' \<Longrightarrow> mimic_step env t t'"
| self: "mi_scheduled t = xs @ (c, msg) # ys \<Longrightarrow> \<forall>(time, msg) \<in> set (mi_scheduled t). c \<le> time \<Longrightarrow>
     mi_handleMessage env (MiSelf msg) (t\<lparr>mi_now := c, mi_scheduled := xs @ ys\<rparr>) = Inr t' \<Longrightarrow> mimic_step env t t'"

inductive mimic_reaches :: "mimic_env \<Rightarrow> mimic \<Rightarrow> mimic \<Rightarrow> bool" where
  refl: "mimic_reaches env t t"
| step: "mimic_reaches env t u \<Longrightarrow> mimic_step env u v \<Longrightarrow> mimic_reaches env t v"

text \<open>What no message changes.\<close>

definition same_mimic :: "mimic \<Rightarrow> mimic \<Rightarrow> bool" where
  "same_mimic t u \<longleftrightarrow> mi_variant u = mi_variant t \<and> tor_seeds u = tor_seeds t \<and> agg_seeds u = agg_seeds t \<and>
     servers_per_tor u = servers_per_tor t \<and> mi_num_aggs u = mi_num_aggs t \<and> num_agg_intfs u = num_agg_intfs t \<and>
     mi_num_tors u = mi_num_tors t \<and> max_latency u = max_latency t \<and> min_latency u = min_latency t \<and>
     num_intgates u = num_intgates t \<and> num_extgates u = num_extgates t \<and> mi_now u = mi_now t"

lemma mimic_ok_simps [simp]:
  "mimic_sizes (t\<lparr>mi_outs := os\<rparr>) = mimic_sizes t" "mimic_sizes (t\<lparr>mi_scheduled := s\<rparr>) = mimic_sizes t"
  "mimic_sizes (t\<lparr>mi_ing := m\<rparr>) = mimic_sizes t" "mimic_sizes (t\<lparr>mi_egr := m\<rparr>) = mimic_sizes t"
  "mimic_sizes (t\<lparr>mi_now := c\<rparr>) = mimic_sizes t"
  "mimic_ok env (t\<lparr>mi_outs := os\<rparr>) = mimic_ok env t"
  by (simp_all add: mimic_sizes_def mimic_ok_def meta_ok_fields)

lemma mimic_ok_meta:
  "mimic_ok env t \<Longrightarrow> meta_ok env t m \<Longrightarrow> mimic_ok env (t\<lparr>mi_ing := m\<rparr>)"
  "mimic_ok env t \<Longrightarrow> meta_ok env t m \<Longrightarrow> mimic_ok env (t\<lparr>mi_egr := m\<rparr>)"
  by (simp_all add: mimic_ok_def meta_ok_fields)

lemma same_mimic_simps [simp]: "same_mimic t t" "same_mimic t (t\<lparr>mi_outs := os\<rparr>)"
  "same_mimic t (t\<lparr>mi_ing := m\<rparr>)" "same_mimic t (t\<lparr>mi_egr := m\<rparr>)" "same_mimic t (t\<lparr>mi_scheduled := s\<rparr>)"
  "same_mimic (t\<lparr>mi_ing := m\<rparr>) u = same_mimic t u" "same_mimic (t\<lparr>mi_egr := m\<rparr>) u = same_mimic t u"
  by (simp_all add: same_mimic_def)

lemma mi_send_ok:
  "mi_send env b i f t = Inr t' \<Longrightarrow> mimic_ok env t \<Longrightarrow> mimic_ok env t' \<and> same_mimic t t'"
  by (auto simp: mi_send_def Let_def split: if_splits)

lemma mi_schedule_ok:
  "mi_schedule c msg t = Inr t' \<Longrightarrow> mimic_ok env t \<Longrightarrow> mimic_ok env t' \<and> same_mimic t t'"
  by (auto simp: mi_schedule_def mimic_ok_def meta_ok_fields split: if_splits)

text \<open>The shape that both directions share: a prediction, and a frame scheduled unless it is dropped.\<close>

lemma handleEgress_cases:
  assumes "handleEgress env d frame t = Inr t'"
  obtains "getDByte (dg_src d) 1 = getDByte (dg_dest d) 1" "t' = t"
  | flow s a s' i lat pkt m where "getDByte (dg_src d) 1 \<noteq> getDByte (dg_dest d) 1"
      "egress_flow d = Inr flow" "seed_at (tor_seeds t) (getDByte (dg_src d) 2) = Inr s"
      "ecmp_helper (mi_num_aggs t) s flow = Inr a" "seed_at (agg_seeds t) a = Inr s'"
      "ecmp_helper (num_agg_intfs t) s' flow = Inr i"
      "predict_packet_helper env d a i (mi_egr t) False t = Inr (lat, pkt, m)"
      "if lat < 0 then t' = t\<lparr>mi_egr := updateCongesState env (mi_now t) (counted_latency lat) m\<rparr>
       else mi_schedule (mi_now t + env_SimTime env lat) (SelfFrame (frame\<lparr>ef_dest := BROADCAST_MAC,
           ef_content := wrapped pkt,
           ef_kind := to_short (num_intgates t + to_short (int (length (agg_seeds t)) * a + i))\<rparr>))
         (t\<lparr>mi_egr := updateCongesState env (mi_now t) (counted_latency lat) m\<rparr>) = Inr t'"
proof (cases "getDByte (dg_src d) 1 = getDByte (dg_dest d) 1")
  case True
  with assms that(1) show ?thesis by (simp add: handleEgress_def)
next
  case False
  with assms obtain flow s a s' i lat pkt m where *: "egress_flow d = Inr flow"
    "seed_at (tor_seeds t) (getDByte (dg_src d) 2) = Inr s" "ecmp_helper (mi_num_aggs t) s flow = Inr a"
    "seed_at (agg_seeds t) a = Inr s'" "ecmp_helper (num_agg_intfs t) s' flow = Inr i"
    "predict_packet_helper env d a i (mi_egr t) False t = Inr (lat, pkt, m)"
    unfolding handleEgress_def by (auto simp only: if_False rbind_eq_Inr)
  show ?thesis
    by (rule that(2) [OF False *], use assms False * in \<open>simp add: handleEgress_def Let_def\<close>)
      (use assms False * in \<open>simp add: handleEgress_def Let_def split: if_splits\<close>)
qed


lemma handleIngress_cases:
  assumes "handleIngress env d frame g t = Inr t'"
  obtains a i lat pkt m where "num_agg_intfs t \<noteq> 0" "a = g sdiv num_agg_intfs t" "i = g smod num_agg_intfs t"
    "predict_packet_helper env d a i (mi_ing t) False t = Inr (lat, pkt, m)"
    "if lat < 0 then t' = t\<lparr>mi_ing := updateCongesState env (mi_now t) (counted_latency lat) m\<rparr>
     else mi_schedule (mi_now t + env_SimTime env lat) (SelfFrame (frame\<lparr>ef_dest := BROADCAST_MAC,
         ef_content := wrapped pkt,
         ef_kind := to_short (getDByte (dg_dest d) 2 * 4 + getDByte (dg_dest d) 3 div 4)\<rparr>))
       (t\<lparr>mi_ing := updateCongesState env (mi_now t) (counted_latency lat) m\<rparr>) = Inr t'"
proof -
  have n: "num_agg_intfs t \<noteq> 0" using assms by (auto simp: handleIngress_def)
  with assms obtain lat pkt m where *:
    "predict_packet_helper env d (g sdiv num_agg_intfs t) (g smod num_agg_intfs t) (mi_ing t) False t = Inr (lat, pkt, m)"
    unfolding handleIngress_def Let_def by (auto simp only: if_False rbind_eq_Inr)
  show ?thesis
    by (rule that [OF n HOL.refl HOL.refl *]) (use assms n * in \<open>simp add: handleIngress_def Let_def split: if_splits\<close>)
qed

lemma mimic_okD: "mimic_ok env t \<Longrightarrow> mimic_sizes t \<and> meta_ok env t (mi_ing t) \<and> meta_ok env t (mi_egr t)"
  by (simp add: mimic_ok_def)

lemma handleEgress_ok:
  assumes r: "handleEgress env d frame t = Inr t'" and ok: "mimic_ok env t"
  shows "mimic_ok env t' \<and> same_mimic t t'"
  using r
proof (cases rule: handleEgress_cases)
  case (2 flow s a s' i lat pkt m)
  note ok' = mimic_okD [OF ok]
  have "meta_ok env t m"
    by (rule predict_ok(1) [OF 2(7) [unfolded predict_packet_helper_def]]) (use ok' in simp_all)
  then have u: "mimic_ok env (t\<lparr>mi_egr := updateCongesState env (mi_now t) (counted_latency lat) m\<rparr>)"
    by (intro mimic_ok_meta(2) [OF ok] meta_ok_update)
  show ?thesis
  proof (cases "lat < 0")
    case False
    note sched = 2(8) [unfolded if_not_P [OF False]]
    from mi_schedule_ok [OF sched u] show ?thesis by simp
  qed (use 2(8) u in simp)
qed (use ok in simp)

lemma handleIngress_ok:
  assumes r: "handleIngress env d frame g t = Inr t'" and ok: "mimic_ok env t"
  shows "mimic_ok env t' \<and> same_mimic t t'"
  using r
proof (cases rule: handleIngress_cases)
  case (1 a i lat pkt m)
  note ok' = mimic_okD [OF ok]
  have "meta_ok env t m"
    by (rule predict_ok(1) [OF 1(4) [unfolded predict_packet_helper_def]]) (use ok' in simp_all)
  then have u: "mimic_ok env (t\<lparr>mi_ing := updateCongesState env (mi_now t) (counted_latency lat) m\<rparr>)"
    by (intro mimic_ok_meta(1) [OF ok] meta_ok_update)
  show ?thesis
  proof (cases "lat < 0")
    case False
    note sched = 1(5) [unfolded if_not_P [OF False]]
    from mi_schedule_ok [OF sched u] show ?thesis by simp
  qed (use 1(5) u in simp)
qed

lemma handle_presched_ok:
  assumes r: "handle_presched env inc pm t = Inr t'" and ok: "mimic_ok env t"
  shows "mimic_ok env t' \<and> same_mimic t t'"
proof -
  define m where "m = (if inc then mi_ing t else mi_egr t)"
  note ok' = mimic_okD [OF ok]
  have mok: "meta_ok env t m" using ok' by (simp add: m_def)
  from r obtain lat pkt m' where p: "predict env (PreschedWrapper pm) (ps_dst_server pm) (ps_dst_rack pm)
      (ps_src_server pm) (ps_src_rack pm) (ps_agg pm) (ps_agg_intf pm) m inc t = Inr (lat, pkt, m')"
    and t': "t' = (if inc then t\<lparr>mi_ing := updateCongesState env (mi_now t) (counted_latency lat) m'\<rparr>
      else t\<lparr>mi_egr := updateCongesState env (mi_now t) (counted_latency lat) m'\<rparr>)"
    by (auto simp: m_def [symmetric] res_simps Let_def)
  have "meta_ok env t (updateCongesState env (mi_now t) (counted_latency lat) m')"
    using predict_ok(1) [OF p mok] ok' by (simp add: meta_ok_update)
  then show ?thesis using mimic_ok_meta [OF ok] by (simp add: t')
qed

lemma handleMessage_ok:
  assumes r: "mi_handleMessage env msg t = Inr t'" and ok: "mimic_ok env t"
  shows "mimic_ok env t' \<and> same_mimic t t'"
proof (cases msg)
  case (MiSelf self)
  then show ?thesis using r ok
    by (cases self) (auto simp del: handle_presched.simps simp: routeMsg_def Let_def
      dest: handle_presched_ok mi_send_ok split: if_splits)
next
  case (MiArrive internal i frame)
  then show ?thesis using r ok
    by (cases "ef_content frame") (auto simp: handleARPReq_def Let_def
      dest: handleEgress_ok handleIngress_ok mi_send_ok split: if_splits)
qed (use r in simp)

lemma mimic_step_ok:
  assumes "mimic_step env t t'" "mimic_ok env t"
  shows "mimic_ok env t'" and "mi_variant t' = mi_variant t"
proof -
  have "mimic_ok env t' \<and> mi_variant t' = mi_variant t"
    using assms
  proof cases
    case (arrive c internal i frame)
    have "mimic_ok env (t\<lparr>mi_now := c\<rparr>)"
      using assms(2) arrive(2) by (auto simp: mimic_ok_def meta_ok_fields)
    from handleMessage_ok [OF arrive(3) this] show ?thesis by (simp add: same_mimic_def)
  next
    case (self xs c msg ys)
    have "mimic_ok env (t\<lparr>mi_now := c, mi_scheduled := xs @ ys\<rparr>)"
      using assms(2) self(1,2) by (auto simp: mimic_ok_def meta_ok_fields)
    from handleMessage_ok [OF self(3) this] show ?thesis by (simp add: same_mimic_def)
  qed
  then show "mimic_ok env t'" "mi_variant t' = mi_variant t" by simp_all
qed

lemma mimic_reaches_ok:
  "mimic_reaches env t u \<Longrightarrow> mimic_ok env t \<Longrightarrow> mimic_ok env u \<and> mi_variant u = mi_variant t"
  by (induction rule: mimic_reaches.induct) (auto dest: mimic_step_ok)


section \<open>The start\<close>

lemma mi_schedule_only:
  "mi_schedule c msg t = Inr t' \<Longrightarrow> t' = t\<lparr>mi_scheduled := mi_scheduled t @ [(c, msg)]\<rparr> \<and> mi_now t \<le> c"
  by (auto simp: mi_schedule_def split: if_splits)

definition only_schedules :: "mimic \<Rightarrow> mimic \<Rightarrow> bool" where
  "only_schedules t t' \<longleftrightarrow> t' = t\<lparr>mi_scheduled := mi_scheduled t'\<rparr> \<and>
     ((\<forall>(c, msg) \<in> set (mi_scheduled t). mi_now t \<le> c) \<longrightarrow> (\<forall>(c, msg) \<in> set (mi_scheduled t'). mi_now t \<le> c))"

lemma only_schedules_refl: "only_schedules t t"
  by (simp add: only_schedules_def)

lemma only_schedules_step:
  assumes "mi_schedule c msg t = Inr u" "only_schedules u v"
  shows "only_schedules t v"
proof -
  from mi_schedule_only [OF assms(1)] have u: "u = t\<lparr>mi_scheduled := mi_scheduled t @ [(c, msg)]\<rparr>" "mi_now t \<le> c" by auto
  have "v = t\<lparr>mi_scheduled := mi_scheduled v\<rparr>" using assms(2) by (simp add: only_schedules_def u(1))
  moreover have "(\<forall>(c, msg) \<in> set (mi_scheduled t). mi_now t \<le> c) \<longrightarrow> (\<forall>(c, msg) \<in> set (mi_scheduled v). mi_now t \<le> c)"
    using assms(2) u(2) by (simp add: only_schedules_def u(1))
  ultimately show ?thesis unfolding only_schedules_def by blast
qed

lemma only_schedules_trans:
  assumes "only_schedules t u" "only_schedules u v"
  shows "only_schedules t v"
proof -
  note tu = assms(1) [unfolded only_schedules_def] and uv = assms(2) [unfolded only_schedules_def]
  have n: "mi_now u = mi_now t" using arg_cong [OF conjunct1 [OF tu], of mi_now] by simp
  have "u\<lparr>mi_scheduled := mi_scheduled v\<rparr> = t\<lparr>mi_scheduled := mi_scheduled v\<rparr>"
    using arg_cong [OF conjunct1 [OF tu], of "mi_scheduled_update (\<lambda>_. mi_scheduled v)"] by simp
  with conjunct1 [OF uv] have "v = t\<lparr>mi_scheduled := mi_scheduled v\<rparr>" by (rule trans)
  moreover have "(\<forall>(c, msg) \<in> set (mi_scheduled t). mi_now t \<le> c) \<longrightarrow> (\<forall>(c, msg) \<in> set (mi_scheduled v). mi_now t \<le> c)"
    using conjunct2 [OF tu] conjunct2 [OF uv] unfolding n by blast
  ultimately show ?thesis unfolding only_schedules_def by (rule conjI)
qed

lemma traffic_loop_schedules:
  "traffic_loop n env tr inc k j cur nf nt ls act t = Inr t' \<Longrightarrow> only_schedules t t'"
proof (induction n arbitrary: k j cur nf nt ls act t)
  case 0
  then show ?case by (simp add: only_schedules_refl split: if_splits)
next
  case (Suc n)
  show ?case
  proof (cases "nf = None \<and> act = []")
    case True
    then show ?thesis using Suc.prems by (simp add: only_schedules_refl)
  next
    case False
    obtain nf' nt' ls' act1 where af: "add_flows tr (cur + tr_samples tr k) nf nt ls act = (nf', nt', ls', act1)"
      by (cases "add_flows tr (cur + tr_samples tr k) nf nt ls act") auto
    from Suc.prems False obtain act2 where
      r: "(if act2 = [] then traffic_loop n env tr inc (Suc k) j (cur + tr_samples tr k) nf' nt' ls' act2 t
           else rbind (flow_packet (act2 ! (tr_rand tr j mod length act2))) (\<lambda>pkt. case pkt of
                  None \<Rightarrow> traffic_loop n env tr inc (Suc k) (Suc j) (cur + tr_samples tr k) nf' nt' ls' act2 t
                | Some (pm, f) \<Rightarrow>
                    rbind (mi_schedule (env_SimTime env (cur + tr_samples tr k)) (Prescheduled inc pm) t) (\<lambda>t.
                    traffic_loop n env tr inc (Suc k) (Suc j) (cur + tr_samples tr k) nf' nt' ls'
                      (act2[tr_rand tr j mod length act2 := f]) t))) = Inr t'"
      unfolding traffic_loop.simps Let_def af by (auto simp only: if_False rbind_eq_Inr prod.case)
    show ?thesis
    proof (cases "act2 = []")
      case True
      with r show ?thesis by (simp add: Suc.IH)
    next
      case False
      with r obtain pkt where p: "(case pkt of
                  None \<Rightarrow> traffic_loop n env tr inc (Suc k) (Suc j) (cur + tr_samples tr k) nf' nt' ls' act2 t
                | Some (pm, f) \<Rightarrow>
                    rbind (mi_schedule (env_SimTime env (cur + tr_samples tr k)) (Prescheduled inc pm) t) (\<lambda>t.
                    traffic_loop n env tr inc (Suc k) (Suc j) (cur + tr_samples tr k) nf' nt' ls'
                      (act2[tr_rand tr j mod length act2 := f]) t)) = Inr t'"
        by (auto simp only: if_False rbind_eq_Inr)
      then show ?thesis by (cases pkt) (auto simp: res_simps Suc.IH dest!: Suc.IH intro: only_schedules_step)
    qed
  qed
qed

lemma traffic_schedules:
  "loadAndScheduleInterMimicTraffic n env tr file inc t = Inr t' \<Longrightarrow> only_schedules t t'"
  unfolding loadAndScheduleInterMimicTraffic_def
  by (auto simp: res_simps split: option.splits list.splits dest: traffic_loop_schedules)

definition params_ok :: "mimic_params \<Rightarrow> bool" where
  "params_ok p \<longleftrightarrow> 0 \<le> par_servers_per_tor p \<and> 0 \<le> par_num_aggs p \<and> 0 \<le> par_num_agg_intfs p \<and>
     0 \<le> par_num_tors p \<and> 0 \<le> par_max_queue_len p \<and> 0 \<le> par_packet_size p \<and> 0 < par_link_speed p"

lemma meta_ok_new:
  assumes "mi_variant t = v" "0 \<le> servers_per_tor t" "0 \<le> mi_num_aggs t" "0 \<le> num_agg_intfs t" "0 \<le> mi_num_tors t"
  shows "meta_ok env t (MLMetadata env v model (servers_per_tor t) (mi_num_aggs t) (num_agg_intfs t) (mi_num_tors t) c)"
  using assms by (simp add: meta_ok_def MLMetadata_def Let_def)

lemma mi_initialize_ok:
  assumes r: "mi_initialize n env tri tre p c = Inr t" and p: "params_ok p"
  shows "mimic_ok env t"
proof -
  obtain k where k: "par_intermimic_lines p = Some k" "\<not> k < 2"
    using r by (auto simp: mi_initialize_def split: option.splits if_splits)
  with r obtain t1 t2 t3 v where
    l1: "loadAndScheduleInterMimicTraffic n env tri (par_ing_traffic p) True (mimic_base env p c) = Inr t1"
    and l2: "loadAndScheduleInterMimicTraffic n env tre (par_egr_traffic p) False t1 = Inr t2"
    and t3: "parse_ecmp_seeds (par_torEcmpSeeds p) (par_aggEcmpSeeds p) t2 = Inr t3"
    and t: "t = t3\<lparr>mi_variant := v,
        mi_ing := MLMetadata env v (par_ing_model p) (servers_per_tor t3) (mi_num_aggs t3) (num_agg_intfs t3) (mi_num_tors t3) c,
        mi_egr := MLMetadata env v (par_egr_model p) (servers_per_tor t3) (mi_num_aggs t3) (num_agg_intfs t3) (mi_num_tors t3) c\<rparr>"
    unfolding mi_initialize_def Let_def k option.case if_not_P [OF k(2)] rbind_eq_Inr by blast
  note t1 = traffic_schedules [OF l1] and t2 = traffic_schedules [OF l2]
  from only_schedules_trans [OF t1 t2] have os: "only_schedules (mimic_base env p c) t2" .
  then have t2': "t2 = (mimic_base env p c)\<lparr>mi_scheduled := mi_scheduled t2\<rparr>"
    and sch: "\<forall>(d, msg) \<in> set (mi_scheduled t2). c \<le> d"
    by (simp_all add: only_schedules_def mimic_base_def Let_def)
  from t3 have t3': "\<exists>ts as. t3 = t2\<lparr>tor_seeds := ts, agg_seeds := as\<rparr>"
    and lens: "int (length (agg_seeds t3)) = mi_num_aggs t3" "int (length (tor_seeds t3)) = mi_num_tors t3"
    by (auto simp: parse_ecmp_seeds_def Let_def res_simps)
  then obtain ts as where t3'': "t3 = t2\<lparr>tor_seeds := ts, agg_seeds := as\<rparr>" by blast
  have fields: "servers_per_tor t3 = par_servers_per_tor p" "mi_num_aggs t3 = par_num_aggs p"
    "num_agg_intfs t3 = par_num_agg_intfs p" "mi_num_tors t3 = par_num_tors p"
    "min_latency t3 = par_min_link_latency p"
    "max_latency t3 = par_min_link_latency p + of_int (par_max_queue_len p) * par_packet_size p * 8 / par_link_speed p * 2"
    "mi_now t3 = c" "mi_scheduled t3 = mi_scheduled t2"
    unfolding t3'' by (subst t2', simp add: mimic_base_def Let_def)+
  have "0 \<le> of_int (par_max_queue_len p) * par_packet_size p * 8 / par_link_speed p"
    using p by (simp add: params_ok_def)
  then have "mimic_sizes t3" using p lens fields by (simp add: mimic_sizes_def params_ok_def)
  then show ?thesis using p sch fields meta_ok_new unfolding t mimic_ok_def
    by (auto simp: params_ok_def mimic_sizes_def meta_ok_def MLMetadata_def Let_def)
qed

end
