(* ===== verification/MimicFlows.thy ===== *)
theory MimicFlows
  imports MimicInv
begin

text \<open>
  The background traffic a \<open>MimicDCN\<close> schedules at its start: which flows stay in the heap, and that
  the loop over the traffic file ends.  Of \<open>push_heap\<close> and \<open>pop_heap\<close> only what the standard promises
  for heaps is assumed.
\<close>

section \<open>The heap of flows\<close>

definition is_heap :: "mi_flow list \<Rightarrow> bool" where
  "is_heap l \<longleftrightarrow> (\<forall>i. 0 < i \<longrightarrow> i < length l \<longrightarrow> \<not> active_flow_comp (l ! ((i - 1) div 2)) (l ! i))"

definition heap_ops :: "mimic_traffic \<Rightarrow> bool" where
  "heap_ops tr \<longleftrightarrow>
     (\<forall>l f. is_heap l \<longrightarrow> mset (tr_push_heap tr (l @ [f])) = mset (l @ [f]) \<and> is_heap (tr_push_heap tr (l @ [f]))) \<and>
     (\<forall>l. l \<noteq> [] \<and> is_heap l \<longrightarrow> mset (tr_pop_heap tr l) = mset l \<and>
        last (tr_pop_heap tr l) = hd l \<and> is_heap (butlast (tr_pop_heap tr l)))"

lemma is_heap_Nil [simp]: "is_heap []"
  by (simp add: is_heap_def)

lemma heap_front:
  assumes "is_heap l" "i < length l"
  shows "l ! i ! 1 \<le> l ! 0 ! 1"
  using assms(2)
proof (induction i rule: less_induct)
  case (less i)
  show ?case
  proof (cases "i = 0")
    case False
    then have p: "(i - 1) div 2 < i" by simp
    then have "l ! ((i - 1) div 2) ! 1 \<le> l ! 0 ! 1" using less.IH [OF p] less.prems by simp
    moreover have "l ! i ! 1 \<le> l ! ((i - 1) div 2) ! 1"
      using assms(1) False less.prems by (simp add: is_heap_def active_flow_comp_def not_less)
    ultimately show ?thesis by simp
  qed simp
qed

lemma heap_front_all: "is_heap l \<Longrightarrow> f \<in> set l \<Longrightarrow> f ! 1 \<le> hd l ! 1"
  using heap_front [of l] by (metis hd_conv_nth in_set_conv_nth length_greater_0_conv length_pos_if_in_set)

lemma heap_popped_step:
  assumes "heap_ops tr" "is_heap l" "l \<noteq> []"
  shows "mset l = add_mset (hd l) (mset (butlast (tr_pop_heap tr l)))" "is_heap (butlast (tr_pop_heap tr l))"
proof -
  let ?p = "tr_pop_heap tr l"
  have p: "mset ?p = mset l" "last ?p = hd l" "is_heap (butlast ?p)"
    using assms by (simp_all add: heap_ops_def)
  then have "?p \<noteq> []" using assms(3) by auto
  then have "?p = butlast ?p @ [hd l]" using p(2) append_butlast_last_id by metis
  then have "mset ?p = add_mset (hd l) (mset (butlast ?p))" by (metis mset.simps(1,2) mset_append union_mset_add_mset_right add.right_neutral)
  with p show "mset l = add_mset (hd l) (mset (butlast ?p))" "is_heap (butlast ?p)" by simp_all
qed

lemma expire_all_or_none:
  assumes "heap_ops tr" "is_heap act" "\<forall>f \<in> set act. 1 < length f" "length act \<le> n"
  shows "expire_flows n tr c act = Inr (if \<forall>f \<in> set act. f ! 1 \<le> c then [] else act)"
  using assms(2-)
proof (induction n arbitrary: act)
  case (Suc n)
  show ?case
  proof (cases act)
    case (Cons f fs)
    let ?rest = "butlast (tr_pop_heap tr act)"
    note pop = heap_popped_step [OF assms(1) Suc.prems(1), folded Cons]
    have at: "mf_at 1 f = Inr (f ! 1)" using Suc.prems(2) Cons by (simp add: mf_at_def)
    show ?thesis
    proof (cases "f ! 1 \<le> c")
      case False
      then show ?thesis using at Cons by auto
    next
      case True
      have rest: "mset act = add_mset f (mset ?rest)" "is_heap ?rest" using pop Cons by simp_all
      then have "length act = Suc (length ?rest)" "set act = insert f (set ?rest)"
        by (metis size_mset size_add_mset, metis set_mset_mset set_mset_add_mset_insert)
      moreover have gone: "\<forall>g \<in> set act. g ! 1 \<le> c"
        using heap_front_all [OF Suc.prems(1)] True Cons by fastforce
      ultimately have "expire_flows n tr c ?rest = Inr []"
        using Suc.IH [of ?rest] Suc.prems rest(2) by simp
      then show ?thesis using at True Cons gone by simp
    qed
  qed simp
qed simp

section \<open>The loop\<close>

text \<open>Flows and lines whose start and end are not after \<open>b\<close>.\<close>

definition flow_by :: "rat \<Rightarrow> mi_flow \<Rightarrow> bool" where
  "flow_by b f \<longleftrightarrow> 10 \<le> length f \<and> f ! 0 \<le> b \<and> f ! 1 \<le> b"

definition line_by :: "rat \<Rightarrow> rat list \<Rightarrow> bool" where
  "line_by b l \<longleftrightarrow> 9 \<le> length l \<and> l ! 0 \<le> b \<and> l ! 1 \<le> b"

lemma flow_of_line: "line_by b l \<Longrightarrow> flow_by b (l @ [0])"
  by (auto simp: flow_by_def line_by_def nth_append)

definition next_by :: "rat \<Rightarrow> mi_flow option \<Rightarrow> rat \<Rightarrow> bool" where
  "next_by b nf nt \<longleftrightarrow> (case nf of None \<Rightarrow> True | Some f \<Rightarrow> flow_by b f \<and> nt = f ! 0)"

lemma heap_pushed:
  assumes "heap_ops tr" "is_heap act"
  shows "is_heap (tr_push_heap tr (act @ [f]))" "set (tr_push_heap tr (act @ [f])) = insert f (set act)"
proof -
  have p: "mset (tr_push_heap tr (act @ [f])) = mset (act @ [f])" "is_heap (tr_push_heap tr (act @ [f]))"
    using assms unfolding heap_ops_def by blast+
  then show "is_heap (tr_push_heap tr (act @ [f]))" by simp
  show "set (tr_push_heap tr (act @ [f])) = insert f (set act)" using arg_cong [OF p(1), of set_mset] by simp
qed

lemma add_flows_ok:
  assumes "heap_ops tr" "next_by b nf nt" "\<forall>l \<in> set ls. line_by b l" "is_heap act" "\<forall>f \<in> set act. flow_by b f"
    "add_flows tr c nf nt ls act = (nf', nt', ls', act')"
  shows "next_by b nf' nt' \<and> (\<forall>l \<in> set ls'. line_by b l) \<and> is_heap act' \<and> (\<forall>f \<in> set act'. flow_by b f) \<and>
    (b \<le> c \<longrightarrow> nf' = None)"
  using assms
proof (induction tr c nf nt ls act arbitrary: nf' nt' ls' act' rule: add_flows.induct)
  case (1 tr c nt ls act)
  then show ?case by auto
next
  case (2 tr c f nt act)
  note push = heap_pushed [OF 2(1,4), of f]
  show ?case using 2 push by (auto simp: next_by_def flow_by_def split: if_splits)
next
  case (3 tr c f nt l ls act)
  note push = heap_pushed [OF 3(2,5), of f]
  show ?case
  proof (cases "nt \<le> c")
    case True
    have f: "flow_by b f" "flow_by b (l @ [0])" using 3(3,4) flow_of_line [of b l] by (auto simp: next_by_def)
    show ?thesis
      by (rule 3(1) [OF True 3(2)]) (use 3 push f True in \<open>auto simp: next_by_def\<close>)
  next
    case False
    then show ?thesis using 3 by (auto simp: next_by_def flow_by_def)
  qed
qed

lemma flow_packet_ok:
  assumes "flow_by b f"
  shows "\<exists>r. flow_packet f = Inr r \<and>
    (\<forall>pm g. r = Some (pm, g) \<longrightarrow> flow_by b g \<and> g ! 1 = f ! 1 \<and> ps_length pm \<le> 1472)"
proof -
  have len: "10 \<le> length f" using assms by (simp add: flow_by_def)
  then have at: "mf_at i f = Inr (f ! i)" if "i < 10" for i using that by (simp add: mf_at_def)
  show ?thesis
    using assms len by (auto simp: flow_packet_def at Let_def flow_by_def)
qed

lemma is_heap_update:
  assumes "is_heap act" "i < length act" "g ! 1 = act ! i ! 1"
  shows "is_heap (act[i := g])"
  unfolding is_heap_def
proof (intro allI impI)
  fix j assume j: "0 < j" "j < length (act[i := g])"
  have same: "act[i := g] ! k ! 1 = act ! k ! 1" if "k < length act" for k using assms(3) that by (cases "k = i") simp_all
  have "(j - 1) div 2 < length act" using j by simp
  then show "\<not> active_flow_comp (act[i := g] ! ((j - 1) div 2)) (act[i := g] ! j)"
    using assms(1) j same by (simp add: active_flow_comp_def is_heap_def)
qed

definition adds_traffic :: "bool \<Rightarrow> mimic \<Rightarrow> mimic \<Rightarrow> bool" where
  "adds_traffic inc t t' \<longleftrightarrow> (\<exists>new. t' = t\<lparr>mi_scheduled := mi_scheduled t @ new\<rparr> \<and>
     (\<forall>(d, msg) \<in> set new. mi_now t \<le> d \<and> (\<exists>pm. msg = Prescheduled inc pm \<and> ps_length pm \<le> 1472)))"

lemma adds_traffic_refl: "adds_traffic inc t t"
  unfolding adds_traffic_def by (rule exI [of _ "[]"]) simp

lemma adds_traffic_step:
  assumes "adds_traffic inc (t\<lparr>mi_scheduled := mi_scheduled t @ [(d, Prescheduled inc pm)]\<rparr>) t'" "mi_now t \<le> d" "ps_length pm \<le> 1472"
  shows "adds_traffic inc t t'"
proof -
  obtain new where "t' = t\<lparr>mi_scheduled := (mi_scheduled t @ [(d, Prescheduled inc pm)]) @ new\<rparr>"
      "\<forall>(d, msg) \<in> set new. mi_now t \<le> d \<and> (\<exists>pm. msg = Prescheduled inc pm \<and> ps_length pm \<le> 1472)"
    using assms(1) unfolding adds_traffic_def by auto
  then show ?thesis unfolding adds_traffic_def using assms(2,3)
    by (intro exI [of _ "(d, Prescheduled inc pm) # new"]) auto
qed

lemma traffic_loop_ends:
  assumes "heap_ops tr" "\<forall>k. 0 \<le> tr_samples tr k"
    "0 \<le> c" "\<forall>x \<ge> 0. mi_now t \<le> env_SimTime env x"
    "b \<le> c + (\<Sum>i < m. tr_samples tr (k + i))"
    "next_by b nf nt" "\<forall>l \<in> set ls. line_by b l" "is_heap act" "\<forall>f \<in> set act. flow_by b f"
  shows "\<exists>t'. (\<forall>n > m. traffic_loop n env tr inc k j c nf nt ls act t = Inr t') \<and> adds_traffic inc t t'"
  using assms(3-)
proof (induction m arbitrary: c k j nf nt ls act t)
  case 0
  let ?c = "c + tr_samples tr k"
  have c: "b \<le> ?c" using 0(3) assms(2) by (simp add: add_increasing2)
  obtain nf' nt' ls' act' where add: "add_flows tr ?c nf nt ls act = (nf', nt', ls', act')"
    by (metis prod_cases4)
  note ok = add_flows_ok [OF assms(1) 0(4-7) add]
  then have "nf' = None" "\<forall>f \<in> set act'. 1 < length f \<and> f ! 1 \<le> ?c" using c by (auto simp: flow_by_def)
  then have ex: "expire_flows (length act') tr ?c act' = Inr []"
    using expire_all_or_none [OF assms(1), of act' "length act'" ?c] ok by simp
  have "traffic_loop (Suc n) env tr inc k j c nf nt ls act t = Inr t" for n
    using \<open>nf' = None\<close> by (cases n) (simp_all add: add ex Let_def)
  then show ?case using adds_traffic_refl by (metis gr0_conv_Suc)
next
  case (Suc m)
  let ?c = "c + tr_samples tr k"
  obtain nf' nt' ls' act1 where add: "add_flows tr ?c nf nt ls act = (nf', nt', ls', act1)"
    by (metis prod_cases4)
  note ok = add_flows_ok [OF assms(1) Suc.prems(4-7) add]
  define act' where "act' = (if \<forall>f \<in> set act1. f ! 1 \<le> ?c then [] else act1)"
  have ex: "expire_flows (length act1) tr ?c act1 = Inr act'"
    unfolding act'_def using expire_all_or_none [OF assms(1), of act1 "length act1" ?c] ok by (force simp: flow_by_def)
  have act': "is_heap act'" "\<forall>f \<in> set act'. flow_by b f" using ok by (simp_all add: act'_def)
  have c0: "0 \<le> ?c" using Suc.prems(1) assms(2) by simp
  have sum: "b \<le> ?c + (\<Sum>i < m. tr_samples tr (Suc k + i))"
    using Suc.prems(3) by (simp add: sum.lessThan_Suc_shift add.assoc del: sum.lessThan_Suc)
  note IH = Suc.IH [OF c0 _ sum]
  show ?case
  proof (cases "nf = None \<and> act = []")
    case True
    then have "traffic_loop n env tr inc k j c nf nt ls act t = Inr t" for n by (cases n) simp_all
    then show ?thesis using adds_traffic_refl by blast
  next
    case False
    let ?i = "tr_rand tr j mod length act'"
    have run: "traffic_loop (Suc n) env tr inc k j c nf nt ls act t =
       (if act' = [] then traffic_loop n env tr inc (Suc k) j ?c nf' nt' ls' act' t
        else rbind (flow_packet (act' ! ?i)) (\<lambda>pkt. case pkt of
               None \<Rightarrow> traffic_loop n env tr inc (Suc k) (Suc j) ?c nf' nt' ls' act' t
             | Some (pm, f) \<Rightarrow> rbind (mi_schedule (env_SimTime env ?c) (Prescheduled inc pm) t) (\<lambda>t.
                 traffic_loop n env tr inc (Suc k) (Suc j) ?c nf' nt' ls' (act'[?i := f]) t)))" for n
      unfolding traffic_loop.simps if_not_P [OF False] Let_def add prod.case ex rbind_Inr by (rule HOL.refl)
    have shift: "?thesis" if "\<And>n. traffic_loop (Suc n) env tr inc k j c nf nt ls act t = r n"
      "\<exists>t'. (\<forall>n > m. r n = Inr t') \<and> adds_traffic inc t t'" for r
      using that by (metis Suc_less_eq2)
    show ?thesis
    proof (cases "act' = []")
      case True
      show ?thesis
        by (rule shift [OF run]) (use IH [OF Suc.prems(2) _ _ act'] ok True in simp)
    next
      case False
      then have i: "?i < length act'" by simp
      obtain r where r: "flow_packet (act' ! ?i) = Inr r"
          "\<And>pm g. r = Some (pm, g) \<Longrightarrow> flow_by b g \<and> g ! 1 = act' ! ?i ! 1 \<and> ps_length pm \<le> 1472"
        using flow_packet_ok [of b "act' ! ?i"] act'(2) i by auto
      show ?thesis
      proof (cases r)
        case None
        show ?thesis
          by (rule shift [OF run]) (use IH [OF Suc.prems(2) _ _ act'] ok None r(1) False in simp)
      next
        case (Some p)
        obtain pm g where p: "r = Some (pm, g)" using Some by (cases p) simp
        note g = r(2) [OF p]
        define d where "d = env_SimTime env ?c"
        let ?t = "t\<lparr>mi_scheduled := mi_scheduled t @ [(d, Prescheduled inc pm)]\<rparr>"
        have now: "mi_now t \<le> d" using Suc.prems(2) c0 by (simp add: d_def)
        then have sch: "mi_schedule (env_SimTime env ?c) (Prescheduled inc pm) t = Inr ?t" by (simp add: mi_schedule_def d_def)
        have upd: "is_heap (act'[?i := g])" "\<forall>f \<in> set (act'[?i := g]). flow_by b f"
          using is_heap_update [OF act'(1) i, of g] g act'(2) set_update_subset_insert [of act' ?i g] by blast+
        have "\<exists>t'. (\<forall>n > m. traffic_loop n env tr inc (Suc k) (Suc j) ?c nf' nt' ls' (act'[?i := g]) ?t = Inr t') \<and> adds_traffic inc ?t t'"
          using IH [of ?t nf' nt' ls', OF _ _ _ upd] Suc.prems(2) ok by simp
        then have "\<exists>t'. (\<forall>n > m. traffic_loop n env tr inc (Suc k) (Suc j) ?c nf' nt' ls' (act'[?i := g]) ?t = Inr t') \<and> adds_traffic inc t t'"
          using adds_traffic_step [OF _ now] g by blast
        then show ?thesis
          by (intro shift [OF run]) (simp add: False r(1) p sch)
      qed
    qed
  qed
qed

section \<open>Properties\<close>

text \<open>
  The flows of the background traffic are kept in a heap with the last to end in front, and
  only the front is asked whether it is over: flows that have ended stay, and go on sending, until
  all of them have ended; then all are removed.
\<close>

theorem ended_flows_stay:
  assumes "heap_ops tr" and "is_heap act" and "\<forall>f \<in> set act. 1 < length f"
  shows "expire_flows (length act) tr currTime act =
    Inr (if \<forall>f \<in> set act. f ! 1 \<le> currTime then [] else act)"
  using expire_all_or_none [OF assms le_refl] .

text \<open>
  C38: For any traffic file whose lines have all their fields the loop over it ends, as long as the
  packet times go on for ever, and a bound that is large enough always gives the same result: the
  state in which only messages for prescheduled packets of this direction were added, none of them
  before the present and none longer than a packet.  Flows end here although one that has ended is
  only removed together with all others.
\<close>

theorem background_traffic_ends:
  assumes "heap_ops tr" and "\<forall>k. 0 \<le> tr_samples tr k" "\<forall>b. \<exists>m. b \<le> (\<Sum>i < m. tr_samples tr i)"
    and "\<forall>x \<ge> 0. mi_now t \<le> env_SimTime env x" and "\<forall>l \<in> set lines. 9 \<le> length l"
  shows "\<exists>m t' new. (\<forall>n > m. loadAndScheduleInterMimicTraffic n env tr (Some lines) inc t = Inr t') \<and>
    t' = t\<lparr>mi_scheduled := mi_scheduled t @ new\<rparr> \<and>
    (\<forall>(d, msg) \<in> set new. mi_now t \<le> d \<and> (\<exists>pm. msg = Prescheduled inc pm \<and> ps_length pm \<le> 1472))"
proof -
  define b where "b = Max (insert 0 ((\<lambda>l. l ! 0) ` set lines \<union> (\<lambda>l. l ! 1) ` set lines))"
  have le: "l ! 0 \<le> b" "l ! 1 \<le> b" if "l \<in> set lines" for l
    using that unfolding b_def by (auto intro!: Max_ge)
  have lines: "\<forall>l \<in> set lines. line_by b l" using assms(5) le by (simp add: line_by_def)
  obtain m where m: "b \<le> 0 + (\<Sum>i < m. tr_samples tr (0 + i))" using assms(3) by auto
  have "\<exists>t'. (\<forall>n > m. loadAndScheduleInterMimicTraffic n env tr (Some lines) inc t = Inr t') \<and> adds_traffic inc t t'"
  proof (cases lines)
    case Nil
    then show ?thesis
      using traffic_loop_ends [OF assms(1,2) _ assms(4) m, of None 0 "[]" "[]" inc 0]
      by (simp add: loadAndScheduleInterMimicTraffic_def next_by_def)
  next
    case (Cons l ls)
    have l: "flow_by b (l @ [0])" "(l @ [0]) ! 0 = l ! 0" "mf_at 0 l = Inr (l ! 0)"
      using lines flow_of_line [of b l] assms(5) Cons by (auto simp: nth_append mf_at_def)
    then have nb: "next_by b (Some (l @ [0])) (l ! 0)" by (simp add: next_by_def)
    show ?thesis
      using traffic_loop_ends [OF assms(1,2) _ assms(4) m nb, of ls "[]" inc 0] lines
      by (simp add: loadAndScheduleInterMimicTraffic_def Cons l(3))
  qed
  then show ?thesis unfolding adds_traffic_def by blast
qed

section \<open>Some traffic\<close>

definition traffic0 :: mimic_traffic where
  "traffic0 = \<lparr>tr_samples = (\<lambda>_. 1), tr_rand = (\<lambda>_. 0), tr_push_heap = rev \<circ> sort_key (\<lambda>f. f ! 1),
     tr_pop_heap = (\<lambda>l. rev (sort_key (\<lambda>f. f ! 1) (tl l)) @ [hd l])\<rparr>"

lemma sorted_is_heap: "is_heap (rev (sort_key (\<lambda>f. f ! 1) l))"
  unfolding is_heap_def
proof (intro allI impI)
  let ?s = "sort_key (\<lambda>f :: mi_flow. f ! 1) l"
  fix i assume i: "0 < i" "i < length (rev ?s)"
  let ?p = "(i - 1) div 2"
  have p: "?p \<le> i" "?p < length ?s" using i by (simp_all add: order.strict_trans1)
  have "sorted (map (\<lambda>f :: mi_flow. f ! 1) ?s)" by simp
  then have "map (\<lambda>f :: mi_flow. f ! 1) ?s ! (length ?s - Suc i) \<le> map (\<lambda>f :: mi_flow. f ! 1) ?s ! (length ?s - Suc ?p)"
    using i p by (intro sorted_nth_mono) auto
  then have "rev ?s ! i ! 1 \<le> rev ?s ! ?p ! 1" using i p by (simp add: rev_nth)
  then show "\<not> active_flow_comp (rev ?s ! ?p) (rev ?s ! i)" by (simp add: active_flow_comp_def)
qed

lemma traffic0_heap: "heap_ops traffic0"
  unfolding heap_ops_def
proof (intro conjI allI impI)
  fix l :: "mi_flow list" assume "l \<noteq> [] \<and> is_heap l"
  then show "mset (tr_pop_heap traffic0 l) = mset l"
    by (cases l) (simp_all add: traffic0_def)
qed (use sorted_is_heap in \<open>simp_all add: traffic0_def butlast_append\<close>)

lemma ended_flows_stay_witness:
  "expire_flows 2 traffic0 50 [[0, 100], [0, 1]] = Inr [[0, 100], [0, 1]]"
proof -
  have "is_heap [[0, 100], [0, 1]]" by (simp add: is_heap_def active_flow_comp_def less_2_cases_iff)
  then show ?thesis using ended_flows_stay [OF traffic0_heap, of "[[0, 100], [0, 1]]" 50]
    by (simp add: numeral_2_eq_2)
qed

lemma background_traffic_ends_witness:
  "\<forall>t. \<exists>n t'. loadAndScheduleInterMimicTraffic n env0 traffic0
     (Some [[0, 5, 1, 0, 2, 1, 0, 1, 3000], [2, 9, 1, 0, 3, 1, 0, 1, 100]]) True (t\<lparr>mi_now := 0\<rparr>) = Inr t'"
proof
  fix t :: mimic
  have "\<exists>m. b \<le> (of_nat m :: rat)" for b using reals_Archimedean2 less_imp_le by blast
  then have sum: "\<forall>b. \<exists>m. b \<le> (\<Sum>i < m. tr_samples traffic0 i)" by (simp add: traffic0_def)
  have nonneg: "\<forall>k. 0 \<le> tr_samples traffic0 k" by (simp add: traffic0_def)
  have time: "\<forall>x \<ge> 0. mi_now (t\<lparr>mi_now := 0\<rparr>) \<le> env_SimTime env0 x" by (simp add: env0_def)
  have lines: "\<forall>l \<in> set [[0, 5, 1, 0, 2, 1, 0, 1, 3000], [2, 9, 1, 0, 3, 1, 0, 1, 100 :: rat]]. 9 \<le> length l" by simp
  show "\<exists>n t'. loadAndScheduleInterMimicTraffic n env0 traffic0
     (Some [[0, 5, 1, 0, 2, 1, 0, 1, 3000], [2, 9, 1, 0, 3, 1, 0, 1, 100]]) True (t\<lparr>mi_now := 0\<rparr>) = Inr t'"
    using background_traffic_ends [OF traffic0_heap nonneg sum time lines, of True] lessI by blast
qed

end
