(* ===== verification/MimicProps.thy ===== *)
theory MimicProps
  imports MimicFlows
begin

text \<open>
  What happens to a packet in a \<open>MimicDCN\<close>: what the model is told of it, how long it can take,
  which uplink it takes and by which gate it leaves; and what goes wrong for Homa and for the
  replies to ARP requests.
\<close>

section \<open>The features of a packet\<close>

definition unit_vec :: "int \<Rightarrow> int \<Rightarrow> rat list" where
  "unit_vec n k = map (\<lambda>j. if int j = k then 1 else 0) [0..<nat n]"

definition features_in_range :: "mimic \<Rightarrow> int \<Rightarrow> int \<Rightarrow> int \<Rightarrow> int \<Rightarrow> bool" where
  "features_in_range t server a i tor \<longleftrightarrow> 0 \<le> server \<and> server < servers_per_tor t \<and> 0 \<le> a \<and> a < mi_num_aggs t \<and>
     0 \<le> i \<and> i < num_agg_intfs t \<and> 0 \<le> tor \<and> tor < mi_num_tors t"

lemma ptrs_in_range:
  assumes m: "meta_ok env t m" and r: "features_in_range t server a i tor" and k: "k \<in> set (onehot server a i tor m)"
  shows "0 \<le> k \<and> k < FT_INDEX_LAST m"
  using k r m by (auto simp: onehot_def features_in_range_def meta_ok_def)

lemma map_upt_add: "map f [0..<m + n] = map f [0..<m] @ map (\<lambda>j. f (m + j)) [0..<n]"
  by (induction n) auto

lemma onehot_vector:
  assumes m: "meta_ok env t m" and r: "features_in_range t server a i tor"
    and x: "\<forall>j < nat (FT_INDEX_LAST m). x ! j = (if j \<in> nat ` set (onehot server a i tor m) then 1 else 0)"
    and len: "nat (FT_INDEX_LAST m) \<le> length x"
  shows "take (nat (FT_INDEX_LAST m)) x =
    unit_vec 4 (conges_state m) @ unit_vec (servers_per_tor t) server @ unit_vec (mi_num_aggs t) a @
    unit_vec (num_agg_intfs t) i @ unit_vec (mi_num_tors t) tor"
proof -
  obtain S A I T where n: "servers_per_tor t = int S" "mi_num_aggs t = int A" "num_agg_intfs t = int I" "mi_num_tors t = int T"
    using r by (auto simp: features_in_range_def intro!: that [of "nat (servers_per_tor t)" "nat (mi_num_aggs t)" "nat (num_agg_intfs t)" "nat (mi_num_tors t)"])
  obtain c s' a' i' t' where k: "conges_state m = int c" "server = int s'" "a = int a'" "i = int i'" "tor = int t'"
    using r m by (auto simp: features_in_range_def meta_ok_def intro!: that [of "nat (conges_state m)" "nat server" "nat a" "nat i" "nat tor"])
  have lt: "c < 4" "s' < S" "a' < A" "i' < I" "t' < T"
    using r m by (simp_all add: features_in_range_def meta_ok_def n k)
  have L: "nat (FT_INDEX_LAST m) = 4 + S + A + I + T" using m by (simp add: meta_ok_def n nat_add_distrib)
  have ptrs: "nat ` set (onehot server a i tor m) = {c, 4 + s', 4 + S + a', 4 + S + A + i', 4 + S + A + I + t'}"
    using m by (simp add: onehot_def meta_ok_def n k nat_add_distrib)
  have "take (4 + S + A + I + T) x =
      map (\<lambda>j. if j \<in> {c, 4 + s', 4 + S + a', 4 + S + A + i', 4 + S + A + I + t'} then 1 else 0) [0..<4 + S + A + I + T]"
    by (rule nth_equalityI) (use x len in \<open>simp_all add: L ptrs del: upt_Suc\<close>)
  also have "\<dots> = map (\<lambda>j. if j = c then 1 else (0 :: rat)) [0..<4] @ map (\<lambda>j. if j = s' then 1 else 0) [0..<S] @
      map (\<lambda>j. if j = a' then 1 else 0) [0..<A] @ map (\<lambda>j. if j = i' then 1 else 0) [0..<I] @
      map (\<lambda>j. if j = t' then 1 else 0) [0..<T]"
    (is "_ = ?b0 @ ?b1 @ ?b2 @ ?b3 @ ?b4")
    unfolding map_upt_add append_assoc using lt by (intro arg_cong2 [of _ _ _ _ "(@)"] map_cong HOL.refl) auto
  finally show ?thesis by (simp add: unit_vec_def L n k del: upt_Suc)
qed

lemma predict_cuda_total:
  assumes m: "meta_ok env t m" and cuda: "env_cuda env" and sizes: "mimic_sizes t" and v: "mi_variant t \<noteq> Homa"
    and r: "features_in_range t (if inc then ds else ss) a i (if inc then dt else st)"
  shows "\<exists>lat pkt' m'. predict_cuda env pkt ds dt ss st a i m inc t = Inr (lat, pkt', m')"
proof -
  let ?L = "FT_INDEX_LAST m"
  let ?ptrs = "if inc then onehot ds a i dt m else onehot ss a i st m"
  have len: "length (ml_input m) = nat ?L + variant_last (mi_variant t)" and var: "ml_variant m = mi_variant t"
    using m cuda by (simp_all add: meta_ok_def)
  have L0: "0 \<le> ?L" using m sizes by (simp add: meta_ok_def mimic_sizes_def)
  have p: "\<forall>k \<in> set ?ptrs. 0 \<le> k \<and> k < ?L" using ptrs_in_range [OF m r] by (simp split: if_splits)
  have in_range: "entries_in (map (\<lambda>i. (i, w)) ?ptrs) xs" if "length xs = length (ml_input m)" for w xs
  proof -
    have "0 \<le> k \<and> k < int (length xs)" if "k \<in> set ?ptrs" for k
      using bspec [OF p that] L0 \<open>length xs = length (ml_input m)\<close> by (simp add: len)
    then show ?thesis by (auto simp: entries_in_def)
  qed
  define m1 where "m1 = m\<lparr>ml_input := set_entries (map (\<lambda>i. (i, 1)) ?ptrs) (ml_input m)\<rparr>"
  have s1: "put_inputs (map (\<lambda>i. (i, 1)) ?ptrs) m = Inr m1" using in_range by (simp add: put_inputs_eq m1_def)
  obtain ivs where ivs: "last_features env (in_seconds (mi_now t) - lastpacket m1) pkt m1 = Inr ivs"
    using v var by (cases "mi_variant t") (auto simp: last_features_def Let_def m1_def)
  have ent: "entries_in ivs (ml_input m1)"
    using last_features_shape(1) [OF ivs] v var L0 unfolding entries_in_def
    by (cases "mi_variant t") (fastforce simp: m1_def len variant_last_def)+
  define gap where "gap = in_seconds (mi_now t) - lastpacket m1"
  define m2 where "m2 = m1\<lparr>lastpacket := in_seconds (mi_now t), ewma := next_ewma gap m1,
    ml_input := set_entries ivs (ml_input m1)\<rparr>"
  have s2: "setLastFeatures env (in_seconds (mi_now t)) pkt m1 = Inr m2"
    unfolding setLastFeatures_eq ivs rbind_Inr if_P [OF ent] m2_def gap_def by (rule HOL.refl)
  have f2: "ml_variant m2 = mi_variant t" "length (ml_input m2) = length (ml_input m)"
    by (simp_all add: m2_def m1_def var)
  obtain d w ecn where "mm_getValue (ml_model m2) (ml_fed m2 @ [ml_input m2]) = (d, w, ecn)"
    by (cases "mm_getValue (ml_model m2) (ml_fed m2 @ [ml_input m2])")
  then show ?thesis
    unfolding predict_cuda_def Let_def s1 rbind_Inr s2 f2
    using in_range f2 by (simp add: put_inputs_eq split: if_split)
qed


section \<open>Uplinks and gates\<close>

lemma to_short_id: "- 32768 \<le> x \<Longrightarrow> x < 32768 \<Longrightarrow> to_short x = x"
  using signed_take_bit_int_eq_self [of 15 x] by (simp add: to_short_def signed_of_int)

lemma getDByte_range: "0 \<le> getDByte a k \<and> getDByte a k < 256"
proof -
  have "uint (drop_bit ((3 - k) * 8) a AND 0xFF) \<le> uint (0xFF :: u32)" by (simp add: uint_and AND_upper2)
  then show ?thesis by (simp add: getDByte_def)
qed

lemma ecmp_pick:
  assumes "0 < n" "n \<le> 2 ^ 30"
  shows "ecmp bin n seed = Inr (sint (positiveMod (murmur3_32 bin (word_of_int seed)) (word_of_int n)))"
    and "ecmp bin n seed = Inr k \<Longrightarrow> 0 \<le> k \<and> k < n"
proof -
  have n: "sint (word_of_int n :: u32) = n" using assms by (simp add: signed32)
  then have "(word_of_int n :: u32) \<noteq> 0" using assms(1) by auto
  then show e: "ecmp bin n seed = Inr (sint (positiveMod (murmur3_32 bin (word_of_int seed)) (word_of_int n)))"
    by (simp add: ecmp_def)
  show "0 \<le> k \<and> k < n" if "ecmp bin n seed = Inr k"
    using that positive_mod_range [of "word_of_int n"] assms unfolding e n by auto
qed

lemma ecmp_range:
  assumes "ecmp_helper n seed fl = Inr k" "0 \<le> n" "n \<le> 2 ^ 30"
  shows "0 \<le> k \<and> k < n"
proof -
  have "n \<noteq> 0" using assms(1) by (auto simp: ecmp_helper_def ecmp_def)
  with assms ecmp_pick(2) [of n] show ?thesis by (auto simp: ecmp_helper_def)
qed

lemma gate_decodes:
  assumes "0 \<le> a" "0 \<le> i" "i < (n :: int)"
  shows "(n * a + i) sdiv n = a" "(n * a + i) smod n = i"
proof -
  have "0 < n * a + i \<or> a = 0 \<and> i = 0"
    using assms by (cases "a = 0") (auto intro!: add_pos_nonneg mult_pos_pos)
  then show "(n * a + i) sdiv n = a" "(n * a + i) smod n = i"
    using assms by (auto simp: signed_divide_int_def signed_modulo_int_def)
qed

lemma egress_bin: "egress_flow d = Inr f \<Longrightarrow> convertToFlowBin f = flow_bin f"
  by (auto simp: egress_flow_def split: if_splits option.splits prod.splits transport_pkt.splits)

lemma egress_flow_eq:
  assumes "egress_flow d = Inr f"
  shows "datagram_flow d = Inr f \<or> (\<exists>h :: homa_pkt. datagram_flow d = Inr (ByMsgId (dg_src d) (dg_dest d) (pkt_msgId h)) \<and>
    dg_proto d = IP_PROT_UDP)"
  using assms by (auto simp: egress_flow_def datagram_flow_def
      split: if_splits option.splits prod.splits transport_pkt.splits)

lemma mi_send_at:
  "0 \<le> i \<Longrightarrow> i < (if b then num_intgates u else num_extgates u) \<Longrightarrow>
    mi_send env b i f u = Inr (u\<lparr>mi_outs := mi_outs u @ [(b, i, max (mi_now u) (env_busy env b i (mi_now u)), f)]\<rparr>)"
  by (auto simp: mi_send_def Let_def max_def)

lemma route_internal:
  assumes "ef_kind f = g" "0 \<le> g" "g < num_intgates u" "num_intgates u < 32766"
  shows "mi_handleMessage env (MiSelf (SelfFrame f)) u =
    Inr (u\<lparr>mi_outs := mi_outs u @ [(True, g, max (mi_now u) (env_busy env True g (mi_now u)), f)]\<rparr>)"
  using assms mi_send_at [of g True u env f] by (simp add: routeMsg_def to_short_id)

lemma route_external:
  assumes "ef_kind f = num_intgates u + g" "0 \<le> g" "g < num_extgates u" "0 \<le> num_intgates u"
    "num_intgates u + num_extgates u < 32766"
  shows "mi_handleMessage env (MiSelf (SelfFrame f)) u =
    Inr (u\<lparr>mi_outs := mi_outs u @ [(False, g, max (mi_now u) (env_busy env False g (mi_now u)), f)]\<rparr>)"
  using assms mi_send_at [of g False u env f] by (simp add: routeMsg_def to_short_id)

lemma predicted_range:
  assumes "predict_packet_helper env d a i m inc t = Inr (lat, pkt, m')" "mimic_ok env t" "meta_ok env t m" "\<not> lat < 0"
  shows "min_latency t \<le> lat \<and> lat \<le> max_latency t"
  using predict_ok(2) [OF assms(1) [unfolded predict_packet_helper_def] assms(3)] assms(2,4)
  by (auto simp: mimic_ok_def)

section \<open>Properties\<close>



text \<open>
  C34: For a packet that leaves the cluster the mimic computes the uplink that the ECMP lookup of the
  top of rack switch would pick from as many next hops with the same seed, unless it carries a Homa
  packet: the switches hash the id of its message, the mimic its ports.
\<close>

theorem mimic_egress_is_switch_ecmp:
  assumes "egress_flow d = Inr f" and "0 < mi_num_aggs t" and "mi_num_aggs t \<le> 2 ^ 30"
    and "int (length (unique_by (gateway_of ft) (srt (gateway_of ft) best))) = mi_num_aggs t"
  shows "\<exists>a. ecmp_helper (mi_num_aggs t) seed f = Inr a \<and> 0 \<le> a \<and> a < mi_num_aggs t \<and>
    pick_route srt (word_of_int seed) (flow_bin f) ft best =
      Inr (unique_by (gateway_of ft) (srt (gateway_of ft) best) ! nat a) \<and>
    (datagram_flow d = Inr f \<or> dg_proto d = IP_PROT_UDP \<and>
       (\<exists>h :: homa_pkt. datagram_flow d = Inr (ByMsgId (dg_src d) (dg_dest d) (pkt_msgId h))))"
proof -
  let ?u = "unique_by (gateway_of ft) (srt (gateway_of ft) best)"
  let ?w = "positiveMod (murmur3_32 (flow_bin f) (word_of_int seed)) (word_of_int (mi_num_aggs t))"
  have e: "ecmp_helper (mi_num_aggs t) seed f = Inr (sint ?w)"
    unfolding ecmp_helper_def egress_bin [OF assms(1)] by (rule ecmp_pick(1) [OF assms(2,3)])
  then have b: "0 \<le> sint ?w" "sint ?w < mi_num_aggs t"
    using ecmp_pick(2) [OF assms(2,3)] unfolding ecmp_helper_def by blast+
  have len: "(of_nat (length ?u) :: u32) = word_of_int (mi_num_aggs t)"
    unfolding assms(4) [symmetric] by simp
  have w: "unat ?w = nat (sint ?w)" using sint_nonneg_unat [OF b(1)] .
  then have "unat ?w < length ?u" using b assms(4) by linarith
  then have "pick_route srt (word_of_int seed) (flow_bin f) ft best = Inr (?u ! nat (sint ?w))"
    unfolding pick_route_def Let_def len w by simp
  with e b egress_flow_eq [OF assms(1)] show ?thesis by blast
qed



section \<open>A small cluster\<close>

definition params0 :: "string \<Rightarrow> mimic_params" where
  "params0 v = \<lparr>par_variant = v, par_max_queue_len = 90, par_packet_size = 1500, par_link_speed = 100000000,
     par_min_link_latency = 1 / 2000, par_servers_per_tor = 4, par_num_aggs = 2, par_num_agg_intfs = 2,
     par_num_tors = 2, par_torEcmpSeeds = ''11 -7'', par_aggEcmpSeeds = ''5 23'', par_intports = 8, par_extports = 4,
     par_intermimic_lines = Some 2, par_ing_traffic = Some [], par_egr_traffic = Some [],
     par_ing_model = model0, par_egr_model = model0\<rparr>"

definition cluster0 :: "string \<Rightarrow> mimic" where
  "cluster0 v = projr (mi_initialize 0 env0 traffic0 traffic0 (params0 v) 0)"

definition datagram0 :: datagram where
  "datagram0 = \<lparr>dg_src = 0x0A01000C, dg_dest = 0x0A020104, dg_proto = IP_PROT_TCP, dg_ttl = 32, dg_ident = 1,
     dg_more = False, dg_dont = False, dg_offset = 0, dg_tos = 0, dg_headerLen = 20, dg_byteLen = 1500,
     dg_bitError = False, dg_payload = Some (TCPSegment 1000 80 1480, 1480), dg_arrival = None, dg_loop = None\<rparr>"

definition frame0 :: ether_frame where
  "frame0 = \<lparr>ef_src = 1, ef_dest = 2, ef_kind = 0, ef_content = FrameIPv4 datagram0\<rparr>"

lemma cluster0_start:
  "mi_initialize 0 env0 traffic0 traffic0 (params0 ''TCP'') 0 = Inr (cluster0 ''TCP'')"
  "mi_initialize 0 env0 traffic0 traffic0 (params0 ''Homa'') 0 = Inr (cluster0 ''Homa'')"
proof -
  have "is_ok (mi_initialize 0 env0 traffic0 traffic0 (params0 ''TCP'') 0)"
    "is_ok (mi_initialize 0 env0 traffic0 traffic0 (params0 ''Homa'') 0)" by code_simp+
  then show "mi_initialize 0 env0 traffic0 traffic0 (params0 ''TCP'') 0 = Inr (cluster0 ''TCP'')"
    "mi_initialize 0 env0 traffic0 traffic0 (params0 ''Homa'') 0 = Inr (cluster0 ''Homa'')"
    by (auto simp: is_ok_iff cluster0_def)
qed

lemma params0_ok: "params_ok (params0 v)"
  by (simp add: params_ok_def params0_def)



lemma mimic_egress_is_switch_ecmp_witness:
  "\<exists>a. ecmp_helper 1 11 (ByPorts 0x0A01000C 1000 0x0A020104 80) = Inr a \<and> 0 \<le> a \<and> a < 1 \<and>
     pick_route (\<lambda>_ xs. xs) 11 (flow_bin (ByPorts 0x0A01000C 1000 0x0A020104 80)) (new_table [] True) [0] = Inr 0"
proof -
  let ?f = "ByPorts 0x0A01000C 1000 0x0A020104 80" and ?t = "(cluster0 ''TCP'')\<lparr>mi_num_aggs := 1\<rparr>"
  have "egress_flow datagram0 = Inr ?f" by (simp add: egress_flow_def datagram0_def)
  moreover have u: "unique_by (gateway_of (new_table [] True)) [0] = [0]" by simp
  ultimately have "\<exists>a. ecmp_helper (mi_num_aggs ?t) 11 ?f = Inr a \<and> 0 \<le> a \<and> a < mi_num_aggs ?t \<and>
      pick_route (\<lambda>_ xs. xs) (word_of_int 11) (flow_bin ?f) (new_table [] True) [0] =
        Inr (unique_by (gateway_of (new_table [] True)) [0] ! nat a)"
    using mimic_egress_is_switch_ecmp [of datagram0 ?f ?t "new_table [] True" "\<lambda>_ xs. xs" "[0]" 11] by auto
  then obtain a where a: "ecmp_helper 1 11 ?f = Inr a" "0 \<le> a" "a < 1"
    "pick_route (\<lambda>_ xs. xs) 11 (flow_bin ?f) (new_table [] True) [0] = Inr ([0 :: nat] ! nat a)" by auto
  then have "a = 0" by simp
  with a show ?thesis by (intro exI [of _ a]) simp
qed


text \<open>
  With getters that return references the reply to an ARP request is addressed to its own sender
  address, and both hardware addresses are broadcast.
\<close>

lemma arp_reply_loses_sender:
  assumes "handleARPReq env arp frame internal i t = Inr t'" "env_getterRefs env"
  shows "\<exists>time f r. mi_outs t' = mi_outs t @ [(internal, i, time, f)] \<and> ef_content f = FrameARP r \<and>
    arp_srcIP r = arp_destIP arp \<and> arp_destIP r = arp_destIP arp \<and> arp_destMAC r = BROADCAST_MAC"
  using assms by (auto simp: handleARPReq_def mi_send_def Let_def split: if_splits)

end
